(* ===== verification/Prelude.thy ===== *)
theory Prelude
  imports Main "HOL-Library.Word"
begin

text \<open>
  Shared vocabulary of the development: the machine integer types of the Rust sources, the
  fact collections the component theories extend, and generic lemmas on words, lists and
  options that more than one component needs.
\<close>

unbundle bit_operations_syntax

section \<open>Machine integers\<close>

type_synonym u8 = "8 word"
type_synonym u16 = "16 word"
type_synonym u32 = "32 word"
type_synonym u64 = "64 word"

section \<open>Fact collections\<close>

named_theorems frame_simps \<open>which fields an operation leaves alone\<close>
named_theorems inv_intros \<open>operations that keep a component's invariant\<close>
named_theorems length_simps \<open>lengths of buffers after an operation\<close>

section \<open>Panics\<close>

text \<open>The outcome of code that may panic: an index out of range, an \<open>assert\<close>, an \<open>unwrap\<close>.\<close>

datatype 'a run = Panic | Done 'a

section \<open>Words\<close>

lemma xor_self_cancel [simp]:
  fixes a b :: "'a::len word"
  shows "(a XOR b) XOR b = a" "b XOR (b XOR a) = a"
  by (rule bit_word_eqI, auto simp: bit_simps)+

lemma word_xor_eq_0_iff [simp]: "(a XOR b = 0) = (a = b)" for a b :: "'a::len word"
proof
  assume "a XOR b = 0"
  then have "(a XOR b) XOR b = 0 XOR b" by (rule arg_cong)
  then show "a = b" by simp
qed simp

lemma word_xor_eq_left_iff [simp]: "(a XOR b = a) = (b = 0)" for a b :: "'a::len word"
  by (metis xor.right_neutral xor_self_cancel(2) xor.commute)

lemma word_eq_xor_left_iff [simp]: "(a = a XOR b) = (b = 0)" for a b :: "'a::len word"
  using word_xor_eq_left_iff [of a b] by (simp only: eq_commute [of a])

lemma ucast_xor: "ucast (a XOR b) = (ucast a XOR ucast b :: 'b::len word)" for a b :: "'a::len word"
  by (rule bit_word_eqI) (simp add: bit_simps)

lemma unat_u8_less [simp]: "unat (b :: u8) < 256"
  using unsigned_less [of b] by simp

lemma sint_small: "unat w < 2 ^ 31 \<Longrightarrow> sint w = int (unat w)" for w :: u32
proof -
  assume "unat w < 2 ^ 31"
  then have "int (unat w) < 2 ^ 31" by (simp only: flip: of_nat_less_iff [where ?'a = int]) simp
  then have u: "uint w < 2 ^ 31" by (simp only: uint_nat)
  have l: "- (2 ^ 31) \<le> uint w" using uint_ge_0 [of w] by (rule order_trans [rotated]) simp
  have "sint w = signed_take_bit 31 (uint w)" using sint_uint [of w] by simp
  also have "\<dots> = uint w" by (rule signed_take_bit_int_eq_self [OF l u])
  finally show "sint w = int (unat w)" by (simp only: uint_nat)
qed

lemma unat_ucast_up: "LENGTH('a) \<le> LENGTH('b) \<Longrightarrow> unat (ucast w :: 'b::len word) = unat w"
  for w :: "'a::len word"
  by (simp add: unsigned_ucast_eq take_bit_nat_eq_self less_le_trans [OF unsigned_less])

lemma bits_bound:
  fixes n :: "'a::len word"
  assumes "\<And>i. bit n i \<Longrightarrow> i < k"
  shows "unat n < 2 ^ k"
proof -
  have "take_bit k n = n"
    by (rule bit_word_eqI) (auto simp: bit_take_bit_iff dest: assms)
  moreover have "unat (take_bit k n) < 2 ^ k" by (simp add: unsigned_take_bit_eq)
  ultimately show ?thesis by simp
qed

section \<open>Lists\<close>

lemma map2_map_same: "map2 f (map g xs) (map h xs) = map (\<lambda>x. f (g x) (h x)) xs"
  by (induction xs) simp_all

text \<open>\<open>chunks_exact(n)\<close>, and \<open>count_ones\<close>.\<close>

fun chunks_exact :: "nat \<Rightarrow> 'a list \<Rightarrow> 'a list list" where
  "chunks_exact n xs =
     (if n = 0 \<or> length xs < n then [] else take n xs # chunks_exact n (drop n xs))"

declare chunks_exact.simps [simp del]

lemma chunks_exact_Nil [simp]: "0 < n \<Longrightarrow> chunks_exact n [] = []"
  by (subst chunks_exact.simps) simp

lemma chunks_exact_append: "0 < n \<Longrightarrow> length xs = n \<Longrightarrow> chunks_exact n (xs @ ys) = xs # chunks_exact n ys"
  by (subst chunks_exact.simps) simp

lemma length_chunks_exact: "0 < n \<Longrightarrow> length (chunks_exact n xs) = length xs div n"
proof (induction n xs rule: chunks_exact.induct)
  case (1 n xs)
  show ?case
  proof (cases "length xs < n")
    case True
    then show ?thesis by (subst chunks_exact.simps) simp
  next
    case False
    then show ?thesis using 1 by (subst chunks_exact.simps) (simp add: le_div_geq)
  qed
qed

definition count_ones :: "'a::len word \<Rightarrow> nat" where
  "count_ones w = length (filter (bit w) [0..<LENGTH('a)])"

text \<open>Bits from the most significant down, one \<open>u8\<close> per bit, as the demodulators keep them.\<close>

definition pack_bits :: "u8 list \<Rightarrow> 'a::len word" where
  "pack_bits bits = foldl (\<lambda>v b. push_bit 1 v OR ucast (b AND 1)) 0 bits"

lemma bit_pack_bits:
  "bit (pack_bits bits :: 'a::len word) i =
     (i < LENGTH('a) \<and> i < length bits \<and> bit (bits ! (length bits - 1 - i)) 0)"
proof (induction bits arbitrary: i rule: rev_induct)
  case (snoc b bits)
  have "pack_bits (bits @ [b]) = (push_bit 1 (pack_bits bits) OR ucast (b AND 1) :: 'a word)"
    by (simp add: pack_bits_def)
  then show ?case
    by (cases i) (auto simp: bit_or_iff bit_push_bit_iff bit_unsigned_iff bit_and_iff bit_1_iff snoc.IH
        nth_append Suc_diff_Suc simp del: push_bit_Suc dest: bit_imp_le_length)
qed (simp add: pack_bits_def)

definition bits_to_bytes :: "u8 list \<Rightarrow> u8 list" where
  "bits_to_bytes bits = map pack_bits (chunks_exact 8 bits)"

section \<open>Saturating counters\<close>

text \<open>\<open>saturating_add\<close> on \<open>u64\<close>; counters are naturals below \<open>2 ^ 64\<close>.\<close>

definition sat_add :: "nat \<Rightarrow> nat \<Rightarrow> nat" where
  "sat_add a b = min (a + b) (2 ^ 64 - 1)"

lemma sat_add_exact: "a + b < 2 ^ 64 \<Longrightarrow> sat_add a b = a + b"
  by (simp add: sat_add_def)

lemma sat_add_bound [simp]: "sat_add a b < 2 ^ 64" "sat_add a b < 18446744073709551616"
  by (simp_all add: sat_add_def)

lemma sat_add_pos [simp]: "0 < b \<Longrightarrow> 0 < sat_add a b"
  by (simp add: sat_add_def)

section \<open>Removal by position\<close>

text \<open>\<open>VecDeque::remove(index)\<close>; out of range it removes nothing.\<close>

definition remove_nth :: "nat \<Rightarrow> 'a list \<Rightarrow> 'a list" where
  "remove_nth i xs = take i xs @ drop (Suc i) xs"

lemma length_remove_nth_le: "length (remove_nth i xs) \<le> length xs"
  by (simp add: remove_nth_def)

lemma length_remove_nth [simp]: "i < length xs \<Longrightarrow> length (remove_nth i xs) = length xs - 1"
  by (simp add: remove_nth_def)

lemma sum_remove_nth:
  "i < length xs \<Longrightarrow> sum_list (map f (remove_nth i xs)) + f (xs ! i) = sum_list (map f xs)" for f :: "'a \<Rightarrow> nat"
proof (induction xs arbitrary: i)
  case (Cons x xs)
  then show ?case by (cases i) (force simp: remove_nth_def)+
qed simp

lemma set_remove_nth: "set (remove_nth i xs) \<subseteq> set xs"
  by (auto simp: remove_nth_def dest: in_set_takeD in_set_dropD)

lemma filter_remove_nth:
  "i < length xs \<Longrightarrow> \<not> P (xs ! i) \<Longrightarrow> filter P (remove_nth i xs) = filter P xs"
  by (induction xs arbitrary: i) (auto simp: remove_nth_def nth_Cons split: nat.splits)

lemma hd_remove_nth: "0 < i \<Longrightarrow> xs \<noteq> [] \<Longrightarrow> remove_nth i xs \<noteq> [] \<and> hd (remove_nth i xs) = hd xs"
  by (cases xs; cases i) (auto simp: remove_nth_def)

lemma find_from_Some:
  "find P [p..<n] = Some k \<longleftrightarrow> p \<le> k \<and> k < n \<and> P k \<and> (\<forall>j. p \<le> j \<longrightarrow> j < k \<longrightarrow> \<not> P j)"
proof (cases "p \<le> k")
  case True
  then obtain i where k: "k = p + i" using le_Suc_ex by blast
  have "find P [p..<n] = Some k \<longleftrightarrow> k < n \<and> P k \<and> (\<forall>j < i. \<not> P (p + j))"
    by (auto simp: find_Some_iff k intro!: exI [of _ i])
  moreover have "(\<forall>j < i. \<not> P (p + j)) \<longleftrightarrow> (\<forall>j. p \<le> j \<longrightarrow> j < k \<longrightarrow> \<not> P j)"
    by (metis k le_add1 le_add_diff_inverse nat_add_left_cancel_less)
  ultimately show ?thesis using True by simp
qed (auto simp: find_Some_iff)

lemma find_from_None: "find P [p..<n] = None \<longleftrightarrow> (\<forall>k. p \<le> k \<longrightarrow> k < n \<longrightarrow> \<not> P k)"
  by (auto simp: find_None_iff)

lemma find_upt_Some: "find P [0..<n] = Some k \<longleftrightarrow> k < n \<and> P k \<and> (\<forall>j < k. \<not> P j)"
  by (auto simp: find_Some_iff)

lemma find_upt_None: "find P [0..<n] = None \<longleftrightarrow> (\<forall>k < n. \<not> P k)"
  by (auto simp: find_None_iff)

section \<open>Systems and their invariants\<close>

text \<open>A component that other threads drive by calls is a set of initial states and a step relation.\<close>

inductive reach :: "('s \<Rightarrow> bool) \<Rightarrow> ('s \<Rightarrow> 's \<Rightarrow> bool) \<Rightarrow> 's \<Rightarrow> bool" for init step where
  start: "init s \<Longrightarrow> reach init step s"
| extend: "reach init step s \<Longrightarrow> step s s' \<Longrightarrow> reach init step s'"

locale guarded_system =
  fixes init :: "'s \<Rightarrow> bool" and step :: "'s \<Rightarrow> 's \<Rightarrow> bool" and inv :: "'s \<Rightarrow> bool"
  assumes init_inv: "init s \<Longrightarrow> inv s"
    and step_inv: "inv s \<Longrightarrow> step s s' \<Longrightarrow> inv s'"
begin

lemma reach_inv: "reach init step s \<Longrightarrow> inv s"
  by (induction rule: reach.induct) (auto intro: init_inv step_inv)

end

section \<open>Streams in chunks\<close>

text \<open>A streaming component consumes its input in calls of any size; \<open>feed\<close> is a series of calls and
  collects what they return.\<close>

fun feed :: "('s \<Rightarrow> 'i list \<Rightarrow> 's \<times> 'o list) \<Rightarrow> 's \<Rightarrow> 'i list list \<Rightarrow> 's \<times> 'o list" where
  "feed push s [] = (s, [])"
| "feed push s (chunk # chunks) =
     (let (s1, out1) = push s chunk; (s2, out2) = feed push s1 chunks in (s2, out1 @ out2))"

text \<open>The contract: between calls the component is in a settled state, in which an empty call does
  nothing and a call on joined inputs is the two calls in turn.\<close>

locale chunked =
  fixes push :: "'s \<Rightarrow> 'i list \<Rightarrow> 's \<times> 'o list" and settled :: "'s \<Rightarrow> bool"
  assumes push_settled: "settled s \<Longrightarrow> settled (fst (push s xs))"
    and push_empty: "settled s \<Longrightarrow> push s [] = (s, [])"
    and push_join: "settled s \<Longrightarrow> push s (xs @ ys) =
      (fst (push (fst (push s xs)) ys), snd (push s xs) @ snd (push (fst (push s xs)) ys))"
begin

lemma feed_concat: "settled s \<Longrightarrow> feed push s chunks = push s (concat chunks)"
proof (induction chunks arbitrary: s)
  case (Cons chunk chunks)
  then show ?case using push_settled [of s chunk] by (simp add: push_join split_beta)
qed (simp add: push_empty)

lemma feed_partition:
  "settled s \<Longrightarrow> concat chunks = concat chunks' \<Longrightarrow> feed push s chunks = feed push s chunks'"
  by (simp add: feed_concat)

lemma feed_settled: "settled s \<Longrightarrow> settled (fst (feed push s chunks))"
  by (simp add: feed_concat push_settled)

end

end
