(* ===== verification/Crc24.thy ===== *)
theory Crc24
  imports Prelude
begin

text \<open>
  The Mode S parity of \<^verbatim>\<open>dump1090/src/crc.rs\<close>: the table generated at compile time, the
  table driven remainder \<open>crc24\<close>, the syndrome \<open>crc24_parity\<close> over a whole message and the
  test \<open>check_crc\<close>. The reference is a shift register of exactly 24 bits (\<open>crc24_ref\<close>); the
  lemmas show that the table driven code computes it, that the register is linear and
  injective, and what follows for messages: the parity appended to a payload is accepted, and
  no error confined to three neighbouring bytes is.
\<close>

section \<open>The code\<close>

definition MODES_GENERATOR_POLY :: u32 where
  "MODES_GENERATOR_POLY = 0xFFF409"

text \<open>One turn of the inner loop of the table generator.\<close>

definition crc_turn :: "u32 \<Rightarrow> u32" where
  "crc_turn c = (if c AND 0x800000 \<noteq> 0 then push_bit 1 c XOR MODES_GENERATOR_POLY else push_bit 1 c)"

definition crc_entry :: "nat \<Rightarrow> u32" where
  "crc_entry i = (crc_turn ^^ 8) (push_bit 16 (of_nat i)) AND 0x00FFFFFF"

definition CRC24_TABLE :: "u32 list" where
  "CRC24_TABLE = map crc_entry [0..<256]"

text \<open>The loop of \<open>crc24\<close> over the bytes, with the remainder as accumulator.\<close>

fun crc24_loop :: "u32 \<Rightarrow> u8 list \<Rightarrow> u32" where
  "crc24_loop rem [] = rem"
| "crc24_loop rem (byte # data) =
     (let idx = unat (byte XOR ucast (drop_bit 16 (rem AND 0xFF0000)))
      in crc24_loop ((push_bit 8 rem XOR CRC24_TABLE ! idx) AND 0x00FFFFFF) data)"

definition crc24 :: "u8 list \<Rightarrow> u32" where
  "crc24 data = crc24_loop 0 data"

text \<open>\<open>crc24_parity\<close> asserts a length of at least three: \<open>None\<close> is the panic.\<close>

definition crc24_parity :: "u8 list \<Rightarrow> u32 option" where
  "crc24_parity msg =
     (let n = length msg in
      if n < 3 then None
      else
        let rem = crc24 (take (n - 3) msg);
            rem = rem XOR push_bit 16 (ucast (msg ! (n - 3)));
            rem = rem XOR push_bit 8 (ucast (msg ! (n - 2)));
            rem = rem XOR ucast (msg ! (n - 1))
        in Some (rem AND 0x00FFFFFF))"

definition check_crc :: "u8 list \<Rightarrow> bool option" where
  "check_crc msg = map_option (\<lambda>s. s = 0) (crc24_parity msg)"

section \<open>The reference: a 24-bit shift register\<close>

type_synonym u24 = "24 word"

definition lfsr :: "u24 \<Rightarrow> u24" where
  "lfsr c = push_bit 1 c XOR (if bit c 23 then 0xFFF409 else 0)"

definition lfsr_byte :: "u24 \<Rightarrow> u8 \<Rightarrow> u24" where
  "lfsr_byte c b = (lfsr ^^ 8) (c XOR push_bit 16 (ucast b))"

definition crc24_ref :: "u8 list \<Rightarrow> u24" where
  "crc24_ref data = foldl lfsr_byte 0 data"

lemma lfsr_xor: "lfsr (a XOR b) = lfsr a XOR lfsr b"
  by (rule bit_word_eqI) (auto simp: lfsr_def bit_simps)

lemma lfsr_0 [simp]: "lfsr 0 = 0"
  by (simp add: lfsr_def)

lemma lfsr_pow_xor: "(lfsr ^^ n) (a XOR b) = (lfsr ^^ n) a XOR (lfsr ^^ n) b"
  by (induction n) (simp_all add: lfsr_xor)

lemma lfsr_pow_0 [simp]: "(lfsr ^^ n) 0 = 0"
  by (induction n) simp_all

text \<open>The generator has a constant term, so the register loses no information.\<close>

lemma bit_lfsr_0: "bit (lfsr c) 0 = bit c 23"
  by (auto simp: lfsr_def bit_simps simp del: push_bit_Suc)

lemma bit_lfsr_Suc: "\<not> bit c 23 \<Longrightarrow> i < 23 \<Longrightarrow> bit (lfsr c) (Suc i) = bit c i"
  by (auto simp: lfsr_def bit_simps simp del: push_bit_Suc)

lemma lfsr_eq_0:
  assumes z: "lfsr c = 0"
  shows "c = 0"
proof (rule bit_word_eqI)
  fix i assume "i < LENGTH(24)"
  then have i: "i < 23 \<or> i = 23" by auto
  have top: "\<not> bit c 23" using bit_lfsr_0 [of c] z by simp
  with i bit_lfsr_Suc [OF top, of i] z show "bit c i = bit (0 :: u24) i" by auto
qed

lemma lfsr_pow_eq_0: "(lfsr ^^ n) c = 0 \<Longrightarrow> c = 0"
  by (induction n) (auto dest: lfsr_eq_0)

section \<open>The table driven code computes the reference\<close>

lemma crc_turn_ucast: "ucast (crc_turn c) = lfsr (ucast c)"
proof -
  have "(c AND 0x800000 \<noteq> 0) = bit c 23"
    using and_exp_eq_0_iff_not_bit [of c 23] by simp
  then show ?thesis
    by (intro bit_word_eqI)
      (auto simp: crc_turn_def lfsr_def MODES_GENERATOR_POLY_def bit_simps simp del: push_bit_Suc)
qed

lemma crc_turns_ucast: "ucast ((crc_turn ^^ n) c) = (lfsr ^^ n) (ucast c)"
  by (induction n) (simp_all add: crc_turn_ucast)

text \<open>Both sides of an equation between 32-bit words whose top byte is clear.\<close>

lemma u32_low24_eqI:
  fixes a b :: u32
  assumes "a AND 0x00FFFFFF = a" "b AND 0x00FFFFFF = b" "(ucast a :: u24) = ucast b"
  shows "a = b"
proof (rule bit_word_eqI)
  fix i assume "i < LENGTH(32)"
  have mask: "bit (0x00FFFFFF :: u32) i = (i < 24)" 
    using bit_mask_iff [of 24 i, where ?'a = u32] \<open>i < _\<close> by (simp add: mask_eq_exp_minus_1)
  show "bit a i = bit b i"
  proof (cases "i < 24")
    case True
    have "bit (ucast a :: u24) i = bit (ucast b :: u24) i" by (simp only: assms(3))
    with True \<open>i < LENGTH(32)\<close> show ?thesis by (simp add: bit_simps)
  next
    case False
    with mask have "\<not> bit (a AND 0x00FFFFFF) i" "\<not> bit (b AND 0x00FFFFFF) i"
      by (simp_all add: bit_and_iff)
    then show ?thesis by (simp add: assms(1,2))
  qed
qed

lemma lfsr_no_carry: "\<not> bit c 23 \<Longrightarrow> lfsr c = push_bit 1 c"
  by (simp add: lfsr_def)

lemma lfsr_pow_low: "(\<And>i. 24 - n \<le> i \<Longrightarrow> \<not> bit c i) \<Longrightarrow> n \<le> 24 \<Longrightarrow> (lfsr ^^ n) c = push_bit n c"
proof (induction n)
  case (Suc n)
  have "(lfsr ^^ n) c = push_bit n c" using Suc.prems by (intro Suc.IH) auto
  moreover have "\<not> bit (push_bit n c) 23" using Suc.prems by (auto simp: bit_simps)
  ultimately have "(lfsr ^^ Suc n) c = push_bit 1 (push_bit n c)"
    by (simp add: lfsr_no_carry del: push_bit_Suc)
  then show ?case by (simp only: push_bit_push_bit plus_1_eq_Suc)
qed simp

lemma lfsr8_split:
  fixes r :: u24
  shows "(lfsr ^^ 8) r = push_bit 8 r XOR (lfsr ^^ 8) (push_bit 16 (drop_bit 16 r))"
proof -
  let ?low = "take_bit 16 r" and ?hi = "push_bit 16 (drop_bit 16 r)"
  have "r = ?low XOR ?hi" by (rule bit_word_eqI) (auto simp: bit_simps)
  then have "(lfsr ^^ 8) r = (lfsr ^^ 8) ?low XOR (lfsr ^^ 8) ?hi" by (metis lfsr_pow_xor)
  also have "(lfsr ^^ 8) ?low = push_bit 8 ?low"
    by (rule lfsr_pow_low) (auto simp: bit_simps)
  also have "push_bit 8 ?low = push_bit 8 r" by (rule bit_word_eqI) (auto simp: bit_simps)
  finally show ?thesis .
qed

lemma crc_entry_ucast: "i < 256 \<Longrightarrow> ucast (crc_entry i) = (lfsr ^^ 8) (push_bit 16 (of_nat i) :: u24)"
proof -
  have "(ucast (c AND 0x00FFFFFF) :: u24) = ucast c" for c :: u32
  proof (rule bit_word_eqI)
    fix i assume "i < LENGTH(24)"
    then show "bit (ucast (c AND 0x00FFFFFF) :: u24) i = bit (ucast c :: u24) i"
      using bit_mask_iff [of 24 i, where ?'a = u32] by (simp add: bit_simps mask_eq_exp_minus_1)
  qed
  moreover have "(ucast (push_bit 16 (of_nat i) :: u32) :: u24) = push_bit 16 (of_nat i)"
    by (rule bit_word_eqI) (auto simp: bit_simps bit_of_nat_iff)
  ultimately show ?thesis by (simp only: crc_entry_def crc_turns_ucast)
qed

text \<open>One step of the loop of \<open>crc24\<close> is one byte of the reference register.\<close>

definition crc24_step :: "u32 \<Rightarrow> u8 \<Rightarrow> u32" where
  "crc24_step rem byte =
     (push_bit 8 rem XOR CRC24_TABLE ! unat (byte XOR ucast (drop_bit 16 (rem AND 0xFF0000))))
       AND 0x00FFFFFF"

lemma crc24_loop_foldl: "crc24_loop rem data = foldl crc24_step rem data"
  by (induction rem data rule: crc24_loop.induct) (simp_all add: Let_def crc24_step_def)

lemma crc24_step_low24 [simp]: "crc24_step rem b AND 0x00FFFFFF = crc24_step rem b"
  by (simp add: crc24_step_def and.assoc)

lemma mask24_bit: "bit (0x00FFFFFF :: u32) i = (i < 24)"
  using bit_mask_iff [of 24 i, where ?'a = u32] by (auto simp: mask_eq_exp_minus_1)

lemma ucast_mask24: "(ucast (c AND 0x00FFFFFF) :: u24) = ucast c" for c :: u32
  by (rule bit_word_eqI) (simp only: bit_unsigned_iff bit_and_iff mask24_bit, auto)

lemma crc_index:
  fixes rem :: u32
  shows "ucast (drop_bit 16 (rem AND 0xFF0000)) = (ucast (drop_bit 16 (ucast rem :: u24)) :: u8)"
proof (rule bit_word_eqI)
  fix i assume i: "i < LENGTH(8)"
  have "bit (push_bit 16 (mask 8) :: u32) (16 + i)" using i
    by (simp only: bit_push_bit_iff bit_mask_iff) simp
  moreover have "push_bit 16 (mask 8) = (0xFF0000 :: u32)" by (simp add: mask_eq_exp_minus_1)
  ultimately have "bit (0xFF0000 :: u32) (16 + i)" by (simp only:)
  with i show "bit (ucast (drop_bit 16 (rem AND 0xFF0000)) :: u8) i =
      bit (ucast (drop_bit 16 (ucast rem :: u24)) :: u8) i"
    by (simp only: bit_unsigned_iff bit_drop_bit_eq bit_and_iff o_apply) auto
qed

lemma push_ucast24: "(ucast (push_bit 8 rem) :: u24) = push_bit 8 (ucast rem)" for rem :: u32
  by (rule bit_word_eqI) (auto simp: bit_simps)

lemma table_nth: "i < 256 \<Longrightarrow> CRC24_TABLE ! i = crc_entry i"
  by (simp add: CRC24_TABLE_def)

lemma ucast24_32_24 [simp]: "ucast (ucast (c :: u24) :: u32) = c"
  by (rule bit_word_eqI) (auto simp: bit_simps)

lemma crc24_step_ref: "ucast (crc24_step rem b) = lfsr_byte (ucast rem) b"
proof -
  let ?r = "ucast rem :: u24"
  let ?hi = "ucast (drop_bit 16 ?r) :: u8"
  have hi: "push_bit 16 (ucast ?hi) = push_bit 16 (drop_bit 16 ?r)"
    by (rule bit_word_eqI) (auto simp: bit_simps)
  have idx: "push_bit 16 (of_nat (unat (b XOR ?hi)) :: u24) =
      push_bit 16 (ucast b) XOR push_bit 16 (ucast ?hi)"
    by (simp add: ucast_xor push_bit_xor)
  have "ucast (crc24_step rem b) = push_bit 8 ?r XOR ucast (crc_entry (unat (b XOR ?hi)))"
    by (simp only: crc24_step_def ucast_mask24 ucast_xor crc_index push_ucast24 table_nth unat_u8_less)
  also have "\<dots> = push_bit 8 ?r XOR (lfsr ^^ 8) (push_bit 16 (ucast b) XOR push_bit 16 (ucast ?hi))"
    by (simp only: crc_entry_ucast unat_u8_less idx)
  also have "\<dots> = (lfsr ^^ 8) ?r XOR (lfsr ^^ 8) (push_bit 16 (ucast b))"
    by (simp only: lfsr_pow_xor hi lfsr8_split [of ?r] xor.assoc xor.commute xor.left_commute)
  finally show ?thesis by (simp only: lfsr_byte_def lfsr_pow_xor)
qed

lemma crc24_loop_ref: "ucast (crc24_loop rem data) = foldl lfsr_byte (ucast rem) data"
  unfolding crc24_loop_foldl
  by (induction data arbitrary: rem) (simp_all add: crc24_step_ref)

lemma crc24_loop_low24: "rem AND 0x00FFFFFF = rem \<Longrightarrow> crc24_loop rem data AND 0x00FFFFFF = crc24_loop rem data"
  unfolding crc24_loop_foldl by (induction data arbitrary: rem) simp_all

lemma ucast24_low24 [simp]: "(ucast (c :: u24) :: u32) AND 0x00FFFFFF = ucast c"
  by (rule bit_word_eqI) (simp only: bit_unsigned_iff bit_and_iff mask24_bit, auto dest: bit_imp_le_length)

lemma crc24_eq_ref: "crc24 data = ucast (crc24_ref data)"
  by (rule u32_low24_eqI)
    (simp_all add: crc24_def crc24_ref_def crc24_loop_low24 crc24_loop_ref)

section \<open>Bits of a message through the register\<close>

definition byte_bits :: "u8 \<Rightarrow> bool list" where
  "byte_bits b = map (\<lambda>i. bit b (7 - i)) [0..<8]"

definition msg_bits :: "u8 list \<Rightarrow> bool list" where
  "msg_bits msg = concat (map byte_bits msg)"

definition lfsr_bit :: "u24 \<Rightarrow> bool \<Rightarrow> u24" where
  "lfsr_bit c b = lfsr (c XOR (if b then push_bit 23 1 else 0))"

primrec pack24 :: "bool list \<Rightarrow> u24" where
  "pack24 [] = 0"
| "pack24 (b # bs) = (if b then push_bit 23 1 else 0) XOR drop_bit 1 (pack24 bs)"

lemma bit_pack24: "bit (pack24 bs) i = (i < 24 \<and> 23 - i < length bs \<and> bs ! (23 - i))"
proof (induction bs arbitrary: i)
  case (Cons b bs)
  show ?case
  proof (cases "i = 23")
    case True
    then show ?thesis using Cons.IH [of 24] by (simp add: bit_simps)
  next
    case False
    then have "bit (pack24 (b # bs)) i = bit (pack24 bs) (Suc i)"
      by (auto simp only: pack24.simps bit_xor_iff bit_push_bit_iff bit_drop_bit_eq o_apply bit_1_iff
          bit_0_eq bot_apply split: if_splits) auto
    also have "\<dots> = (i < 24 \<and> 23 - i < length (b # bs) \<and> (b # bs) ! (23 - i))"
      using False by (auto simp: Cons.IH nth_Cons' Suc_diff_Suc numeral_eq_Suc)
    finally show ?thesis .
  qed
qed simp

lemma lfsr_drop_bit:
  fixes x :: u24
  assumes "\<not> bit x 0"
  shows "lfsr (drop_bit 1 x) = x"
proof -
  have "\<not> bit (drop_bit 1 x) 23"
    using bit_imp_le_length [of x 24] by (auto simp: bit_simps)
  then have "lfsr (drop_bit 1 x) = push_bit 1 (drop_bit 1 x)" by (rule lfsr_no_carry)
  also have "\<dots> = x"
  proof (rule bit_word_eqI)
    fix i assume "i < LENGTH(24)"
    then show "bit (push_bit 1 (drop_bit 1 x)) i = bit x i"
      using assms by (cases i) (simp_all add: bit_simps del: push_bit_Suc)
  qed
  finally show ?thesis .
qed

lemma lfsr_bits_pack: "length bs \<le> 24 \<Longrightarrow> foldl lfsr_bit c bs = (lfsr ^^ length bs) (c XOR pack24 bs)"
proof (induction bs arbitrary: c)
  case (Cons b bs)
  let ?t = "if b then push_bit 23 1 else 0 :: u24"
  have "\<not> bit (pack24 bs) 0" using Cons.prems by (simp add: bit_pack24)
  then have "lfsr_bit c b XOR pack24 bs = lfsr ((c XOR ?t) XOR drop_bit 1 (pack24 bs))"
    by (simp only: lfsr_bit_def lfsr_xor lfsr_drop_bit not_False_eq_True)
  with Cons show ?case by (simp add: funpow_swap1 xor.assoc)
qed simp

lemma pack24_byte: "pack24 (byte_bits b) = push_bit 16 (ucast b)"
  by (rule bit_word_eqI) (auto simp: bit_pack24 byte_bits_def bit_simps)

lemma pack24_append: "pack24 (xs @ ys) = pack24 xs XOR drop_bit (length xs) (pack24 ys)"
proof (induction xs)
  case (Cons b xs)
  have "drop_bit 1 (drop_bit (length xs) y) = drop_bit (length (b # xs)) y" for y :: u24
    by (simp add: drop_bit_drop_bit)
  then show ?case by (simp only: append_Cons pack24.simps Cons.IH drop_bit_xor xor.assoc)
qed simp

lemma lfsr_byte_bits: "lfsr_byte c b = foldl lfsr_bit c (byte_bits b)"
  by (subst lfsr_bits_pack) (simp_all add: byte_bits_def lfsr_byte_def flip: pack24_byte)

lemma crc24_ref_bits: "foldl lfsr_byte c msg = foldl lfsr_bit c (msg_bits msg)"
  by (induction msg arbitrary: c) (simp_all add: msg_bits_def lfsr_byte_bits)

lemma lfsr_bit_zeros: "foldl lfsr_bit c (replicate n False) = (lfsr ^^ n) c"
  by (induction n arbitrary: c) (simp_all add: lfsr_bit_def funpow_swap1)

lemma lfsr_bits_xor:
  "length bs = length cs \<Longrightarrow>
     foldl lfsr_bit (x XOR y) (map2 (\<noteq>) bs cs) = foldl lfsr_bit x bs XOR foldl lfsr_bit y cs"
proof (induction bs cs arbitrary: x y rule: list_induct2)
  case (Cons b bs c cs)
  have "lfsr_bit (x XOR y) (b \<noteq> c) = lfsr_bit x b XOR lfsr_bit y c"
    by (auto simp: lfsr_bit_def ac_simps simp flip: lfsr_xor)
  with Cons.IH show ?case by simp
qed simp

section \<open>Messages\<close>

lemma ucast24_push:
  fixes a :: u8
  shows "(ucast (push_bit 16 (ucast a) :: u24) :: u32) = push_bit 16 (ucast a)"
    and "(ucast (push_bit 8 (ucast a) :: u24) :: u32) = push_bit 8 (ucast a)"
    and "(ucast (ucast a :: u24) :: u32) = ucast a"
  by (rule bit_word_eqI, auto simp: bit_simps dest: bit_imp_le_length)+

lemma ucast24_word:
  "ucast (x XOR push_bit 16 (ucast a) XOR push_bit 8 (ucast b) XOR ucast c :: u24) =
     (ucast x XOR push_bit 16 (ucast a) XOR push_bit 8 (ucast b) XOR ucast c :: u32)"
  for x :: u24 and a b c :: u8
  by (simp only: ucast_xor ucast24_push)

lemma crc24_parity_snoc:
  "crc24_parity (p @ [a, b, c]) =
     Some (ucast (crc24_ref p XOR push_bit 16 (ucast a) XOR push_bit 8 (ucast b) XOR ucast c))"
proof -
  have "crc24_parity (p @ [a, b, c]) = Some
      ((ucast (crc24_ref p) XOR push_bit 16 (ucast a) XOR push_bit 8 (ucast b) XOR ucast c) AND 0x00FFFFFF)"
    by (simp add: crc24_parity_def crc24_eq_ref nth_append xor.assoc del: push_bit_Suc)
  then show ?thesis by (simp only: ucast24_word [symmetric] ucast24_low24)
qed

lemma list_3_snoc: "length xs \<ge> 3 \<Longrightarrow> \<exists>p a b c. xs = p @ [a, b, c]"
proof -
  assume "length xs \<ge> 3"
  then have "length (drop (length xs - 3) xs) = 3" by simp
  then obtain a b c where "drop (length xs - 3) xs = [a, b, c]"
    unfolding numeral_3_eq_3 length_Suc_conv by auto
  then show ?thesis by (metis append_take_drop_id)
qed

lemma crc24_ref_snoc:
  "crc24_ref (p @ [a, b, c]) =
     (lfsr ^^ 24) (crc24_ref p XOR push_bit 16 (ucast a) XOR push_bit 8 (ucast b) XOR ucast c)"
proof -
  let ?bs = "byte_bits a @ byte_bits b @ byte_bits c"
  have len8: "length (byte_bits x) = 8" for x by (simp add: byte_bits_def)
  have len: "length ?bs = 24" by (simp add: byte_bits_def)
  have "pack24 ?bs = push_bit 16 (ucast a) XOR push_bit 8 (ucast b) XOR ucast c"
  proof -
    have "drop_bit 8 (push_bit 16 (ucast b)) = (push_bit 8 (ucast b) :: u24)"
      by (rule bit_word_eqI) (auto simp: bit_simps dest: bit_imp_le_length)
    moreover have "drop_bit 8 (drop_bit 8 (push_bit 16 (ucast c))) = (ucast c :: u24)"
      by (rule bit_word_eqI) (auto simp: bit_simps dest: bit_imp_le_length)
    ultimately show ?thesis by (simp only: pack24_append pack24_byte drop_bit_xor len8)
  qed
  moreover have "crc24_ref (p @ [a, b, c]) = foldl lfsr_bit (crc24_ref p) ?bs"
    by (simp add: crc24_ref_def crc24_ref_bits msg_bits_def lfsr_byte_bits)
  ultimately show ?thesis by (simp only: lfsr_bits_pack len order_refl)
qed

text \<open>A whole message is accepted exactly when the register over all its bits ends at zero.\<close>

lemma check_crc_ref: "length msg \<ge> 3 \<Longrightarrow> check_crc msg = Some (crc24_ref msg = 0)"
proof -
  assume "length msg \<ge> 3"
  then obtain p a b c where m: "msg = p @ [a, b, c]" using list_3_snoc by blast
  have "(ucast (x :: u24) = (0 :: u32)) = (x = 0)" for x by (metis ucast24_32_24 ucast_0)
  moreover have "((lfsr ^^ 24) x = 0) = (x = 0)" for x using lfsr_pow_eq_0 [of 24 x] by auto
  ultimately show ?thesis
    by (simp only: m check_crc_def crc24_parity_snoc crc24_ref_snoc option.map)
qed

lemma msg_bits_xor: "length a = length b \<Longrightarrow> msg_bits (map2 (XOR) a b) = map2 (\<noteq>) (msg_bits a) (msg_bits b)"
proof (induction a b rule: list_induct2)
  case (Cons x xs y ys)
  have "byte_bits (x XOR y) = map2 (\<noteq>) (byte_bits x) (byte_bits y)"
    by (simp add: byte_bits_def bit_xor_iff map2_map_same)
  moreover have "length (byte_bits x) = length (byte_bits y)" by (simp add: byte_bits_def)
  ultimately show ?case using Cons.IH by (simp add: msg_bits_def zip_append)
qed (simp add: msg_bits_def)

lemma length_msg_bits: "length (msg_bits msg) = 8 * length msg"
  by (induction msg) (simp_all add: msg_bits_def byte_bits_def)

lemma pack24_eq_0: "length w \<le> 24 \<Longrightarrow> pack24 w = 0 \<Longrightarrow> True \<notin> set w"
proof
  assume w: "length w \<le> 24" "pack24 w = 0" "True \<in> set w"
  then obtain i where "i < length w" "w ! i" by (auto simp: in_set_conv_nth)
  with w(1) have "bit (pack24 w) (23 - i)" by (simp add: bit_pack24)
  with w(2) show False by simp
qed

lemma burst_ne_0:
  assumes "length w \<le> 24" "True \<in> set w"
  shows "foldl lfsr_bit 0 (replicate i False @ w @ replicate j False) \<noteq> 0"
proof
  assume "foldl lfsr_bit 0 (replicate i False @ w @ replicate j False) = 0"
  then have "(lfsr ^^ j) ((lfsr ^^ length w) (pack24 w)) = 0"
    using assms(1) by (simp add: lfsr_bit_zeros lfsr_bits_pack)
  then have "(lfsr ^^ length w) (pack24 w) = 0" by (rule lfsr_pow_eq_0)
  then have "pack24 w = 0" by (rule lfsr_pow_eq_0)
  then show False using pack24_eq_0 [OF assms(1)] assms(2) by simp
qed

lemma burst_rejected:
  assumes "check_crc msg = Some True"
    and "length err = length msg"
    and "msg_bits err = replicate i False @ w @ replicate j False"
    and "length w \<le> 24" and "True \<in> set w"
  shows "check_crc (map2 (XOR) msg err) = Some False"
proof -
  have len: "length msg \<ge> 3"
    using assms(1) by (auto simp: check_crc_def crc24_parity_def Let_def split: if_splits)
  then have "crc24_ref msg = 0" using assms(1) by (simp add: check_crc_ref)
  moreover have "crc24_ref err \<noteq> 0"
    unfolding crc24_ref_def crc24_ref_bits assms(3) by (rule burst_ne_0) fact+
  moreover have "crc24_ref (map2 (XOR) msg err) = crc24_ref msg XOR crc24_ref err"
    using lfsr_bits_xor [of "msg_bits msg" "msg_bits err" 0 0] assms(2)
    by (simp add: crc24_ref_def crc24_ref_bits msg_bits_xor length_msg_bits)
  ultimately show ?thesis using len assms(2) by (simp add: check_crc_ref)
qed

section \<open>Properties\<close>

text \<open>The table driven \<open>crc24\<close> computes, for every payload, exactly what feeding the bits of
  the payload, most significant first, through the 24-bit feedback register of the Mode S
  generator polynomial computes; in particular it never leaves the low 24 bits.\<close>

lemma crc24_table_driven_is_bit_serial:
  "crc24 data = ucast (foldl lfsr_bit 0 (msg_bits data))"
  by (simp add: crc24_eq_ref crc24_ref_def crc24_ref_bits)

text \<open>\<open>check_crc\<close> panics on fewer than three bytes; otherwise it accepts exactly the
  messages whose last three bytes are the parity \<open>crc24\<close> computes for the bytes before them.\<close>

lemma check_crc_accepts_exactly_the_parity:
  "check_crc msg =
     (let n = length msg in
      if n < 3 then None
      else Some (crc24 (take (n - 3) msg) =
        push_bit 16 (ucast (msg ! (n - 3))) XOR (push_bit 8 (ucast (msg ! (n - 2)))
          XOR ucast (msg ! (n - 1)))))"
proof (cases "length msg < 3")
  case True
  then show ?thesis by (simp add: check_crc_def crc24_parity_def)
next
  case False
  then obtain p a b c where m: "msg = p @ [a, b, c]" using list_3_snoc [of msg] by auto
  have nths: "take (length msg - 3) msg = p" "msg ! (length msg - 3) = a"
    "msg ! (length msg - 2) = b" "msg ! (length msg - 1) = c"
    by (simp_all add: m nth_append)
  show ?thesis
    using False by (simp only: nths Let_def if_False)
      (simp only: m check_crc_def crc24_parity_snoc option.map ucast24_word crc24_eq_ref
        word_xor_eq_0_iff)
qed

text \<open>A transmission error of an accepted message that changes at least one bit and
  stays within a window of 24 consecutive bits (the parity bytes included) is always
  rejected by \<open>check_crc\<close>.\<close>

lemma check_crc_detects_bursts:
  assumes "check_crc msg = Some True"
    and "length err = length msg"
    and "msg_bits err = replicate i False @ w @ replicate j False"
    and "length w \<le> 24" and "True \<in> set w"
  shows "check_crc (map2 (XOR) msg err) = Some False"
  using assms by (rule burst_rejected)

text \<open>A real identification squitter, hit by a burst of 24 bits across four bytes.\<close>

definition sample_squitter :: "u8 list" where
  "sample_squitter =
     [0x8D, 0x48, 0x40, 0xD6, 0x20, 0x2C, 0xC3, 0x71, 0xC3, 0x2C, 0xE0, 0x57, 0x60, 0x98]"

lemma lfsr_numeral: "(lfsr ^^ numeral k) c = (lfsr ^^ pred_numeral k) (lfsr c)"
  by (simp add: numeral_eq_Suc funpow_swap1)

lemma check_crc_detects_bursts_witness:
  "check_crc (map2 (XOR) sample_squitter [0, 0, 0, 0x0F, 0, 0xFF, 0xF0, 0, 0, 0, 0, 0, 0, 0]) = Some False"
proof (rule check_crc_detects_bursts)
  have "crc24_ref sample_squitter = 0"
    by (simp add: crc24_ref_def sample_squitter_def lfsr_byte_def lfsr_numeral lfsr_def)
  then show "check_crc sample_squitter = Some True"
    by (subst check_crc_ref) (simp_all add: sample_squitter_def)
  show "msg_bits [0, 0, 0, 0x0F, 0, 0xFF, 0xF0, 0, 0, 0, 0, 0, 0, 0] =
      replicate 28 False @ (replicate 4 True @ replicate 8 False @ replicate 8 True @
        replicate 4 True) @ replicate 60 False"
    by (simp add: msg_bits_def byte_bits_def numeral_eq_Suc replicate_append_same)
qed (simp_all add: sample_squitter_def)

end
