(* ===== verification/Mode_AC.thy ===== *)
theory Mode_AC
  imports Prelude
begin

text \<open>
  Mode A and Mode C codes, from \<^verbatim>\<open>dump1090/src/mode_ac.rs\<close>: the permutation of the 13-bit
  identity field (\<open>decode_id13_field\<close>), the Gillham decoder \<open>mode_a_to_mode_c\<close> and the encoder
  \<open>altitude_100ft_to_squawk\<close>. Codes are 32-bit words as in the source; altitudes (\<open>i32\<close>, in
  hundreds of feet) are integers, with the one overflow the code checks written out. The lemmas
  show that the decoder and the encoder are inverse to each other on exactly the altitudes
  from -12 to 1267.
\<close>

section \<open>The code\<close>

definition decode_id13_field :: "u32 \<Rightarrow> u32" where
  "decode_id13_field id13 =
     (let h = 0;
          h = (if id13 AND 0x1000 \<noteq> 0 then h OR 0x0010 else h);
          h = (if id13 AND 0x0800 \<noteq> 0 then h OR 0x1000 else h);
          h = (if id13 AND 0x0400 \<noteq> 0 then h OR 0x0020 else h);
          h = (if id13 AND 0x0200 \<noteq> 0 then h OR 0x2000 else h);
          h = (if id13 AND 0x0100 \<noteq> 0 then h OR 0x0040 else h);
          h = (if id13 AND 0x0080 \<noteq> 0 then h OR 0x4000 else h);
          h = (if id13 AND 0x0020 \<noteq> 0 then h OR 0x0100 else h);
          h = (if id13 AND 0x0010 \<noteq> 0 then h OR 0x0001 else h);
          h = (if id13 AND 0x0008 \<noteq> 0 then h OR 0x0200 else h);
          h = (if id13 AND 0x0004 \<noteq> 0 then h OR 0x0002 else h);
          h = (if id13 AND 0x0002 \<noteq> 0 then h OR 0x0400 else h);
          h = (if id13 AND 0x0001 \<noteq> 0 then h OR 0x0004 else h)
      in h)"

definition mode_a_five_hundreds :: "u32 \<Rightarrow> u32" where
  "mode_a_five_hundreds mode_a =
     (let f = 0;
          f = (if mode_a AND 0x0002 \<noteq> 0 then f XOR 0x0FF else f);
          f = (if mode_a AND 0x0004 \<noteq> 0 then f XOR 0x07F else f);
          f = (if mode_a AND 0x1000 \<noteq> 0 then f XOR 0x03F else f);
          f = (if mode_a AND 0x2000 \<noteq> 0 then f XOR 0x01F else f);
          f = (if mode_a AND 0x4000 \<noteq> 0 then f XOR 0x00F else f);
          f = (if mode_a AND 0x0100 \<noteq> 0 then f XOR 0x007 else f);
          f = (if mode_a AND 0x0200 \<noteq> 0 then f XOR 0x003 else f);
          f = (if mode_a AND 0x0400 \<noteq> 0 then f XOR 0x001 else f)
      in f)"

definition mode_a_one_hundreds :: "u32 \<Rightarrow> u32" where
  "mode_a_one_hundreds mode_a =
     (let q = 0;
          q = (if mode_a AND 0x0010 \<noteq> 0 then q XOR 0x007 else q);
          q = (if mode_a AND 0x0020 \<noteq> 0 then q XOR 0x003 else q);
          q = (if mode_a AND 0x0040 \<noteq> 0 then q XOR 0x001 else q)
      in if q AND 5 = 5 then q XOR 2 else q)"

definition mode_a_to_mode_c :: "u32 \<Rightarrow> int option" where
  "mode_a_to_mode_c mode_a =
     (if mode_a AND 0xFFFF8889 \<noteq> 0 \<or> mode_a AND 0x000000F0 = 0 then None
      else
        let five = mode_a_five_hundreds mode_a; one = mode_a_one_hundreds mode_a in
        if one > 5 then None
        else
          let one = (if five AND 1 \<noteq> 0 then 6 - one else one)
          in Some (sint (five * 5 + one) - 13))"

definition one_hundreds_code :: "u32 \<Rightarrow> u32 option" where
  "one_hundreds_code oh_enc =
     (if oh_enc = 1 then Some 0b100
      else if oh_enc = 2 then Some 0b110
      else if oh_enc = 3 then Some 0b010
      else if oh_enc = 4 then Some 0b011
      else if oh_enc = 5 then Some 0b001
      else None)"

definition squawk_of :: "u32 \<Rightarrow> u8 \<Rightarrow> u32" where
  "squawk_of c_val g =
     (let d2 = ucast (drop_bit 7 g AND 1);
          d4 = ucast (drop_bit 6 g AND 1);
          a1 = ucast (drop_bit 5 g AND 1);
          a2 = ucast (drop_bit 4 g AND 1);
          a4 = ucast (drop_bit 3 g AND 1);
          b1 = ucast (drop_bit 2 g AND 1);
          b2 = ucast (drop_bit 1 g AND 1);
          b4 = ucast (g AND 1)
      in push_bit 1 d2 OR push_bit 2 d4
         OR push_bit 4 (c_val AND 1) OR push_bit 5 (drop_bit 1 c_val AND 1)
         OR push_bit 6 (drop_bit 2 c_val AND 1)
         OR push_bit 8 b1 OR push_bit 9 b2 OR push_bit 10 b4
         OR push_bit 12 a1 OR push_bit 13 a2 OR push_bit 14 a4)"

definition altitude_100ft_to_squawk :: "int \<Rightarrow> u32 option" where
  "altitude_100ft_to_squawk mode_c =
     (let x = mode_c + 13 in
      if x > 2 ^ 31 - 1 then None
      else if \<not> (1 \<le> x \<and> x \<le> 1280) then None
      else
        let x = word_of_int x :: u32;
            oh_calc = x mod 5;
            oh = (if oh_calc = 0 then 5 else oh_calc);
            fh = (x - oh) div 5;
            oh_enc = (if fh AND 1 \<noteq> 0 then 6 - oh else oh)
        in case one_hundreds_code oh_enc of
             None \<Rightarrow> None
           | Some c_val \<Rightarrow>
               let g = ucast fh XOR drop_bit 1 (ucast fh)
               in Some (squawk_of c_val g))"

section \<open>Bits\<close>

lemma xor_if: "(if c then f XOR k else f) = f XOR (if c then k else 0)" for f :: "'a::len word"
  by simp

lemma and_bit_tests:
  "(w AND 0x0001 \<noteq> 0) = bit w 0" "(w AND 0x0002 \<noteq> 0) = bit w 1" "(w AND 0x0004 \<noteq> 0) = bit w 2"
  "(w AND 0x0008 \<noteq> 0) = bit w 3" "(w AND 0x0010 \<noteq> 0) = bit w 4" "(w AND 0x0020 \<noteq> 0) = bit w 5"
  "(w AND 0x0040 \<noteq> 0) = bit w 6" "(w AND 0x0080 \<noteq> 0) = bit w 7" "(w AND 0x0100 \<noteq> 0) = bit w 8"
  "(w AND 0x0200 \<noteq> 0) = bit w 9" "(w AND 0x0400 \<noteq> 0) = bit w 10" "(w AND 0x0800 \<noteq> 0) = bit w 11"
  "(w AND 0x1000 \<noteq> 0) = bit w 12" "(w AND 0x2000 \<noteq> 0) = bit w 13" "(w AND 0x4000 \<noteq> 0) = bit w 14"
  for w :: u32
  using and_exp_eq_0_iff_not_bit [of w 0] and_exp_eq_0_iff_not_bit [of w 1]
    and_exp_eq_0_iff_not_bit [of w 2] and_exp_eq_0_iff_not_bit [of w 3]
    and_exp_eq_0_iff_not_bit [of w 4] and_exp_eq_0_iff_not_bit [of w 5]
    and_exp_eq_0_iff_not_bit [of w 6] and_exp_eq_0_iff_not_bit [of w 7]
    and_exp_eq_0_iff_not_bit [of w 8] and_exp_eq_0_iff_not_bit [of w 9]
    and_exp_eq_0_iff_not_bit [of w 10] and_exp_eq_0_iff_not_bit [of w 11]
    and_exp_eq_0_iff_not_bit [of w 12] and_exp_eq_0_iff_not_bit [of w 13]
    and_exp_eq_0_iff_not_bit [of w 14]
  by simp_all

text \<open>The Gray decoder on eight bits, as the code runs it, and its inverse.\<close>

lemma five_hundreds_xor:
  "mode_a_five_hundreds m =
     (if bit m 1 then 0xFF else 0) XOR (if bit m 2 then 0x7F else 0) XOR
     (if bit m 12 then 0x3F else 0) XOR (if bit m 13 then 0x1F else 0) XOR
     (if bit m 14 then 0xF else 0) XOR (if bit m 8 then 7 else 0) XOR
     (if bit m 9 then 3 else 0) XOR (if bit m 10 then 1 else 0)"
  unfolding mode_a_five_hundreds_def Let_def and_bit_tests xor_if by (simp only: xor.assoc xor.left_neutral)

lemma one_hundreds_xor:
  "mode_a_one_hundreds m =
     (let q = (if bit m 4 then 7 else 0) XOR (if bit m 5 then 3 else 0) XOR (if bit m 6 then 1 else 0)
      in if q AND 5 = 5 then q XOR 2 else q)"
  unfolding mode_a_one_hundreds_def Let_def and_bit_tests xor_if by (simp only: xor.assoc xor.left_neutral)

lemma and_mask_eq_0D: "w AND k = 0 \<Longrightarrow> bit k i \<Longrightarrow> \<not> bit w i" for w k :: u32
  by (metis bit_0_eq bit_and_iff bot_apply bot_bool_def)

lemma bit_flag:
  "k < 32 \<Longrightarrow> bit (push_bit k (ucast (drop_bit j g AND 1)) :: u32) n = (n = k \<and> bit g j)"
  for g :: u8
  by (auto simp: bit_simps)

lemma bit_flag32: "k < 32 \<Longrightarrow> bit (push_bit k (drop_bit j c AND 1)) n = (n = k \<and> bit c j)" for c :: u32
  by (auto simp: bit_simps)

lemma bit_flag_0:
  "k < 32 \<Longrightarrow> bit (push_bit k (ucast (g AND 1)) :: u32) n = (n = k \<and> bit g 0)" for g :: u8
  using bit_flag [of k 0 g n] by (simp only: drop_bit_0 id_apply)

lemma bit_flag32_0: "k < 32 \<Longrightarrow> bit (push_bit k (c AND 1)) n = (n = k \<and> bit c 0)" for c :: u32
  using bit_flag32 [of k 0 c n] by (simp only: drop_bit_0 id_apply)

lemma bit_squawk_of:
  "bit (squawk_of c g) n =
     (n = 1 \<and> bit g 7 \<or> n = 2 \<and> bit g 6 \<or> n = 4 \<and> bit c 0 \<or> n = 5 \<and> bit c 1 \<or> n = 6 \<and> bit c 2 \<or>
      n = 8 \<and> bit g 2 \<or> n = 9 \<and> bit g 1 \<or> n = 10 \<and> bit g 0 \<or>
      n = 12 \<and> bit g 5 \<or> n = 13 \<and> bit g 4 \<or> n = 14 \<and> bit g 3)"
proof -
  have lt: "(1 :: nat) < 32" "(2 :: nat) < 32" "(4 :: nat) < 32" "(5 :: nat) < 32" "(6 :: nat) < 32"
    "(8 :: nat) < 32" "(9 :: nat) < 32" "(10 :: nat) < 32" "(12 :: nat) < 32" "(13 :: nat) < 32"
    "(14 :: nat) < 32" by simp_all
  show ?thesis
    unfolding squawk_of_def Let_def
    by (simp only: bit_or_iff bit_flag [OF lt(1)] bit_flag [OF lt(2)] bit_flag32_0 [OF lt(3)]
        bit_flag32 [OF lt(4)] bit_flag32 [OF lt(5)] bit_flag [OF lt(6)] bit_flag [OF lt(7)]
        bit_flag_0 [OF lt(8)] bit_flag [OF lt(9)] bit_flag [OF lt(10)] bit_flag [OF lt(11)] disj_assoc)
qed

lemma masks: "(0xFF :: u32) = mask 8" "(0x7F :: u32) = mask 7" "(0x3F :: u32) = mask 6"
  "(0x1F :: u32) = mask 5" "(0xF :: u32) = mask 4" "(7 :: u32) = mask 3" "(3 :: u32) = mask 2"
  "(1 :: u32) = mask 1"
  by (simp_all add: mask_eq_exp_minus_1)

lemma bit_five_hundreds:
  "bit (mode_a_five_hundreds m) i =
     ((bit m 1 \<and> i < 8) \<noteq> ((bit m 2 \<and> i < 7) \<noteq> ((bit m 12 \<and> i < 6) \<noteq> ((bit m 13 \<and> i < 5) \<noteq>
      ((bit m 14 \<and> i < 4) \<noteq> ((bit m 8 \<and> i < 3) \<noteq> ((bit m 9 \<and> i < 2) \<noteq> (bit m 10 \<and> i < 1))))))))"
proof -
  have if_mask: "bit (if c then mask k else 0 :: u32) i = (c \<and> i < k)" if "k \<le> 8" for c k
    using that by (auto simp: bit_simps)
  show ?thesis
    unfolding five_hundreds_xor masks by (simp add: bit_xor_iff if_mask)
qed

lemma less_8_cases: "(i :: nat) < 8 \<Longrightarrow> i = 0 \<or> i = 1 \<or> i = 2 \<or> i = 3 \<or> i = 4 \<or> i = 5 \<or> i = 6 \<or> i = 7"
  by auto

lemma five_hundreds_small: "mode_a_five_hundreds m = ucast (ucast (mode_a_five_hundreds m) :: u8)"
proof (rule bit_word_eqI)
  fix i assume "i < LENGTH(32)"
  then show "bit (mode_a_five_hundreds m) i = bit (ucast (ucast (mode_a_five_hundreds m) :: u8) :: u32) i"
    by (cases "i < 8") (simp_all add: bit_five_hundreds bit_unsigned_iff)
qed

lemma xor_telescope:
  "((b = (\<not> c)) = (a = b)) = (a = (\<not> c))" "((b = (\<not> c)) = (a = (\<not> b))) = (a = c)"
  "(b = (a = b)) = a"
  by auto

lemma five_hundreds_squawk:
  fixes f :: u8
  shows "mode_a_five_hundreds (squawk_of c (f XOR drop_bit 1 f)) = ucast f"
proof (rule bit_word_eqI)
  fix i assume "i < LENGTH(32)"
  show "bit (mode_a_five_hundreds (squawk_of c (f XOR drop_bit 1 f))) i = bit (ucast f :: u32) i"
  proof (cases "i < 8")
    case True
    have nf: "\<not> bit f (Suc (Suc (Suc (Suc (Suc (Suc (Suc (Suc 0))))))))"
      using bit_imp_le_length [of f "Suc (Suc (Suc (Suc (Suc (Suc (Suc (Suc 0)))))))"] by auto
    note eqs = bit_five_hundreds bit_squawk_of bit_xor_iff bit_drop_bit_eq o_apply bit_unsigned_iff
      xor_telescope numeral_eq_Suc nf
    show ?thesis
      using less_8_cases [OF True] \<open>i < LENGTH(32)\<close>
      by (elim disjE) (simp_all add: eqs cong: conj_cong)
  next
    case False
    then show ?thesis by (auto simp: bit_five_hundreds bit_unsigned_iff dest: bit_imp_le_length)
  qed
qed

definition gray :: "u8 \<Rightarrow> u8" where
  "gray f = f XOR drop_bit 1 f"

lemma gray_of_five_hundreds:
  fixes m :: u32
  defines "f \<equiv> ucast (mode_a_five_hundreds m) :: u8"
  shows "bit (gray f) 7 = bit m 1" "bit (gray f) 6 = bit m 2" "bit (gray f) 5 = bit m 12"
    "bit (gray f) 4 = bit m 13" "bit (gray f) 3 = bit m 14" "bit (gray f) 2 = bit m 8"
    "bit (gray f) 1 = bit m 9" "bit (gray f) 0 = bit m 10"
proof -
  have xs: "((a \<noteq> b) \<noteq> a) = b" for a b by auto
  note eqs = f_def gray_def bit_xor_iff bit_drop_bit_eq o_apply bit_unsigned_iff bit_five_hundreds
  show "bit (gray f) 7 = bit m 1" "bit (gray f) 6 = bit m 2" "bit (gray f) 5 = bit m 12"
    "bit (gray f) 4 = bit m 13" "bit (gray f) 3 = bit m 14" "bit (gray f) 2 = bit m 8"
    "bit (gray f) 1 = bit m 9" "bit (gray f) 0 = bit m 10"
    by (simp_all add: eqs) argo+
qed

text \<open>The code's guard on the forbidden bits, and what it leaves of a code word.\<close>

lemma forbidden_bits:
  fixes m :: u32
  assumes "m AND 0xFFFF8889 = 0"
  shows "\<not> bit m 0" "\<not> bit m 3" "\<not> bit m 7" "\<not> bit m 11" "15 \<le> i \<Longrightarrow> \<not> bit m i"
proof -
  have "bit (0xFFFF8889 :: u32) i" if "15 \<le> i" "i < LENGTH(32)"
  proof -
    have "(0xFFFF8889 :: u32) = push_bit 15 (mask 17) OR 0x889" by (simp add: mask_eq_exp_minus_1)
    moreover have "bit (push_bit 15 (mask 17) OR 0x889 :: u32) i" 
      using that by (simp only: bit_or_iff bit_push_bit_iff bit_mask_iff) (simp, arith)
    ultimately show ?thesis by (simp only:)
  qed
  then show "15 \<le> i \<Longrightarrow> \<not> bit m i"
    using and_mask_eq_0D [OF assms] bit_imp_le_length [of m i] by blast
  show "\<not> bit m 0" "\<not> bit m 3" "\<not> bit m 7" "\<not> bit m 11"
    by (rule and_mask_eq_0D [OF assms], simp)+
qed

lemma squawk_of_five_hundreds:
  assumes "m AND 0xFFFF8889 = 0" and "bit c 0 = bit m 4" "bit c 1 = bit m 5" "bit c 2 = bit m 6"
  shows "squawk_of c (gray (ucast (mode_a_five_hundreds m))) = m"
proof (rule bit_word_eqI)
  fix n assume "n < LENGTH(32)"
  have "n \<in> {0, 1, 2, 3, 4, 5, 6, 7, 8, 9, 10, 11, 12, 13, 14} \<or> 15 \<le> n"
    unfolding insert_iff empty_iff by arith
  then show "bit (squawk_of c (gray (ucast (mode_a_five_hundreds m)))) n = bit m n"
    using forbidden_bits [OF assms(1)]
    by (elim disjE insertE emptyE) (simp_all add: bit_squawk_of gray_of_five_hundreds assms(2-4) del: One_nat_def)
qed

section \<open>The hundreds digit\<close>

lemma one_hundreds_squawk:
  "one_hundreds_code q = Some c \<Longrightarrow> mode_a_one_hundreds (squawk_of c g) = q"
  by (auto simp: one_hundreds_code_def one_hundreds_xor bit_squawk_of split: if_splits)

lemma squawk_of_allowed:
  assumes "one_hundreds_code q = Some c"
  shows "squawk_of c g AND 0xFFFF8889 = 0" and "squawk_of c g AND 0xF0 \<noteq> 0"
proof -
  have c: "bit c 0 \<or> bit c 1 \<or> bit c 2"
    using assms by (auto simp: one_hundreds_code_def split: if_splits)
  then have "bit (squawk_of c g AND 0xF0) 4 \<or> bit (squawk_of c g AND 0xF0) 5 \<or> bit (squawk_of c g AND 0xF0) 6"
    by (simp add: bit_and_iff bit_squawk_of)
  then show "squawk_of c g AND 0xF0 \<noteq> 0" by (metis bit_0_eq bot_apply bot_bool_def)
  have "\<not> (bit (squawk_of c g) n \<and> bit (0xFFFF8889 :: u32) n)" for n
    by (auto simp: bit_squawk_of)
  then show "squawk_of c g AND 0xFFFF8889 = 0"
    by (intro bit_word_eqI) (simp add: bit_and_iff)
qed

lemma one_hundreds_range:
  assumes "m AND 0xFFFF8889 = 0" "m AND 0xF0 \<noteq> 0" "\<not> mode_a_one_hundreds m > 5"
  shows "\<exists>c. one_hundreds_code (mode_a_one_hundreds m) = Some c \<and>
    bit c 0 = bit m 4 \<and> bit c 1 = bit m 5 \<and> bit c 2 = bit m 6"
proof -
  have "bit m 4 \<or> bit m 5 \<or> bit m 6"
  proof -
    have k: "(0xF0 :: u32) = push_bit 4 (mask 4)" by (simp add: mask_eq_exp_minus_1)
    obtain n where "bit (m AND 0xF0) n"
      using assms(2) by (metis bit_0_eq bit_eqI bot_apply bot_bool_def)
    then have "bit m n" "4 \<le> n" "n - 4 < 4"
      unfolding k by (auto simp only: bit_and_iff bit_push_bit_iff bit_mask_iff)
    moreover from this have "n = 4 \<or> n = 5 \<or> n = 6 \<or> n = 7" by arith
    ultimately show ?thesis using forbidden_bits(3) [OF assms(1)] by auto
  qed
  then show ?thesis using assms(3)
    by (cases "bit m 4"; cases "bit m 5"; cases "bit m 6")
      (simp_all add: one_hundreds_xor one_hundreds_code_def)
qed

section \<open>Altitudes\<close>

text \<open>The altitude a pair of digits stands for: \<open>F\<close> five hundreds and \<open>q\<close> hundreds as transmitted.\<close>

definition gillham_altitude :: "nat \<Rightarrow> nat \<Rightarrow> int" where
  "gillham_altitude F q = 5 * int F + (if odd F then 6 - int q else int q) - 13"

lemma one_hundreds_code_range: "one_hundreds_code q = Some c \<Longrightarrow> 1 \<le> unat q \<and> unat q \<le> 5"
  by (auto simp: one_hundreds_code_def split: if_splits)

lemma and_1_odd: "(w AND 1 \<noteq> 0) = odd (unat w)" for w :: u32
proof -
  have "odd (unat w) = bit (unat w) 0" by (simp add: bit_0)
  also have "\<dots> = bit w 0" by (simp only: bit_unsigned_iff) simp
  finally show ?thesis by (simp only: and_bit_tests)
qed

lemma decode_value:
  fixes f :: u8 and q :: u32
  assumes "1 \<le> unat q" "unat q \<le> 5"
  shows "sint (ucast f * 5 + (if odd (unat f) then 6 - q else q)) - 13 = gillham_altitude (unat f) (unat q)"
proof -
  have f: "unat (ucast f :: u32) = unat f" by (rule unat_ucast_up) simp
  have f5: "unat (ucast f * 5 :: u32) = 5 * unat f"
    using unat_u8_less [of f] by (simp add: unat_word_ariths f del: unat_u8_less)
  have q6: "unat (6 - q) = 6 - unat q"
    using assms by (subst unat_sub) (simp_all add: word_le_nat_alt)
  let ?w = "ucast f * 5 + (if odd (unat f) then 6 - q else q)"
  have w: "unat ?w =
      5 * unat f + (if odd (unat f) then 6 - unat q else unat q)"
    using unat_u8_less [of f] assms by (simp add: unat_word_ariths f f5 q6 mult.commute [of _ 5] del: unat_u8_less)
  then have "unat ?w < 2 ^ 31" using unat_u8_less [of f] assms by (auto simp del: unat_u8_less)
  then have "sint ?w = int (unat ?w)" by (rule sint_small)
  also have "\<dots> - 13 = gillham_altitude (unat f) (unat q)"
    unfolding w using assms by (simp add: gillham_altitude_def of_nat_diff del: of_nat_unat)
  finally show ?thesis .
qed

lemma mode_a_to_mode_c_squawk:
  assumes "one_hundreds_code q = Some c"
  shows "mode_a_to_mode_c (squawk_of c (gray f)) = Some (gillham_altitude (unat f) (unat q))"
proof -
  have q: "1 \<le> unat q" "unat q \<le> 5" using one_hundreds_code_range [OF assms] by auto
  have "\<not> q > 5" using q by (simp add: word_less_nat_alt)
  moreover have "(ucast f AND 1 \<noteq> (0 :: u32)) = odd (unat f)"
    by (simp add: and_1_odd unat_ucast_up)
  ultimately show ?thesis
    using squawk_of_allowed [OF assms, of "gray f"] decode_value [OF q, of f]
    by (simp add: mode_a_to_mode_c_def Let_def one_hundreds_squawk [OF assms]
        five_hundreds_squawk [folded gray_def])
qed

text \<open>Every code the decoder accepts is one of these.\<close>

lemma mode_a_to_mode_c_SomeD:
  assumes "mode_a_to_mode_c m = Some a"
  shows "\<exists>q c f. one_hundreds_code q = Some c \<and> m = squawk_of c (gray f) \<and>
    a = gillham_altitude (unat f) (unat q)"
proof -
  let ?q = "mode_a_one_hundreds m" and ?f = "ucast (mode_a_five_hundreds m) :: u8"
  have m: "m AND 0xFFFF8889 = 0" "m AND 0xF0 \<noteq> 0" "\<not> ?q > 5"
    using assms by (auto simp: mode_a_to_mode_c_def Let_def split: if_splits)
  from one_hundreds_range [OF this] obtain c where c: "one_hundreds_code ?q = Some c"
    "bit c 0 = bit m 4" "bit c 1 = bit m 5" "bit c 2 = bit m 6" by blast
  have eq: "m = squawk_of c (gray ?f)"
    using squawk_of_five_hundreds [OF m(1) c(2-4)] by simp
  with mode_a_to_mode_c_squawk [OF c(1), of ?f] assms
  have "a = gillham_altitude (unat ?f) (unat ?q)" by simp
  with c(1) eq show ?thesis by blast
qed

lemma gillham_altitude_range:
  "F < 256 \<Longrightarrow> 1 \<le> q \<Longrightarrow> q \<le> 5 \<Longrightarrow> -12 \<le> gillham_altitude F q \<and> gillham_altitude F q \<le> 1267"
  by (simp add: gillham_altitude_def)

lemma one_hundreds_code_total:
  "1 \<le> unat q \<Longrightarrow> unat q \<le> 5 \<Longrightarrow> \<exists>c. one_hundreds_code q = Some c" for q :: u32
proof -
  assume "1 \<le> unat q" "unat q \<le> 5"
  then have "unat q = 1 \<or> unat q = 2 \<or> unat q = 3 \<or> unat q = 4 \<or> unat q = 5" by arith
  then have "unat q = unat (1 :: u32) \<or> unat q = unat (2 :: u32) \<or> unat q = unat (3 :: u32) \<or>
      unat q = unat (4 :: u32) \<or> unat q = unat (5 :: u32)" by simp
  then show ?thesis unfolding word_unat_eq_iff [symmetric] one_hundreds_code_def by auto
qed

text \<open>The digits the encoder computes from an altitude in range.\<close>

lemma altitude_digits:
  assumes "1 \<le> X" "X \<le> 1280"
  defines "x \<equiv> word_of_int (int X) :: u32"
  defines "oh \<equiv> if x mod 5 = 0 then 5 else x mod 5"
  defines "R \<equiv> if X mod 5 = 0 then 5 else X mod 5"
  shows "unat oh = R" and "unat ((x - oh) div 5) = (X - R) div 5"
    and "X = 5 * ((X - R) div 5) + R" and "(X - R) div 5 < 256" and "1 \<le> R" and "R \<le> 5"
proof -
  have x: "unat x = X" using assms(2) by (simp add: x_def unsigned_of_nat take_bit_nat_eq_self)
  have m: "unat (x mod 5) = X mod 5" by (simp add: unat_mod x)
  then have z: "(x mod 5 = 0) = (X mod 5 = 0)" by (metis unat_0 unat_eq_zero)
  show oh: "unat oh = R" by (simp add: oh_def R_def z m)
  show R: "1 \<le> R" "R \<le> 5" using assms(1) by (auto simp: R_def)
  have "R \<le> X" using assms(1) by (auto simp: R_def dvd_imp_le mod_eq_0_iff_dvd)
  then show "unat ((x - oh) div 5) = (X - R) div 5"
    by (simp add: unat_div unat_sub word_le_nat_alt oh x)
  show eq: "X = 5 * ((X - R) div 5) + R" using \<open>R \<le> X\<close> by (auto simp: R_def)
  show "(X - R) div 5 < 256" using assms(2) R(1) by auto
qed

lemma altitude_100ft_to_squawk_Some:
  assumes "-12 \<le> a" "a \<le> 1267"
  shows "\<exists>q c f. one_hundreds_code q = Some c \<and>
    altitude_100ft_to_squawk a = Some (squawk_of c (gray f)) \<and> a = gillham_altitude (unat f) (unat q)"
proof -
  define X where "X = nat (a + 13)"
  have X: "1 \<le> X" "X \<le> 1280" "a + 13 = int X" using assms by (auto simp: X_def)
  note d = altitude_digits [OF X(1,2)]
  define x where "x = (word_of_int (int X) :: u32)"
  define oh where "oh = (if x mod 5 = 0 then 5 else x mod 5)"
  define R where "R = (if X mod 5 = 0 then 5 else X mod 5)"
  define fh where "fh = (x - oh) div 5"
  define q where "q = (if fh AND 1 \<noteq> 0 then 6 - oh else oh)"
  define f where "f = (ucast fh :: u8)"
  note d = altitude_digits [OF X(1,2), folded x_def, folded oh_def R_def, folded fh_def]
  have f: "unat f = (X - R) div 5"
    using d(4) by (simp add: f_def unsigned_ucast_eq take_bit_nat_eq_self d(2))
  have par: "(fh AND 1 \<noteq> 0) = odd (unat f)" unfolding and_1_odd by (simp only: d(2) f)
  have q: "unat q = (if odd (unat f) then 6 - R else R)"
    unfolding q_def par using d(1,6) by (auto simp: unat_sub word_le_nat_alt)
  then have "1 \<le> unat q" "unat q \<le> 5" using d(5,6) by auto
  then obtain c where c: "one_hundreds_code q = Some c" using one_hundreds_code_total by blast
  have "altitude_100ft_to_squawk a = (case one_hundreds_code q of None \<Rightarrow> None
      | Some c \<Rightarrow> Some (squawk_of c (gray f)))"
    unfolding altitude_100ft_to_squawk_def Let_def X(3) x_def [symmetric] oh_def [symmetric]
      fh_def [symmetric] q_def [symmetric] f_def [symmetric] gray_def
    using X(1,2) by simp
  then have "altitude_100ft_to_squawk a = Some (squawk_of c (gray f))" by (simp add: c)
  moreover have "a = gillham_altitude (unat f) (unat q)"
    unfolding q gillham_altitude_def using d(3,6) X(3) f by (auto simp: of_nat_diff)
  ultimately show ?thesis using c by blast
qed

lemma altitude_100ft_to_squawk_range:
  "altitude_100ft_to_squawk a = Some m \<Longrightarrow> -12 \<le> a \<and> a \<le> 1267"
  by (auto simp: altitude_100ft_to_squawk_def Let_def split: if_splits)

lemma gillham_altitude_inj:
  assumes "gillham_altitude F q = gillham_altitude F' q'" "1 \<le> q" "q \<le> 5" "1 \<le> q'" "q' \<le> 5"
  shows "F = F' \<and> q = q'"
proof -
  define r where "r = (if odd F then 6 - int q else int q)"
  define r' where "r' = (if odd F' then 6 - int q' else int q')"
  have r: "1 \<le> r" "r \<le> 5" "1 \<le> r'" "r' \<le> 5" using assms(2-5) by (auto simp: r_def r'_def)
  have "5 * int F + r = 5 * int F' + r'"
    using assms(1) by (simp add: gillham_altitude_def r_def r'_def)
  with r have F: "F = F'" and "r = r'" by presburger+
  then show ?thesis by (auto simp: r_def r'_def split: if_splits)
qed

section \<open>The identity field\<close>

text \<open>The permutation \<open>decode_id13_field\<close>: which bit of the field each bit of the code is.\<close>

lemma bit_if_or:
  "bit (if c then h OR k else h) n = (bit h n \<or> c \<and> bit k n)" for h k :: "'a::len word"
  by (simp add: bit_or_iff)

lemma bit_pow2:
  "bit (0x0001 :: u32) n = (n = 0)" "bit (0x0002 :: u32) n = (n = 1)" "bit (0x0004 :: u32) n = (n = 2)"
  "bit (0x0010 :: u32) n = (n = 4)" "bit (0x0020 :: u32) n = (n = 5)" "bit (0x0040 :: u32) n = (n = 6)"
  "bit (0x0100 :: u32) n = (n = 8)" "bit (0x0200 :: u32) n = (n = 9)" "bit (0x0400 :: u32) n = (n = 10)"
  "bit (0x1000 :: u32) n = (n = 12)" "bit (0x2000 :: u32) n = (n = 13)" "bit (0x4000 :: u32) n = (n = 14)"
proof -
  have pow: "bit (2 ^ k :: u32) n = (n = k)" if "k < 32" for k
    using that by (auto simp: bit_exp_iff)
  show "bit (0x0001 :: u32) n = (n = 0)" using pow [of 0] by simp
  show "bit (0x0002 :: u32) n = (n = 1)" using pow [of 1] by simp
  show "bit (0x0004 :: u32) n = (n = 2)" using pow [of 2] by simp
  show "bit (0x0010 :: u32) n = (n = 4)" using pow [of 4] by simp
  show "bit (0x0020 :: u32) n = (n = 5)" using pow [of 5] by simp
  show "bit (0x0040 :: u32) n = (n = 6)" using pow [of 6] by simp
  show "bit (0x0100 :: u32) n = (n = 8)" using pow [of 8] by simp
  show "bit (0x0200 :: u32) n = (n = 9)" using pow [of 9] by simp
  show "bit (0x0400 :: u32) n = (n = 10)" using pow [of 10] by simp
  show "bit (0x1000 :: u32) n = (n = 12)" using pow [of 12] by simp
  show "bit (0x2000 :: u32) n = (n = 13)" using pow [of 13] by simp
  show "bit (0x4000 :: u32) n = (n = 14)" using pow [of 14] by simp
qed

lemma bit_decode_id13_field:
  "bit (decode_id13_field id13) n =
     (bit id13 12 \<and> n = 4 \<or> bit id13 11 \<and> n = 12 \<or> bit id13 10 \<and> n = 5 \<or> bit id13 9 \<and> n = 13 \<or>
      bit id13 8 \<and> n = 6 \<or> bit id13 7 \<and> n = 14 \<or> bit id13 5 \<and> n = 8 \<or> bit id13 4 \<and> n = 0 \<or>
      bit id13 3 \<and> n = 9 \<or> bit id13 2 \<and> n = 1 \<or> bit id13 1 \<and> n = 10 \<or> bit id13 0 \<and> n = 2)"
  unfolding decode_id13_field_def Let_def and_bit_tests
  by (simp only: bit_if_or bit_pow2 bit_0_eq bot_apply bot_bool_def disj_assoc simp_thms)

section \<open>Properties\<close>

text \<open>The Mode C decoder and the altitude encoder are exact inverses: a code word decodes to
  an altitude if and only if the encoder produces that code word for that altitude.\<close>

lemma mode_c_encoder_inverts_decoder:
  "mode_a_to_mode_c m = Some a \<longleftrightarrow> altitude_100ft_to_squawk a = Some m"
proof
  assume "altitude_100ft_to_squawk a = Some m"
  then show "mode_a_to_mode_c m = Some a"
    using altitude_100ft_to_squawk_Some [of a] altitude_100ft_to_squawk_range [of a m]
    by (auto simp: mode_a_to_mode_c_squawk)
next
  assume "mode_a_to_mode_c m = Some a"
  then obtain q c f where m: "one_hundreds_code q = Some c" "m = squawk_of c (gray f)"
    "a = gillham_altitude (unat f) (unat q)" using mode_a_to_mode_c_SomeD by blast
  have "-12 \<le> a" "a \<le> 1267"
    using gillham_altitude_range [of "unat f" "unat q"] one_hundreds_code_range [OF m(1)] m(3) by auto
  then obtain q' c' f' where e: "one_hundreds_code q' = Some c'"
    "altitude_100ft_to_squawk a = Some (squawk_of c' (gray f'))"
    "a = gillham_altitude (unat f') (unat q')" using altitude_100ft_to_squawk_Some by blast
  have "unat f' = unat f \<and> unat q' = unat q"
    using gillham_altitude_inj [of "unat f'" "unat q'" "unat f" "unat q"] m(3) e(3)
      one_hundreds_code_range [OF m(1)] one_hundreds_code_range [OF e(1)] by simp
  then have "f' = f" "q' = q" unfolding word_unat_eq_iff by auto
  then show "altitude_100ft_to_squawk a = Some m" using e m by simp
qed

text \<open>The encoder returns a code for exactly the altitudes from -1200 ft to 126700 ft; for
  every other \<open>i32\<close>, the ones that overflow the addition included, it returns nothing.\<close>

lemma altitude_encoder_domain:
  "(altitude_100ft_to_squawk a \<noteq> None) = (-12 \<le> a \<and> a \<le> 1267)"
  using altitude_100ft_to_squawk_Some [of a] altitude_100ft_to_squawk_range [of a] by auto

end
