(* ===== verification/GF256.thy ===== *)
theory GF256
  imports Prelude
begin

text \<open>
  The field the two Reed-Solomon decoders of the sources compute in: bytes with exclusive or
  as addition and the powers of one element \<open>alpha\<close>, where multiplication by \<open>alpha\<close> is a shift
  reduced by \<open>x^8 + x^7 + x^2 + x + 1\<close> (\<^verbatim>\<open>0x187\<close>). The code of \<^verbatim>\<open>uat-decode/src/fec.rs\<close> and
  \<^verbatim>\<open>lrpt-decode/src/reed_solomon.rs\<close> works with a table of powers and a table of logarithms;
  the locale \<open>gf_tables\<close> states what the decoders rely on of such a pair of tables, and each
  decoder's own tables are an interpretation of it.
\<close>

section \<open>Multiplication by the primitive element\<close>

definition gfx :: "u8 \<Rightarrow> u8" where
  "gfx v = push_bit 1 v XOR (if bit v 7 then 0x87 else 0)"

lemma gfx_xor: "gfx (a XOR b) = gfx a XOR gfx b"
  by (rule bit_word_eqI) (auto simp: gfx_def bit_simps)

lemma gfx_0 [simp]: "gfx 0 = 0"
  by (simp add: gfx_def)

lemma gfx_pow_xor: "(gfx ^^ n) (a XOR b) = (gfx ^^ n) a XOR (gfx ^^ n) b"
  by (induction n) (simp_all add: gfx_xor)

lemma gfx_pow_0 [simp]: "(gfx ^^ n) 0 = 0"
  by (induction n) simp_all

lemma bit_gfx_0: "bit (gfx c) 0 = bit c 7"
  by (auto simp: gfx_def bit_simps simp del: push_bit_Suc)

lemma bit_gfx_Suc: "\<not> bit c 7 \<Longrightarrow> i < 7 \<Longrightarrow> bit (gfx c) (Suc i) = bit c i"
  by (auto simp: gfx_def bit_simps simp del: push_bit_Suc)

lemma gfx_eq_0: "gfx c = 0 \<Longrightarrow> c = 0"
proof (rule bit_word_eqI)
  fix i assume z: "gfx c = 0" and "i < LENGTH(8)"
  then have i: "i < 7 \<or> i = 7" by auto
  have top: "\<not> bit c 7" using bit_gfx_0 [of c] z by simp
  with i bit_gfx_Suc [OF top, of i] z show "bit c i = bit (0 :: u8) i" by auto
qed

lemma gfx_pow_eq_0_iff [simp]: "((gfx ^^ n) c = 0) = (c = 0)"
  by (induction n) (auto dest: gfx_eq_0)

lemma gfx_pow_inj: "(gfx ^^ n) a = (gfx ^^ n) b \<Longrightarrow> a = b"
  using gfx_pow_xor [of n a b] by simp

section \<open>Registers of period 255\<close>

text \<open>An injective step that returns to a state after 255 turns, and not after 15, 51 or 85, visits 255
  different states: the contract of the field's generator and of the pseudo-random register.\<close>

lemma divisors_255:
  assumes "g dvd 255" "g < (255 :: nat)"
  shows "g dvd 85 \<or> g dvd 51 \<or> g dvd 15"
proof -
  have "list_all (\<lambda>g. g dvd 255 \<longrightarrow> g dvd 85 \<or> g dvd 51 \<or> g dvd 15) [0..<255::nat]"
    by code_simp
  with assms show ?thesis by (auto simp: list_all_iff)
qed

locale full_period =
  fixes f :: "'a \<Rightarrow> 'a" and s :: 'a
  assumes step_inj: "f a = f b \<Longrightarrow> a = b"
    and returns: "(f ^^ 255) s = s"
    and not_15: "(f ^^ 15) s \<noteq> s" and not_51: "(f ^^ 51) s \<noteq> s" and not_85: "(f ^^ 85) s \<noteq> s"
begin

lemma turns_inj: "(f ^^ n) a = (f ^^ n) b \<Longrightarrow> a = b"
  by (induction n) (auto dest: step_inj)

lemma turns_mult: "(f ^^ d) s = s \<Longrightarrow> (f ^^ (d * k)) s = s"
  by (induction k) (simp_all add: funpow_add)

lemma turns_ne: "0 < d \<Longrightarrow> d < 255 \<Longrightarrow> (f ^^ d) s \<noteq> s"
proof
  assume d: "0 < d" "d < 255" "(f ^^ d) s = s"
  let ?g = "gcd d 255"
  obtain x y where xy: "d * x = 255 * y + ?g" using bezout_nat [of d 255] d(1) by auto
  have "(f ^^ ?g) s = (f ^^ ?g) ((f ^^ (255 * y)) s)" by (subst turns_mult) (simp_all add: returns)
  also have "\<dots> = (f ^^ (d * x)) s" by (simp only: xy funpow_add add.commute [of "255 * y"] comp_apply)
  also have "\<dots> = s" by (rule turns_mult) (rule d(3))
  finally have g: "(f ^^ ?g) s = s" .
  have "?g \<le> d" using d(1) by (simp add: gcd_le1_nat)
  then have "?g dvd 85 \<or> ?g dvd 51 \<or> ?g dvd 15" using d(2) by (intro divisors_255) auto
  then show False using turns_mult [OF g] not_15 not_51 not_85 by (metis dvdE)
qed

lemma orbit_inj: "i < 255 \<Longrightarrow> j < 255 \<Longrightarrow> (f ^^ i) s = (f ^^ j) s \<Longrightarrow> i = j"
proof (rule ccontr)
  have gen: False if "i < j" "j < 255" "(f ^^ i) s = (f ^^ j) s" for i j
  proof -
    have "(f ^^ i) s = (f ^^ i) ((f ^^ (j - i)) s)"
      using that(1,3) funpow_add [of i "j - i" f] by simp
    then have "(f ^^ (j - i)) s = s" using turns_inj by metis
    then show False using turns_ne [of "j - i"] that by auto
  qed
  assume "i < 255" "j < 255" "(f ^^ i) s = (f ^^ j) s" "i \<noteq> j"
  then show False using gen [of i j] gen [of j i] by (cases "i < j") auto
qed

lemma turns_mod: "(f ^^ (n mod 255)) s = (f ^^ n) s"
proof -
  have "(f ^^ n) s = (f ^^ (n mod 255 + 255 * (n div 255))) s" by simp
  also have "\<dots> = (f ^^ (n mod 255)) s"
    unfolding funpow_add comp_apply by (subst turns_mult) (simp_all add: returns)
  finally show ?thesis by simp
qed

lemma orbit_iff: "(f ^^ m) s = (f ^^ n) s \<longleftrightarrow> m mod 255 = n mod 255"
  using orbit_inj [of "m mod 255" "n mod 255"] by (auto simp: turns_mod dest: arg_cong [where f = "\<lambda>k. (f ^^ k) s"])

end

section \<open>The order of the element\<close>

definition alpha_pow :: "nat \<Rightarrow> u8" where
  "alpha_pow n = (gfx ^^ n) 1"

lemma alpha_pow_0 [simp]: "alpha_pow 0 = 1"
  by (simp add: alpha_pow_def)

lemma alpha_pow_Suc: "alpha_pow (Suc n) = gfx (alpha_pow n)"
  by (simp add: alpha_pow_def)

lemma alpha_pow_add: "alpha_pow (m + n) = (gfx ^^ m) (alpha_pow n)"
  by (simp add: alpha_pow_def funpow_add)

lemma alpha_pow_ne_0 [simp]: "alpha_pow n \<noteq> 0"
  by (simp add: alpha_pow_def)

lemma gfx_pow_mult: "(gfx ^^ a) c = c \<Longrightarrow> (gfx ^^ (a * n)) c = c"
  by (induction n) (simp_all add: funpow_add)

text \<open>Evaluation of concrete powers, one doubling at a time.\<close>

lemma gfx_numeral: "(gfx ^^ numeral k) c = (gfx ^^ pred_numeral k) (gfx c)"
  by (simp add: numeral_eq_Suc funpow_swap1)

lemmas alpha_pow_eval = alpha_pow_def gfx_numeral gfx_def

lemma alpha_pow_17s:
  "alpha_pow 17 = 222" "alpha_pow 34 = 116" "alpha_pow 51 = 108" "alpha_pow 68 = 223"
  "alpha_pow 85 = 170" "alpha_pow 102 = 24" "alpha_pow 119 = 179" "alpha_pow 136 = 117"
  "alpha_pow 153 = 178" "alpha_pow 170 = 171" "alpha_pow 187 = 198" "alpha_pow 204 = 199"
  "alpha_pow 221 = 25" "alpha_pow 238 = 109" "alpha_pow 255 = 1"
  by (simp_all add: alpha_pow_eval)

lemma alpha_pow_15: "alpha_pow 15 = 244"
  by (simp add: alpha_pow_eval)

interpretation alpha: full_period gfx "1 :: u8"
  by unfold_locales
    (use gfx_pow_inj [of 1] alpha_pow_17s(3,5,15) alpha_pow_15 in \<open>simp_all add: alpha_pow_def\<close>)

lemma alpha_pow_inj: "i < 255 \<Longrightarrow> j < 255 \<Longrightarrow> alpha_pow i = alpha_pow j \<Longrightarrow> i = j"
  unfolding alpha_pow_def by (rule alpha.orbit_inj)

lemma alpha_pow_mult: "alpha_pow d = 1 \<Longrightarrow> alpha_pow (d * k) = 1"
  by (simp add: alpha_pow_def gfx_pow_mult)

lemma alpha_pow_surj: "s \<noteq> 0 \<Longrightarrow> \<exists>i<255. alpha_pow i = s"
proof -
  assume s: "s \<noteq> 0"
  have "card (alpha_pow ` {..<255}) = 255"
    by (subst card_image) (auto intro: inj_onI alpha_pow_inj)
  moreover have "alpha_pow ` {..<255} \<subseteq> UNIV - {0}" by auto
  moreover have "card (UNIV - {0 :: u8}) = 255" by (simp add: card_Diff_singleton card_word)
  ultimately have "alpha_pow ` {..<255} = UNIV - {0}" by (intro card_subset_eq) auto
  then have "s \<in> alpha_pow ` {..<255}" using s by simp
  then show ?thesis by auto
qed

lemma alpha_pow_period: "alpha_pow (255 * k + n) = alpha_pow n"
proof -
  have "alpha_pow (n + 255 * k) = (gfx ^^ n) (alpha_pow (255 * k))" by (rule alpha_pow_add)
  also have "alpha_pow (255 * k) = 1" by (rule alpha_pow_mult) (simp add: alpha_pow_17s)
  finally show ?thesis by (simp add: alpha_pow_def add.commute)
qed

lemma alpha_pow_mod: "alpha_pow (n mod 255) = alpha_pow n"
  using alpha_pow_period [of "n div 255" "n mod 255"] by simp

lemma gfx_pow_mod: "(gfx ^^ (n mod 255)) s = (gfx ^^ n) s"
proof (cases "s = 0")
  case False
  then obtain i where s: "s = alpha_pow i" using alpha_pow_surj by blast
  have "alpha_pow (n mod 255 + i) = alpha_pow (n + i)"
    by (metis alpha_pow_mod mod_add_left_eq)
  then show ?thesis by (simp only: s alpha_pow_add)
qed simp

section \<open>Tables of powers and logarithms\<close>

text \<open>
  What the decoders assume of their tables: \<open>antilog\<close> lists the powers of the element over one
  period, \<open>logt\<close> inverts it on the nonzero bytes.
\<close>

locale gf_tables =
  fixes antilog :: "nat \<Rightarrow> u8" and logt :: "u8 \<Rightarrow> nat"
  assumes antilog: "i < 255 \<Longrightarrow> antilog i = alpha_pow i"
    and logt_less: "s \<noteq> 0 \<Longrightarrow> logt s < 255"
    and antilog_logt: "s \<noteq> 0 \<Longrightarrow> antilog (logt s) = s"
begin

lemma alpha_logt: "s \<noteq> 0 \<Longrightarrow> alpha_pow (logt s) = s"
  using antilog [of "logt s"] logt_less [of s] antilog_logt [of s] by simp

lemma logt_alpha: "i < 255 \<Longrightarrow> logt (alpha_pow i) = i"
  by (rule alpha_pow_inj) (simp_all add: alpha_logt logt_less)

lemma logt_alpha_mod: "logt (alpha_pow n) = n mod 255"
  using logt_alpha [of "n mod 255"] by (simp add: alpha_pow_mod)

lemma antilog_mod: "antilog (n mod 255) = alpha_pow n"
  by (simp add: antilog alpha_pow_mod)

text \<open>Adding to the logarithm multiplies by a power.\<close>

lemma antilog_shift: "s \<noteq> 0 \<Longrightarrow> antilog ((logt s + k) mod 255) = (gfx ^^ k) s"
  using alpha_pow_add [of k "logt s"] by (simp add: antilog_mod alpha_logt add.commute)

lemma logt_1: "logt 1 = 0"
  using logt_alpha [of 0] by simp

end

section \<open>Evaluating a word at a power of the element\<close>

text \<open>Horner's rule for the polynomial whose coefficients, highest degree first, are the bytes
  of a word, at the point \<open>alpha ^ e\<close>. A Reed-Solomon codeword is a word that vanishes at the
  roots of the generator.\<close>

definition horner :: "nat \<Rightarrow> u8 list \<Rightarrow> u8" where
  "horner e word = foldl (\<lambda>s b. b XOR (gfx ^^ e) s) 0 word"

definition rs_codeword :: "nat list \<Rightarrow> u8 list \<Rightarrow> bool" where
  "rs_codeword es word = (\<forall>e \<in> set es. horner e word = 0)"

definition hamming :: "u8 list \<Rightarrow> u8 list \<Rightarrow> nat" where
  "hamming xs ys = length (filter (\<lambda>(x, y). x \<noteq> y) (zip xs ys))"

lemma hamming_self: "hamming xs xs = 0"
  by (induction xs) (simp_all add: hamming_def)

lemma hamming_flip:
  "length xs = length ys \<Longrightarrow> p < length ys \<Longrightarrow> xs ! p = ys ! p \<Longrightarrow>
     hamming (xs[p := ys ! p XOR v]) ys = (if v = 0 then 0 else 1) + hamming xs ys"
proof (induction xs ys arbitrary: p rule: list_induct2)
  case (Cons x xs y ys)
  then show ?case by (cases p) (auto simp: hamming_def)
qed simp

lemma horner_Nil [simp]: "horner e [] = 0"
  by (simp add: horner_def)

lemma horner_snoc [simp]: "horner e (xs @ [b]) = b XOR (gfx ^^ e) (horner e xs)"
  by (simp add: horner_def)

lemma gfx_pow_pow: "(gfx ^^ m) ((gfx ^^ n) s) = (gfx ^^ (m + n)) s"
  by (simp add: funpow_add)

lemma horner_flip:
  "p < length word \<Longrightarrow>
     horner e (word[p := word ! p XOR v]) =
       horner e word XOR (gfx ^^ (e * (length word - 1 - p))) v"
proof (induction word rule: rev_induct)
  case (snoc b xs)
  show ?case
  proof (cases "p = length xs")
    case True
    then show ?thesis by (simp add: nth_append list_update_append ac_simps)
  next
    case False
    then have p: "p < length xs" using snoc.prems by simp
    then have "e + e * (length xs - 1 - p) = e * (length xs - p)"
      by (metis Suc_diff_Suc diff_Suc_eq_diff_pred mult_Suc_right)
    with p snoc.IH show ?thesis
      by (simp add: nth_append list_update_append gfx_pow_xor gfx_pow_pow xor.assoc)
  qed
qed simp

end
