(* ===== verification/Uat_Fec.thy ===== *)
theory Uat_Fec
  imports GF256
begin

text \<open>
  Forward error correction of UAT frames, \<^verbatim>\<open>uat-decode/src/fec.rs\<close>: the field tables \<open>Gf\<close>, the
  shortened Reed-Solomon decoder \<open>decode_shortened\<close> (syndromes, Berlekamp-Massey, root search,
  error values, verification) and the two users \<open>correct_downlink\<close> and \<open>correct_uplink\<close>. Each
  loop of the decoder is a function of its own. Bytes and logarithms keep their width; indices
  are naturals. \<open>Panic\<close> is an index or slice out of range, which the fixed callers never reach.
\<close>

section \<open>The field tables\<close>

definition FIELD :: nat where "FIELD = 255"
definition A0 :: nat where "A0 = FIELD"

record gf =
  alpha :: "u8 list"
  index :: "u16 list"

fun gf_fill :: "nat list \<Rightarrow> u16 \<Rightarrow> gf \<Rightarrow> gf" where
  "gf_fill [] value g = g"
| "gf_fill (i # is) value g =
     (let g = g\<lparr>index := (index g)[unat value := of_nat i]\<rparr>;
          g = g\<lparr>alpha := (alpha g)[i := ucast value]\<rparr>;
          value = push_bit 1 value;
          value = (if value AND 0x100 \<noteq> 0 then value XOR 0x187 else value);
          value = value AND 0xff
      in gf_fill is value g)"

definition gf_new :: gf where
  "gf_new =
     (let g = gf_fill [0..<FIELD] 1 \<lparr>alpha = replicate 256 0, index = replicate 256 (of_nat A0)\<rparr>
      in g\<lparr>alpha := (alpha g)[FIELD := 0]\<rparr>)"

text \<open>\<open>rem_euclid\<close> by a positive modulus is \<open>mod\<close>.\<close>

definition gf_pow :: "gf \<Rightarrow> int \<Rightarrow> u8" where
  "gf_pow g n = alpha g ! nat (n mod int FIELD)"

text \<open>\<open>gf.index[b as usize] as usize\<close>.\<close>

definition gf_log :: "gf \<Rightarrow> u8 \<Rightarrow> nat" where
  "gf_log g b = unat (index g ! unat b)"

section \<open>Syndromes\<close>

definition syndrome_step :: "gf \<Rightarrow> u8 \<Rightarrow> nat \<Rightarrow> u8 \<Rightarrow> u8" where
  "syndrome_step g byte i s =
     (if s = 0 then byte
      else byte XOR gf_pow g (int (gf_log g s) + int (120 + i)))"

definition syndromes :: "gf \<Rightarrow> u8 list \<Rightarrow> nat \<Rightarrow> u8 list" where
  "syndromes g raw roots =
     foldl (\<lambda>syn byte. map2 (syndrome_step g byte) [0..<length syn] syn)
       (replicate roots (raw ! 0)) (tl raw)"

section \<open>Berlekamp-Massey\<close>

definition discrepancy :: "gf \<Rightarrow> u8 list \<Rightarrow> u16 list \<Rightarrow> nat \<Rightarrow> u8" where
  "discrepancy g lambda si r =
     foldl (\<lambda>d i. if lambda ! i \<noteq> 0 \<and> unat (si ! (r - i - 1)) \<noteq> A0
                  then d XOR gf_pow g (int (gf_log g (lambda ! i)) + int (unat (si ! (r - i - 1))))
                  else d)
       0 [0..<r]"

text \<open>\<open>b.copy_within(0..roots, 1); b[0] = A0\<close>\<close>

definition shift_b :: "nat \<Rightarrow> u16 list \<Rightarrow> u16 list" where
  "shift_b roots b = of_nat A0 # take roots b"

fun bm_step :: "gf \<Rightarrow> nat \<Rightarrow> u16 list \<Rightarrow> u8 list \<times> u16 list \<times> nat \<Rightarrow> nat \<Rightarrow> u8 list \<times> u16 list \<times> nat" where
  "bm_step g roots si (lambda, b, el) r =
     (let dlog = gf_log g (discrepancy g lambda si r) in
      if dlog = A0 then (lambda, shift_b roots b, el)
      else
        let t = lambda ! 0 #
              map (\<lambda>i. if unat (b ! i) \<noteq> A0
                       then lambda ! (i + 1) XOR gf_pow g (int dlog + int (unat (b ! i)))
                       else lambda ! (i + 1)) [0..<roots]
        in if 2 * el < r
           then (t, map (\<lambda>i. if lambda ! i = 0 then of_nat A0
                             else of_nat ((gf_log g (lambda ! i) + FIELD - dlog) mod FIELD))
                      [0..<roots + 1], r - el)
           else (t, shift_b roots b, el))"

definition berlekamp_massey :: "gf \<Rightarrow> nat \<Rightarrow> u16 list \<Rightarrow> u8 list" where
  "berlekamp_massey g roots si =
     (let lambda = 1 # replicate roots 0;
          b = map (\<lambda>i. index g ! unat (lambda ! i)) [0..<roots + 1]
      in fst (foldl (bm_step g roots si) (lambda, b, 0) [1..<roots + 1]))"

definition locator_degree :: "u16 list \<Rightarrow> nat \<Rightarrow> nat" where
  "locator_degree lambda_log roots =
     foldl (\<lambda>d i. if unat (lambda_log ! i) \<noteq> A0 then i else d) 0 [0..<roots + 1]"

section \<open>Root search\<close>

definition chien_turn :: "gf \<Rightarrow> nat \<Rightarrow> u16 list \<Rightarrow> u16 list \<times> u8" where
  "chien_turn g degree reg =
     foldl (\<lambda>(reg, q) j.
              if unat (reg ! j) \<noteq> A0
              then let v = (unat (reg ! j) + j) mod FIELD
                   in (reg[j := of_nat v], q XOR alpha g ! v)
              else (reg, q))
       (reg, 1) (rev [1..<degree + 1])"

fun chien :: "gf \<Rightarrow> nat \<Rightarrow> nat \<Rightarrow> nat list \<Rightarrow> u16 list \<Rightarrow> nat list \<Rightarrow> nat list \<Rightarrow>
    (nat list \<times> nat list) option" where
  "chien g degree pad [] reg roots_at loc = Some (roots_at, loc)"
| "chien g degree pad (i # is) reg roots_at loc =
     (let k = i - 1; (reg, q) = chien_turn g degree reg in
      if q = 0 then
        if k < pad then None
        else
          let roots_at = roots_at @ [i]; loc = loc @ [k] in
          if length roots_at = degree then Some (roots_at, loc)
          else chien g degree pad is reg roots_at loc
      else chien g degree pad is reg roots_at loc)"

section \<open>Error values\<close>

definition omega_poly :: "gf \<Rightarrow> nat \<Rightarrow> nat \<Rightarrow> u16 list \<Rightarrow> u16 list \<Rightarrow> u16 list" where
  "omega_poly g roots degree si lambda_log =
     map (\<lambda>i. if i \<le> degree - 1
              then index g ! unat
                (foldl (\<lambda>value j. if unat (si ! (i - j)) \<noteq> A0 \<and> unat (lambda_log ! j) \<noteq> A0
                    then value XOR gf_pow g (int (unat (si ! (i - j))) + int (unat (lambda_log ! j)))
                    else value) 0 [0..<i + 1])
              else of_nat A0) [0..<roots]"

definition error_numerator :: "gf \<Rightarrow> nat \<Rightarrow> u16 list \<Rightarrow> nat \<Rightarrow> u8" where
  "error_numerator g degree omega root =
     foldl (\<lambda>n i. if unat (omega ! i) \<noteq> A0
                  then n XOR gf_pow g (int (unat (omega ! i)) + int (i * root)) else n)
       0 (rev [0..<degree])"

definition error_denominator :: "gf \<Rightarrow> nat \<Rightarrow> nat \<Rightarrow> u16 list \<Rightarrow> nat \<Rightarrow> u8" where
  "error_denominator g roots degree lambda_log root =
     foldl (\<lambda>d i. if unat (lambda_log ! (i + 1)) \<noteq> A0
                  then d XOR gf_pow g (int (unat (lambda_log ! (i + 1))) + int (i * root)) else d)
       0 (filter even [0..<min degree (roots - 1) + 1])"

fun error_values :: "gf \<Rightarrow> nat \<Rightarrow> nat \<Rightarrow> u16 list \<Rightarrow> u16 list \<Rightarrow> nat list \<Rightarrow> nat list \<Rightarrow>
    u8 list \<Rightarrow> nat \<Rightarrow> (u8 list \<times> nat) option" where
  "error_values g roots degree omega lambda_log roots_at [] corrections count = Some (corrections, count)"
| "error_values g roots degree omega lambda_log roots_at (j # js) corrections count =
     (let numerator = error_numerator g degree omega (roots_at ! j) in
      if numerator = 0 then error_values g roots degree omega lambda_log roots_at js corrections count
      else
        let numerator2 = gf_pow g (int (roots_at ! j * 119 + FIELD));
            denominator = error_denominator g roots degree lambda_log (roots_at ! j)
        in if denominator = 0 then None
           else
             let value = (gf_log g numerator + gf_log g numerator2 + FIELD - gf_log g denominator) mod FIELD
             in error_values g roots degree omega lambda_log roots_at js
                  (corrections[j := alpha g ! value]) (count + 1))"

section \<open>Verification and correction\<close>

definition recomputed_syndrome :: "gf \<Rightarrow> nat \<Rightarrow> nat list \<Rightarrow> u8 list \<Rightarrow> nat \<Rightarrow> u8" where
  "recomputed_syndrome g degree loc corrections i =
     foldl (\<lambda>actual j. if corrections ! j \<noteq> 0
              then let exponent = ((120 + i) * (FIELD - loc ! j - 1)) mod FIELD
                   in actual XOR gf_pow g (int (gf_log g (corrections ! j)) + int exponent)
              else actual) 0 [0..<degree]"

definition apply_corrections :: "nat \<Rightarrow> nat \<Rightarrow> nat list \<Rightarrow> u8 list \<Rightarrow> u8 list \<Rightarrow> u8 list" where
  "apply_corrections pad degree loc corrections raw =
     foldl (\<lambda>corrected i. if corrections ! i \<noteq> 0
              then let offset = loc ! i - pad
                   in corrected[offset := corrected ! offset XOR corrections ! i]
              else corrected) raw [0..<degree]"

definition correct_errors :: "gf \<Rightarrow> u8 list \<Rightarrow> nat \<Rightarrow> nat \<Rightarrow> u8 list \<Rightarrow> (u8 list \<times> nat) option" where
  "correct_errors g raw roots pad syn =
     (let si = map (\<lambda>s. index g ! unat s) syn;
          lambda = berlekamp_massey g roots si;
          lambda_log = map (\<lambda>i. index g ! unat (lambda ! i)) [0..<roots + 1];
          degree = locator_degree lambda_log roots
      in if degree = 0 then None
         else case chien g degree pad [1..<FIELD + 1] lambda_log [] [] of
           None \<Rightarrow> None
         | Some (roots_at, loc) \<Rightarrow>
             if length roots_at \<noteq> degree then None
             else
               let omega = omega_poly g roots degree si lambda_log in
               case error_values g roots degree omega lambda_log roots_at [0..<degree]
                      (replicate degree 0) 0 of
                 None \<Rightarrow> None
               | Some (corrections, count) \<Rightarrow>
                   if \<exists>i \<in> set [0..<length syn].
                        recomputed_syndrome g degree loc corrections i \<noteq> syn ! i
                   then None
                   else Some (apply_corrections pad degree loc corrections raw, count))"

definition decode_shortened :: "u8 list \<Rightarrow> nat \<Rightarrow> nat \<Rightarrow> (u8 list \<times> nat) option run" where
  "decode_shortened raw roots pad =
     (if length raw + pad \<noteq> FIELD \<or> roots = 0 \<or> roots \<ge> FIELD then Done None
      else if raw = [] then Panic
      else
        let g = gf_new; syn = syndromes g raw roots in
        if list_all (\<lambda>s. s = 0) syn then
          if length raw < roots then Panic else Done (Some (take (length raw - roots) raw, 0))
        else case correct_errors g raw roots pad syn of
          None \<Rightarrow> Done None
        | Some (corrected, count) \<Rightarrow>
            if length raw < roots then Panic
            else Done (Some (take (length corrected - roots) corrected, count)))"

section \<open>Frames\<close>

text \<open>\<open>filter(|(payload, _)| payload[0] >> 3 == 0)\<close>: indexing an empty payload panics.\<close>

definition filter_short :: "(u8 list \<times> nat) option run \<Rightarrow> (u8 list \<times> nat) option run" where
  "filter_short r =
     (case r of
        Done (Some (payload, n)) \<Rightarrow>
          if payload = [] then Panic
          else if drop_bit 3 (payload ! 0) = 0 then Done (Some (payload, n)) else Done None
      | _ \<Rightarrow> r)"

definition correct_downlink :: "u8 list \<Rightarrow> (u8 list \<times> nat) option run" where
  "correct_downlink raw =
     (if length raw = 30 then filter_short (decode_shortened raw 12 225)
      else if length raw \<noteq> 48 then Done None
      else case decode_shortened raw 14 207 of
        Panic \<Rightarrow> Panic
      | Done (Some (payload, n)) \<Rightarrow>
          if payload \<noteq> [] \<and> drop_bit 3 (hd payload) \<noteq> 0 then Done (Some (payload, n))
          else filter_short (decode_shortened (take 30 raw) 12 225)
      | Done None \<Rightarrow> filter_short (decode_shortened (take 30 raw) 12 225))"

fun uplink_blocks :: "u8 list \<Rightarrow> nat list \<Rightarrow> u8 list \<Rightarrow> nat \<Rightarrow> (u8 list \<times> nat) option run" where
  "uplink_blocks raw [] payload errors = Done (Some (payload, errors))"
| "uplink_blocks raw (block # blocks) payload errors =
     (let interleaved = map (\<lambda>i. raw ! (i * 6 + block)) [0..<92] in
      case decode_shortened interleaved 20 163 of
        Panic \<Rightarrow> Panic
      | Done None \<Rightarrow> Done None
      | Done (Some (data, count)) \<Rightarrow> uplink_blocks raw blocks (payload @ data) (errors + count))"

definition correct_uplink :: "u8 list \<Rightarrow> (u8 list \<times> nat) option run" where
  "correct_uplink raw = (if length raw \<noteq> 552 then Done None else uplink_blocks raw [0..<6] [] 0)"

section \<open>The tables are the field's\<close>

lemma gf_next_value:
  fixes a :: u8
  defines "v \<equiv> push_bit 1 (ucast a) :: u16"
  shows "(if v AND 0x100 \<noteq> 0 then v XOR 0x187 else v) AND 0xff = ucast (gfx a)"
proof -
  have c: "(v AND 0x100 \<noteq> 0) = bit v 8" using and_exp_eq_0_iff_not_bit [of v 8] by simp
  have m: "(0xff :: u16) = mask 8" by (simp add: mask_eq_exp_minus_1)
  have k: "(0x187 :: u16) = push_bit 8 1 OR ucast (0x87 :: u8)" by simp
  have b: "bit v i = (0 < i \<and> bit a (i - 1))" if "i < 16" for i
    using that by (auto simp: v_def bit_simps simp del: push_bit_Suc)
  show ?thesis
  proof (rule bit_word_eqI)
    fix i assume "i < LENGTH(16)"
    then have i: "i < 16" by simp
    have k': "bit (0x187 :: u16) i = (i = 8 \<or> bit (0x87 :: u8) i)"
      unfolding k using i by (simp only: bit_or_iff bit_push_bit_iff bit_unsigned_iff bit_1_iff) auto
    show "bit ((if v AND 0x100 \<noteq> 0 then v XOR 0x187 else v) AND 0xff) i = bit (ucast (gfx a) :: u16) i"
      unfolding c m using i
      by (auto simp only: bit_and_iff bit_mask_iff bit_xor_iff k' b bit_unsigned_iff gfx_def
          bit_push_bit_iff split: if_splits) auto
  qed
qed

lemma gf_fill_step:
  "gf_fill (i # is) (ucast a) g =
     gf_fill is (ucast (gfx a))
       (g\<lparr>index := (index g)[unat a := of_nat i], alpha := (alpha g)[i := a]\<rparr>)"
proof -
  have "unat (ucast a :: u16) = unat a" by (rule unat_ucast_up) simp
  moreover have "(ucast (ucast a :: u16) :: u8) = a" by (rule bit_word_eqI) (auto simp: bit_simps)
  ultimately show ?thesis
    using gf_next_value [of a] by (simp add: Let_def del: push_bit_Suc One_nat_def)
qed

declare gf_fill.simps(2) [simp del]

lemma gf_fill_alpha:
  "i \<le> 255 \<Longrightarrow> length (alpha g) = 256 \<Longrightarrow>
     length (alpha (gf_fill [i..<255] (ucast (alpha_pow i)) g)) = 256 \<and>
     alpha (gf_fill [i..<255] (ucast (alpha_pow i)) g) ! j =
       (if i \<le> j \<and> j < 255 then alpha_pow j else alpha g ! j)"
proof (induction i arbitrary: g rule: inc_induct)
  case (step n)
  then show ?case
    by (simp add: upt_conv_Cons gf_fill_step nth_list_update flip: alpha_pow_Suc)
qed auto

lemma gf_fill_index:
  "i \<le> 255 \<Longrightarrow> length (index g) = 256 \<Longrightarrow>
     (i \<le> j \<longrightarrow> j < 255 \<longrightarrow>
        index (gf_fill [i..<255] (ucast (alpha_pow i)) g) ! unat (alpha_pow j) = of_nat j) \<and>
     (s \<notin> alpha_pow ` {i..<255} \<longrightarrow>
        index (gf_fill [i..<255] (ucast (alpha_pow i)) g) ! unat s = index g ! unat s)"
proof (induction i arbitrary: g j s rule: inc_induct)
  case (step n)
  let ?g = "g\<lparr>index := (index g)[unat (alpha_pow n) := of_nat n], alpha := (alpha g)[n := alpha_pow n]\<rparr>"
  have IH: "(Suc n \<le> j \<longrightarrow> j < 255 \<longrightarrow>
        index (gf_fill [Suc n..<255] (ucast (alpha_pow (Suc n))) ?g) ! unat (alpha_pow j) = of_nat j) \<and>
     (s \<notin> alpha_pow ` {Suc n..<255} \<longrightarrow>
        index (gf_fill [Suc n..<255] (ucast (alpha_pow (Suc n))) ?g) ! unat s = index ?g ! unat s)" for j s
    using step.prems by (intro step.IH) simp
  have fill: "gf_fill [n..<255] (ucast (alpha_pow n)) g = gf_fill [Suc n..<255] (ucast (alpha_pow (Suc n))) ?g"
    using step.hyps by (simp add: upt_conv_Cons gf_fill_step alpha_pow_Suc)
  have n: "alpha_pow n \<notin> alpha_pow ` {Suc n..<255}"
    using step.hyps by (auto dest: alpha_pow_inj [rotated -1])
  have at_n: "index (gf_fill [n..<255] (ucast (alpha_pow n)) g) ! unat (alpha_pow n) = of_nat n"
    using IH [of 0 "alpha_pow n"] n step.prems unat_u8_less [of "alpha_pow n"]
    by (simp add: fill del: unat_u8_less)
  show ?case
  proof (intro conjI impI)
    assume j: "n \<le> j" "j < 255"
    show "index (gf_fill [n..<255] (ucast (alpha_pow n)) g) ! unat (alpha_pow j) = of_nat j"
      using IH [of j 0] j at_n by (cases "j = n") (auto simp: fill)
  next
    assume s: "s \<notin> alpha_pow ` {n..<255}"
    then have "s \<notin> alpha_pow ` {Suc n..<255}" "s \<noteq> alpha_pow n" using step.hyps by auto
    then show "index (gf_fill [n..<255] (ucast (alpha_pow n)) g) ! unat s = index g ! unat s"
      using IH [of 0 s] by (simp add: fill word_unat_eq_iff)
  qed
qed simp

lemma alpha_gf_new: "i < 255 \<Longrightarrow> alpha gf_new ! i = alpha_pow i" "alpha gf_new ! 255 = 0"
  using gf_fill_alpha [of 0] by (simp_all add: gf_new_def Let_def FIELD_def)

lemma gf_log_alpha: "i < 255 \<Longrightarrow> gf_log gf_new (alpha_pow i) = i"
  using gf_fill_index [of 0 _ i]
  by (simp add: gf_log_def gf_new_def Let_def FIELD_def unsigned_of_nat take_bit_nat_eq_self)

lemma gf_log_0 [simp]: "gf_log gf_new 0 = A0"
  using gf_fill_index [of 0 _ _ 0]
  by (simp add: gf_log_def gf_new_def Let_def FIELD_def A0_def image_iff del: unsigned_0)

text \<open>The code's tables provide the interface of \<open>gf_tables\<close>.\<close>

interpretation uat: gf_tables "\<lambda>i. alpha gf_new ! i" "gf_log gf_new"
proof
  fix s :: u8 assume "s \<noteq> 0"
  then obtain i where i: "i < 255" "s = alpha_pow i" using alpha_pow_surj by blast
  then show "gf_log gf_new s < 255" "alpha gf_new ! gf_log gf_new s = s"
    by (simp_all add: gf_log_alpha alpha_gf_new)
qed (simp add: alpha_gf_new)

lemma gf_pow_nat: "gf_pow gf_new (int n) = alpha_pow n"
proof -
  have "nat (int n mod int FIELD) = n mod 255" by (simp add: FIELD_def nat_mod_distrib)
  then show ?thesis by (simp only: gf_pow_def uat.antilog_mod)
qed

lemma gf_pow_log: "s \<noteq> 0 \<Longrightarrow> gf_pow gf_new (int (gf_log gf_new s) + int k) = (gfx ^^ k) s"
  using gf_pow_nat [of "k + gf_log gf_new s"] 
  by (simp add: alpha_pow_add uat.alpha_logt add.commute)

section \<open>What each stage computes\<close>

lemma syndrome_step_horner: "syndrome_step gf_new b i s = b XOR (gfx ^^ (120 + i)) s"
  using gf_pow_log [of s "120 + i"] by (simp add: syndrome_step_def)

lemma syndromes_horner:
  assumes "raw \<noteq> []"
  shows "syndromes gf_new raw roots = map (\<lambda>i. horner (120 + i) raw) [0..<roots]"
proof -
  have "foldl (\<lambda>syn byte. map2 (syndrome_step gf_new byte) [0..<length syn] syn) (replicate roots b) bs =
      map (\<lambda>i. horner (120 + i) (b # bs)) [0..<roots]" for b bs
  proof (induction bs rule: rev_induct)
    case Nil
    show ?case by (simp add: horner_def map_replicate_const)
  next
    case (snoc c bs)
    have h: "horner e (b # bs @ [c]) = c XOR (gfx ^^ e) (horner e (b # bs))" for e
      using horner_snoc [of e "b # bs" c] by simp
    have f: "syndrome_step gf_new c = (\<lambda>i s. c XOR (gfx ^^ (120 + i)) s)"
      by (intro ext) (rule syndrome_step_horner)
    show ?case
      unfolding foldl_append foldl.simps snoc.IH h f
      using map2_map_same [of "\<lambda>i s. c XOR (gfx ^^ (120 + i)) s" "\<lambda>i. i" "[0..<roots]" "\<lambda>i. horner (120 + i) (b # bs)"]
      by (simp only: length_map length_upt diff_zero list.map_ident)
  qed
  then show ?thesis using assms by (cases raw) (simp_all add: syndromes_def)
qed

text \<open>The root search returns ascending positions inside the shortened word.\<close>

definition located :: "nat \<Rightarrow> nat list \<Rightarrow> bool" where
  "located pad loc \<longleftrightarrow> sorted_wrt (<) loc \<and> (\<forall>k \<in> set loc. pad \<le> k \<and> k < 255)"

lemma chien_located:
  assumes "chien g degree pad is reg roots_at loc = Some (roots_at', loc')"
    and "located pad loc" "sorted_wrt (<) is" "\<forall>i \<in> set is. 1 \<le> i \<and> i \<le> 255"
    and "\<forall>k \<in> set loc. \<forall>i \<in> set is. k < i - 1" "length roots_at = length loc"
  shows "located pad loc' \<and> length roots_at' = length loc'"
  using assms
proof (induction g degree pad "is" reg roots_at loc rule: chien.induct)
  case (2 g degree pad i "is" reg roots_at loc)
  obtain reg' q where t: "chien_turn g degree reg = (reg', q)" by fastforce
  have "located pad (loc @ [i - 1])" if "pad \<le> i - 1"
    using that "2.prems"(2,4,5) by (auto simp: located_def sorted_wrt_append)
  moreover have "\<forall>k \<in> set (loc @ [i - 1]). \<forall>i \<in> set is. k < i - 1"
    using "2.prems"(3-5) by auto
  ultimately show ?case
    using "2.IH"(1,2) [OF refl t [symmetric]] "2.prems" t
    by (auto simp: Let_def split: if_splits prod.splits)
qed simp

lemma error_values_count:
  assumes "error_values g roots degree omega lambda_log roots_at js corrections count = Some (cs, n)"
    and "g = gf_new" "distinct js" "\<forall>j \<in> set js. j < length corrections \<and> corrections ! j = 0"
    and "count = length (filter (\<lambda>c. c \<noteq> 0) corrections)"
  shows "length cs = length corrections \<and> n = length (filter (\<lambda>c. c \<noteq> 0) cs)"
  using assms
proof (induction g roots degree omega lambda_log roots_at js corrections count
    rule: error_values.induct)
  case (2 g roots degree omega lambda_log roots_at j js corrections count)
  have upd: "length (filter (\<lambda>c. c \<noteq> 0) (corrections[j := v])) = count + 1" if "v \<noteq> 0" for v
  proof -
    have j: "j < length corrections" "corrections ! j = 0" using "2.prems"(4) by auto
    have "corrections = take j corrections @ 0 # drop (Suc j) corrections"
      using id_take_nth_drop [OF j(1)] j(2) by simp
    then have "filter (\<lambda>c. c \<noteq> 0) corrections =
        filter (\<lambda>c. c \<noteq> 0) (take j corrections) @ filter (\<lambda>c. c \<noteq> 0) (drop (Suc j) corrections)"
      by (metis (mono_tags, lifting) filter.simps(2) filter_append)
    then show ?thesis using that j(1) "2.prems"(5) by (simp add: upd_conv_take_nth_drop)
  qed
  have nz: "alpha g ! (k mod FIELD) \<noteq> 0" for k
    using "2.prems"(2) by (simp add: FIELD_def uat.antilog_mod)
  note rest = "2.prems"(2) distinct.simps(2) [THEN iffD1, OF "2.prems"(3)]
  show ?case
  proof (cases "error_numerator g degree omega (roots_at ! j) = 0")
    case True
    then show ?thesis using "2.IH"(1) [OF refl True] "2.prems" by simp
  next
    case num: False
    let ?den = "error_denominator g roots degree lambda_log (roots_at ! j)"
    have den: "?den \<noteq> 0" using "2.prems"(1) num by (auto simp: Let_def)
    let ?v = "(gf_log g (error_numerator g degree omega (roots_at ! j)) +
      gf_log g (gf_pow g (int (roots_at ! j * 119 + FIELD))) + FIELD - gf_log g ?den) mod FIELD"
    have "error_values g roots degree omega lambda_log roots_at js
        (corrections[j := alpha g ! ?v]) (count + 1) = Some (cs, n)"
      using "2.prems"(1) num den by (simp add: Let_def)
    moreover have "\<forall>k \<in> set js. k < length (corrections[j := alpha g ! ?v]) \<and>
        corrections[j := alpha g ! ?v] ! k = 0"
      using "2.prems"(3,4) by (auto simp: nth_list_update)
    ultimately show ?thesis
      using "2.IH"(2) [OF refl num refl refl den refl] rest upd [OF nz] by simp
  qed
qed simp

text \<open>
  The verification loop recomputes the syndromes of the error word; flipping the located bytes
  adds exactly those to the syndromes of the received word.
\<close>

fun error_syndrome :: "nat \<Rightarrow> nat list \<Rightarrow> u8 list \<Rightarrow> nat \<Rightarrow> u8" where
  "error_syndrome e loc cs n =
     foldl (\<lambda>s j. s XOR (gfx ^^ (e * (254 - loc ! j))) (cs ! j)) 0 [0..<n]"

declare error_syndrome.simps [simp del]

lemma error_syndrome_0 [simp]: "error_syndrome e loc cs 0 = 0"
  by (simp add: error_syndrome.simps)

lemma error_syndrome_Suc [simp]:
  "error_syndrome e loc cs (Suc n) = error_syndrome e loc cs n XOR (gfx ^^ (e * (254 - loc ! n))) (cs ! n)"
  by (simp add: error_syndrome.simps)

lemma recomputed_error_syndrome:
  "recomputed_syndrome gf_new degree loc cs i = error_syndrome (120 + i) loc cs degree"
proof (induction degree)
  case (Suc n)
  have "gf_pow gf_new (int (gf_log gf_new c) + int (((120 + i) * (254 - k)) mod 255)) =
      (gfx ^^ ((120 + i) * (254 - k))) c" if "c \<noteq> 0" for c k
    using gf_pow_log [OF that] gfx_pow_mod by metis
  then show ?case
    using Suc by (simp add: recomputed_syndrome_def FIELD_def Let_def del: of_nat_mod)
qed (simp add: recomputed_syndrome_def)

lemma apply_corrections_Suc:
  "apply_corrections pad (Suc n) loc cs raw =
     (let w = apply_corrections pad n loc cs raw
      in w[loc ! n - pad := w ! (loc ! n - pad) XOR cs ! n])"
  by (simp add: apply_corrections_def Let_def)

lemma length_apply_corrections [simp]: "length (apply_corrections pad n loc cs raw) = length raw"
  by (induction n) (simp_all add: apply_corrections_Suc Let_def, simp add: apply_corrections_def)

lemma horner_apply_corrections:
  assumes "located pad loc" "length raw + pad = 255" "n \<le> length loc"
  shows "horner e (apply_corrections pad n loc cs raw) = horner e raw XOR error_syndrome e loc cs n"
  using assms(3)
proof (induction n)
  case 0
  show ?case by (simp add: apply_corrections_def)
next
  case (Suc n)
  have k: "pad \<le> loc ! n" "loc ! n < 255" using assms(1) Suc.prems by (auto simp: located_def)
  then have p: "loc ! n - pad < length raw" and e: "length raw - 1 - (loc ! n - pad) = 254 - loc ! n"
    using assms(2) by auto
  show ?case
    using Suc horner_flip [of "loc ! n - pad" "apply_corrections pad n loc cs raw"] p e
    by (simp add: apply_corrections_Suc Let_def xor.assoc)
qed

text \<open>Each located byte with a nonzero error value is changed, and no other.\<close>

lemma apply_corrections_other:
  "\<forall>j<n. loc ! j - pad \<noteq> p \<Longrightarrow> apply_corrections pad n loc cs raw ! p = raw ! p"
  by (induction n) (simp_all add: apply_corrections_Suc Let_def, simp add: apply_corrections_def)

lemma hamming_apply_corrections:
  assumes "located pad loc" "length raw + pad = 255" "n \<le> length loc" "n \<le> length cs"
  shows "hamming (apply_corrections pad n loc cs raw) raw = length (filter (\<lambda>c. c \<noteq> 0) (take n cs))"
  using assms(3,4)
proof (induction n)
  case 0
  show ?case by (simp add: apply_corrections_def hamming_self)
next
  case (Suc n)
  have k: "pad \<le> loc ! j \<and> loc ! j < 255" if "j \<le> n" for j
    using that assms(1) Suc.prems by (auto simp: located_def)
  have "loc ! j - pad \<noteq> loc ! n - pad" if "j < n" for j
  proof -
    have "loc ! j < loc ! n"
      using assms(1) that Suc.prems by (auto simp: located_def intro: sorted_wrt_nth_less)
    then show ?thesis using k [of j] that by auto
  qed
  then have "apply_corrections pad n loc cs raw ! (loc ! n - pad) = raw ! (loc ! n - pad)"
    by (intro apply_corrections_other) auto
  moreover have "loc ! n - pad < length raw" using k [of n] assms(2) by auto
  ultimately have "hamming (apply_corrections pad (Suc n) loc cs raw) raw =
      (if cs ! n = 0 then 0 else 1) + hamming (apply_corrections pad n loc cs raw) raw"
    by (simp add: apply_corrections_Suc Let_def hamming_flip)
  with Suc show ?case by (simp add: take_Suc_conv_app_nth)
qed

section \<open>The decoder\<close>

text \<open>The roots of a generator with \<open>roots\<close> parity bytes, as exponents of \<open>alpha\<close>.\<close>

definition uat_roots :: "nat \<Rightarrow> nat list" where
  "uat_roots roots = map (\<lambda>i. 120 + i) [0..<roots]"

lemma rs_codeword_uat: "rs_codeword (uat_roots roots) w = (\<forall>i<roots. horner (120 + i) w = 0)"
  unfolding rs_codeword_def uat_roots_def set_map set_upt by (simp only: ball_simps) auto

lemma rs_codeword_syndromes:
  "raw \<noteq> [] \<Longrightarrow> rs_codeword (uat_roots roots) raw = list_all (\<lambda>s. s = 0) (syndromes gf_new raw roots)"
  by (auto simp: rs_codeword_uat syndromes_horner list_all_iff)

lemma correct_errors_sound:
  assumes "correct_errors gf_new raw roots pad (syndromes gf_new raw roots) = Some (cw, n)"
    and "length raw + pad = 255" "raw \<noteq> []"
  shows "length cw = length raw \<and> rs_codeword (uat_roots roots) cw \<and> hamming cw raw = n"
proof -
  let ?syn = "syndromes gf_new raw roots"
  let ?si = "map (\<lambda>s. index gf_new ! unat s) ?syn"
  let ?ll = "map (\<lambda>i. index gf_new ! unat (berlekamp_massey gf_new roots ?si ! i)) [0..<roots + 1]"
  let ?deg = "locator_degree ?ll roots"
  have syn: "length ?syn = roots" "i < roots \<Longrightarrow> ?syn ! i = horner (120 + i) raw" for i
    by (simp_all add: syndromes_horner [OF assms(3)])
  obtain roots_at loc cs where
    chien: "chien gf_new ?deg pad [1..<FIELD + 1] ?ll [] [] = Some (roots_at, loc)"
    and deg: "length roots_at = ?deg"
    and ev: "error_values gf_new roots ?deg (omega_poly gf_new roots ?deg ?si ?ll) ?ll roots_at
        [0..<?deg] (replicate ?deg 0) 0 = Some (cs, n)"
    and check: "\<forall>i<roots. recomputed_syndrome gf_new ?deg loc cs i = ?syn ! i"
    and cw: "cw = apply_corrections pad ?deg loc cs raw"
    using assms(1) syn(1)
    by (auto simp: correct_errors_def Let_def split: if_splits option.splits prod.splits)
  have loc: "located pad loc" "length roots_at = length loc"
    using chien_located [OF chien] by (simp_all add: located_def FIELD_def sorted_wrt_upt)
  have cs: "length cs = ?deg" "n = length (filter (\<lambda>c. c \<noteq> 0) cs)"
    using error_values_count [OF ev refl] by simp_all
  have "horner (120 + i) cw = 0" if "i < roots" for i
    using horner_apply_corrections [OF loc(1) assms(2), of ?deg "120 + i" cs] check that syn
      loc(2) deg recomputed_error_syndrome [of ?deg loc cs i]
    by (simp add: cw)
  moreover have "hamming cw raw = n"
    using hamming_apply_corrections [OF loc(1) assms(2), of ?deg cs] loc(2) deg cs by (simp add: cw)
  ultimately show ?thesis by (simp add: cw rs_codeword_uat)
qed

lemma decode_shortened_Some:
  assumes "decode_shortened raw roots pad = Done (Some (data, n))"
  shows "\<exists>cw. length cw = length raw \<and> rs_codeword (uat_roots roots) cw \<and>
    data = take (length raw - roots) cw \<and> hamming cw raw = n"
proof (cases "list_all (\<lambda>s. s = 0) (syndromes gf_new raw roots)")
  case True
  then show ?thesis using assms
    by (intro exI [of _ raw])
      (auto simp: decode_shortened_def Let_def rs_codeword_syndromes hamming_self split: if_splits)
next
  case False
  then obtain cw where cw: "correct_errors gf_new raw roots pad (syndromes gf_new raw roots) = Some (cw, n)"
    "data = take (length cw - roots) cw" "length raw + pad = 255" "raw \<noteq> []"
    using assms
    by (auto simp: decode_shortened_def Let_def FIELD_def split: if_splits option.splits)
  then show ?thesis using correct_errors_sound [OF cw(1,3,4)] by auto
qed

lemma decode_shortened_codeword:
  "rs_codeword (uat_roots roots) raw \<Longrightarrow> length raw + pad = 255 \<Longrightarrow> 0 < roots \<Longrightarrow> roots < length raw \<Longrightarrow>
     decode_shortened raw roots pad = Done (Some (take (length raw - roots) raw, 0))"
  using rs_codeword_syndromes [of raw roots]
  by (auto simp: decode_shortened_def Let_def FIELD_def)

lemma decode_shortened_no_panic:
  "0 < length raw \<Longrightarrow> roots \<le> length raw \<Longrightarrow> decode_shortened raw roots pad \<noteq> Panic"
  by (auto simp: decode_shortened_def Let_def split: option.splits)

lemma decode_shortened_length:
  "decode_shortened raw roots pad = Done (Some (data, n)) \<Longrightarrow> length data = length raw - roots"
  using decode_shortened_Some by fastforce

section \<open>Frames\<close>

lemma filter_short_Some:
  "filter_short r = Done (Some (payload, n)) \<Longrightarrow>
     r = Done (Some (payload, n)) \<and> payload \<noteq> [] \<and> drop_bit 3 (payload ! 0) = 0"
  by (auto simp: filter_short_def split: run.splits option.splits if_splits)

lemma filter_short_no_panic:
  "r \<noteq> Panic \<Longrightarrow> (\<And>p n. r = Done (Some (p, n)) \<Longrightarrow> p \<noteq> []) \<Longrightarrow> filter_short r \<noteq> Panic"
  by (auto simp: filter_short_def split: run.splits option.splits)

lemma filter_short_block_no_panic:
  "length raw = 30 \<Longrightarrow> filter_short (decode_shortened raw 12 225) \<noteq> Panic"
  by (rule filter_short_no_panic)
    (auto simp: decode_shortened_no_panic dest!: decode_shortened_length)

lemma uplink_blocks_no_panic: "uplink_blocks raw blocks payload errors \<noteq> Panic"
proof (induction raw blocks payload errors rule: uplink_blocks.induct)
  case (2 raw block blocks payload errors)
  have "decode_shortened (map (\<lambda>i. raw ! (i * 6 + block)) [0..<92]) 20 163 \<noteq> Panic"
    by (rule decode_shortened_no_panic) simp_all
  then show ?case using "2.IH" by (auto simp: Let_def split: run.splits option.splits)
qed simp

text \<open>The bytes of one Reed-Solomon block of an uplink frame.\<close>

definition uplink_block :: "u8 list \<Rightarrow> nat \<Rightarrow> u8 list" where
  "uplink_block raw block = map (\<lambda>i. raw ! (i * 6 + block)) [0..<92]"

lemma uplink_blocks_Some:
  "uplink_blocks raw blocks payload errors = Done (Some (p, n)) \<Longrightarrow>
     \<exists>cws. length cws = length blocks \<and>
       (\<forall>i<length blocks. length (cws ! i) = 92 \<and> rs_codeword (uat_roots 20) (cws ! i)) \<and>
       p = payload @ concat (map (take 72) cws) \<and>
       n = errors + sum_list (map2 (\<lambda>cw b. hamming cw (uplink_block raw b)) cws blocks)"
proof (induction raw blocks payload errors rule: uplink_blocks.induct)
  case (2 raw block blocks payload errors)
  then obtain data count where
    d: "decode_shortened (uplink_block raw block) 20 163 = Done (Some (data, count))"
    and rest: "uplink_blocks raw blocks (payload @ data) (errors + count) = Done (Some (p, n))"
    by (auto simp: Let_def uplink_block_def split: run.splits option.splits)
  obtain cw where cw: "length cw = 92" "rs_codeword (uat_roots 20) cw" "data = take 72 cw"
    "hamming cw (uplink_block raw block) = count"
    using decode_shortened_Some [OF d] by (auto simp: uplink_block_def)
  obtain cws where "length cws = length blocks"
    "\<forall>i<length blocks. length (cws ! i) = 92 \<and> rs_codeword (uat_roots 20) (cws ! i)"
    "p = (payload @ data) @ concat (map (take 72) cws)"
    "n = (errors + count) + sum_list (map2 (\<lambda>cw b. hamming cw (uplink_block raw b)) cws blocks)"
    using "2.IH" [OF refl _ refl refl rest] d by (auto simp: uplink_block_def)
  with cw show ?case
    by (intro exI [of _ "cw # cws"]) (auto simp: nth_Cons split: nat.splits)
qed simp

lemma uplink_blocks_clean:
  "\<forall>b \<in> set blocks. rs_codeword (uat_roots 20) (uplink_block raw b) \<Longrightarrow>
     uplink_blocks raw blocks payload errors =
       Done (Some (payload @ concat (map (\<lambda>b. take 72 (uplink_block raw b)) blocks), errors))"
proof (induction blocks arbitrary: payload)
  case (Cons b blocks)
  have "decode_shortened (uplink_block raw b) 20 163 = Done (Some (take 72 (uplink_block raw b), 0))"
    using decode_shortened_codeword [of 20 "uplink_block raw b" 163] Cons.prems
    by (simp add: uplink_block_def)
  then have "uplink_blocks raw (b # blocks) payload errors =
      uplink_blocks raw blocks (payload @ take 72 (uplink_block raw b)) errors"
    by (simp add: Let_def flip: uplink_block_def)
  then show ?case using Cons.IH Cons.prems by simp
qed simp

lemma sample_codeword: "rs_codeword (uat_roots 2) [1, 164, 102]"
proof -
  have a: "alpha_pow 120 = 225" "alpha_pow 121 = 69" "alpha_pow 241 = 102"
    by (simp_all add: alpha_pow_eval)
  have "(gfx ^^ 120) 69 = 102" "(gfx ^^ 121) 225 = 102"
    using alpha_pow_add [of 120 121] alpha_pow_add [of 121 120] by (simp_all add: a)
  then show ?thesis
    using a unfolding rs_codeword_uat
    by (auto simp: horner_def alpha_pow_def less_2_cases_iff)
qed

lemma zero_codeword: "rs_codeword es (replicate n 0)"
proof -
  have "horner e (replicate n 0) = 0" for e
    by (induction n) (simp_all add: horner_def)
  then show ?thesis by (simp add: rs_codeword_def)
qed

section \<open>Properties\<close>

text \<open>C17: whatever \<open>decode_shortened\<close> returns is the data part of a true codeword of the code (all
  syndromes vanish) of the length of the received word, and the number it reports is exactly
  the number of bytes in which that codeword differs from the received word.\<close>

theorem decode_shortened_returns_codeword_data:
  assumes "decode_shortened raw roots pad = Done (Some (data, n))"
  shows "\<exists>cw. length cw = length raw \<and> rs_codeword (uat_roots roots) cw \<and>
    data = take (length raw - roots) cw \<and> hamming cw raw = n"
  using assms by (rule decode_shortened_Some)

lemma decode_shortened_returns_codeword_data_witness:
  "decode_shortened [1, 164, 102] 2 252 = Done (Some ([1], 0)) \<and>
   (\<exists>cw. length cw = 3 \<and> rs_codeword (uat_roots 2) cw \<and> [1] = take 1 cw \<and>
      hamming cw [1, 164, 102] = 0)"
proof
  show *: "decode_shortened [1, 164, 102] 2 252 = Done (Some ([1], 0))"
    using decode_shortened_codeword [of 2 "[1, 164, 102]" 252] sample_codeword by simp
  show "\<exists>cw. length cw = 3 \<and> rs_codeword (uat_roots 2) cw \<and> [1] = take 1 cw \<and>
      hamming cw [1, 164, 102] = 0"
    using decode_shortened_returns_codeword_data [OF *] by (simp add: eval_nat_numeral)
qed

text \<open>A received codeword is returned as it is, parity removed, with no correction.\<close>

lemma decode_shortened_accepts_codewords:
  assumes "rs_codeword (uat_roots roots) raw" "length raw + pad = 255" "0 < roots" "roots < length raw"
  shows "decode_shortened raw roots pad = Done (Some (take (length raw - roots) raw, 0))"
  using assms by (rule decode_shortened_codeword)

lemma decode_shortened_accepts_codewords_witness:
  "decode_shortened [1, 164, 102] 2 252 = Done (Some ([1], 0))"
  using decode_shortened_accepts_codewords [of 2 "[1, 164, 102]" 252] sample_codeword by simp

lemma correct_downlink_shape:
  assumes "correct_downlink raw = Done (Some (payload, n))"
  shows "(length payload = 18 \<and> drop_bit 3 (payload ! 0) = 0 \<and>
      (\<exists>cw. length cw = 30 \<and> rs_codeword (uat_roots 12) cw \<and> payload = take 18 cw \<and>
        hamming cw (take 30 raw) = n)) \<or>
    (length raw = 48 \<and> length payload = 34 \<and> drop_bit 3 (payload ! 0) \<noteq> 0 \<and>
      (\<exists>cw. length cw = 48 \<and> rs_codeword (uat_roots 14) cw \<and> payload = take 34 cw \<and>
        hamming cw raw = n))"
proof -
  have short: ?thesis if "filter_short (decode_shortened (take 30 raw) 12 225) = Done (Some (payload, n))"
    "length raw \<ge> 30"
    using filter_short_Some [OF that(1)] decode_shortened_Some [of "take 30 raw" 12 225 payload n] that(2)
    by auto
  show ?thesis
  proof (cases "length raw = 30")
    case True
    then show ?thesis using short assms by (simp add: correct_downlink_def)
  next
    case False
    then have l: "length raw = 48" using assms by (auto simp: correct_downlink_def split: if_splits)
    consider "filter_short (decode_shortened (take 30 raw) 12 225) = Done (Some (payload, n))"
      | "decode_shortened raw 14 207 = Done (Some (payload, n))" "payload \<noteq> []" "drop_bit 3 (hd payload) \<noteq> 0"
      using assms l by (auto simp: correct_downlink_def split: run.splits option.splits if_splits)
    then show ?thesis
    proof cases
      case 1
      then show ?thesis using short l by simp
    next
      case 2
      then show ?thesis using decode_shortened_Some [OF 2(1)] l by (auto simp: hd_conv_nth)
    qed
  qed
qed

text \<open>An accepted downlink frame is either a short one, 18 bytes of payload type 0 from a
  codeword of the (30, 18) code near the first 30 received bytes, or a long one, 34 bytes of
  another payload type from a codeword of the (48, 34) code; the count is the distance.\<close>

lemma correct_downlink_payload:
  assumes "correct_downlink raw = Done (Some (payload, n))"
  shows "(length payload = 18 \<and> drop_bit 3 (payload ! 0) = 0 \<and>
      (\<exists>cw. length cw = 30 \<and> rs_codeword (uat_roots 12) cw \<and> payload = take 18 cw \<and>
        hamming cw (take 30 raw) = n)) \<or>
    (length raw = 48 \<and> length payload = 34 \<and> drop_bit 3 (payload ! 0) \<noteq> 0 \<and>
      (\<exists>cw. length cw = 48 \<and> rs_codeword (uat_roots 14) cw \<and> payload = take 34 cw \<and>
        hamming cw raw = n))"
  using assms by (rule correct_downlink_shape)

lemma correct_downlink_payload_witness:
  "\<exists>cw. length cw = 30 \<and> rs_codeword (uat_roots 12) cw \<and> replicate 18 0 = take 18 cw \<and>
     hamming cw (replicate 30 0) = 0"
proof -
  have "decode_shortened (replicate 30 0) 12 225 = Done (Some (replicate 18 0, 0))"
    using decode_shortened_codeword [of 12 "replicate 30 0" 225] zero_codeword by simp
  then have "correct_downlink (replicate 30 0) = Done (Some (replicate 18 0, 0))"
    by (simp add: correct_downlink_def filter_short_def)
  from correct_downlink_payload [OF this] show ?thesis by simp
qed

text \<open>Neither entry point can panic, whatever bytes and however many it is given.\<close>

lemma fec_no_panic: "correct_downlink raw \<noteq> Panic \<and> correct_uplink raw \<noteq> Panic"
proof
  show "correct_uplink raw \<noteq> Panic"
    using uplink_blocks_no_panic by (simp add: correct_uplink_def)
  have "length raw = 48 \<Longrightarrow> decode_shortened raw 14 207 \<noteq> Panic"
    by (intro decode_shortened_no_panic) auto
  then show "correct_downlink raw \<noteq> Panic"
    using filter_short_block_no_panic [of raw] filter_short_block_no_panic [of "take 30 raw"]
    by (auto simp: correct_downlink_def split: run.splits option.splits)
qed

lemma correct_uplink_shape:
  assumes "correct_uplink raw = Done (Some (payload, n))"
  shows "length raw = 552 \<and> length payload = 432 \<and>
    (\<exists>cws. length cws = 6 \<and> (\<forall>cw \<in> set cws. length cw = 92 \<and> rs_codeword (uat_roots 20) cw) \<and>
      payload = concat (map (take 72) cws) \<and>
      n = sum_list (map2 (\<lambda>cw b. hamming cw (uplink_block raw b)) cws [0..<6]))"
proof -
  have l: "length raw = 552" "uplink_blocks raw [0..<6] [] 0 = Done (Some (payload, n))"
    using assms by (auto simp: correct_uplink_def split: if_splits)
  obtain cws where cws: "length cws = 6"
    "\<forall>i<6. length (cws ! i) = 92 \<and> rs_codeword (uat_roots 20) (cws ! i)"
    "payload = concat (map (take 72) cws)"
    "n = sum_list (map2 (\<lambda>cw b. hamming cw (uplink_block raw b)) cws [0..<6])"
    using uplink_blocks_Some [OF l(2)] by auto
  then have all: "\<forall>cw \<in> set cws. length cw = 92 \<and> rs_codeword (uat_roots 20) cw"
    by (auto simp: in_set_conv_nth)
  then have "map (length \<circ> take 72) cws = replicate 6 72"
    using cws(1) by (intro replicate_eqI) auto
  then have "length payload = 432" by (simp add: cws(3) length_concat sum_list_replicate)
  with l(1) cws all show ?thesis by blast
qed

text \<open>An accepted uplink frame yields 432 bytes, the data parts of six codewords of the
  (92, 72) code in block order, and the count sums the distances of the codewords to the six
  interleaved blocks of the received frame.\<close>

lemma correct_uplink_payload:
  assumes "correct_uplink raw = Done (Some (payload, n))"
  shows "length raw = 552 \<and> length payload = 432 \<and>
    (\<exists>cws. length cws = 6 \<and> (\<forall>cw \<in> set cws. length cw = 92 \<and> rs_codeword (uat_roots 20) cw) \<and>
      payload = concat (map (take 72) cws) \<and>
      n = sum_list (map2 (\<lambda>cw b. hamming cw (uplink_block raw b)) cws [0..<6]))"
  using assms by (rule correct_uplink_shape)

lemma correct_uplink_payload_witness:
  "\<exists>p. correct_uplink (replicate 552 0) = Done (Some (p, 0)) \<and> length p = 432"
proof -
  have b: "uplink_block (replicate 552 0) b = replicate 92 0" if "b < 6" for b
    using that by (auto simp: uplink_block_def intro: nth_equalityI)
  then have c: "\<forall>b \<in> set [0..<6]. rs_codeword (uat_roots 20) (uplink_block (replicate 552 0) b)"
    by (auto simp: zero_codeword)
  obtain p where p: "correct_uplink (replicate 552 0) = Done (Some (p, 0))"
    using uplink_blocks_clean [OF c] by (simp add: correct_uplink_def)
  from correct_uplink_payload [OF p] p show ?thesis by blast
qed

end
