(* ===== verification/Capture.thy ===== *)
theory Capture
  imports Prelude "HOL-Library.Monad_Syntax"
begin

text \<open>
  Acquisition clocks, \<^verbatim>\<open>ez-proto/src/capture.rs\<close>, and the contract of a recording file,
  \<^verbatim>\<open>ez-proto/src/recording_capture.rs\<close>. Unsigned fields are naturals, below \<open>2 ^ 64\<close> or
  \<open>2 ^ 32\<close> in the source, and every \<open>checked_\<close> operation is a bind on \<open>option\<close>; the 128-bit
  products of two such numbers cannot overflow. The error messages are a datatype that carries the
  numbers they print.
\<close>

section \<open>Checked arithmetic\<close>

definition chk_u64 :: "nat \<Rightarrow> nat option" where
  "chk_u64 n = (if n < 2 ^ 64 then Some n else None)"

definition chk_i128 :: "int \<Rightarrow> int option" where
  "chk_i128 i = (if - (2 ^ 127) \<le> i \<and> i < 2 ^ 127 then Some i else None)"

lemma chk_u64_Some [simp]: "chk_u64 n = Some m \<longleftrightarrow> m = n \<and> n < 2 ^ 64"
  by (auto simp: chk_u64_def)

lemma chk_i128_Some [simp]: "chk_i128 i = Some j \<longleftrightarrow> j = i \<and> - (2 ^ 127) \<le> i \<and> i < 2 ^ 127"
  by (auto simp: chk_i128_def)

section \<open>Clocks\<close>

record capture_clock =
  epoch :: nat
  source_sample_index :: nat
  source_sample_rate_hz :: nat
  sample_stride :: nat
  origin_unix_ns :: "nat option"
  discontinuous :: bool

record capture_timestamp =
  ts_epoch :: nat
  ts_source_sample_index :: nat
  ts_phase_fifths :: nat
  ts_source_sample_rate_hz :: nat
  ts_origin_unix_ns :: "nat option"

definition clock_new :: "nat \<Rightarrow> nat \<Rightarrow> nat \<Rightarrow> nat option \<Rightarrow> capture_clock" where
  "clock_new ep index rate origin =
     \<lparr>epoch = ep, source_sample_index = index, source_sample_rate_hz = rate, sample_stride = 1,
      origin_unix_ns = origin, discontinuous = False\<rparr>"

definition stamp_relative_time_ns :: "capture_timestamp \<Rightarrow> nat option" where
  "stamp_relative_time_ns t =
     (if ts_source_sample_rate_hz t = 0 \<or> ts_phase_fifths t \<ge> 5 then None
      else
        let fifths = ts_source_sample_index t * 5 + ts_phase_fifths t
        in chk_u64 (fifths * 1000000000 div (ts_source_sample_rate_hz t * 5)))"

definition stamp_unix_time_ns :: "capture_timestamp \<Rightarrow> nat option" where
  "stamp_unix_time_ns t =
     do { origin \<leftarrow> ts_origin_unix_ns t; time \<leftarrow> stamp_relative_time_ns t; chk_u64 (origin + time) }"

definition message_timestamp_2400 :: "capture_clock \<Rightarrow> int \<Rightarrow> capture_timestamp option" where
  "message_timestamp_2400 c offset_fifths =
     (if source_sample_rate_hz c = 0 \<or> sample_stride c = 0 then None
      else do {
        base \<leftarrow> chk_i128 (int (source_sample_index c) * 5);
        shift \<leftarrow> chk_i128 (offset_fifths * int (sample_stride c));
        fifths \<leftarrow> chk_i128 (base + shift);
        if fifths < 0 then None
        else do {
          index \<leftarrow> chk_u64 (nat (fifths div 5));
          Some \<lparr>ts_epoch = epoch c, ts_source_sample_index = index,
                ts_phase_fifths = nat (fifths mod 5),
                ts_source_sample_rate_hz = source_sample_rate_hz c,
                ts_origin_unix_ns = origin_unix_ns c\<rparr> } })"

definition clock_relative_time_ns :: "capture_clock \<Rightarrow> nat \<Rightarrow> nat option" where
  "clock_relative_time_ns c sample_offset =
     (if source_sample_rate_hz c = 0 \<or> sample_stride c = 0 then None
      else
        let index = source_sample_index c + sample_offset * sample_stride c
        in chk_u64 (index * 1000000000 div source_sample_rate_hz c))"

definition clock_unix_time_ns :: "capture_clock \<Rightarrow> nat \<Rightarrow> nat option" where
  "clock_unix_time_ns c sample_offset =
     do { origin \<leftarrow> origin_unix_ns c; time \<leftarrow> clock_relative_time_ns c sample_offset; chk_u64 (origin + time) }"

definition offset_samples :: "capture_clock \<Rightarrow> nat \<Rightarrow> capture_clock option" where
  "offset_samples c samples =
     do {
       delta \<leftarrow> chk_u64 (samples * sample_stride c);
       index \<leftarrow> chk_u64 (source_sample_index c + delta);
       Some (c\<lparr>source_sample_index := index\<rparr>) }"

section \<open>Recordings\<close>

datatype recording_error =
  InvalidClock | IndexOverflow | EpochChanged nat nat | GeometryChanged | SamplesLost nat nat | CountOverflow

record recording_capture =
  first_clock :: capture_clock
  center_frequency_hz :: nat
  rec_sample_rate_hz :: nat
  rec_samples :: nat
  next_source_sample_index :: nat

definition continuation_error ::
    "recording_capture \<Rightarrow> capture_clock \<Rightarrow> nat \<Rightarrow> nat \<Rightarrow> recording_error option" where
  "continuation_error previous clock center rate =
     (if epoch (first_clock previous) \<noteq> epoch clock
      then Some (EpochChanged (epoch (first_clock previous)) (epoch clock))
      else if center_frequency_hz previous \<noteq> center \<or> rec_sample_rate_hz previous \<noteq> rate
        \<or> source_sample_rate_hz (first_clock previous) \<noteq> source_sample_rate_hz clock
        \<or> sample_stride (first_clock previous) \<noteq> sample_stride clock
        \<or> origin_unix_ns (first_clock previous) \<noteq> origin_unix_ns clock
      then Some GeometryChanged
      else if discontinuous clock \<or> next_source_sample_index previous \<noteq> source_sample_index clock
      then Some (SamplesLost (next_source_sample_index previous) (source_sample_index clock))
      else None)"

definition recording_accept ::
    "recording_capture option \<Rightarrow> capture_clock \<Rightarrow> nat \<Rightarrow> nat \<Rightarrow> nat \<Rightarrow> recording_error + recording_capture" where
  "recording_accept previous clock center rate samples =
     (if sample_stride clock = 0 \<or> rate = 0 \<or> source_sample_rate_hz clock div sample_stride clock \<noteq> rate
      then Inl InvalidClock
      else case offset_samples clock samples of
        None \<Rightarrow> Inl IndexOverflow
      | Some next \<Rightarrow>
          (case Option.bind previous (\<lambda>p. continuation_error p clock center rate) of
             Some e \<Rightarrow> Inl e
           | None \<Rightarrow>
               (case chk_u64 ((case previous of None \<Rightarrow> 0 | Some p \<Rightarrow> rec_samples p) + samples) of
                  None \<Rightarrow> Inl CountOverflow
                | Some recorded \<Rightarrow>
                    Inr \<lparr>first_clock = (case previous of None \<Rightarrow> clock | Some p \<Rightarrow> first_clock p),
                         center_frequency_hz = center, rec_sample_rate_hz = rate,
                         rec_samples = recorded,
                         next_source_sample_index = source_sample_index next\<rparr>)))"

text \<open>A recording in progress: its blocks, each a clock, a tuning and a number of samples, offered
  in order to \<open>recording_accept\<close>; the first error ends it.\<close>

type_synonym block = "capture_clock \<times> nat \<times> nat \<times> nat"

fun record_blocks :: "recording_capture option \<Rightarrow> block list \<Rightarrow> recording_error + recording_capture option" where
  "record_blocks previous [] = Inr previous"
| "record_blocks previous ((clock, center, rate, samples) # blocks) =
     (case recording_accept previous clock center rate samples of
        Inl e \<Rightarrow> Inl e
      | Inr r \<Rightarrow> record_blocks (Some r) blocks)"

section \<open>Lemmas\<close>

lemma offset_samples_Some:
  "offset_samples c n = Some c' \<longleftrightarrow>
     c' = c\<lparr>source_sample_index := source_sample_index c + n * sample_stride c\<rparr> \<and>
     source_sample_index c + n * sample_stride c < 2 ^ 64"
  by (auto simp: offset_samples_def bind_eq_Some_conv)

lemma recording_accept_first:
  "recording_accept None clock center rate n = Inr r \<Longrightarrow>
     first_clock r = clock \<and> rec_samples r = n \<and>
     next_source_sample_index r = source_sample_index clock + n * sample_stride clock"
  by (auto simp: recording_accept_def offset_samples_Some split: if_splits option.splits)

lemma recording_accept_next:
  "recording_accept (Some p) clock center rate n = Inr r \<Longrightarrow>
     first_clock r = first_clock p \<and> rec_samples r = rec_samples p + n \<and>
     epoch clock = epoch (first_clock p) \<and> sample_stride clock = sample_stride (first_clock p) \<and>
     \<not> discontinuous clock \<and>
     source_sample_index clock = next_source_sample_index p \<and>
     next_source_sample_index r = next_source_sample_index p + n * sample_stride clock"
  by (auto simp: recording_accept_def offset_samples_Some continuation_error_def
      split: if_splits option.splits)

lemma message_timestamp_sum:
  assumes "\<bar>int (source_sample_index c) * 5\<bar> \<le> 2 ^ 124" "\<bar>k * int (sample_stride c)\<bar> \<le> 2 ^ 124"
    and f: "int (source_sample_index c) * 5 + k * int (sample_stride c) = f"
  shows "message_timestamp_2400 c k =
    (if source_sample_rate_hz c = 0 \<or> sample_stride c = 0 \<or> f < 0 then None
     else chk_u64 (nat (f div 5)) \<bind> (\<lambda>index.
       Some \<lparr>ts_epoch = epoch c, ts_source_sample_index = index, ts_phase_fifths = nat (f mod 5),
             ts_source_sample_rate_hz = source_sample_rate_hz c, ts_origin_unix_ns = origin_unix_ns c\<rparr>))"
proof -
  have ok: "chk_i128 x = Some x" if "\<bar>x\<bar> \<le> 2 ^ 125" for x
    using that by (auto simp: abs_le_iff)
  have "\<bar>f\<bar> \<le> 2 ^ 125" using assms by (auto simp: abs_le_iff)
  then have "chk_i128 (int (source_sample_index c) * 5) = Some (int (source_sample_index c) * 5)"
    "chk_i128 (k * int (sample_stride c)) = Some (k * int (sample_stride c))"
    "chk_i128 f = Some f"
    using assms(1,2) by (auto intro!: ok)
  then show ?thesis unfolding message_timestamp_2400_def by (simp add: f del: chk_i128_Some)
qed

text \<open>The number of samples in a list of blocks.\<close>

definition total_samples :: "block list \<Rightarrow> nat" where
  "total_samples blocks = sum_list (map (snd \<circ> snd \<circ> snd) blocks)"

lemma total_samples_simps [simp]:
  "total_samples [] = 0" "total_samples ((c, f, r, n) # bs) = n + total_samples bs"
  by (simp_all add: total_samples_def)

lemma record_blocks_contiguous:
  assumes "record_blocks (Some p) blocks = Inr (Some r)"
    and "next_source_sample_index p =
      source_sample_index (first_clock p) + rec_samples p * sample_stride (first_clock p)"
  shows "first_clock r = first_clock p \<and> rec_samples r = rec_samples p + total_samples blocks \<and>
    next_source_sample_index r =
      source_sample_index (first_clock p) + rec_samples r * sample_stride (first_clock p) \<and>
    (\<forall>i < length blocks.
       epoch (fst (blocks ! i)) = epoch (first_clock p) \<and>
       source_sample_index (fst (blocks ! i)) =
         source_sample_index (first_clock p) +
         (rec_samples p + total_samples (take i blocks)) * sample_stride (first_clock p))"
  using assms
proof (induction blocks arbitrary: p)
  case (Cons b blocks)
  obtain c f s n where b: "b = (c, f, s, n)" by (cases b)
  obtain q where q: "recording_accept (Some p) c f s n = Inr q"
    and rest: "record_blocks (Some q) blocks = Inr (Some r)"
    using Cons.prems(1) by (auto simp: b split: sum.splits)
  note acc = recording_accept_next [OF q]
  have "next_source_sample_index q =
      source_sample_index (first_clock q) + rec_samples q * sample_stride (first_clock q)"
    using acc Cons.prems(2) by (simp add: algebra_simps)
  from Cons.IH [OF rest this] show ?case
    using acc Cons.prems(2) by (auto simp: b nth_Cons algebra_simps split: nat.splits)
qed auto

section \<open>Properties\<close>

text \<open>C27: in a recording that was never stopped, block \<open>i\<close> starts exactly at the acquisition sample
  that the number of samples already in the file says, in the epoch of the first block, so a
  position in the file determines the acquisition index; the file's counters are exact.\<close>

theorem recording_positions_exact:
  assumes "record_blocks None (b # blocks) = Inr (Some r)"
  shows "first_clock r = fst b \<and> rec_samples r = total_samples (b # blocks) \<and>
    next_source_sample_index r =
      source_sample_index (fst b) + total_samples (b # blocks) * sample_stride (fst b) \<and>
    (\<forall>i < length (b # blocks).
       epoch (fst ((b # blocks) ! i)) = epoch (fst b) \<and>
       source_sample_index (fst ((b # blocks) ! i)) =
         source_sample_index (fst b) + total_samples (take i (b # blocks)) * sample_stride (fst b))"
proof -
  obtain c f s n where b: "b = (c, f, s, n)" by (cases b)
  obtain q where q: "recording_accept None c f s n = Inr q"
    and rest: "record_blocks (Some q) blocks = Inr (Some r)"
    using assms by (auto simp: b split: sum.splits)
  note first = recording_accept_first [OF q]
  show ?thesis
    using record_blocks_contiguous [OF rest] first
    by (auto simp: b nth_Cons algebra_simps split: nat.splits)
qed

lemma recording_positions_exact_witness:
  "let c = (clock_new 1 700 16800003 None)\<lparr>sample_stride := 7\<rparr>;
       blocks = [(c\<lparr>discontinuous := True\<rparr>, 1090, 2400000, 10),
                 (c\<lparr>source_sample_index := 770\<rparr>, 1090, 2400000, 10)]
   in \<exists>r. record_blocks None blocks = Inr (Some r) \<and> next_source_sample_index r = 840"
proof -
  let ?c = "(clock_new 1 700 16800003 None)\<lparr>sample_stride := 7\<rparr>"
  let ?b = "(?c\<lparr>discontinuous := True\<rparr>, 1090, 2400000, 10) :: block"
  let ?bs = "[(?c\<lparr>source_sample_index := 770\<rparr>, 1090, 2400000, 10) :: block]"
  obtain r where r: "record_blocks None (?b # ?bs) = Inr (Some r)"
    by (simp add: clock_new_def recording_accept_def offset_samples_def chk_u64_def continuation_error_def)
  have "next_source_sample_index r = 840"
    using recording_positions_exact [OF r] by (simp add: clock_new_def)
  with r show ?thesis unfolding Let_def by blast
qed

text \<open>Stamping a message does not depend on how the capture was cut into blocks: counting the
  offset from a block that starts \<open>n\<close> samples later gives the same stamp, time of day included.\<close>

lemma message_timestamp_block_independent:
  assumes "offset_samples c n = Some c'" and "- (2 ^ 90) \<le> k" "k < 2 ^ 90"
    and "n < 2 ^ 64" "sample_stride c < 2 ^ 32"
  shows "message_timestamp_2400 c' k = message_timestamp_2400 c (5 * int n + k)"
proof -
  define i st where "i = int (source_sample_index c)" and "st = int (sample_stride c)"
  have c': "c' = c\<lparr>source_sample_index := source_sample_index c + n * sample_stride c\<rparr>"
    and small: "source_sample_index c + n * sample_stride c < 2 ^ 64"
    using assms(1) by (auto simp: offset_samples_Some)
  have st: "0 \<le> st" "st < 2 ^ 32" using assms(5) by (simp_all add: st_def flip: of_nat_less_iff)
  have n: "int n < 2 ^ 64" using assms(4) by (simp flip: of_nat_less_iff)
  have "int (source_sample_index c + n * sample_stride c) < int (2 ^ 64)" using small by (simp only: of_nat_less_iff)
  then have i: "0 \<le> i" "0 \<le> int n * st" "i + int n * st < 2 ^ 64" using st by (simp_all add: i_def st_def)
  have kst: "\<bar>k * st\<bar> \<le> 2 ^ 90 * 2 ^ 32" "\<bar>k\<bar> \<le> 2 ^ 90"
    using assms(2,3) st by (auto simp only: abs_mult intro!: mult_mono)
  have eq: "(i + int n * st) * 5 + k * st = i * 5 + (5 * int n + k) * st" by (simp add: algebra_simps)
  have bounds: "\<bar>(i + int n * st) * 5\<bar> \<le> 2 ^ 124" "\<bar>i * 5\<bar> \<le> 2 ^ 124" "\<bar>k * st\<bar> \<le> 2 ^ 124"
    "\<bar>(5 * int n + k) * st\<bar> \<le> 2 ^ 124"
    using i kst(1) by (auto simp: abs_le_iff algebra_simps)
  have fields: "int (source_sample_index c') = i + int n * st" "int (sample_stride c') = st"
    "epoch c' = epoch c" "source_sample_rate_hz c' = source_sample_rate_hz c"
    "sample_stride c' = sample_stride c" "origin_unix_ns c' = origin_unix_ns c"
    by (simp_all add: c' i_def st_def)
  show ?thesis
    using message_timestamp_sum [of c' k "i * 5 + (5 * int n + k) * st", unfolded fields, folded st_def, OF bounds(1,3) eq]
      message_timestamp_sum [of c "5 * int n + k" "i * 5 + (5 * int n + k) * st", folded i_def st_def,
        OF bounds(2,4) refl]
    by (simp only:)
qed

lemma message_timestamp_block_independent_witness:
  "let c = (clock_new 11 700 16800003 (Some 1000000))\<lparr>sample_stride := 7\<rparr>;
       c' = c\<lparr>source_sample_index := 1400\<rparr>
   in message_timestamp_2400 c' (-499) = message_timestamp_2400 c (5 * int 100 + (-499))"
  unfolding Let_def
  by (rule message_timestamp_block_independent [where n = 100])
    (simp_all add: clock_new_def offset_samples_def chk_u64_def)

text \<open>A stamp's nanosecond time is the exact position of the message in the acquisition, the
  block start plus the offset in fifths of the decimated period, rounded down once; no phase and no
  fraction of the decimation is lost on the way.\<close>

lemma message_time_exact:
  assumes "message_timestamp_2400 c k = Some t" and "stamp_relative_time_ns t = Some time"
  shows "time = nat ((int (source_sample_index c) * 5 + k * int (sample_stride c)) * 1000000000 div
    (5 * int (source_sample_rate_hz c)))"
proof -
  let ?f = "int (source_sample_index c) * 5 + k * int (sample_stride c)"
  have f: "0 \<le> ?f" and t: "ts_source_sample_index t = nat (?f div 5)" "ts_phase_fifths t = nat (?f mod 5)"
    "ts_source_sample_rate_hz t = source_sample_rate_hz c"
    using assms(1) by (auto simp: message_timestamp_2400_def bind_eq_Some_conv not_less split: if_splits)
  have "ts_source_sample_index t * 5 + ts_phase_fifths t = nat ?f"
    unfolding t using f by (simp only: nat_div_distrib nat_mod_distrib) simp
  then have "time = nat ?f * 1000000000 div (source_sample_rate_hz c * 5)"
    using assms(2) by (simp add: stamp_relative_time_ns_def t(3) Let_def split: if_splits)
  moreover obtain m where m: "?f = int m" using f by (rule zero_le_imp_eq_int [THEN exE])
  moreover have "int m * 1000000000 div (5 * int r) = int (m * 1000000000 div (r * 5))" for r
    by (simp add: zdiv_int mult.commute)
  ultimately show ?thesis by (simp only: nat_int)
qed

lemma message_time_exact_witness:
  "\<exists>t. message_timestamp_2400 ((clock_new 11 700 16800003 (Some 1000000))\<lparr>sample_stride := 7\<rparr>) 1234 = Some t \<and>
     stamp_relative_time_ns t = Some (nat ((700 * 5 + 1234 * 7) * 1000000000 div (5 * 16800003)))"
proof -
  let ?c = "(clock_new 11 700 16800003 (Some 1000000))\<lparr>sample_stride := 7\<rparr>"
  obtain t time where t: "message_timestamp_2400 ?c 1234 = Some t" "stamp_relative_time_ns t = Some time"
    by (simp add: message_timestamp_2400_def clock_new_def chk_i128_def chk_u64_def stamp_relative_time_ns_def Let_def)
  from message_time_exact [OF this] t show ?thesis by (simp add: clock_new_def)
qed

end
