(* ===== verification/Messages.thy ===== *)
theory Messages
  imports Capture
begin

text \<open>
  The data of \<^verbatim>\<open>ez-proto/src/messages.rs\<close> and \<^verbatim>\<open>ez-proto/src/meteor.rs\<close>: channels, the frames of the
  streams and the events a server sends. Floating point fields are kept as their IEEE bit
  patterns (\<open>f32\<close>, \<open>f64\<close>), which nothing here interprets; counters and times are naturals, text is
  \<open>string\<close>. Record fields carry a prefix where two structs share a name.
\<close>

type_synonym f32 = u32
type_synonym f64 = u64
type_synonym channel_id = u32

definition CLIENT_CHANNEL_START :: channel_id where
  "CLIENT_CHANNEL_START = 0x80000000"

record client_channels =
  cc_spectrum :: channel_id
  cc_audio :: channel_id
  cc_adsb :: channel_id
  cc_lrpt :: channel_id

definition client_channels_ids :: "client_channels \<Rightarrow> channel_id list" where
  "client_channels_ids c = [cc_spectrum c, cc_audio c, cc_adsb c, cc_lrpt c]"

definition client_channels_contains :: "client_channels \<Rightarrow> channel_id \<Rightarrow> bool" where
  "client_channels_contains c i = (i \<in> set (client_channels_ids c))"

datatype pipeline_kind = KSpectrum | KAudio | KAdsbPackets | KLrptTelemetry

datatype demod_mode = Raw | Am | Fm | Wfm | Lsb | Usb | Dsb | Cw

record audio_parameters =
  rf_bandwidth_hz :: nat
  output_sample_rate_hz :: nat
  stereo :: bool
  cw_tone_hz :: nat

definition default_cw_tone_hz :: nat where
  "default_cw_tone_hz = 800"

fun audio_parameters_for_mode :: "demod_mode \<Rightarrow> audio_parameters" where
  "audio_parameters_for_mode mode =
     \<lparr>rf_bandwidth_hz =
        (case mode of Raw \<Rightarrow> 0 | Am \<Rightarrow> 15000 | Fm \<Rightarrow> 25000 | Wfm \<Rightarrow> 180000
         | Lsb \<Rightarrow> 3300 | Usb \<Rightarrow> 3300 | Dsb \<Rightarrow> 4600 | Cw \<Rightarrow> 200),
      output_sample_rate_hz = 48000, stereo = False, cw_tone_hz = default_cw_tone_hz\<rparr>"

datatype meteor_profile = Oqpsk72 | Oqpsk80Interleaved

fun symbol_rate_hz :: "meteor_profile \<Rightarrow> nat" where
  "symbol_rate_hz Oqpsk72 = 72000"
| "symbol_rate_hz Oqpsk80Interleaved = 80000"

definition interleaved :: "meteor_profile \<Rightarrow> bool" where
  "interleaved p = (p = Oqpsk80Interleaved)"

definition occupied_bandwidth_hz :: "meteor_profile \<Rightarrow> nat" where
  "occupied_bandwidth_hz p = symbol_rate_hz p * 3 div 2"

record channel_spec =
  cs_meteor_profile :: "meteor_profile option"
  cs_id :: channel_id
  cs_center_offset_hz :: int
  cs_channel_sample_rate_hz :: nat
  cs_audio :: "audio_parameters option"
  cs_kind :: pipeline_kind
  cs_demod_mode :: "demod_mode option"

record spectrum_frame =
  sf_channel_id :: channel_id
  sf_center_hz :: nat
  sf_sample_rate_hz :: nat
  sf_bins :: "f32 list"
  sf_timestamp_ms :: nat
  sf_observation_revision :: nat
  sf_measurement_bins :: "f32 list option"

record squelch_state =
  sq_db :: f32
  sq_revision :: nat

record audio_frame =
  af_clock :: capture_clock
  af_audio_clock :: capture_clock
  af_sequence :: nat
  af_squelch :: squelch_state
  af_channel_id :: channel_id
  af_sample_rate_hz :: nat
  af_channels :: u8
  af_samples :: "f32 list"

record aircraft_quality =
  aq_reliable :: bool
  aq_corrected_bits :: u8
  aq_score :: f64

record aircraft_telemetry =
  at_icao :: u32
  at_address_type :: string
  at_source :: string
  at_callsign :: "string option"
  at_altitude_ft :: "int option"
  at_lat :: "f64 option"
  at_lon :: "f64 option"
  at_ground_speed_kt :: "f64 option"
  at_track_deg :: "f64 option"
  at_heading_deg :: "f64 option"
  at_heading_true :: bool
  at_airspeed_kt :: "f64 option"
  at_airspeed_true :: bool
  at_surface_direction_deg :: "f64 option"
  at_on_ground :: "bool option"
  at_vertical_rate_fpm :: "int option"
  at_emergency :: "u8 option"
  at_squawk :: "u32 option"
  at_altitude_geometric :: bool
  at_position_seen_ms :: "nat option"
  at_position_source :: "string option"
  at_position_quality :: "aircraft_quality option"
  at_msg_count :: nat
  at_last_seen_ms :: nat

record receiver_snapshot =
  rs_timestamp_ms :: nat
  rs_total_messages :: nat
  rs_decode_stats :: "nat list \<times> f64 list \<times> nat"
  rs_messages_per_second :: f64

record aircraft_snapshot =
  as_channel_id :: channel_id
  as_aircraft :: "aircraft_telemetry list"
  as_receiver :: receiver_snapshot

record telemetry_frame =
  tf_product_id :: nat
  tf_channel_id :: channel_id
  tf_apid :: nat
  tf_width :: nat
  tf_height :: nat
  tf_pixels :: "u8 list"
  tf_line_times_unix_seconds :: "f64 option list"
  tf_final_product :: bool
  tf_product_complete :: bool
  tf_rs_ok :: nat
  tf_rs_failed :: nat
  tf_costas_locked :: bool
  tf_frame_locked :: bool

datatype gain_mode = Automatic | Manual

record hardware_status =
  hs_connected :: bool
  hs_source_kind :: string
  hs_frequency_hz :: nat
  hs_sample_rate_hz :: nat
  hs_gain_db :: f64
  hs_requested_gain_db :: "f64 option"
  hs_gain_mode :: "gain_mode option"
  hs_error :: "string option"

record recording_status =
  rst_stop_reason :: "string option"
  rst_channel_id :: channel_id
  rst_active :: bool
  rst_path :: "string option"
  rst_bytes_written :: nat
  rst_duration_sec :: f64

datatype server_event =
    Welcome nat client_channels "channel_spec list"
  | Spectrum spectrum_frame
  | Audio audio_frame
  | Aircraft aircraft_snapshot
  | Telemetry telemetry_frame
  | Hardware hardware_status
  | Recording recording_status
  | Pong nat
  | ErrorEvent string
  | Squelch channel_id nat "string + squelch_state"
  | ChannelRemoved channel_id
  | StreamGap channel_id nat

text \<open>The receiver envelope of a mission profile, from \<^verbatim>\<open>lrpt-decode/src/lib.rs\<close>; its two clients are the
  LRPT decoder and the daemon.\<close>

datatype configuration_error = TooFewSamples meteor_profile nat nat | MissionProfileRequired

definition validate_mission_sampling :: "nat \<Rightarrow> meteor_profile \<Rightarrow> configuration_error + unit" where
  "validate_mission_sampling sample_rate p =
     (let minimum = symbol_rate_hz p * 4 in
      if sample_rate < minimum then Inl (TooFewSamples p minimum sample_rate) else Inr ())"

end
