(* ===== verification/Ordered_Map.thy ===== *)
theory Ordered_Map
  imports Prelude
begin

text \<open>
  The ordered maps of the source (\<^verbatim>\<open>BTreeMap\<close>) as association lists in increasing key order:
  lookup is \<open>map_of\<close>, \<open>om_insert\<close> is \<open>insert\<close>, \<open>om_adjust\<close> is a write through \<open>get_mut\<close> and
  \<open>om_remove\<close> is \<open>remove\<close>. \<open>om_sum\<close> adds a number over the values, for the totals the components
  keep beside their maps.
\<close>

definition om_keys :: "('k \<times> 'v) list \<Rightarrow> 'k list" where
  "om_keys m = map fst m"

definition om_ok :: "('k::linorder \<times> 'v) list \<Rightarrow> bool" where
  "om_ok m = sorted_wrt (<) (om_keys m)"

fun om_insert :: "'k::linorder \<Rightarrow> 'v \<Rightarrow> ('k \<times> 'v) list \<Rightarrow> ('k \<times> 'v) list" where
  "om_insert k v [] = [(k, v)]"
| "om_insert k v ((k', v') # m) =
     (if k < k' then (k, v) # (k', v') # m
      else if k = k' then (k, v) # m
      else (k', v') # om_insert k v m)"

definition om_adjust :: "'k \<Rightarrow> ('v \<Rightarrow> 'v) \<Rightarrow> ('k \<times> 'v) list \<Rightarrow> ('k \<times> 'v) list" where
  "om_adjust k f m = map (\<lambda>(k', v). (k', if k' = k then f v else v)) m"

definition om_remove :: "'k \<Rightarrow> ('k \<times> 'v) list \<Rightarrow> ('k \<times> 'v) list" where
  "om_remove k m = filter (\<lambda>(k', _). k' \<noteq> k) m"

definition om_sum :: "('v \<Rightarrow> nat) \<Rightarrow> ('k \<times> 'v) list \<Rightarrow> nat" where
  "om_sum f m = sum_list (map (f \<circ> snd) m)"

section \<open>Keys and order\<close>

lemma om_keys_simps [simp]: "om_keys [] = []" "om_keys (x # m) = fst x # om_keys m"
  by (simp_all add: om_keys_def)

lemma om_ok_Nil [simp]: "om_ok []"
  by (simp add: om_ok_def)

lemma om_ok_Cons [simp]: "om_ok (x # m) = ((\<forall>k \<in> set (om_keys m). fst x < k) \<and> om_ok m)"
  by (simp add: om_ok_def)

lemma om_keys_adjust [simp]: "om_keys (om_adjust k f m) = om_keys m"
  by (induction m) (auto simp: om_adjust_def)

lemma set_om_keys_insert [simp]: "set (om_keys (om_insert k v m)) = insert k (set (om_keys m))"
  by (induction k v m rule: om_insert.induct) auto

lemma om_keys_remove [simp]: "om_keys (om_remove k m) = filter (\<lambda>k'. k' \<noteq> k) (om_keys m)"
  by (induction m) (auto simp: om_remove_def)

lemma om_ok_insert [simp]: "om_ok m \<Longrightarrow> om_ok (om_insert k v m)"
  by (induction k v m rule: om_insert.induct) auto

lemma om_ok_adjust [simp]: "om_ok (om_adjust k f m) = om_ok m"
  by (simp add: om_ok_def)

lemma om_ok_remove [simp]: "om_ok m \<Longrightarrow> om_ok (om_remove k m)"
  by (simp add: om_ok_def sorted_wrt_filter)

lemma om_ok_distinct: "om_ok m \<Longrightarrow> distinct (om_keys m)"
  by (simp add: om_ok_def strict_sorted_iff)

lemma map_of_None_keys: "map_of m k = None \<longleftrightarrow> k \<notin> set (om_keys m)"
  by (simp add: map_of_eq_None_iff om_keys_def)

lemma map_of_Some_keys: "map_of m k = Some v \<Longrightarrow> k \<in> set (om_keys m)"
  using map_of_None_keys [of m k] by simp

lemma length_om_adjust [simp]: "length (om_adjust k f m) = length m"
  by (simp add: om_adjust_def)

lemma length_om_insert:
  "om_ok m \<Longrightarrow> length (om_insert k v m) = (if map_of m k = None then Suc (length m) else length m)"
  by (induction k v m rule: om_insert.induct) (auto simp: map_of_None_keys)

lemma length_om_remove_le: "length (om_remove k m) \<le> length m"
  by (simp add: om_remove_def)

section \<open>Lookups\<close>

lemma map_of_om_insert [simp]: "map_of (om_insert k v m) = (map_of m)(k \<mapsto> v)"
  by (induction k v m rule: om_insert.induct) auto

lemma map_of_om_adjust [simp]:
  "map_of (om_adjust k f m) k' = (if k' = k then map_option f (map_of m k') else map_of m k')"
  by (induction m) (auto simp: om_adjust_def)

lemma map_of_om_remove [simp]: "map_of (om_remove k m) k' = (if k' = k then None else map_of m k')"
  by (induction m) (auto simp: om_remove_def)

lemma om_ok_map_of: "om_ok m \<Longrightarrow> map_of m k = Some v \<longleftrightarrow> (k, v) \<in> set m"
  using om_ok_distinct [of m] by (simp add: map_of_eq_Some_iff om_keys_def)

lemma om_insert_twice [simp]: "om_insert k v (om_insert k w m) = om_insert k v m"
  by (induction k w m rule: om_insert.induct) auto

lemma om_insert_same: "om_ok m \<Longrightarrow> map_of m k = Some v \<Longrightarrow> om_insert k v m = m"
proof (induction m)
  case (Cons x m)
  then have "fst x < k" if "fst x \<noteq> k" using that map_of_Some_keys [of m k v] by (cases x) auto
  then show ?case using Cons by (cases x) (auto dest: less_asym)
qed simp

lemma om_insert_neq_Nil [simp]: "om_insert k v m \<noteq> []"
  by (induction k v m rule: om_insert.induct) auto

lemma hd_om_insert:
  "hd (om_insert k v m) = (case m of [] \<Rightarrow> (k, v) | x # _ \<Rightarrow> if fst x < k then x else (k, v))"
  by (cases m) (auto simp: not_less_iff_gr_or_eq)

lemma set_om_insert: "om_ok m \<Longrightarrow> set (om_insert k v m) = insert (k, v) {x \<in> set m. fst x \<noteq> k}"
  by (induction k v m rule: om_insert.induct) (auto simp: om_keys_def)

lemma om_first_le: "om_ok m \<Longrightarrow> k \<in> set (om_keys m) \<Longrightarrow> fst (hd m) \<le> k"
  by (cases m) (auto simp: less_imp_le)

lemma om_last_ge: "om_ok m \<Longrightarrow> k \<in> set (om_keys m) \<Longrightarrow> k \<le> fst (last m)"
proof (induction m)
  case (Cons x m)
  have "fst x < fst (last m)" if "m \<noteq> []" using Cons.prems(1) that by (auto simp: om_keys_def)
  then show ?case using Cons by (cases "m = []") (auto simp: om_keys_def dest: less_imp_le)
qed simp

lemma om_ends: "m \<noteq> [] \<Longrightarrow> fst (hd m) \<in> set (om_keys m) \<and> fst (last m) \<in> set (om_keys m)"
  by (simp add: om_keys_def)

section \<open>Totals\<close>

lemma om_sum_simps [simp]: "om_sum f [] = 0" "om_sum f (x # m) = f (snd x) + om_sum f m"
  by (simp_all add: om_sum_def)

lemma om_sum_insert_new: "map_of m k = None \<Longrightarrow> om_sum f (om_insert k v m) = f v + om_sum f m"
  by (induction k v m rule: om_insert.induct) auto

lemma om_sum_insert:
  "om_ok m \<Longrightarrow> om_sum f (om_insert k v m) + (case map_of m k of None \<Rightarrow> 0 | Some w \<Rightarrow> f w) = om_sum f m + f v"
  by (induction k v m rule: om_insert.induct) (auto simp: map_of_None_keys split: option.split dest!: map_of_Some_keys)

lemma om_adjust_absent: "k \<notin> set (om_keys m) \<Longrightarrow> om_adjust k f m = m"
  by (induction m) (auto simp: om_adjust_def)

lemma om_remove_absent: "k \<notin> set (om_keys m) \<Longrightarrow> om_remove k m = m"
  by (induction m) (auto simp: om_remove_def)

lemma om_sum_adjust:
  "om_ok m \<Longrightarrow> map_of m k = Some v \<Longrightarrow>
     om_sum f (om_adjust k g m) + f v = om_sum f m + f (g v)"
proof (induction m)
  case (Cons x m)
  obtain a b where x: "x = (a, b)" by force
  show ?case
  proof (cases "a = k")
    case True
    then have "om_adjust k g m = m" using Cons.prems x by (intro om_adjust_absent) auto
    then show ?thesis using True Cons.prems x by (simp add: om_adjust_def)
  next
    case False
    then show ?thesis using Cons x by (simp add: om_adjust_def)
  qed
qed simp

lemma om_sum_remove:
  "om_ok m \<Longrightarrow> map_of m k = Some v \<Longrightarrow> om_sum f (om_remove k m) + f v = om_sum f m"
proof (induction m)
  case (Cons x m)
  obtain a b where x: "x = (a, b)" by force
  show ?case
  proof (cases "a = k")
    case True
    then have "om_remove k m = m" using Cons.prems x by (intro om_remove_absent) auto
    then show ?thesis using True Cons.prems x by (simp add: om_remove_def)
  next
    case False
    then show ?thesis using Cons x by (simp add: om_remove_def)
  qed
qed simp

lemma om_sum_member: "map_of m k = Some v \<Longrightarrow> f v \<le> om_sum f m"
  by (induction m) (auto split: if_splits)

lemma om_sum_adjust_le: "(\<And>v. f (g v) \<le> f v) \<Longrightarrow> om_sum f (om_adjust k g m) \<le> om_sum f m"
  by (induction m) (auto simp: om_adjust_def intro: add_mono)

lemma om_sum_adjust_less:
  "map_of m k = Some v \<Longrightarrow> (\<And>v. f (g v) \<le> f v) \<Longrightarrow> f (g v) < f v \<Longrightarrow>
     om_sum f (om_adjust k g m) < om_sum f m"
proof (induction m)
  case (Cons x m)
  obtain a b where x: "x = (a, b)" by force
  have le: "om_sum f (om_adjust k g m) \<le> om_sum f m" by (rule om_sum_adjust_le) (rule Cons.prems(2))
  show ?case
    using Cons le x by (cases "a = k") (auto simp: om_adjust_def intro: add_less_le_mono)
qed simp

end
