(* ===== verification/Stream_Queue.thy ===== *)
theory Stream_Queue
  imports Messages Ordered_Map "HOL-Library.Sublist"
begin

text \<open>
  The bounded live-stream queue of \<^verbatim>\<open>ez-proto/src/stream_queue.rs\<close>: per channel a deque of frames
  with a count of skipped ones, over all channels a byte budget and a round-robin cursor. Times
  (\<open>Instant\<close>) are naturals; \<open>layout\<close> holds the two sizes \<open>size_of\<close> returns, which the
  compiler chooses; counters saturate at \<open>2 ^ 64 - 1\<close>. \<open>push\<close> is cut into the stages of its body:
  entry, coalescing of a progressive telemetry frame, the loop that makes room in the channel,
  the append and the loop that sheds bytes.
\<close>

section \<open>State\<close>

definition STREAM_AUDIO_CAPACITY :: nat where "STREAM_AUDIO_CAPACITY = 8"
definition STREAM_CHANNEL_CAPACITY :: nat where "STREAM_CHANNEL_CAPACITY = 32"
definition STREAM_BYTE_CAPACITY :: nat where "STREAM_BYTE_CAPACITY = 160 * 1024 * 1024"
definition TELEMETRY_FINAL_CAPACITY :: nat where "TELEMETRY_FINAL_CAPACITY = 8"

type_synonym queued = "server_event \<times> nat \<times> nat"

record slot =
  frames :: "queued list"
  skipped :: nat
  observed_at :: "nat option"
  protect_front :: bool

definition slot_default :: slot where
  "slot_default = \<lparr>frames = [], skipped = 0, observed_at = None, protect_front = False\<rparr>"

record stream_queue =
  channels :: "(channel_id \<times> slot) list"
  last_channel :: "channel_id option"
  bytes :: nat
  total_skipped :: nat

definition queue_default :: stream_queue where
  "queue_default = \<lparr>channels = [], last_channel = None, bytes = 0, total_skipped = 0\<rparr>"

record layout =
  event_size :: nat
  aircraft_size :: nat

section \<open>Events\<close>

definition is_critical_telemetry :: "server_event \<Rightarrow> bool" where
  "is_critical_telemetry event =
     (case event of
        Telemetry f \<Rightarrow> tf_final_product f \<or> tf_product_complete f \<or>
          (tf_width f = 0 \<and> tf_height f = 0 \<and> tf_pixels f = [])
      | _ \<Rightarrow> False)"

definition is_stream :: "server_event \<Rightarrow> bool" where
  "is_stream event =
     (case event of Spectrum _ \<Rightarrow> True | Audio _ \<Rightarrow> True | Aircraft _ \<Rightarrow> True | Telemetry _ \<Rightarrow> True
      | StreamGap _ _ \<Rightarrow> True | _ \<Rightarrow> False)"

text \<open>The frames a progressive telemetry frame replaces.\<close>

definition is_progressive :: "server_event \<Rightarrow> bool" where
  "is_progressive event =
     (case event of
        Telemetry q \<Rightarrow> \<not> tf_final_product q \<and> \<not> tf_product_complete q \<and>
          (tf_width q \<noteq> 0 \<or> tf_height q \<noteq> 0 \<or> tf_pixels q \<noteq> [])
      | _ \<Rightarrow> False)"

definition str_len :: "string option \<Rightarrow> nat" where
  "str_len s = (case s of None \<Rightarrow> 0 | Some t \<Rightarrow> length t)"

definition weight :: "layout \<Rightarrow> server_event \<Rightarrow> nat" where
  "weight ly event =
     event_size ly +
     (case event of
        Audio f \<Rightarrow> length (af_samples f) * 4
      | Spectrum f \<Rightarrow>
          (length (sf_bins f) + (case sf_measurement_bins f of None \<Rightarrow> 0 | Some m \<Rightarrow> length m)) * 4
      | Telemetry f \<Rightarrow> length (tf_pixels f) + length (tf_line_times_unix_seconds f) * 8
      | Aircraft f \<Rightarrow>
          sum_list (map (\<lambda>a. aircraft_size ly + length (at_address_type a) + length (at_source a) +
            str_len (at_callsign a) + str_len (at_position_source a)) (as_aircraft f))
      | _ \<Rightarrow> 0)"

text \<open>The channel and capacity of a data frame.\<close>

definition stream_target :: "server_event \<Rightarrow> (channel_id \<times> nat) option" where
  "stream_target event =
     (case event of
        Spectrum f \<Rightarrow> Some (sf_channel_id f, 1)
      | Audio f \<Rightarrow> Some (af_channel_id f, STREAM_AUDIO_CAPACITY)
      | Aircraft f \<Rightarrow> Some (as_channel_id f, 1)
      | Telemetry f \<Rightarrow> Some (tf_channel_id f, TELEMETRY_FINAL_CAPACITY)
      | _ \<Rightarrow> None)"

section \<open>Slots\<close>

definition slot_of :: "stream_queue \<Rightarrow> channel_id \<Rightarrow> slot" where
  "slot_of q i = (case map_of (channels q) i of None \<Rightarrow> slot_default | Some s \<Rightarrow> s)"

definition protected :: "slot \<Rightarrow> nat" where
  "protected s = (if protect_front s then 1 else 0)"

text \<open>The positions \<open>iter().enumerate().skip(protected)\<close> visits whose event satisfies a predicate.\<close>

definition positions :: "(server_event \<Rightarrow> bool) \<Rightarrow> slot \<Rightarrow> nat list" where
  "positions P s = filter (\<lambda>i. P (fst (frames s ! i))) [protected s..<length (frames s)]"

definition first_position :: "(server_event \<Rightarrow> bool) \<Rightarrow> slot \<Rightarrow> nat option" where
  "first_position P s = (case positions P s of [] \<Rightarrow> None | i # _ \<Rightarrow> Some i)"

definition last_position :: "(server_event \<Rightarrow> bool) \<Rightarrow> slot \<Rightarrow> nat option" where
  "last_position P s = (if positions P s = [] then None else Some (last (positions P s)))"

definition evictable :: "slot \<Rightarrow> nat option" where
  "evictable s = first_position (\<lambda>e. \<not> is_critical_telemetry e) s"

definition drop_slot :: "nat \<Rightarrow> slot \<Rightarrow> slot" where
  "drop_slot index s = s\<lparr>frames := remove_nth index (frames s), skipped := sat_add (skipped s) 1\<rparr>"

text \<open>Remove a queued frame: its bytes are given back and the loss is counted twice, for the channel
  and overall.\<close>

definition drop_frame :: "channel_id \<Rightarrow> nat \<Rightarrow> stream_queue \<Rightarrow> stream_queue" where
  "drop_frame i index q =
     q\<lparr>channels := om_adjust i (drop_slot index) (channels q),
       bytes := bytes q - snd (snd (frames (slot_of q i) ! index)),
       total_skipped := sat_add (total_skipped q) 1\<rparr>"

definition count_skip :: "channel_id \<Rightarrow> stream_queue \<Rightarrow> stream_queue" where
  "count_skip i q =
     q\<lparr>channels := om_adjust i (\<lambda>s. s\<lparr>skipped := sat_add (skipped s) 1\<rparr>) (channels q),
       total_skipped := sat_add (total_skipped q) 1\<rparr>"

text \<open>\<open>entry(id).or_default()\<close>\<close>

definition entry :: "channel_id \<Rightarrow> stream_queue \<Rightarrow> stream_queue" where
  "entry i q =
     (case map_of (channels q) i of
        None \<Rightarrow> q\<lparr>channels := om_insert i slot_default (channels q)\<rparr>
      | Some _ \<Rightarrow> q)"

definition observe :: "channel_id \<Rightarrow> nat \<Rightarrow> stream_queue \<Rightarrow> stream_queue" where
  "observe i at q =
     q\<lparr>channels := om_adjust i (\<lambda>s. s\<lparr>observed_at := Some at\<rparr>) (channels q)\<rparr>"

section \<open>Push\<close>

definition coalesce :: "channel_id \<Rightarrow> server_event \<Rightarrow> stream_queue \<Rightarrow> stream_queue" where
  "coalesce i event q =
     (case event of
        Telemetry f \<Rightarrow>
          if \<not> tf_final_product f \<and> \<not> tf_product_complete f
          then case last_position is_progressive (slot_of q i) of
              None \<Rightarrow> q
            | Some index \<Rightarrow> drop_frame i index q
          else q
      | _ \<Rightarrow> q)"

lemma evictable_Some:
  "evictable s = Some index \<Longrightarrow> protected s \<le> index \<and> index < length (frames s) \<and>
     \<not> is_critical_telemetry (fst (frames s ! index))"
proof -
  assume "evictable s = Some index"
  then have "index \<in> set (positions (\<lambda>e. \<not> is_critical_telemetry e) s)"
    by (auto simp: evictable_def first_position_def split: list.splits)
  then show ?thesis by (simp add: positions_def)
qed

lemma slot_of_drop:
  "map_of (channels q) i \<noteq> None \<Longrightarrow>
     slot_of (drop_frame i index q) j = (if j = i then drop_slot index (slot_of q i) else slot_of q j)"
  by (auto simp: slot_of_def drop_frame_def split: option.splits)

lemma frames_slot_of_ne: "frames (slot_of q i) \<noteq> [] \<Longrightarrow> map_of (channels q) i = Some (slot_of q i)"
  by (auto simp: slot_of_def slot_default_def split: option.splits)

lemma evictable_present: "evictable (slot_of q i) = Some index \<Longrightarrow> map_of (channels q) i = Some (slot_of q i)"
  by (rule frames_slot_of_ne) (auto dest: evictable_Some)

text \<open>The loop \<open>while slot.frames.len() >= capacity\<close>. The second component is the value the function
  returns early, if it does.\<close>

function make_room :: "channel_id \<Rightarrow> bool \<Rightarrow> nat \<Rightarrow> stream_queue \<Rightarrow> stream_queue \<times> bool option" where
  "make_room i final capacity q =
     (if length (frames (slot_of q i)) \<ge> capacity then
        case evictable (slot_of q i) of
          None \<Rightarrow> if \<not> final then (count_skip i q, Some True) else (q, Some False)
        | Some index \<Rightarrow> make_room i final capacity (drop_frame i index q)
      else (q, None))"
  by pat_completeness auto
termination
  by (relation "measure (\<lambda>(i, _, _, q). length (frames (slot_of q i)))")
    (auto simp: slot_of_drop evictable_present drop_slot_def dest!: evictable_Some)

definition enqueue :: "channel_id \<Rightarrow> queued \<Rightarrow> stream_queue \<Rightarrow> stream_queue" where
  "enqueue i f q =
     q\<lparr>channels := om_adjust i (\<lambda>s. s\<lparr>frames := frames s @ [f]\<rparr>) (channels q),
       bytes := bytes q + snd (snd f)\<rparr>"

text \<open>\<open>min_by_key\<close> returns the first of several minima.\<close>

definition min_by_time :: "(channel_id \<times> nat) list \<Rightarrow> channel_id option" where
  "min_by_time cs =
     (case cs of [] \<Rightarrow> None
      | c # cs \<Rightarrow> Some (fst (foldl (\<lambda>m c. if snd c < snd m then c else m) c cs)))"

definition oldest_channel :: "stream_queue \<Rightarrow> channel_id option" where
  "oldest_channel q =
     min_by_time (List.map_filter
       (\<lambda>(i, s). map_option (\<lambda>index. (i, fst (snd (frames s ! index)))) (evictable s)) (channels q))"

definition queued_frames :: "stream_queue \<Rightarrow> nat" where
  "queued_frames q = om_sum (\<lambda>s. length (frames s)) (channels q)"

lemma queued_frames_drop:
  "evictable (slot_of q i) = Some index \<Longrightarrow> queued_frames (drop_frame i index q) < queued_frames q"
  unfolding queued_frames_def drop_frame_def
  using om_sum_adjust_less [of "channels q" i "slot_of q i" "\<lambda>s. length (frames s)" "drop_slot index"]
  by (auto simp: drop_slot_def length_remove_nth_le evictable_present dest!: evictable_Some)

text \<open>The loop \<open>while self.bytes > STREAM_BYTE_CAPACITY\<close>. The \<open>unwrap\<close> of the position cannot fail
  (\<open>oldest_channel_evictable\<close> below); the branch is there to make the function total.\<close>

function shed :: "stream_queue \<Rightarrow> stream_queue \<times> bool" where
  "shed q =
     (if bytes q > STREAM_BYTE_CAPACITY then
        case oldest_channel q of
          None \<Rightarrow> (q, False)
        | Some i \<Rightarrow>
            (case evictable (slot_of q i) of
               None \<Rightarrow> (q, False)
             | Some index \<Rightarrow> shed (drop_frame i index q))
      else (q, True))"
  by pat_completeness auto
termination
  by (relation "measure queued_frames") (auto simp: queued_frames_drop)

declare make_room.simps [simp del] shed.simps [simp del]

definition note_gap :: "channel_id \<Rightarrow> nat \<Rightarrow> nat \<Rightarrow> stream_queue \<Rightarrow> stream_queue \<times> bool" where
  "note_gap i n at q =
     (if n = 0 then (q, True)
      else if map_of (channels q) i = None \<and> length (channels q) \<ge> STREAM_CHANNEL_CAPACITY
      then (q, False)
      else
        let q = entry i q
        in (q\<lparr>channels := om_adjust i
                (\<lambda>s. s\<lparr>skipped := sat_add (skipped s) n, observed_at := Some at\<rparr>) (channels q),
              total_skipped := sat_add (total_skipped q) n\<rparr>, True))"

definition push_frame ::
    "layout \<Rightarrow> server_event \<Rightarrow> nat \<Rightarrow> channel_id \<Rightarrow> nat \<Rightarrow> stream_queue \<Rightarrow> stream_queue \<times> bool" where
  "push_frame ly event at i capacity q =
     (if map_of (channels q) i = None \<and> length (channels q) \<ge> STREAM_CHANNEL_CAPACITY
      then (q\<lparr>total_skipped := sat_add (total_skipped q) 1\<rparr>, False)
      else
        let q = observe i at (entry i q);
            final = is_critical_telemetry event
        in if final \<and> length (frames (slot_of q i)) \<ge> capacity then (q, False)
           else
             let q = coalesce i event q;
                 capacity = capacity + (if capacity = 1 \<and> protect_front (slot_of q i) then 1 else 0)
             in case make_room i final capacity q of
                  (q, Some r) \<Rightarrow> (q, r)
                | (q, None) \<Rightarrow> shed (enqueue i (event, at, weight ly event) q))"

definition push :: "layout \<Rightarrow> server_event \<Rightarrow> nat \<Rightarrow> stream_queue \<Rightarrow> stream_queue \<times> bool" where
  "push ly event at q =
     (case event of
        StreamGap i n \<Rightarrow> note_gap i n at q
      | _ \<Rightarrow>
          (case stream_target event of
             None \<Rightarrow> (q, False)
           | Some (i, capacity) \<Rightarrow> push_frame ly event at i capacity q))"

section \<open>Pop and clear\<close>

definition next_channel :: "stream_queue \<Rightarrow> channel_id option" where
  "next_channel q =
     (case find (\<lambda>i. case last_channel q of None \<Rightarrow> True | Some l \<Rightarrow> i > l) (om_keys (channels q)) of
        Some i \<Rightarrow> Some i
      | None \<Rightarrow> (case om_keys (channels q) of [] \<Rightarrow> None | i # _ \<Rightarrow> Some i))"

definition pop_channel :: "channel_id \<Rightarrow> stream_queue \<Rightarrow> (server_event \<times> nat) option \<times> stream_queue" where
  "pop_channel i q =
     (let s = slot_of q i in
      if skipped s > 0 \<and> \<not> protect_front s
      then (Some (StreamGap i (skipped s), the (observed_at s)),
            q\<lparr>channels := om_adjust i (\<lambda>s. s\<lparr>protect_front := frames s \<noteq> [], skipped := 0\<rparr>) (channels q)\<rparr>)
      else case frames s of
        [] \<Rightarrow> (None, q)
      | (event, at, w) # fs \<Rightarrow>
          (Some (event, at),
           q\<lparr>channels := om_adjust i (\<lambda>s. s\<lparr>frames := fs, protect_front := False\<rparr>) (channels q),
             bytes := bytes q - w\<rparr>))"

definition retire :: "channel_id \<Rightarrow> stream_queue \<Rightarrow> stream_queue" where
  "retire i q =
     (if frames (slot_of q i) = [] \<and> skipped (slot_of q i) = 0
      then q\<lparr>channels := om_remove i (channels q)\<rparr> else q)"

definition pop :: "stream_queue \<Rightarrow> (server_event \<times> nat) option \<times> stream_queue" where
  "pop q =
     (case next_channel q of
        None \<Rightarrow> (None, q)
      | Some i \<Rightarrow>
          let (event, q) = pop_channel i (q\<lparr>last_channel := Some i\<rparr>)
          in (event, retire i q))"

definition clear :: "channel_id \<Rightarrow> stream_queue \<Rightarrow> stream_queue" where
  "clear i q =
     (case map_of (channels q) i of
        None \<Rightarrow> q
      | Some s \<Rightarrow> q\<lparr>channels := om_remove i (channels q),
                    bytes := bytes q - sum_list (map (snd \<circ> snd) (frames s))\<rparr>)"

definition buffered_bytes :: "stream_queue \<Rightarrow> nat" where
  "buffered_bytes q = bytes q"

definition skipped_frames :: "stream_queue \<Rightarrow> nat" where
  "skipped_frames q = total_skipped q"

section \<open>The invariant\<close>

definition slot_ok :: "layout \<Rightarrow> channel_id \<Rightarrow> slot \<Rightarrow> bool" where
  "slot_ok ly i s \<longleftrightarrow>
     (\<forall>(e, at, w) \<in> set (frames s). (\<exists>c. stream_target e = Some (i, c)) \<and> w = weight ly e) \<and>
     (protect_front s \<longrightarrow> frames s \<noteq> []) \<and>
     observed_at s \<noteq> None \<and>
     length (frames s) \<le> 8 \<and> skipped s < 2 ^ 64"

definition slot_bytes :: "slot \<Rightarrow> nat" where
  "slot_bytes s = sum_list (map (snd \<circ> snd) (frames s))"

text \<open>What holds at every point of \<open>push\<close>.\<close>

definition queue_core :: "layout \<Rightarrow> stream_queue \<Rightarrow> bool" where
  "queue_core ly q \<longleftrightarrow>
     om_ok (channels q) \<and> length (channels q) \<le> STREAM_CHANNEL_CAPACITY \<and>
     (\<forall>i s. map_of (channels q) i = Some s \<longrightarrow> slot_ok ly i s) \<and>
     bytes q = om_sum slot_bytes (channels q) \<and> total_skipped q < 2 ^ 64"

text \<open>Between calls no channel is idle: it has a frame to deliver or a loss to report.\<close>

definition queue_ok :: "layout \<Rightarrow> stream_queue \<Rightarrow> bool" where
  "queue_ok ly q \<longleftrightarrow>
     queue_core ly q \<and>
     (\<forall>i s. map_of (channels q) i = Some s \<longrightarrow> frames s \<noteq> [] \<or> skipped s > 0)"

lemma queue_core_slot: "queue_core ly q \<Longrightarrow> map_of (channels q) i = Some s \<Longrightarrow> slot_ok ly i s"
  by (simp add: queue_core_def)

lemma slot_of_present: "map_of (channels q) i = Some s \<Longrightarrow> slot_of q i = s"
  by (simp add: slot_of_def)

text \<open>A write to one slot that keeps the slot's invariant and accounts for its bytes keeps the
  queue's.\<close>

lemma queue_core_adjust:
  assumes "queue_core ly q" "map_of (channels q) i = Some s" "slot_ok ly i (f s)"
    and "b + slot_bytes s = bytes q + slot_bytes (f s)" "n < 2 ^ 64"
  shows "queue_core ly (q\<lparr>channels := om_adjust i f (channels q), bytes := b, total_skipped := n\<rparr>)"
  using assms om_sum_adjust [of "channels q" i s slot_bytes f]
  by (auto simp: queue_core_def)

lemma queue_core_adjust_frames:
  assumes "queue_core ly q" "map_of (channels q) i = Some s" "slot_ok ly i (f s)"
    and "frames (f s) = frames s" "n < 2 ^ 64"
  shows "queue_core ly (q\<lparr>channels := om_adjust i f (channels q), total_skipped := n\<rparr>)"
  using queue_core_adjust [of ly q i s f "bytes q" n] assms by (simp add: slot_bytes_def)

lemma queue_core_adjust_bytes:
  assumes "queue_core ly q" "map_of (channels q) i = Some s" "slot_ok ly i (f s)"
    and "b + slot_bytes s = bytes q + slot_bytes (f s)"
  shows "queue_core ly (q\<lparr>channels := om_adjust i f (channels q), bytes := b\<rparr>)"
  using queue_core_adjust [of ly q i s f b "total_skipped q"] assms by (simp add: queue_core_def)

lemma queue_core_adjust_slot:
  assumes "queue_core ly q" "map_of (channels q) i = Some s" "slot_ok ly i (f s)"
    and "frames (f s) = frames s"
  shows "queue_core ly (q\<lparr>channels := om_adjust i f (channels q)\<rparr>)"
  using queue_core_adjust_frames [of ly q i s f "total_skipped q"] assms by (simp add: queue_core_def)

section \<open>Frames that are dropped\<close>

text \<open>Every frame \<open>push\<close> removes is a queued, unprotected frame that is not critical telemetry.\<close>

inductive drops :: "stream_queue \<Rightarrow> stream_queue \<Rightarrow> bool" for q where
  none: "drops q q"
| one: "drops q q' \<Longrightarrow> map_of (channels q') i = Some s \<Longrightarrow> protected s \<le> index \<Longrightarrow>
    index < length (frames s) \<Longrightarrow> \<not> is_critical_telemetry (fst (frames s ! index)) \<Longrightarrow>
    drops q (drop_frame i index q')"

lemma drops_evictable:
  "drops q q' \<Longrightarrow> evictable (slot_of q' i) = Some index \<Longrightarrow> drops q (drop_frame i index q')"
  using evictable_Some evictable_present by (auto intro: drops.one)

lemma progressive_not_critical: "is_progressive e \<Longrightarrow> \<not> is_critical_telemetry e"
  by (auto simp: is_progressive_def is_critical_telemetry_def split: server_event.splits)

lemma coalesce_drops: "drops q (coalesce i event q)"
proof -
  have "drops q (drop_frame i index q)" if "last_position is_progressive (slot_of q i) = Some index" for index
  proof -
    have "index \<in> set (positions is_progressive (slot_of q i))"
      using that by (auto simp: last_position_def split: if_splits intro: last_in_set)
    then have "protected (slot_of q i) \<le> index" "index < length (frames (slot_of q i))"
      "\<not> is_critical_telemetry (fst (frames (slot_of q i) ! index))"
      by (auto simp: positions_def progressive_not_critical)
    moreover from this(2) have "map_of (channels q) i = Some (slot_of q i)"
      by (intro frames_slot_of_ne) auto
    ultimately show ?thesis by (auto intro: drops.intros)
  qed
  then show ?thesis
    by (auto simp: coalesce_def intro: drops.none split: server_event.splits option.splits)
qed

lemma make_room_drops:
  "drops q0 q \<Longrightarrow> make_room i final capacity q = (q', r) \<Longrightarrow>
     (case r of
        None \<Rightarrow> drops q0 q' \<and> length (frames (slot_of q' i)) < capacity
      | Some True \<Rightarrow> \<not> final \<and> (\<exists>q''. drops q0 q'' \<and> q' = count_skip i q'' \<and>
            length (frames (slot_of q'' i)) \<ge> capacity)
      | Some False \<Rightarrow> final \<and> drops q0 q' \<and> length (frames (slot_of q' i)) \<ge> capacity)"
proof (induction i final capacity q rule: make_room.induct)
  case (1 i final capacity q)
  show ?case
  proof (cases "length (frames (slot_of q i)) \<ge> capacity")
    case full: True
    show ?thesis
    proof (cases "evictable (slot_of q i)")
      case None
      then show ?thesis using full "1.prems" by (subst (asm) make_room.simps) (auto split: if_splits)
    next
      case (Some index)
      then have "make_room i final capacity (drop_frame i index q) = (q', r)"
        using full "1.prems"(2) by (subst (asm) make_room.simps) simp
      with "1.IH" [OF full Some drops_evictable [OF "1.prems"(1) Some]] show ?thesis .
    qed
  next
    case False
    then show ?thesis using "1.prems" by (subst (asm) make_room.simps) auto
  qed
qed

lemma shed_drops:
  "drops q0 q \<Longrightarrow> shed q = (q', r) \<Longrightarrow> drops q0 q' \<and> (r \<longrightarrow> bytes q' \<le> STREAM_BYTE_CAPACITY)"
proof (induction q rule: shed.induct)
  case (1 q)
  then show ?case
    by (subst (asm) (2) shed.simps)
      (auto split: if_splits option.splits intro: drops_evictable)
qed

text \<open>The invariant and the totals along a series of drops.\<close>

lemma drop_frame_core:
  assumes "queue_core ly q" "map_of (channels q) i = Some s" "protected s \<le> index" "index < length (frames s)"
  shows "queue_core ly (drop_frame i index q)"
proof -
  have ok: "slot_ok ly i s" using assms(1,2) by (rule queue_core_slot)
  have "remove_nth index (frames s) \<noteq> []" if "protect_front s"
    using that assms(3,4) hd_remove_nth [of index "frames s"] by (cases "frames s") (auto simp: protected_def)
  then have "slot_ok ly i (drop_slot index s)"
    using ok assms(4) set_remove_nth [of index "frames s"]
    by (auto simp: slot_ok_def drop_slot_def)
  moreover have "slot_bytes (drop_slot index s) + snd (snd (frames s ! index)) = slot_bytes s"
    using sum_remove_nth [OF assms(4), of "snd \<circ> snd"] by (simp add: slot_bytes_def drop_slot_def)
  moreover have "slot_bytes s \<le> bytes q"
    using assms(1,2) by (auto simp: queue_core_def intro: om_sum_member)
  ultimately show ?thesis
    unfolding drop_frame_def using assms
    by (intro queue_core_adjust [where s = s]) (auto simp: slot_of_present)
qed

lemma drop_frame_channels [frame_simps]:
  "channels (drop_frame i index q) = om_adjust i (drop_slot index) (channels q)"
  "last_channel (drop_frame i index q) = last_channel q"
  by (simp_all add: drop_frame_def)

lemma drops_core: "drops q q' \<Longrightarrow> queue_core ly q \<Longrightarrow> queue_core ly q'"
  by (induction rule: drops.induct) (auto intro: drop_frame_core)

lemma drops_keys: "drops q q' \<Longrightarrow> om_keys (channels q') = om_keys (channels q) \<and> last_channel q' = last_channel q"
  by (induction rule: drops.induct) (simp_all add: frame_simps)

lemma drops_present: "drops q q' \<Longrightarrow> map_of (channels q') i = None \<longleftrightarrow> map_of (channels q) i = None"
  using drops_keys [of q q'] by (simp add: map_of_None_keys)

text \<open>All channels but one have something to deliver.\<close>

definition busy_but :: "channel_id \<Rightarrow> stream_queue \<Rightarrow> bool" where
  "busy_but i q \<longleftrightarrow>
     (\<forall>j s. map_of (channels q) j = Some s \<longrightarrow> j \<noteq> i \<longrightarrow> frames s \<noteq> [] \<or> skipped s > 0)"

lemma queue_ok_busy:
  "queue_ok ly q \<longleftrightarrow> queue_core ly q \<and> busy_but i q \<and>
     (\<forall>s. map_of (channels q) i = Some s \<longrightarrow> frames s \<noteq> [] \<or> skipped s > 0)"
  by (auto simp: queue_ok_def busy_but_def)

lemma busy_but_adjust [simp]:
  "busy_but i (q\<lparr>channels := om_adjust i f (channels q)\<rparr>) = busy_but i q"
  "busy_but i (q\<lparr>channels := om_adjust i f (channels q), bytes := b\<rparr>) = busy_but i q"
  "busy_but i (q\<lparr>channels := om_adjust i f (channels q), total_skipped := n\<rparr>) = busy_but i q"
  by (auto simp: busy_but_def)

lemma busy_but_drop: "busy_but i q \<Longrightarrow> busy_but i (drop_frame j index q)"
  by (auto simp: busy_but_def drop_frame_def drop_slot_def)

lemma drops_busy: "drops q q' \<Longrightarrow> busy_but i q \<Longrightarrow> busy_but i q'"
  by (induction rule: drops.induct) (auto intro: busy_but_drop)

lemma drops_delivers:
  "drops q q' \<Longrightarrow> map_of (channels q') i = Some s' \<Longrightarrow>
     (\<exists>s. map_of (channels q) i = Some s \<and> (s' = s \<or> skipped s' > 0))"
proof (induction arbitrary: s' rule: drops.induct)
  case (one q' j s index)
  then show ?case by (fastforce simp: frame_simps drop_slot_def split: if_splits)
qed simp

section \<open>Push keeps the invariant\<close>

lemma map_of_entry [simp]:
  "map_of (channels (entry i q)) j =
     (if j = i then Some (slot_of q i) else map_of (channels q) j)"
  by (auto simp: entry_def slot_of_def split: option.splits)

lemma slot_bytes_default [simp]: "slot_bytes slot_default = 0"
  by (simp add: slot_bytes_def slot_default_def)

lemma entry_fields [frame_simps]:
  "bytes (entry i q) = bytes q" "total_skipped (entry i q) = total_skipped q"
  "last_channel (entry i q) = last_channel q"
  by (auto simp: entry_def split: option.splits)

lemma om_sum_entry: "f slot_default = 0 \<Longrightarrow> om_sum f (channels (entry i q)) = om_sum f (channels q)"
  by (auto simp: entry_def om_sum_insert_new split: option.splits)

lemma om_ok_entry: "om_ok (channels q) \<Longrightarrow> om_ok (channels (entry i q))"
  by (auto simp: entry_def split: option.splits)

lemma length_entry:
  "om_ok (channels q) \<Longrightarrow> length (channels q) \<le> STREAM_CHANNEL_CAPACITY \<Longrightarrow>
     \<not> (map_of (channels q) i = None \<and> length (channels q) \<ge> STREAM_CHANNEL_CAPACITY) \<Longrightarrow>
     length (channels (entry i q)) \<le> STREAM_CHANNEL_CAPACITY"
  by (auto simp: entry_def length_om_insert split: option.splits)

text \<open>A slot that was just entered and then written so that it is in order.\<close>

lemma entry_adjust_core:
  assumes q: "queue_core ly q"
    and room: "\<not> (map_of (channels q) i = None \<and> length (channels q) \<ge> STREAM_CHANNEL_CAPACITY)"
    and f: "slot_ok ly i (f (slot_of q i))" "frames (f (slot_of q i)) = frames (slot_of q i)"
    and n: "n < 2 ^ 64"
  shows "queue_core ly (q\<lparr>channels := om_adjust i f (channels (entry i q)), total_skipped := n\<rparr>)"
proof -
  have ok: "om_ok (channels (entry i q))" using q by (simp add: queue_core_def om_ok_entry)
  have "om_sum slot_bytes (om_adjust i f (channels (entry i q))) = om_sum slot_bytes (channels (entry i q))"
    using om_sum_adjust [OF ok, of i "slot_of q i" slot_bytes f] f(2) by (simp add: slot_bytes_def)
  then show ?thesis
    using q room f(1) n ok by (auto simp: queue_core_def length_entry om_sum_entry)
qed

lemma slot_ok_default [simp]: "slot_ok ly i (slot_default\<lparr>observed_at := Some at\<rparr>)"
  by (simp add: slot_ok_def slot_default_def)

lemma slot_ok_observe:
  "queue_core ly q \<Longrightarrow> slot_ok ly i ((slot_of q i)\<lparr>observed_at := Some at\<rparr>)"
  using queue_core_slot [of ly q i]
  by (auto simp: slot_of_def slot_ok_def slot_default_def split: option.splits)

lemma observe_entry_core:
  assumes "queue_core ly q"
    and "\<not> (map_of (channels q) i = None \<and> length (channels q) \<ge> STREAM_CHANNEL_CAPACITY)"
  shows "queue_core ly (observe i at (entry i q))"
proof -
  have "observe i at (entry i q) =
      q\<lparr>channels := om_adjust i (\<lambda>s. s\<lparr>observed_at := Some at\<rparr>) (channels (entry i q)),
        total_skipped := total_skipped q\<rparr>"
    by (auto simp: observe_def entry_def split: option.splits)
  then show ?thesis
    using entry_adjust_core [OF assms, of "\<lambda>s. s\<lparr>observed_at := Some at\<rparr>" "total_skipped q"]
      slot_ok_observe [OF assms(1)] assms(1) by (simp add: queue_core_def)
qed

lemma map_of_observe_entry [simp]:
  "map_of (channels (observe i at (entry i q))) j =
     (if j = i then Some ((slot_of q i)\<lparr>observed_at := Some at\<rparr>) else map_of (channels q) j)"
  by (simp add: observe_def)

lemma busy_but_observe_entry: "busy_but i q \<Longrightarrow> busy_but i (observe i at (entry i q))"
  by (auto simp: busy_but_def)

lemma enqueue_core:
  assumes "queue_core ly q" "map_of (channels q) i = Some s" "length (frames s) < 8"
    and "stream_target event = Some (i, c)"
  shows "queue_core ly (enqueue i (event, at, weight ly event) q)"
proof -
  have "slot_ok ly i (s\<lparr>frames := frames s @ [(event, at, weight ly event)]\<rparr>)"
    using queue_core_slot [OF assms(1,2)] assms(3,4) by (auto simp: slot_ok_def)
  then show ?thesis
    unfolding enqueue_def using assms(1,2)
      queue_core_adjust [of ly q i s "\<lambda>s. s\<lparr>frames := frames s @ [(event, at, weight ly event)]\<rparr>"
        "bytes q + weight ly event" "total_skipped q"]
    by (simp add: slot_bytes_def queue_core_def)
qed

lemma count_skip_core:
  "queue_core ly q \<Longrightarrow> map_of (channels q) i = Some s \<Longrightarrow> queue_core ly (count_skip i q)"
  unfolding count_skip_def
  by (rule queue_core_adjust_frames, assumption, assumption)
    (drule (1) queue_core_slot, simp_all add: slot_ok_def)

lemma stream_target_capacity: "stream_target event = Some (i, c) \<Longrightarrow> c = 1 \<or> c = 8"
  by (auto simp: stream_target_def STREAM_AUDIO_CAPACITY_def TELEMETRY_FINAL_CAPACITY_def
      split: server_event.splits)

lemma drops_slot:
  "drops q q' \<Longrightarrow> map_of (channels q) i = Some s \<Longrightarrow>
     \<exists>s'. map_of (channels q') i = Some s' \<and> slot_of q' i = s' \<and> (s' = s \<or> skipped s' > 0)"
  using drops_present [of q q' i] drops_delivers [of q q' i]
  by (cases "map_of (channels q') i") (auto simp: slot_of_def)

lemma push_frame_ok:
  assumes q: "queue_ok ly q" and t: "stream_target event = Some (i, c)"
  shows "queue_ok ly (fst (push_frame ly event at i c q))"
proof (cases "map_of (channels q) i = None \<and> length (channels q) \<ge> STREAM_CHANNEL_CAPACITY")
  case True
  then show ?thesis using q by (auto simp: push_frame_def queue_ok_def queue_core_def)
next
  case room: False
  define q1 where "q1 = observe i at (entry i q)"
  define q2 where "q2 = coalesce i event q1"
  define cap where "cap = c + (if c = 1 \<and> protect_front (slot_of q2 i) then 1 else 0)"
  have q1: "queue_core ly q1" "busy_but i q1" "map_of (channels q1) i = Some ((slot_of q i)\<lparr>observed_at := Some at\<rparr>)"
    using q room queue_ok_busy [of ly q i]
    by (auto simp: q1_def observe_entry_core busy_but_observe_entry simp del: de_Morgan_conj)
  have cap: "0 < c" "1 \<le> cap" "cap \<le> 8" using stream_target_capacity [OF t] by (auto simp: cap_def)
  have drops: "queue_ok ly q'"
    if "drops q1 q'" "frames (slot_of q' i) \<noteq> [] \<or> skipped (slot_of q' i) > 0" for q'
    using that drops_core [OF that(1) q1(1)] drops_busy [OF that(1) q1(2)]
    by (auto simp: queue_ok_busy [of ly q' i] slot_of_def split: option.splits)
  show ?thesis
  proof (cases "is_critical_telemetry event \<and> length (frames (slot_of q1 i)) \<ge> c")
    case True
    then have "queue_ok ly q1" using cap(1) by (intro drops drops.none) auto
    then show ?thesis using room True by (simp add: push_frame_def Let_def q1_def del: de_Morgan_conj)
  next
    case go: False
    obtain q3 r where mr: "make_room i (is_critical_telemetry event) cap q2 = (q3, r)" by force
    have eq: "push_frame ly event at i c q =
        (case r of Some r \<Rightarrow> (q3, r) | None \<Rightarrow> shed (enqueue i (event, at, weight ly event) q3))"
      using room go mr by (auto simp: push_frame_def Let_def q1_def q2_def cap_def simp del: de_Morgan_conj)
    have d2: "drops q1 q2" unfolding q2_def by (rule coalesce_drops)
    note room3 = make_room_drops [OF d2 mr]
    consider "r = None" | "r = Some True" | "r = Some False" by (cases r) auto
    then show ?thesis
    proof cases
      case 1
      obtain s3 where s3: "map_of (channels q3) i = Some s3" "slot_of q3 i = s3"
        using room3 1 drops_slot [OF _ q1(3)] by auto
      define q4 where "q4 = enqueue i (event, at, weight ly event) q3"
      have "queue_core ly q4"
        unfolding q4_def using room3 1 drops_core [OF _ q1(1)] s3 cap t
        by (intro enqueue_core [where s = s3]) auto
      moreover have "busy_but i q4" using room3 1 drops_busy [OF _ q1(2)] by (simp add: q4_def enqueue_def)
      moreover have "frames (the (map_of (channels q4) i)) \<noteq> []" using s3 by (simp add: q4_def enqueue_def)
      ultimately have q4: "queue_ok ly q4" by (auto simp: queue_ok_busy [of ly q4 i])
      obtain q5 b where sh: "shed q4 = (q5, b)" by force
      have d5: "drops q4 q5" using shed_drops [OF drops.none sh] by simp
      have "queue_ok ly q5"
        unfolding queue_ok_def using drops_core [OF d5] q4 drops_delivers [OF d5]
        by (fastforce simp: queue_ok_def)
      then show ?thesis using sh by (simp add: eq 1 q4_def)
    next
      case 2
      then obtain q' where q': "drops q1 q'" "q3 = count_skip i q'" using room3 by auto
      obtain s where s: "map_of (channels q') i = Some s" using drops_slot [OF q'(1) q1(3)] by auto
      then have "queue_ok ly (count_skip i q')"
        using count_skip_core [OF drops_core [OF q'(1) q1(1)] s] drops_busy [OF q'(1) q1(2)]
        by (auto simp: queue_ok_busy [of ly _ i] count_skip_def)
      then show ?thesis by (simp add: eq 2 q'(2))
    next
      case 3
      then have "drops q1 q3" "frames (slot_of q3 i) \<noteq> []" using room3 cap(2) by auto
      then show ?thesis by (simp add: eq 3 drops)
    qed
  qed
qed

lemma note_gap_ok:
  assumes "queue_ok ly q"
  shows "queue_ok ly (fst (note_gap i n at q))"
proof (cases "n = 0 \<or> map_of (channels q) i = None \<and> length (channels q) \<ge> STREAM_CHANNEL_CAPACITY")
  case True
  then show ?thesis using assms by (auto simp: note_gap_def)
next
  case False
  let ?f = "\<lambda>s. s\<lparr>skipped := sat_add (skipped s) n, observed_at := Some at\<rparr>"
  have q: "queue_core ly q" "busy_but i q" using assms queue_ok_busy by auto
  have eq: "fst (note_gap i n at q) =
      q\<lparr>channels := om_adjust i ?f (channels (entry i q)), total_skipped := sat_add (total_skipped q) n\<rparr>"
    using False by (auto simp: note_gap_def Let_def entry_def split: option.splits)
  have "slot_ok ly i (?f (slot_of q i))" using slot_ok_observe [OF q(1), of i at] by (simp add: slot_ok_def)
  then have "queue_core ly (fst (note_gap i n at q))"
    unfolding eq using entry_adjust_core [OF q(1), of i ?f] False by simp
  then show ?thesis
    using q(2) False unfolding eq queue_ok_def by (auto simp: busy_but_def)
qed

lemma push_ok: "queue_ok ly q \<Longrightarrow> queue_ok ly (fst (push ly event at q))"
  by (auto simp: push_def note_gap_ok push_frame_ok split: server_event.splits option.splits)

section \<open>Pop and clear keep the invariant\<close>

lemma next_channel_present: "next_channel q = Some i \<Longrightarrow> i \<in> set (om_keys (channels q))"
  by (auto simp: next_channel_def find_Some_iff split: option.splits list.splits)

lemma next_channel_None: "next_channel q = None \<longleftrightarrow> channels q = []"
  by (cases "channels q") (auto simp: next_channel_def find_None_iff split: option.splits)

lemma queue_core_last [simp]: "queue_core ly (q\<lparr>last_channel := l\<rparr>) = queue_core ly q"
  by (simp add: queue_core_def)

lemma pop_channel_core:
  assumes "queue_core ly q" "map_of (channels q) i = Some s"
  shows "queue_core ly (snd (pop_channel i q))"
proof -
  have ok: "slot_ok ly i s" using assms by (rule queue_core_slot)
  have so: "slot_of q i = s" using assms(2) by (rule slot_of_present)
  show ?thesis
  proof (cases "skipped s > 0 \<and> \<not> protect_front s")
    case True
    have "slot_ok ly i (s\<lparr>protect_front := frames s \<noteq> [], skipped := 0\<rparr>)"
      using ok by (simp add: slot_ok_def)
    then have "queue_core ly (q\<lparr>channels := om_adjust i
        (\<lambda>s. s\<lparr>protect_front := frames s \<noteq> [], skipped := 0\<rparr>) (channels q)\<rparr>)"
      by (rule queue_core_adjust_slot [OF assms]) simp
    moreover have "snd (pop_channel i q) = q\<lparr>channels := om_adjust i
        (\<lambda>s. s\<lparr>protect_front := frames s \<noteq> [], skipped := 0\<rparr>) (channels q)\<rparr>"
      unfolding pop_channel_def so Let_def if_P [OF True] by (rule snd_conv)
    ultimately show ?thesis by simp
  next
    case plain: False
    show ?thesis
    proof (cases "frames s")
      case Nil
      then show ?thesis using plain assms(1) by (auto simp: pop_channel_def so)
    next
      case (Cons f fs)
      obtain event at w where f: "f = (event, at, w)" by (cases f)
      have "slot_bytes s \<le> bytes q"
        using assms by (auto simp: queue_core_def intro: om_sum_member)
      then have "queue_core ly (q\<lparr>channels := om_adjust i (\<lambda>s. s\<lparr>frames := fs, protect_front := False\<rparr>)
            (channels q), bytes := bytes q - w\<rparr>)"
        using queue_core_adjust_bytes [OF assms, of "\<lambda>s. s\<lparr>frames := fs, protect_front := False\<rparr>"
            "bytes q - w"] ok Cons f
        by (auto simp: slot_ok_def slot_bytes_def)
      moreover have "snd (pop_channel i q) = q\<lparr>channels := om_adjust i
          (\<lambda>s. s\<lparr>frames := fs, protect_front := False\<rparr>) (channels q), bytes := bytes q - w\<rparr>"
        unfolding pop_channel_def so Let_def if_not_P [OF plain] by (simp add: Cons f)
      ultimately show ?thesis by simp
    qed
  qed
qed

lemma om_sum_remove_empty:
  "om_ok m \<Longrightarrow> map_of m i = Some v \<Longrightarrow> f v = 0 \<Longrightarrow> om_sum f (om_remove i m) = om_sum f m"
  using om_sum_remove [of m i v f] by simp

lemma retire_ok:
  assumes "queue_core ly q" "busy_but i q"
  shows "queue_ok ly (retire i q)"
proof (cases "map_of (channels q) i")
  case None
  then have "om_remove i (channels q) = channels q"
    by (intro om_remove_absent) (simp flip: map_of_None_keys)
  then have "queue_ok ly (q\<lparr>channels := om_remove i (channels q)\<rparr>)" "queue_ok ly q"
    using assms None by (auto simp: queue_ok_busy [of ly q i])
  then show ?thesis by (simp add: retire_def)
next
  case (Some s)
  show ?thesis
  proof (cases "frames s = [] \<and> skipped s = 0")
    case True
    then have "slot_bytes s = 0" by (simp add: slot_bytes_def)
    with Some True assms length_om_remove_le [of i "channels q"] show ?thesis
      by (auto simp: retire_def slot_of_def queue_ok_def queue_core_def busy_but_def om_sum_remove_empty)
  next
    case False
    then show ?thesis using Some assms by (auto simp: retire_def slot_of_def queue_ok_busy [of ly q i])
  qed
qed

lemma pop_channel_busy: "busy_but i q \<Longrightarrow> busy_but i (snd (pop_channel i q))"
  by (auto simp: pop_channel_def Let_def busy_but_def split: list.splits)

lemma pop_cases:
  assumes "queue_ok ly q" "next_channel q = Some i"
  obtains s where "map_of (channels q) i = Some s" "slot_ok ly i s" "frames s \<noteq> [] \<or> skipped s > 0"
proof -
  obtain s where "map_of (channels q) i = Some s"
    using next_channel_present [OF assms(2)] map_of_None_keys [of "channels q" i]
    by (cases "map_of (channels q) i") auto
  then show ?thesis using that assms(1) by (auto simp: queue_ok_def queue_core_def)
qed

lemma pop_ok: "queue_ok ly q \<Longrightarrow> queue_ok ly (snd (pop q))"
proof (cases "next_channel q")
  case (Some i)
  assume q: "queue_ok ly q"
  then obtain s where s: "map_of (channels q) i = Some s" using Some by (rule pop_cases)
  let ?q = "q\<lparr>last_channel := Some i\<rparr>"
  have "queue_core ly ?q" "busy_but i ?q" using q by (auto simp: queue_ok_def busy_but_def)
  then have "queue_ok ly (retire i (snd (pop_channel i ?q)))"
    using s by (intro retire_ok pop_channel_core [where s = s] pop_channel_busy) auto
  then show ?thesis using Some by (simp add: pop_def split_beta)
qed (simp add: pop_def)

lemma clear_ok: "queue_ok ly q \<Longrightarrow> queue_ok ly (clear i q)"
proof (cases "map_of (channels q) i")
  case (Some s)
  assume q: "queue_ok ly q"
  have "om_sum slot_bytes (om_remove i (channels q)) + slot_bytes s = bytes q"
    using om_sum_remove [OF _ Some, of slot_bytes] q by (simp add: queue_ok_def queue_core_def)
  then show ?thesis
    using q Some length_om_remove_le [of i "channels q"]
    by (auto simp: clear_def queue_ok_def queue_core_def slot_bytes_def)
qed (simp add: clear_def)

section \<open>The queue as a system\<close>

inductive stream_step :: "layout \<Rightarrow> stream_queue \<Rightarrow> stream_queue \<Rightarrow> bool" for ly where
  pushed: "stream_step ly q (fst (push ly event at q))"
| noted: "stream_step ly q (fst (note_gap i n at q))"
| popped: "stream_step ly q (snd (pop q))"
| cleared: "stream_step ly q (clear i q)"

interpretation streams: guarded_system "\<lambda>q. q = queue_default" "stream_step ly" "queue_ok ly" for ly
proof
  show "queue_ok ly q" if "q = queue_default" for q
    using that by (simp add: queue_ok_def queue_core_def queue_default_def)
  show "queue_ok ly q'" if "queue_ok ly q" "stream_step ly q q'" for q q'
    using that(2,1) by cases (auto intro: push_ok note_gap_ok pop_ok clear_ok)
qed

section \<open>What a drop keeps\<close>

definition pending :: "stream_queue \<Rightarrow> nat" where
  "pending q = om_sum skipped (channels q)"

text \<open>Counters have not reached their ceiling.\<close>

definition unsaturated :: "stream_queue \<Rightarrow> bool" where
  "unsaturated q \<longleftrightarrow> queued_frames q + pending q < 2 ^ 64 - 1"

lemma skipped_le_pending: "map_of (channels q) i = Some s \<Longrightarrow> skipped s \<le> pending q"
  by (simp add: pending_def om_sum_member)

lemma drops_accounting:
  assumes "drops q q'" "om_ok (channels q)" "unsaturated q"
  shows "queued_frames q' + pending q' = queued_frames q + pending q"
  using assms
proof (induction rule: drops.induct)
  case (one q' i s index)
  have ok: "om_ok (channels q')" using drops_keys [OF one.hyps(1)] one.prems(1) by (simp add: om_ok_def)
  note eq = one.IH [OF one.prems]
  have "length (frames s) \<le> queued_frames q'" "skipped s \<le> pending q'"
    using om_sum_member [OF one.hyps(2), of "\<lambda>s. length (frames s)"] om_sum_member [OF one.hyps(2), of skipped]
    by (simp_all add: queued_frames_def pending_def)
  then have sat: "sat_add (skipped s) 1 = skipped s + 1"
    using eq one.prems(2) by (intro sat_add_exact) (simp add: unsaturated_def)
  show ?case
    using om_sum_adjust [OF ok one.hyps(2), of "\<lambda>s. length (frames s)" "drop_slot index"]
      om_sum_adjust [OF ok one.hyps(2), of skipped "drop_slot index"] one.hyps(4) eq sat
    by (simp add: queued_frames_def pending_def frame_simps drop_slot_def)
qed simp

lemma subseq_remove_nth: "subseq (remove_nth n xs) xs"
proof (induction xs arbitrary: n)
  case (Cons x xs)
  then show ?case by (cases n) (auto simp: remove_nth_def)
qed (simp add: remove_nth_def)

lemma drops_order: "drops q q' \<Longrightarrow> subseq (frames (slot_of q' i)) (frames (slot_of q i))"
proof (induction rule: drops.induct)
  case (one q' j s index)
  then show ?case
    using subseq_remove_nth [of index "frames s"] by (cases "i = j")
      (auto simp: slot_of_drop drop_slot_def slot_of_present intro: subseq_order.order_trans)
qed simp

lemma drops_criticals:
  "drops q q' \<Longrightarrow>
     filter (is_critical_telemetry \<circ> fst) (frames (slot_of q' i)) =
     filter (is_critical_telemetry \<circ> fst) (frames (slot_of q i))"
proof (induction rule: drops.induct)
  case (one q' j s index)
  then show ?case
    by (cases "i = j") (simp_all add: slot_of_drop drop_slot_def slot_of_present filter_remove_nth)
qed simp

lemma drops_front:
  "drops q q' \<Longrightarrow> protect_front (slot_of q i) \<Longrightarrow> frames (slot_of q i) = x # xs \<Longrightarrow>
     protect_front (slot_of q' i) \<and> (\<exists>ys. frames (slot_of q' i) = x # ys)"
proof (induction arbitrary: rule: drops.induct)
  case (one q' j s index)
  then obtain ys where ys: "protect_front (slot_of q' i)" "frames (slot_of q' i) = x # ys" by auto
  show ?case
  proof (cases "i = j")
    case True
    then have "slot_of q' i = s" using one.hyps(2) by (simp add: slot_of_present)
    then show ?thesis
      using ys one.hyps True by (cases index) (auto simp: slot_of_drop drop_slot_def protected_def remove_nth_def)
  next
    case False
    then show ?thesis using ys one.hyps(2) by (simp add: slot_of_drop)
  qed
qed simp

lemma drops_bytes: "drops q q' \<Longrightarrow> bytes q' \<le> bytes q"
  by (induction rule: drops.induct) (auto simp: drop_frame_def)

section \<open>The outcomes of a push\<close>

lemma push_frame_outcome:
  assumes "push_frame ly event at i c q = (q', b)" "0 < c"
  defines "q1 \<equiv> observe i at (entry i q)"
  shows "(q' = q\<lparr>total_skipped := sat_add (total_skipped q) 1\<rparr> \<and> \<not> b) \<or>
    (drops q1 q' \<and> \<not> b \<and> is_critical_telemetry event) \<or>
    (\<exists>q3. drops q1 q3 \<and> q' = count_skip i q3 \<and> b \<and> \<not> is_critical_telemetry event \<and>
       map_of (channels q3) i \<noteq> None) \<or>
    (\<exists>q3. drops q1 q3 \<and> map_of (channels q3) i \<noteq> None \<and>
       drops (enqueue i (event, at, weight ly event) q3) q' \<and> (b \<longrightarrow> bytes q' \<le> STREAM_BYTE_CAPACITY))"
proof (cases "map_of (channels q) i = None \<and> length (channels q) \<ge> STREAM_CHANNEL_CAPACITY")
  case True
  then show ?thesis using assms by (auto simp: push_frame_def)
next
  case room: False
  have p: "map_of (channels q3) i \<noteq> None" if "drops q1 q3" for q3
    using drops_present [OF that, of i] by (simp add: q1_def)
  show ?thesis
  proof (cases "is_critical_telemetry event \<and> length (frames (slot_of q1 i)) \<ge> c")
    case True
    then show ?thesis
      using assms(1) room by (auto simp: push_frame_def Let_def q1_def drops.none simp del: de_Morgan_conj)
  next
    case go: False
    define q2 where "q2 = coalesce i event q1"
    obtain q3 r where mr: "make_room i (is_critical_telemetry event)
        (c + (if c = 1 \<and> protect_front (slot_of q2 i) then 1 else 0)) q2 = (q3, r)" by force
    have eq: "(case r of Some r \<Rightarrow> (q3, r) | None \<Rightarrow> shed (enqueue i (event, at, weight ly event) q3)) = (q', b)"
      using assms(1) room go mr by (auto simp: push_frame_def Let_def q1_def q2_def simp del: de_Morgan_conj)
    have "drops q1 q2" unfolding q2_def by (rule coalesce_drops)
    note room3 = make_room_drops [OF this mr]
    show ?thesis
    proof (cases r)
      case None
      then show ?thesis using room3 eq p shed_drops [OF drops.none, of _ q' b] by auto
    next
      case (Some x)
      then show ?thesis using room3 eq p by (cases x) auto
    qed
  qed
qed

lemma slot_of_total [frame_simps]: "slot_of (q\<lparr>total_skipped := n\<rparr>) j = slot_of q j"
  by (simp add: slot_of_def)

lemma slot_of_observe_entry [frame_simps]:
  "frames (slot_of (observe i at (entry i q)) j) = frames (slot_of q j)"
  "skipped (slot_of (observe i at (entry i q)) j) = skipped (slot_of q j)"
  "protect_front (slot_of (observe i at (entry i q)) j) = protect_front (slot_of q j)"
  by (auto simp: slot_of_def)

lemma slot_of_enqueue:
  "map_of (channels q) i \<noteq> None \<Longrightarrow>
     slot_of (enqueue i f q) j =
       (if j = i then (slot_of q j)\<lparr>frames := frames (slot_of q j) @ [f]\<rparr> else slot_of q j)"
  by (auto simp: slot_of_def enqueue_def)

lemma slot_of_count_skip [frame_simps]:
  "frames (slot_of (count_skip i q) j) = frames (slot_of q j)"
  "protect_front (slot_of (count_skip i q) j) = protect_front (slot_of q j)"
  by (auto simp: slot_of_def count_skip_def split: option.splits)

lemma totals_observe_entry:
  assumes "om_ok (channels q)"
  shows "queued_frames (observe i at (entry i q)) = queued_frames q"
    "pending (observe i at (entry i q)) = pending q" "om_ok (channels (observe i at (entry i q)))"
proof -
  have ok: "om_ok (channels (entry i q))" using assms by (rule om_ok_entry)
  show "om_ok (channels (observe i at (entry i q)))" using ok by (simp add: observe_def)
  show "queued_frames (observe i at (entry i q)) = queued_frames q"
    using om_sum_adjust [OF ok, of i "slot_of q i" "\<lambda>s. length (frames s)" "\<lambda>s. s\<lparr>observed_at := Some at\<rparr>"]
      om_sum_entry [of "\<lambda>s. length (frames s)" i q]
    by (simp add: queued_frames_def observe_def slot_default_def)
  show "pending (observe i at (entry i q)) = pending q"
    using om_sum_adjust [OF ok, of i "slot_of q i" skipped "\<lambda>s. s\<lparr>observed_at := Some at\<rparr>"]
      om_sum_entry [of skipped i q]
    by (simp add: pending_def observe_def slot_default_def)
qed

lemma totals_enqueue:
  assumes "om_ok (channels q)" "map_of (channels q) i = Some s"
  shows "queued_frames (enqueue i f q) = Suc (queued_frames q)" "pending (enqueue i f q) = pending q"
    "om_ok (channels (enqueue i f q))"
  using om_sum_adjust [OF assms, of "\<lambda>s. length (frames s)" "\<lambda>s. s\<lparr>frames := frames s @ [f]\<rparr>"]
    om_sum_adjust [OF assms, of skipped "\<lambda>s. s\<lparr>frames := frames s @ [f]\<rparr>"] assms(1)
  by (simp_all add: queued_frames_def pending_def enqueue_def)

lemma totals_count_skip:
  assumes "om_ok (channels q)" "map_of (channels q) i = Some s" "skipped s + 1 < 2 ^ 64"
  shows "queued_frames (count_skip i q) = queued_frames q" "pending (count_skip i q) = Suc (pending q)"
proof -
  have "sat_add (skipped s) 1 = skipped s + 1" using assms(3) by (rule sat_add_exact)
  then show "queued_frames (count_skip i q) = queued_frames q" "pending (count_skip i q) = Suc (pending q)"
    using om_sum_adjust [OF assms(1,2), of "\<lambda>s. length (frames s)" "\<lambda>s. s\<lparr>skipped := sat_add (skipped s) 1\<rparr>"]
      om_sum_adjust [OF assms(1,2), of skipped "\<lambda>s. s\<lparr>skipped := sat_add (skipped s) 1\<rparr>"]
    by (simp_all add: queued_frames_def pending_def count_skip_def)
qed

lemma drops_om_ok: "drops q q' \<Longrightarrow> om_ok (channels q') = om_ok (channels q)"
  using drops_keys [of q q'] by (simp add: om_ok_def)

lemma push_frame_accounting:
  assumes "push_frame ly event at i c q = (q', True)" "0 < c" "om_ok (channels q)"
    and "queued_frames q + pending q + 2 < 2 ^ 64"
  shows "queued_frames q' + pending q' = queued_frames q + pending q + 1"
proof -
  let ?q1 = "observe i at (entry i q)"
  note t1 = totals_observe_entry [OF assms(3), of i at]
  have un: "unsaturated ?q1" using assms(4) by (simp add: unsaturated_def t1)
  have acc: "om_ok (channels q3) \<and> queued_frames q3 + pending q3 = queued_frames q + pending q"
    if "drops ?q1 q3" for q3
    using drops_accounting [OF that t1(3) un] t1 drops_om_ok [OF that] by simp
  consider q3 s where "drops ?q1 q3" "q' = count_skip i q3" "map_of (channels q3) i = Some s"
    | q3 s where "drops ?q1 q3" "map_of (channels q3) i = Some s"
        "drops (enqueue i (event, at, weight ly event) q3) q'"
    using push_frame_outcome [OF assms(1,2)] by auto
  then show ?thesis
  proof cases
    case 1
    have "skipped s + 1 < 2 ^ 64"
      using acc [OF 1(1)] skipped_le_pending [OF 1(3)] assms(4) by linarith
    then show ?thesis using totals_count_skip [OF _ 1(3)] acc [OF 1(1)] 1(2) by simp
  next
    case 2
    note a = acc [OF 2(1)]
    note t = totals_enqueue [OF conjunct1 [OF a] 2(2), of "(event, at, weight ly event)"]
    have "unsaturated (enqueue i (event, at, weight ly event) q3)"
      using t a assms(4) by (simp add: unsaturated_def)
    then show ?thesis using drops_accounting [OF 2(3) t(3)] t a by simp
  qed
qed

lemma push_frame_order:
  assumes "push_frame ly event at i c q = (q', b)" "0 < c"
  shows "subseq (frames (slot_of q' j))
      (frames (slot_of q j) @ (if j = i then [(event, at, weight ly event)] else []))"
proof -
  let ?q1 = "observe i at (entry i q)"
  have fewer: "subseq (frames (slot_of q3 j)) (frames (slot_of q j))" if "drops ?q1 q3" for q3
    using drops_order [OF that, of j] by (simp add: frame_simps)
  consider "frames (slot_of q' j) = frames (slot_of q j)" | q3 where "drops ?q1 q3" "frames (slot_of q' j) = frames (slot_of q3 j)"
    | q3 where "drops ?q1 q3" "map_of (channels q3) i \<noteq> None"
        "drops (enqueue i (event, at, weight ly event) q3) q'"
    using push_frame_outcome [OF assms] by (auto simp: frame_simps)
  then show ?thesis
  proof cases
    case 2
    then show ?thesis using fewer [OF 2(1)] by (auto intro: subseq_rev_drop_many)
  next
    case 3
    have "subseq (frames (slot_of q' j)) (frames (slot_of q3 j) @ (if j = i then [(event, at, weight ly event)] else []))"
      using drops_order [OF 3(3), of j] by (auto simp: slot_of_enqueue [OF 3(2)])
    moreover have "subseq (frames (slot_of q3 j) @ zs) (frames (slot_of q j) @ zs)" for zs
      using fewer [OF 3(1)] by simp
    ultimately show ?thesis by (rule subseq_order.order_trans)
  qed (auto intro: subseq_rev_drop_many)
qed

text \<open>The critical telemetry queued for a channel.\<close>

definition criticals :: "stream_queue \<Rightarrow> channel_id \<Rightarrow> queued list" where
  "criticals q i = filter (is_critical_telemetry \<circ> fst) (frames (slot_of q i))"

lemma drops_criticals_eq: "drops q q' \<Longrightarrow> criticals q' = criticals q"
  by (rule ext) (simp add: criticals_def drops_criticals)

lemma criticals_frame [frame_simps]:
  "criticals (observe i at (entry i q)) = criticals q"
  "criticals (count_skip i q) = criticals q"
  "criticals (q\<lparr>total_skipped := n\<rparr>) = criticals q"
  by (rule ext, simp add: criticals_def frame_simps)+

lemma criticals_enqueue:
  "map_of (channels q) i \<noteq> None \<Longrightarrow>
     criticals (enqueue i f q) k =
       criticals q k @ (if k = i \<and> is_critical_telemetry (fst f) then [f] else [])"
  by (cases "k = i") (simp_all add: criticals_def slot_of_enqueue)

lemma push_frame_criticals:
  assumes "push_frame ly event at i c q = (q', b)" "0 < c"
  shows "criticals q' = criticals q \<and> (\<not> b \<or> \<not> is_critical_telemetry event) \<or>
    (\<forall>k. criticals q' k =
      criticals q k @ (if k = i \<and> is_critical_telemetry event then [(event, at, weight ly event)] else []))"
  using push_frame_outcome [OF assms]
proof (elim disjE exE conjE)
  fix q3
  assume a: "drops (observe i at (entry i q)) q3" "map_of (channels q3) i \<noteq> None"
    "drops (enqueue i (event, at, weight ly event) q3) q'"
  have "criticals q' = criticals (enqueue i (event, at, weight ly event) q3)"
    using a(3) by (rule drops_criticals_eq)
  moreover have "criticals q3 = criticals q" using drops_criticals_eq [OF a(1)] by (simp add: frame_simps)
  ultimately show ?thesis using criticals_enqueue [OF a(2)] by simp
qed (auto simp: frame_simps dest: drops_criticals_eq)

lemma push_frame_front:
  assumes "push_frame ly event at i c q = (q', b)" "0 < c"
    and "protect_front (slot_of q j)" "frames (slot_of q j) = x # xs"
  shows "protect_front (slot_of q' j) \<and> (\<exists>ys. frames (slot_of q' j) = x # ys)"
proof -
  let ?q1 = "observe i at (entry i q)"
  have front: "protect_front (slot_of q3 j) \<and> (\<exists>ys. frames (slot_of q3 j) = x # ys)" if "drops ?q1 q3" for q3
    using drops_front [OF that, of j x xs] assms(3,4) by (simp add: frame_simps)
  have "protect_front (slot_of q' j) \<and> (\<exists>ys. frames (slot_of q' j) = x # ys)"
    if q3: "drops ?q1 q3" "map_of (channels q3) i \<noteq> None" and "drops (enqueue i (event, at, weight ly event) q3) q'" for q3
  proof -
    obtain ys where "protect_front (slot_of q3 j)" "frames (slot_of q3 j) = x # ys" using front [OF q3(1)] by auto
    then show ?thesis
      using drops_front [OF that(3), of j x "if j = i then ys @ [(event, at, weight ly event)] else ys"]
      by (cases "j = i") (simp_all add: slot_of_enqueue [OF q3(2)])
  qed
  then show ?thesis
    using push_frame_outcome [OF assms(1,2)] front assms(3,4) by (auto simp: frame_simps)
qed

section \<open>Pop\<close>

lemma slot_of_last [simp]: "slot_of (q\<lparr>last_channel := l\<rparr>) j = slot_of q j"
  by (simp add: slot_of_def)

lemma totals_last [simp]:
  "queued_frames (q\<lparr>last_channel := l\<rparr>) = queued_frames q" "pending (q\<lparr>last_channel := l\<rparr>) = pending q"
  by (simp_all add: queued_frames_def pending_def)

lemma retire_totals:
  assumes "om_ok (channels q)"
  shows "queued_frames (retire i q) = queued_frames q \<and> pending (retire i q) = pending q"
proof (cases "map_of (channels q) i")
  case None
  then show ?thesis
    by (simp add: retire_def queued_frames_def pending_def om_remove_absent flip: map_of_None_keys)
next
  case (Some s)
  then show ?thesis
    using assms by (simp add: retire_def queued_frames_def pending_def slot_of_present om_sum_remove_empty)
qed

text \<open>What a frame stands for in the count of updates.\<close>

definition updates_in :: "server_event \<Rightarrow> nat" where
  "updates_in e = (case e of StreamGap _ n \<Rightarrow> n | _ \<Rightarrow> 1)"

lemma updates_in_data: "stream_target e = Some p \<Longrightarrow> updates_in e = 1"
  by (auto simp: stream_target_def updates_in_def split: server_event.splits)

lemma pop_channel_delivers:
  assumes "om_ok (channels q)" "map_of (channels q) i = Some s" "slot_ok ly i s" "frames s \<noteq> [] \<or> skipped s > 0"
  shows "\<exists>e t. fst (pop_channel i q) = Some (e, t) \<and> updates_in e > 0 \<and>
    queued_frames q + pending q =
      queued_frames (snd (pop_channel i q)) + pending (snd (pop_channel i q)) + updates_in e \<and>
    ((\<exists>n. e = StreamGap i n) \<or> (\<exists>c. stream_target e = Some (i, c)))"
proof (cases "skipped s > 0 \<and> \<not> protect_front s")
  case True
  let ?f = "\<lambda>s. s\<lparr>protect_front := frames s \<noteq> [], skipped := 0\<rparr>"
  have "pop_channel i q = (Some (StreamGap i (skipped s), the (observed_at s)),
      q\<lparr>channels := om_adjust i ?f (channels q)\<rparr>)"
    unfolding pop_channel_def slot_of_present [OF assms(2)] Let_def if_P [OF True] by (rule refl)
  then show ?thesis
    using True om_sum_adjust [OF assms(1,2), of "\<lambda>s. length (frames s)" ?f]
      om_sum_adjust [OF assms(1,2), of skipped ?f]
    by (simp add: queued_frames_def pending_def updates_in_def)
next
  case plain: False
  then have "frames s \<noteq> []" using assms(3,4) by (auto simp: slot_ok_def)
  then obtain e t w fs where fs: "frames s = (e, t, w) # fs" by (cases "frames s") auto
  let ?f = "\<lambda>s. s\<lparr>frames := fs, protect_front := False\<rparr>"
  have "pop_channel i q = (Some (e, t), q\<lparr>channels := om_adjust i ?f (channels q), bytes := bytes q - w\<rparr>)"
    unfolding pop_channel_def slot_of_present [OF assms(2)] Let_def if_not_P [OF plain] by (simp add: fs)
  moreover obtain c where "stream_target e = Some (i, c)" using assms(3) fs by (auto simp: slot_ok_def)
  ultimately show ?thesis
    using fs om_sum_adjust [OF assms(1,2), of "\<lambda>s. length (frames s)" ?f]
      om_sum_adjust [OF assms(1,2), of skipped ?f] updates_in_data [of e "(i, c)"]
    by (simp add: queued_frames_def pending_def)
qed

lemma pop_delivers:
  assumes "queue_ok ly q" "next_channel q = Some i"
  shows "\<exists>e t. fst (pop q) = Some (e, t) \<and> updates_in e > 0 \<and>
    queued_frames q + pending q = queued_frames (snd (pop q)) + pending (snd (pop q)) + updates_in e \<and>
    ((\<exists>n. e = StreamGap i n) \<or> (\<exists>c. stream_target e = Some (i, c)))"
proof -
  obtain s where s: "map_of (channels q) i = Some s" "slot_ok ly i s" "frames s \<noteq> [] \<or> skipped s > 0"
    using assms by (rule pop_cases)
  let ?q = "q\<lparr>last_channel := Some i\<rparr>"
  have ok: "om_ok (channels ?q)" "queue_core ly ?q" using assms(1) by (simp_all add: queue_ok_def queue_core_def)
  have "om_ok (channels (snd (pop_channel i ?q)))"
    using pop_channel_core [OF ok(2), of i s] s(1) by (simp add: queue_core_def)
  from retire_totals [OF this, of i] show ?thesis
    using pop_channel_delivers [OF ok(1), of i s] s assms(2) by (auto simp: pop_def split_beta)
qed

text \<open>The order in which the channels are served: those after the last one served, then from the
  start.\<close>

definition service_order :: "stream_queue \<Rightarrow> channel_id list" where
  "service_order q =
     (case last_channel q of
        None \<Rightarrow> om_keys (channels q)
      | Some l \<Rightarrow> filter (\<lambda>i. i > l) (om_keys (channels q)) @ filter (\<lambda>i. i \<le> l) (om_keys (channels q)))"

lemma find_filter: "find P xs = (case filter P xs of [] \<Rightarrow> None | x # _ \<Rightarrow> Some x)"
  by (induction xs) auto

lemma next_channel_order: "next_channel q = (case service_order q of [] \<Rightarrow> None | i # _ \<Rightarrow> Some i)"
proof (cases "last_channel q")
  case None
  then show ?thesis
    by (cases "om_keys (channels q)") (simp_all add: next_channel_def service_order_def)
next
  case (Some l)
  show ?thesis
  proof (cases "filter (\<lambda>i. i > l) (om_keys (channels q))")
    case Nil
    then have "filter (\<lambda>i. i \<le> l) (om_keys (channels q)) = om_keys (channels q)"
      by (auto simp: filter_empty_conv filter_id_conv not_less)
    then show ?thesis using Some Nil by (simp add: next_channel_def service_order_def find_filter)
  qed (simp add: Some next_channel_def service_order_def find_filter)
qed

text \<open>Rotation of a sorted list around one of its elements.\<close>

lemma sorted_split:
  "sorted_wrt (<) xs \<Longrightarrow> xs = filter (\<lambda>i. i \<le> l) xs @ filter (\<lambda>i. i > l) xs" for l :: "'k::linorder"
proof (induction xs)
  case (Cons x xs)
  show ?case
  proof (cases "x \<le> l")
    case False
    then have "filter (\<lambda>i. i \<le> l) (x # xs) = []" using Cons.prems by (fastforce simp: filter_empty_conv)
    moreover have "filter (\<lambda>i. i > l) (x # xs) = x # xs"
      using False Cons.prems by (fastforce simp: filter_id_conv)
    ultimately show ?thesis by simp
  qed (use Cons in auto)
qed simp

lemma filter_split_sorted:
  fixes k :: "'k::linorder"
  assumes "sorted_wrt (<) xs" "xs = as @ k # bs"
  shows "filter (\<lambda>i. i > k) xs = bs" "filter (\<lambda>i. i \<le> k) xs = as @ [k]"
proof -
  have "\<forall>a \<in> set as. a < k" "\<forall>b \<in> set bs. k < b" using assms by (auto simp: sorted_wrt_append)
  then show "filter (\<lambda>i. i > k) xs = bs" "filter (\<lambda>i. i \<le> k) xs = as @ [k]"
    unfolding assms(2) by (auto simp: filter_empty_conv filter_id_conv not_less less_imp_le not_le)
qed

lemma service_order_rotates:
  assumes ok: "om_ok (channels q)" and "service_order q = i # rest"
    and keys: "om_keys (channels q') = om_keys (channels q) \<or>
      om_keys (channels q') = filter (\<lambda>k. k \<noteq> i) (om_keys (channels q))"
    and last: "last_channel q' = Some i"
  shows "service_order q' = rest @ (if i \<in> set (om_keys (channels q')) then [i] else [])"
proof -
  let ?ks = "om_keys (channels q)"
  have sorted: "sorted_wrt (<) ?ks" using ok by (simp add: om_ok_def)
  obtain as bs where ks: "?ks = as @ i # bs" and rest: "rest = bs @ as"
  proof (cases "last_channel q")
    case None
    then show ?thesis using that [of "[]" rest] assms(2) by (simp add: service_order_def)
  next
    case (Some l)
    show ?thesis
    proof (cases "filter (\<lambda>i. i > l) ?ks")
      case Nil
      then have "filter (\<lambda>i. i \<le> l) ?ks = ?ks" by (auto simp: filter_empty_conv filter_id_conv not_less)
      then show ?thesis using that [of "[]" rest] assms(2) Some Nil by (simp add: service_order_def)
    next
      case (Cons k bs)
      have "?ks = filter (\<lambda>i. i \<le> l) ?ks @ filter (\<lambda>i. i > l) ?ks"
        using sorted by (rule sorted_split)
      then show ?thesis using that [of "filter (\<lambda>i. i \<le> l) ?ks" bs] Cons assms(2) Some
        by (simp add: service_order_def)
    qed
  qed
  note split = filter_split_sorted [OF sorted ks]
  have ni: "i \<notin> set as" "i \<notin> set bs" using sorted ks by (auto simp: sorted_wrt_append)
  show ?thesis
  proof (cases "i \<in> set (om_keys (channels q'))")
    case True
    then have "om_keys (channels q') = ?ks" using keys by auto
    then show ?thesis using split last rest True by (simp add: service_order_def)
  next
    case False
    have "om_keys (channels q') = filter (\<lambda>k. k \<noteq> i) ?ks" using keys False ks by auto
    moreover have "filter (\<lambda>k. k \<noteq> i) as = as" "filter (\<lambda>k. k \<noteq> i) bs = bs"
      using ni by (auto simp: filter_id_conv)
    ultimately have k': "om_keys (channels q') = as @ bs" using ks by simp
    have "\<forall>a \<in> set as. a < i" "\<forall>b \<in> set bs. i < b" using sorted ks by (auto simp: sorted_wrt_append)
    then have "filter (\<lambda>k. k > i) as = []" "filter (\<lambda>k. k > i) bs = bs"
      "filter (\<lambda>k. k \<le> i) as = as" "filter (\<lambda>k. k \<le> i) bs = []"
      by (auto simp: filter_empty_conv filter_id_conv not_less less_imp_le not_le)
    then have "filter (\<lambda>k. k > i) (om_keys (channels q')) = bs"
      "filter (\<lambda>k. k \<le> i) (om_keys (channels q')) = as"
      by (simp_all add: k')
    then show ?thesis using last rest False by (simp add: service_order_def)
  qed
qed

lemma pop_channel_fields [frame_simps]:
  "om_keys (channels (snd (pop_channel i q))) = om_keys (channels q)"
  "last_channel (snd (pop_channel i q)) = last_channel q"
  by (auto simp: pop_channel_def Let_def split: list.splits)

lemma retire_fields [frame_simps]:
  "om_keys (channels (retire i q)) = om_keys (channels q) \<or>
   om_keys (channels (retire i q)) = filter (\<lambda>k. k \<noteq> i) (om_keys (channels q))"
  "last_channel (retire i q) = last_channel q"
  by (auto simp: retire_def)

section \<open>Properties\<close>

text \<open>Two frames for the witnesses.\<close>

definition sample_clock :: capture_clock where
  "sample_clock = clock_new 1 0 48000 None"

definition sample_audio :: "channel_id \<Rightarrow> server_event" where
  "sample_audio i =
     Audio \<lparr>af_clock = sample_clock, af_audio_clock = sample_clock, af_sequence = 0,
            af_squelch = \<lparr>sq_db = 0, sq_revision = 0\<rparr>, af_channel_id = i,
            af_sample_rate_hz = 48000, af_channels = 1, af_samples = [0, 0]\<rparr>"

definition sample_final :: "channel_id \<Rightarrow> server_event" where
  "sample_final i =
     Telemetry \<lparr>tf_product_id = 1, tf_channel_id = i, tf_apid = 64, tf_width = 1, tf_height = 1,
       tf_pixels = [7], tf_line_times_unix_seconds = [], tf_final_product = True,
       tf_product_complete = False, tf_rs_ok = 0, tf_rs_failed = 0, tf_costas_locked = True,
       tf_frame_locked = True\<rparr>"

definition sample_queue :: stream_queue where
  "sample_queue = \<lparr>channels =
     [(1, \<lparr>frames = [(sample_audio 1, 5, 108)], skipped = 0, observed_at = Some 5, protect_front = False\<rparr>)],
     last_channel = None, bytes = 108, total_skipped = 0\<rparr>"

abbreviation sample_layout :: layout where
  "sample_layout \<equiv> \<lparr>event_size = 100, aircraft_size = 10\<rparr>"

lemmas push_eval = push_def stream_target_def push_frame_def Let_def observe_def entry_def
  slot_of_def slot_default_def coalesce_def enqueue_def is_critical_telemetry_def weight_def
  STREAM_CHANNEL_CAPACITY_def STREAM_AUDIO_CAPACITY_def STREAM_BYTE_CAPACITY_def
  TELEMETRY_FINAL_CAPACITY_def make_room.simps shed.simps om_adjust_def

lemma sample_push: "push sample_layout (sample_audio 1) 5 queue_default = (sample_queue, True)"
  by (simp add: push_eval sample_audio_def sample_queue_def queue_default_def)

abbreviation streams_reach :: "layout \<Rightarrow> stream_queue \<Rightarrow> bool" where
  "streams_reach ly \<equiv> reach (\<lambda>q. q = queue_default) (stream_step ly)"

lemma sample_reach: "streams_reach sample_layout sample_queue"
proof -
  have "stream_step sample_layout queue_default sample_queue"
    using stream_step.pushed [of sample_layout queue_default "sample_audio 1" 5] by (simp add: sample_push)
  then show ?thesis by (blast intro: reach.intros)
qed



text \<open>A non-empty queue always delivers: \<open>pop\<close> answers with a frame or with a gap of at least one
  update, of the channel whose turn it is, and what it delivers is exactly what leaves the count
  of queued frames plus unreported losses.\<close>

lemma stream_pop_delivers:
  assumes "streams_reach ly q" and "channels q \<noteq> []"
  shows "\<exists>i e t. next_channel q = Some i \<and> fst (pop q) = Some (e, t) \<and> updates_in e > 0 \<and>
    queued_frames q + pending q = queued_frames (snd (pop q)) + pending (snd (pop q)) + updates_in e \<and>
    ((\<exists>n. e = StreamGap i n) \<or> (\<exists>c. stream_target e = Some (i, c)))"
  using pop_delivers [of ly q] streams.reach_inv [OF assms(1)] assms(2) next_channel_None [of q]
  by (cases "next_channel q") auto

lemma stream_pop_delivers_witness:
  "\<exists>i e t. next_channel sample_queue = Some i \<and> fst (pop sample_queue) = Some (e, t) \<and> updates_in e > 0"
  using stream_pop_delivers [OF sample_reach] by (auto simp: sample_queue_def)

text \<open>No silent loss: when \<open>push\<close> accepts a frame, the frames queued plus the losses still to be
  reported grow by exactly one, whatever was coalesced or evicted to make room, as long as the
  counters are below their ceiling.\<close>

lemma stream_push_accounts:
  assumes "streams_reach ly q" and "stream_target event = Some (i, c)"
    and "push ly event at q = (q', True)" and "queued_frames q + pending q + 2 < 2 ^ 64"
  shows "queued_frames q' + pending q' = queued_frames q + pending q + 1"
proof -
  have "push_frame ly event at i c q = (q', True)"
    using assms(2,3) by (auto simp: push_def stream_target_def split: server_event.splits)
  moreover have "0 < c" using stream_target_capacity [OF assms(2)] by auto
  moreover have "om_ok (channels q)" using streams.reach_inv [OF assms(1)] by (simp add: queue_ok_def queue_core_def)
  ultimately show ?thesis using assms(4) by (rule push_frame_accounting)
qed

lemma stream_push_accounts_witness:
  "queued_frames (fst (push sample_layout (sample_audio 1) 6 sample_queue)) +
   pending (fst (push sample_layout (sample_audio 1) 6 sample_queue)) = 2"
proof -
  obtain q' where q': "push sample_layout (sample_audio 1) 6 sample_queue = (q', True)"
    by (simp add: push_eval sample_audio_def sample_queue_def)
  have "queued_frames q' + pending q' = queued_frames sample_queue + pending sample_queue + 1"
    using stream_push_accounts [OF sample_reach _ q', of 1 8]
    by (simp add: sample_audio_def stream_target_def STREAM_AUDIO_CAPACITY_def sample_queue_def
        queued_frames_def pending_def)
  moreover have "queued_frames sample_queue + pending sample_queue = 1"
    by (simp add: sample_queue_def queued_frames_def pending_def)
  ultimately show ?thesis by (simp add: q')
qed

text \<open>The byte budget: a push that returns true leaves at most \<open>STREAM_BYTE_CAPACITY\<close> bytes queued
  if there were no more before.\<close>

lemma stream_push_byte_bound:
  assumes "push ly event at q = (q', True)" and "bytes q \<le> STREAM_BYTE_CAPACITY"
  shows "bytes q' \<le> STREAM_BYTE_CAPACITY"
proof (cases "stream_target event")
  case None
  then show ?thesis
    using assms by (auto simp: push_def note_gap_def Let_def frame_simps stream_target_def
        split: server_event.splits if_splits)
next
  case (Some p)
  obtain i c where p: "p = (i, c)" by force
  have pf: "push_frame ly event at i c q = (q', True)" and c: "0 < c"
    using assms(1) Some stream_target_capacity [of event i c]
    by (auto simp: p push_def stream_target_def split: server_event.splits)
  have "bytes q3 \<le> STREAM_BYTE_CAPACITY" if "drops (observe i at (entry i q)) q3" for q3
    using drops_bytes [OF that] assms(2) by (simp add: observe_def frame_simps)
  then show ?thesis
    using push_frame_outcome [OF pf c] by (auto simp: count_skip_def)
qed

lemma stream_push_byte_bound_witness:
  "bytes (fst (push sample_layout (sample_audio 1) 6 sample_queue)) \<le> STREAM_BYTE_CAPACITY"
proof -
  obtain q' where q': "push sample_layout (sample_audio 1) 6 sample_queue = (q', True)"
    by (simp add: push_eval sample_audio_def sample_queue_def)
  have "bytes sample_queue \<le> STREAM_BYTE_CAPACITY" by (simp add: sample_queue_def STREAM_BYTE_CAPACITY_def)
  from stream_push_byte_bound [OF q' this] show ?thesis by (simp add: q')
qed

text \<open>Pushing keeps every channel's order and every critical telemetry frame: what a channel holds
  afterwards is a subsequence of what it held, then the new frame, and the critical frames queued
  stay, with the new one last if it is critical and was accepted.\<close>

lemma stream_push_keeps_criticals:
  assumes "stream_target event = Some (i, c)" and "push ly event at q = (q', b)"
  shows "subseq (frames (slot_of q' j))
      (frames (slot_of q j) @ (if j = i then [(event, at, weight ly event)] else [])) \<and>
    (\<exists>new. criticals q' j = criticals q j @ new \<and>
       (b \<and> j = i \<and> is_critical_telemetry event \<longrightarrow> new = [(event, at, weight ly event)]))"
proof -
  have pf: "push_frame ly event at i c q = (q', b)" and c: "0 < c"
    using assms stream_target_capacity [OF assms(1)]
    by (auto simp: push_def stream_target_def split: server_event.splits)
  show ?thesis
    using push_frame_order [OF pf c, of j] push_frame_criticals [OF pf c] by auto
qed

lemma stream_push_keeps_criticals_witness:
  "\<exists>q'. push sample_layout (sample_final 1) 6 sample_queue = (q', True) \<and>
     criticals q' 1 = [(sample_final 1, 6, 101)]"
proof -
  obtain q' where q': "push sample_layout (sample_final 1) 6 sample_queue = (q', True)"
    by (simp add: push_eval sample_final_def sample_audio_def sample_queue_def)
  have t: "stream_target (sample_final 1) = Some (1, 8)"
    by (simp add: stream_target_def sample_final_def TELEMETRY_FINAL_CAPACITY_def)
  have "criticals sample_queue 1 = []"
    by (simp add: criticals_def slot_of_def sample_queue_def sample_audio_def is_critical_telemetry_def)
  moreover have "is_critical_telemetry (sample_final 1)" "weight sample_layout (sample_final 1) = 101"
    by (simp_all add: is_critical_telemetry_def sample_final_def weight_def)
  ultimately show ?thesis
    using stream_push_keeps_criticals [OF t q', of 1] q' by auto
qed

text \<open>Round robin: a pop serves the first channel of the service order and moves it to the end, or
  takes it out when it has nothing left, so every waiting channel moves up by one.\<close>

lemma stream_pop_round_robin:
  assumes "streams_reach ly q" and "service_order q = i # rest"
  shows "next_channel q = Some i \<and>
    service_order (snd (pop q)) = rest @ (if map_of (channels (snd (pop q))) i = None then [] else [i])"
proof
  show n: "next_channel q = Some i" by (simp add: next_channel_order assms(2))
  have ok: "om_ok (channels q)" using streams.reach_inv [OF assms(1)] by (simp add: queue_ok_def queue_core_def)
  let ?q = "q\<lparr>last_channel := Some i\<rparr>"
  have pop: "snd (pop q) = retire i (snd (pop_channel i ?q))" by (simp add: pop_def n split_beta)
  have k: "om_keys (channels (snd (pop q))) = om_keys (channels q) \<or>
      om_keys (channels (snd (pop q))) = filter (\<lambda>k. k \<noteq> i) (om_keys (channels q))"
    using retire_fields(1) [of i "snd (pop_channel i ?q)"] by (simp only: pop pop_channel_fields) simp
  have l: "last_channel (snd (pop q)) = Some i" by (simp add: pop retire_fields(2) pop_channel_fields)
  show "service_order (snd (pop q)) = rest @ (if map_of (channels (snd (pop q))) i = None then [] else [i])"
    using service_order_rotates [OF ok assms(2) k l] by (simp add: map_of_None_keys)
qed

lemma stream_pop_round_robin_witness: "service_order (snd (pop sample_queue)) = []"
proof -
  have "service_order sample_queue = 1 # []" by (simp add: service_order_def sample_queue_def)
  moreover have "map_of (channels (snd (pop sample_queue))) 1 = None"
    by (simp add: pop_def next_channel_def sample_queue_def pop_channel_def slot_of_def retire_def
        om_adjust_def om_remove_def)
  ultimately show ?thesis using stream_pop_round_robin [OF sample_reach] by simp
qed

text \<open>The promise made with a gap is kept: once a channel's front frame is protected, any further
  pushes to any channels leave it there, and the next pop of that channel delivers it.\<close>

lemma protected_front_survives:
  assumes "protect_front (slot_of q j)" and "frames (slot_of q j) = (e, t, w) # fs"
  shows "fst (pop_channel j (foldl (\<lambda>q (event, at). fst (push ly event at q)) q pushes)) = Some (e, t)"
proof -
  have step: "protect_front (slot_of (fst (push ly event at q)) j) \<and>
      (\<exists>ys. frames (slot_of (fst (push ly event at q)) j) = x # ys)"
    if "protect_front (slot_of q j)" "frames (slot_of q j) = x # xs" for q x xs event at
  proof (cases "stream_target event")
    case None
    then show ?thesis
      using that by (auto simp: push_def note_gap_def Let_def slot_of_def stream_target_def
          split: server_event.splits if_splits option.splits)
  next
    case (Some p)
    obtain i c where p: "p = (i, c)" by force
    obtain q' b where pf: "push_frame ly event at i c q = (q', b)" by force
    have "0 < c" using stream_target_capacity [of event i c] Some p by auto
    from push_frame_front [OF pf this that] show ?thesis
      using Some p pf by (auto simp: push_def stream_target_def split: server_event.splits)
  qed
  have "\<exists>ys. protect_front (slot_of (foldl (\<lambda>q (event, at). fst (push ly event at q)) q pushes) j) \<and>
      frames (slot_of (foldl (\<lambda>q (event, at). fst (push ly event at q)) q pushes) j) = (e, t, w) # ys"
    using assms
  proof (induction pushes arbitrary: q fs)
    case (Cons p pushes)
    obtain event at where p: "p = (event, at)" by force
    obtain ys where "protect_front (slot_of (fst (push ly event at q)) j)"
      "frames (slot_of (fst (push ly event at q)) j) = (e, t, w) # ys"
      using step [OF Cons.prems] by auto
    from Cons.IH [OF this] show ?case by (simp add: p)
  qed auto
  then show ?thesis by (auto simp: pop_channel_def Let_def)
qed

lemma protected_front_survives_witness:
  "fst (pop_channel 1 (foldl (\<lambda>q (event, at). fst (push sample_layout event at q))
     (sample_queue\<lparr>channels := [(1, \<lparr>frames = [(sample_audio 1, 5, 108)], skipped = 0,
        observed_at = Some 5, protect_front = True\<rparr>)]\<rparr>) [(sample_final 1, 7), (sample_audio 2, 9)])) =
   Some (sample_audio 1, 5)"
  by (rule protected_front_survives [where w = 108 and fs = "[]"]) (simp_all add: slot_of_def sample_queue_def)

end
