(* ===== verification/Bitstream.thy ===== *)
theory Bitstream
  imports GF256
begin

text \<open>
  The bit-level stages of the LRPT receiver around frame synchronisation:
  \<^verbatim>\<open>lrpt-decode/src/randomizer.rs\<close> (the pseudo-random sequence and its removal) and
  \<^verbatim>\<open>lrpt-decode/src/diff_decode.rs\<close> (quadrants, differential coding, dibits, packing of bits).
  Symbols arrive as \<open>f32\<close> bit patterns; a comparison with zero reads only sign and exponent.
\<close>

section \<open>Randomizer\<close>

definition PN_PERIOD :: nat where "PN_PERIOD = 255"

text \<open>One turn of the register: feedback from the taps into the top bit.\<close>

definition pn_next :: "u8 \<Rightarrow> u8" where
  "pn_next state =
     (let fb = (drop_bit 7 state XOR drop_bit 5 state XOR drop_bit 3 state XOR state) AND 1
      in drop_bit 1 state OR push_bit 7 fb)"

text \<open>One byte: the eight bits shifted out, the first one on top.\<close>

definition pn_byte :: "u8 \<Rightarrow> u8 \<times> u8" where
  "pn_byte state =
     foldl (\<lambda>(out, state) bit_idx. (out OR push_bit (7 - bit_idx) (state AND 1), pn_next state))
       (0, state) [0..<8]"

fun pn_fill :: "nat \<Rightarrow> u8 \<Rightarrow> u8 list" where
  "pn_fill 0 state = []"
| "pn_fill (Suc n) state = (let (out, state) = pn_byte state in out # pn_fill n state)"

definition generate_pn_table :: "u8 list" where
  "generate_pn_table = pn_fill PN_PERIOD 0xFF"

definition derandomize :: "u8 list \<Rightarrow> u8 list" where
  "derandomize data = map (\<lambda>i. data ! i XOR generate_pn_table ! (i mod PN_PERIOD)) [0..<length data]"

section \<open>Symbols and dibits\<close>

text \<open>\<open>x >= 0.0\<close> on \<open>f32\<close>: not a NaN, and positive or a zero of either sign.\<close>

definition f32_ge_zero :: "u32 \<Rightarrow> bool" where
  "f32_ge_zero w =
     (\<not> (w AND 0x7F800000 = 0x7F800000 \<and> w AND 0x007FFFFF \<noteq> 0) \<and>
      (\<not> bit w 31 \<or> w AND 0x7FFFFFFF = 0))"

definition symbol_to_quadrant :: "u32 \<times> u32 \<Rightarrow> u8" where
  "symbol_to_quadrant p =
     (case (f32_ge_zero (fst p), f32_ge_zero (snd p)) of
        (True, True) \<Rightarrow> 0 | (False, True) \<Rightarrow> 1 | (False, False) \<Rightarrow> 2 | (True, False) \<Rightarrow> 3)"

definition differential_decode :: "u8 list \<Rightarrow> u8 list" where
  "differential_decode quadrants =
     (if quadrants = [] then []
      else map (\<lambda>(w0, w1). (w1 + 4 - w0) mod 4) (zip quadrants (tl quadrants)))"

fun encode_from :: "u8 \<Rightarrow> u8 list \<Rightarrow> u8 list" where
  "encode_from q [] = [q]"
| "encode_from q (d # dibits) = q # encode_from ((q + d) mod 4) dibits"

definition differential_encode :: "u8 list \<Rightarrow> u8 \<Rightarrow> u8 list" where
  "differential_encode dibits start_quadrant = encode_from (start_quadrant mod 4) dibits"

datatype dibit_mapping = Natural | Gray

definition dibit_to_bits :: "u8 \<Rightarrow> dibit_mapping \<Rightarrow> u8 \<times> u8" where
  "dibit_to_bits dibit mapping =
     (let d = dibit AND 3 in
      case mapping of
        Natural \<Rightarrow> (drop_bit 1 d AND 1, d AND 1)
      | Gray \<Rightarrow> let gray = d XOR drop_bit 1 d in (drop_bit 1 gray AND 1, gray AND 1))"

definition dibits_to_bits :: "u8 list \<Rightarrow> dibit_mapping \<Rightarrow> u8 list" where
  "dibits_to_bits dibits mapping =
     concat (map (\<lambda>d. let (b0, b1) = dibit_to_bits d mapping in [b0, b1]) dibits)"

text \<open>\<open>bits_to_bytes\<close> is the packing of the prelude; this is its inverse.\<close>

definition bytes_to_bits :: "u8 list \<Rightarrow> u8 list" where
  "bytes_to_bits bytes = concat (map (\<lambda>byte. map (\<lambda>i. drop_bit i byte AND 1) (rev [0..<8])) bytes)"

section \<open>The register has full period\<close>

lemma bit_pn_next:
  "bit (pn_next s) i =
     (if i = 7 then (bit s 7 \<noteq> (bit s 5 \<noteq> (bit s 3 \<noteq> bit s 0))) else bit s (Suc i))"
  by (auto simp: pn_next_def Let_def bit_or_iff bit_push_bit_iff bit_drop_bit_eq bit_and_iff bit_xor_iff
      bit_1_iff dest: bit_imp_le_length simp del: push_bit_Suc)

lemma pn_next_inj: "pn_next a = pn_next b \<Longrightarrow> a = b"
proof (rule bit_word_eqI)
  fix i assume eq: "pn_next a = pn_next b" and "i < LENGTH(8)"
  then have i: "i = 0 \<or> (\<exists>j < 7. i = Suc j)" by (cases i) auto
  have s: "bit a (Suc j) = bit b (Suc j)" if "j < 7" for j
    using bit_pn_next [of a j] bit_pn_next [of b j] eq that by simp
  then have "bit a 7 = bit b 7" "bit a 5 = bit b 5" "bit a 3 = bit b 3"
    using s [of 6] s [of 4] s [of 2] by (simp_all add: numeral_eq_Suc)
  moreover have "bit (pn_next a) 7 = bit (pn_next b) 7" using eq by simp
  ultimately have "bit a 0 = bit b 0" by (auto simp: bit_pn_next)
  then show "bit a i = bit b i" using i s by auto
qed

lemma pn_next_numeral: "(pn_next ^^ numeral k) c = (pn_next ^^ pred_numeral k) (pn_next c)"
  by (simp add: numeral_eq_Suc funpow_swap1)

lemma pn_orbit:
  "(pn_next ^^ 15) 0xFF \<noteq> 0xFF" "(pn_next ^^ 51) 0xFF \<noteq> 0xFF" "(pn_next ^^ 85) 0xFF \<noteq> 0xFF"
  "(pn_next ^^ 255) 0xFF = 0xFF"
  by (simp_all add: pn_next_numeral pn_next_def)

interpretation pn: full_period pn_next "0xFF :: u8"
  by unfold_locales (use pn_next_inj pn_orbit in simp_all)

text \<open>Output \<open>n\<close> of the register, and the bytes its outputs make, without end.\<close>

definition pn_bit :: "nat \<Rightarrow> bool" where
  "pn_bit n = bit ((pn_next ^^ n) 0xFF) 0"

definition pn_stream_byte :: "nat \<Rightarrow> u8" where
  "pn_stream_byte k = pack_bits (map (\<lambda>j. of_bool (pn_bit (8 * k + j))) [0..<8])"

lemma pn_byte_bits:
  assumes "n \<le> 8"
  shows "foldl (\<lambda>(out, state) i. (out OR push_bit (7 - i) (state AND 1), pn_next state)) (0, s) [0..<n] =
     (out, state) \<Longrightarrow>
     state = (pn_next ^^ n) s \<and>
     (\<forall>i. bit out i = (i < 8 \<and> 7 - i < n \<and> bit ((pn_next ^^ (7 - i)) s) 0))"
  using assms
proof (induction n arbitrary: out state)
  case (Suc n)
  obtain out' state' where f: "foldl (\<lambda>(out, state) i. (out OR push_bit (7 - i) (state AND 1), pn_next state))
      (0, s) [0..<n] = (out', state')" by force
  from Suc.IH [OF this] Suc.prems have s': "state' = (pn_next ^^ n) s"
    and o': "\<And>i. bit out' i = (i < 8 \<and> 7 - i < n \<and> bit ((pn_next ^^ (7 - i)) s) 0)" by auto
  have o: "out = out' OR push_bit (7 - n) (state' AND 1)" "state = pn_next state'" using Suc.prems f by auto
  have "bit out i = (i < 8 \<and> 7 - i < Suc n \<and> bit ((pn_next ^^ (7 - i)) s) 0)" for i
  proof -
    have "bit (push_bit (7 - n) (state' AND 1)) i = (i < 8 \<and> i = 7 - n \<and> bit state' 0)"
      by (auto simp only: bit_push_bit_iff bit_and_iff bit_1_iff) auto
    then show ?thesis
      using Suc.prems(2) by (cases "i = 7 - n") (auto simp: o(1) bit_or_iff o' s')
  qed
  then show ?case by (simp add: o(2) s')
qed simp

lemma pn_byte_stream: "pn_byte ((pn_next ^^ (8 * k)) 0xFF) = (pn_stream_byte k, (pn_next ^^ (8 * Suc k)) 0xFF)"
proof -
  let ?s = "(pn_next ^^ (8 * k)) 0xFF"
  obtain out state where f: "pn_byte ?s = (out, state)" by force
  note b = pn_byte_bits [of 8 ?s, OF _ f [unfolded pn_byte_def]]
  have st: "(pn_next ^^ j) ?s = (pn_next ^^ (8 * k + j)) 0xFF" for j
    by (simp add: add.commute [of "8 * k"] funpow_add)
  have "out = pn_stream_byte k"
  proof (rule bit_word_eqI)
    fix i assume "i < LENGTH(8)"
    then have i: "i < 8" by simp
    have "7 - i < 8" by arith
    then have "bit out i = pn_bit (8 * k + (7 - i))" using b i by (simp add: st pn_bit_def)
    moreover have "map (\<lambda>j. of_bool (pn_bit (8 * k + j))) [0..<8] ! (7 - i) =
        (of_bool (pn_bit (8 * k + (7 - i))) :: u8)" using i by (subst nth_map) auto
    ultimately show "bit out i = bit (pn_stream_byte k) i"
      using i unfolding pn_stream_byte_def bit_pack_bits by (simp add: less_imp_diff_less)
  qed
  moreover have "state = (pn_next ^^ (8 * Suc k)) 0xFF"
    using b st [of 8] by (simp add: add.commute [of _ 8])
  ultimately show ?thesis by (simp add: f)
qed

lemma pn_fill_stream:
  "pn_fill n ((pn_next ^^ (8 * k)) 0xFF) = map pn_stream_byte [k..<k + n]"
proof (induction n arbitrary: k)
  case (Suc n)
  then show ?case by (simp only: pn_fill.simps pn_byte_stream Let_def prod.case) (simp add: upt_conv_Cons del: upt_Suc)
qed simp

lemma generate_pn_table_stream: "generate_pn_table = map pn_stream_byte [0..<255]"
  using pn_fill_stream [of 255 0] by (simp add: generate_pn_table_def PN_PERIOD_def)

lemma pn_bit_mod: "m mod 255 = n mod 255 \<Longrightarrow> pn_bit m = pn_bit n"
  using pn.orbit_iff [of m n] by (simp add: pn_bit_def)

lemma pn_stream_byte_mod: "pn_stream_byte (k mod 255) = pn_stream_byte k"
proof -
  have "pn_bit (8 * (k mod 255) + j) = pn_bit (8 * k + j)" for j
    by (rule pn_bit_mod) (metis mod_add_left_eq mod_mult_right_eq)
  then show ?thesis by (simp add: pn_stream_byte_def)
qed

section \<open>Differential coding\<close>

text \<open>Quadrants wrap at 256 and at 4; both are consistent modulo 4.\<close>

lemma uint_mod4_arith:
  "uint ((a + b) mod 4) = (uint a + uint b) mod 4" "uint ((a + 4 - b) mod 4) = (uint a - uint b) mod 4"
  for a b :: u8
proof -
  have m: "(x mod 256) mod 4 = x mod 4" for x :: int by (rule mod_mod_cancel) simp
  show "uint ((a + b) mod 4) = (uint a + uint b) mod 4"
    by (simp add: uint_mod uint_word_ariths m)
  have "uint ((a + 4 - b) mod 4) = (uint a + 4 - uint b) mod 4"
    by (simp add: uint_mod uint_word_ariths m mod_diff_left_eq)
  also have "\<dots> = (uint a - uint b) mod 4" by presburger
  finally show "uint ((a + 4 - b) mod 4) = (uint a - uint b) mod 4" .
qed

lemma rotated_difference:
  "(((q + d) mod 4 + r) mod 4 + 4 - (q + r) mod 4) mod 4 = d mod 4" for q d r :: u8
proof (rule word_uint_eqI)
  have "((((q + d) mod 4 + r) mod 4 - (q + r) mod 4) :: int) mod 4 = d mod 4" for q d r :: int
    by (simp add: mod_simps)
  then show "uint ((((q + d) mod 4 + r) mod 4 + 4 - (q + r) mod 4) mod 4) = uint (d mod 4)"
    by (simp only: uint_mod4_arith) (simp add: uint_mod)
qed

lemma encode_from_Cons: "\<exists>qs. encode_from q dibits = q # qs"
  by (cases dibits) auto

lemma differential_decode_Cons2:
  "differential_decode (a # b # qs) = (b + 4 - a) mod 4 # differential_decode (b # qs)"
  by (simp add: differential_decode_def)

lemma decode_encode_from:
  "differential_decode (map (\<lambda>x. (x + r) mod 4) (encode_from q dibits)) = map (\<lambda>d. d mod 4) dibits"
proof (induction dibits arbitrary: q)
  case (Cons d dibits)
  obtain qs where qs: "encode_from ((q + d) mod 4) dibits = (q + d) mod 4 # qs"
    using encode_from_Cons by blast
  show ?case
    using Cons.IH [of "(q + d) mod 4"] by (simp add: qs differential_decode_Cons2 rotated_difference)
qed (simp add: differential_decode_def)

section \<open>Packing\<close>

lemma bytes_to_bits_Cons:
  "bytes_to_bits (b # bs) = map (\<lambda>i. drop_bit i b AND 1) (rev [0..<8]) @ bytes_to_bits bs"
  by (simp only: bytes_to_bits_def list.map concat.simps)

lemma pack_byte_bits: "pack_bits (map (\<lambda>i. drop_bit i b AND 1) (rev [0..<8])) = b" for b :: u8
proof (rule bit_word_eqI)
  fix i assume "i < LENGTH(8)"
  then have i: "i < 8" by simp
  then have "rev [0..<8] ! (7 - i) = i" by (subst rev_nth) auto
  then have "map (\<lambda>i. drop_bit i b AND 1) (rev [0..<8]) ! (7 - i) = drop_bit i b AND 1"
    using i by (subst nth_map) auto
  then show "bit (pack_bits (map (\<lambda>i. drop_bit i b AND 1) (rev [0..<8])) :: u8) i = bit b i"
    using i unfolding bit_pack_bits by (simp add: bit_and_iff bit_drop_bit_eq bit_1_iff less_imp_diff_less)
qed

lemma bits_to_bytes_to_bits: "bits_to_bytes (bytes_to_bits bytes) = bytes"
proof (induction bytes)
  case (Cons b bs)
  have "bits_to_bytes (bytes_to_bits (b # bs)) =
      pack_bits (map (\<lambda>i. drop_bit i b AND 1) (rev [0..<8])) # bits_to_bytes (bytes_to_bits bs)"
    unfolding bits_to_bytes_def bytes_to_bits_Cons by (subst chunks_exact_append) simp_all
  then show ?case by (simp only: pack_byte_bits Cons.IH)
qed (simp add: bytes_to_bits_def bits_to_bytes_def)

text \<open>Derandomizing undoes itself, so the same routine whitens and restores a frame.\<close>

lemma derandomize_twice: "derandomize (derandomize data) = data"
  by (rule nth_equalityI) (simp_all add: derandomize_def)

section \<open>Properties\<close>

text \<open>Derandomizing XORs the data with the unbounded output of the feedback register, byte by byte,
  however long the data: the table of 255 bytes repeats exactly where the register does.\<close>

lemma derandomize_is_register_stream:
  "derandomize data = map2 (XOR) data (map pn_stream_byte [0..<length data])"
proof (rule nth_equalityI)
  fix i assume "i < length (derandomize data)"
  then have i: "i < length data" by (simp add: derandomize_def)
  have "i mod 255 < 255" by simp
  then have "generate_pn_table ! (i mod PN_PERIOD) = pn_stream_byte (i mod 255)"
    by (simp only: generate_pn_table_stream PN_PERIOD_def nth_map length_upt nth_upt) simp
  then show "derandomize data ! i = map2 (XOR) data (map pn_stream_byte [0..<length data]) ! i"
    using i by (simp add: derandomize_def pn_stream_byte_mod)
qed (simp add: derandomize_def)

text \<open>The pseudo-random register is of maximal length: two of its states are equal exactly when their
  positions agree modulo 255, so it runs through all nonzero states.\<close>

lemma pn_register_maximal:
  "(pn_next ^^ m) 0xFF = (pn_next ^^ n) 0xFF \<longleftrightarrow> m mod 255 = n mod 255"
  by (rule pn.orbit_iff)

text \<open>Differential decoding inverts differential encoding whatever the first quadrant and under
  any constant rotation of all quadrants, which is what resolves the carrier loop's ambiguity.\<close>

lemma differential_decode_rotation_invariant:
  "differential_decode (map (\<lambda>x. (x + rotation) mod 4) (differential_encode dibits start_quadrant)) =
     map (\<lambda>d. d mod 4) dibits"
  unfolding differential_encode_def by (rule decode_encode_from)

end
