(* ===== verification/Viterbi.thy ===== *)
theory Viterbi
  imports Prelude
begin

text \<open>
  The streaming hard-decision Viterbi decoder of \<^verbatim>\<open>lrpt-decode/src/viterbi.rs\<close>: path metrics,
  the queue of predecessor tables, and one trellis step per received pair of bits. States are
  naturals below 64, metrics (\<open>i32\<close>) integers; the lemmas bound the metrics, so no addition of the
  source can overflow. The reference is the convolutional encoder the branch costs describe.
\<close>

section \<open>The code\<close>

definition STATES :: nat where "STATES = 64"
definition TRACEBACK :: nat where "TRACEBACK = 64"
definition G1 :: u8 where "G1 = 0x79"
definition G2 :: u8 where "G2 = 0x5B"
definition V_INF :: int where "V_INF = 1000000"

definition parity :: "u8 \<Rightarrow> u8" where
  "parity v = of_nat (count_ones v) AND 1"

definition expected_bits :: "nat \<Rightarrow> u8 \<Rightarrow> u8 \<times> u8" where
  "expected_bits state input =
     (let reg = (push_bit 6 input OR of_nat state) AND 0x7F
      in (parity (reg AND G1) XOR 1, parity (reg AND G2) XOR 1))"

definition branch_cost :: "nat \<Rightarrow> u8 \<Rightarrow> u8 \<times> u8 \<Rightarrow> int" where
  "branch_cost state input received =
     (let expected = expected_bits state input
      in of_bool (fst expected \<noteq> fst received) + of_bool (snd expected \<noteq> snd received))"

definition next_state :: "nat \<Rightarrow> u8 \<Rightarrow> nat" where
  "next_state state input = (push_bit 5 (unat input) OR drop_bit 1 state) AND (STATES - 1)"

record viterbi =
  metrics :: "int list"
  decisions :: "u8 list list"
  pending_bit :: "u8 option"

definition viterbi_new :: viterbi where
  "viterbi_new = \<lparr>metrics = (replicate STATES V_INF)[0 := 0], decisions = [], pending_bit = None\<rparr>"

text \<open>One candidate: a state reached at a cost from a predecessor. A table of metrics and one of
  predecessors keep the cheapest, the first of equals.\<close>

definition relax :: "int list \<times> u8 list \<Rightarrow> nat \<times> int \<times> nat \<Rightarrow> int list \<times> u8 list" where
  "relax t c =
     (case (t, c) of ((nxt, predecessor), (target, cost, state)) \<Rightarrow>
        if cost < nxt ! target
        then (nxt[target := cost], predecessor[target := of_nat state])
        else (nxt, predecessor))"

definition expand_state :: "int list \<Rightarrow> u8 \<times> u8 \<Rightarrow> int list \<times> u8 list \<Rightarrow> nat \<Rightarrow> int list \<times> u8 list" where
  "expand_state ms received t state =
     (if ms ! state \<ge> V_INF then t
      else foldl (\<lambda>t input. relax t (next_state state input, ms ! state + branch_cost state input received, state))
             t [0, 1])"

definition trellis :: "int list \<Rightarrow> u8 \<times> u8 \<Rightarrow> int list \<times> u8 list" where
  "trellis ms received = foldl (expand_state ms received) (replicate STATES V_INF, replicate STATES 0) [0..<STATES]"

definition normalize :: "int list \<Rightarrow> int list" where
  "normalize nxt = (let minimum = Min (set nxt) in map (\<lambda>m. if m < V_INF then m - minimum else m) nxt)"

text \<open>\<open>min_by_key\<close> over the enumerated metrics: the first state of least metric.\<close>

definition best_state :: "int list \<Rightarrow> nat" where
  "best_state ms = foldl (\<lambda>b i. if ms ! i < ms ! b then i else b) 0 [0..<length ms]"

definition traceback :: "u8 list list \<Rightarrow> nat \<Rightarrow> u8 list" where
  "traceback ds state =
     fst (foldl (\<lambda>(tb, state) idx. (tb[idx := of_nat (drop_bit 5 state AND 1)], unat (ds ! idx ! state)))
            (replicate (length ds) 0, state) (rev [0..<length ds]))"

definition viterbi_step :: "viterbi \<Rightarrow> u8 \<times> u8 \<Rightarrow> viterbi \<times> u8 list" where
  "viterbi_step v received =
     (let (nxt, predecessor) = trellis (metrics v) received;
          v = v\<lparr>metrics := normalize nxt, decisions := decisions v @ [predecessor]\<rparr>
      in if length (decisions v) \<ge> TRACEBACK
         then (v\<lparr>decisions := tl (decisions v)\<rparr>, [traceback (decisions v) (best_state (metrics v)) ! 0])
         else (v, []))"

text \<open>The loop over the coded bits, \<open>pending_bit\<close> first.\<close>

fun viterbi_run :: "viterbi \<Rightarrow> u8 list \<Rightarrow> viterbi \<times> u8 list" where
  "viterbi_run v [] = (v, [])"
| "viterbi_run v [b] = (v\<lparr>pending_bit := Some b\<rparr>, [])"
| "viterbi_run v (b # c # coded) =
     (let (v, out) = viterbi_step v (b AND 1, c AND 1); (v', out') = viterbi_run v coded in (v', out @ out'))"

definition viterbi_push_bits :: "viterbi \<Rightarrow> u8 list \<Rightarrow> viterbi \<times> u8 list" where
  "viterbi_push_bits v bits =
     viterbi_run (v\<lparr>pending_bit := None\<rparr>) ((case pending_bit v of None \<Rightarrow> [] | Some b \<Rightarrow> [b]) @ bits)"

section \<open>The encoder\<close>

text \<open>Paths through the trellis: the state after a list of inputs and what the encoder sends on it.\<close>

definition path_state :: "nat \<Rightarrow> u8 list \<Rightarrow> nat" where
  "path_state s inputs = foldl next_state s inputs"

fun encode_pairs :: "nat \<Rightarrow> u8 list \<Rightarrow> (u8 \<times> u8) list" where
  "encode_pairs s [] = []"
| "encode_pairs s (i # is) = expected_bits s i # encode_pairs (next_state s i) is"

definition conv_encode :: "bool list \<Rightarrow> u8 list" where
  "conv_encode bits = concat (map (\<lambda>(a, b). [a, b]) (encode_pairs 0 (map of_bool bits)))"

text \<open>The number of received bits in which a path's transmission differs.\<close>

definition pairs_cost :: "(u8 \<times> u8) list \<Rightarrow> (u8 \<times> u8) list \<Rightarrow> int" where
  "pairs_cost sent received =
     sum_list (map2 (\<lambda>e r. of_bool (fst e \<noteq> fst r) + of_bool (snd e \<noteq> snd r)) sent received)"

section \<open>The trellis\<close>

definition is_bit :: "u8 \<Rightarrow> bool" where
  "is_bit b \<longleftrightarrow> b = 0 \<or> b = 1"

lemma is_bit_and_1 [simp]: "is_bit (b AND 1)"
  by (auto simp: is_bit_def and_one_eq mod_2_eq_odd)

lemma is_bit_simps [simp]: "is_bit 0" "is_bit 1" "is_bit (of_bool c)"
  by (simp_all add: is_bit_def)

lemma next_state_table:
  "list_all (\<lambda>s. next_state s 0 = s div 2 \<and> next_state s 1 = 32 + s div 2) [0..<64]"
  by code_simp

lemma next_state_eq: "is_bit i \<Longrightarrow> s < 64 \<Longrightarrow> next_state s i = 32 * unat i + s div 2"
  using next_state_table by (auto simp: list_all_iff is_bit_def)

lemma count_ones_8:
  "count_ones w = of_bool (bit w 0) + of_bool (bit w 1) + of_bool (bit w 2) + of_bool (bit w 3) +
     of_bool (bit w 4) + of_bool (bit w 5) + of_bool (bit w 6) + of_bool (bit w 7)" for w :: u8
proof -
  have l: "length (filter P xs) = sum_list (map (\<lambda>x. of_bool (P x)) xs)" for P and xs :: "nat list"
    by (induction xs) simp_all
  have u: "[0..<LENGTH(8)] = [0, 1, 2, 3, 4, 5, 6, 7]" by code_simp
  show ?thesis unfolding count_ones_def l u by simp
qed

lemma parity_flip:
  assumes "bit g 6" "\<not> bit w 6"
  shows "parity (((push_bit 6 1 OR w) AND 0x7F) AND g) = parity (((push_bit 6 0 OR w) AND 0x7F) AND g) XOR 1"
proof -
  have "count_ones (((push_bit 6 1 OR w) AND 0x7F) AND g) = Suc (count_ones (((push_bit 6 0 OR w) AND 0x7F) AND g))"
    using assms unfolding count_ones_8 by (simp add: bit_or_iff bit_and_iff)
  then show ?thesis by (auto simp: parity_def and_one_eq mod_2_eq_odd simp del: of_nat_Suc)
qed

lemma expected_bits_flip:
  assumes "s < 64" "expected_bits s 0 = (a, b)"
  shows "expected_bits s 1 = (a XOR 1, b XOR 1)"
proof -
  have "bit (of_nat s :: u8) 6 = bit s 6" by (simp add: bit_of_nat_iff)
  also have "bit s 6 = False" using assms(1) by (simp add: bit_iff_odd)
  finally have "\<not> bit (of_nat s :: u8) 6" by simp
  moreover have "bit G1 6" "bit G2 6" by (simp_all add: G1_def G2_def)
  ultimately show ?thesis
    using assms(2) parity_flip [of G1 "of_nat s"] parity_flip [of G2 "of_nat s"]
    by (auto simp: expected_bits_def Let_def xor.assoc)
qed

lemma next_state_less: "is_bit i \<Longrightarrow> s < 64 \<Longrightarrow> next_state s i < 64"
  by (auto simp: next_state_eq is_bit_def)

lemma next_state_input: "is_bit i \<Longrightarrow> s < 64 \<Longrightarrow> of_nat (drop_bit 5 (next_state s i) AND 1) = i"
  by (auto simp: next_state_eq is_bit_def drop_bit_eq_div and_one_eq)

lemma branch_cost_bounds: "0 \<le> branch_cost s i r" "branch_cost s i r \<le> 2"
  by (simp_all add: branch_cost_def Let_def)

lemma branch_cost_expected: "branch_cost s i (expected_bits s i) = 0"
  by (simp add: branch_cost_def Let_def)

lemma branch_cost_other:
  assumes "is_bit i" "is_bit j" "i \<noteq> j" "s < 64"
  shows "branch_cost s j (expected_bits s i) = 2"
proof -
  obtain a b where ab: "expected_bits s 0 = (a, b)" by force
  then show ?thesis
    using assms(1-3) expected_bits_flip [OF assms(4) ab]
    by (auto simp: is_bit_def branch_cost_def Let_def)
qed

lemma relax_fold:
  assumes "foldl relax (nxt, pre) cs = (nxt', pre')" "length nxt = 64" "length pre = 64"
    and "\<forall>(t, c, s) \<in> set cs. t < 64 \<and> s < 64"
  shows "length nxt' = 64 \<and> length pre' = 64 \<and> (\<forall>t < 64. nxt' ! t \<le> nxt ! t) \<and>
    (\<forall>(t, c, s) \<in> set cs. nxt' ! t \<le> c) \<and>
    (\<forall>t < 64. (nxt' ! t = nxt ! t \<and> pre' ! t = pre ! t) \<or> (t, nxt' ! t, unat (pre' ! t)) \<in> set cs)"
  using assms
proof (induction cs arbitrary: nxt pre)
  case (Cons c cs)
  obtain t co s where c: "c = (t, co, s)" by (cases c)
  have ts: "t < 64" "s < 64" using Cons.prems(4) by (auto simp: c)
  then have s8: "unat (of_nat s :: u8) = s" by (simp add: unat_of_nat)
  obtain nxt1 pre1 where r: "relax (nxt, pre) c = (nxt1, pre1)" by force
  have len: "length nxt1 = 64" "length pre1 = 64"
    using r Cons.prems(2,3) by (auto simp: c relax_def split: if_splits)
  have one: "nxt1 ! t \<le> co" "\<forall>t' < 64. nxt1 ! t' \<le> nxt ! t'"
    "\<forall>t' < 64. (nxt1 ! t' = nxt ! t' \<and> pre1 ! t' = pre ! t') \<or> (t' = t \<and> nxt1 ! t' = co \<and> unat (pre1 ! t') = s)"
    using r Cons.prems(2,3) ts s8 by (auto simp: c relax_def nth_list_update split: if_splits)
  have "foldl relax (nxt1, pre1) cs = (nxt', pre')" using Cons.prems(1) r by simp
  from Cons.IH [OF this len] Cons.prems(4)
  have IH: "length nxt' = 64" "length pre' = 64" "\<forall>t < 64. nxt' ! t \<le> nxt1 ! t"
    "\<forall>(t, c, s) \<in> set cs. nxt' ! t \<le> c"
    "\<forall>t < 64. (nxt' ! t = nxt1 ! t \<and> pre' ! t = pre1 ! t) \<or> (t, nxt' ! t, unat (pre' ! t)) \<in> set cs"
    by auto
  have "\<forall>t' < 64. nxt' ! t' \<le> nxt ! t'" using IH(3) one(2) order_trans by blast
  moreover have "nxt' ! t \<le> co" using IH(3) one(1) ts(1) order_trans by blast
  moreover have "(nxt' ! t' = nxt ! t' \<and> pre' ! t' = pre ! t') \<or> (t', nxt' ! t', unat (pre' ! t')) \<in> set (c # cs)"
    if "t' < 64" for t'
    using IH(5) [rule_format, OF that] one(3) [rule_format, OF that] by (auto simp: c)
  ultimately show ?case using IH(1,2,4) by (simp add: c)
qed auto

text \<open>What one trellis step computes: no metric is above a branch into its state, and each finite one
  is the cost of a branch from the recorded predecessor.\<close>

definition candidates :: "int list \<Rightarrow> u8 \<times> u8 \<Rightarrow> (nat \<times> int \<times> nat) list" where
  "candidates ms r =
     concat (map (\<lambda>s. if ms ! s \<ge> V_INF then []
       else map (\<lambda>i. (next_state s i, ms ! s + branch_cost s i r, s)) [0, 1]) [0..<64])"

lemma foldl_concat_map: "foldl f a (concat (map g xs)) = foldl (\<lambda>a x. foldl f a (g x)) a xs"
  by (induction xs arbitrary: a) simp_all

lemma trellis_candidates: "trellis ms r = foldl relax (replicate 64 V_INF, replicate 64 0) (candidates ms r)"
  unfolding trellis_def candidates_def foldl_concat_map STATES_def
  by (rule arg_cong [where f = "\<lambda>f. foldl f _ _"]) (auto simp: expand_state_def fun_eq_iff)

lemma trellis_spec:
  assumes "trellis ms r = (nxt, pre)"
  shows "length nxt = 64" "length pre = 64"
    and "\<And>s i. s < 64 \<Longrightarrow> ms ! s < V_INF \<Longrightarrow> is_bit i \<Longrightarrow> nxt ! next_state s i \<le> ms ! s + branch_cost s i r"
    and "\<And>t. t < 64 \<Longrightarrow> nxt ! t < V_INF \<Longrightarrow> \<exists>i. is_bit i \<and> unat (pre ! t) < 64 \<and> ms ! unat (pre ! t) < V_INF \<and>
      t = next_state (unat (pre ! t)) i \<and> nxt ! t = ms ! unat (pre ! t) + branch_cost (unat (pre ! t)) i r"
    and "\<And>t. t < 64 \<Longrightarrow> nxt ! t \<le> V_INF"
proof -
  have cs: "\<forall>(t, c, s) \<in> set (candidates ms r). t < 64 \<and> s < 64"
    by (auto simp: candidates_def next_state_less split: if_splits)
  note spec = relax_fold [OF assms [unfolded trellis_candidates] _ _ cs, simplified]
  show "length nxt = 64" "length pre = 64" using spec by auto
  show "nxt ! next_state s i \<le> ms ! s + branch_cost s i r" if "s < 64" "ms ! s < V_INF" "is_bit i" for s i
  proof -
    have "(next_state s i, ms ! s + branch_cost s i r, s) \<in> set (candidates ms r)"
      using that by (auto simp: candidates_def is_bit_def)
    then show ?thesis using spec by auto
  qed
  show "\<exists>i. is_bit i \<and> unat (pre ! t) < 64 \<and> ms ! unat (pre ! t) < V_INF \<and>
      t = next_state (unat (pre ! t)) i \<and> nxt ! t = ms ! unat (pre ! t) + branch_cost (unat (pre ! t)) i r"
    if "t < 64" "nxt ! t < V_INF" for t
  proof -
    have "(t, nxt ! t, unat (pre ! t)) \<in> set (candidates ms r)" using spec that by auto
    then show ?thesis by (auto simp: candidates_def is_bit_def split: if_splits)
  qed
  show "nxt ! t \<le> V_INF" if "t < 64" for t using spec that by auto
qed

section \<open>The metrics after a series of pairs\<close>

definition step_metrics :: "int list \<Rightarrow> u8 \<times> u8 \<Rightarrow> int list" where
  "step_metrics ms r = normalize (fst (trellis ms r))"

definition metric_run :: "(u8 \<times> u8) list \<Rightarrow> int list" where
  "metric_run rs = foldl step_metrics (metrics viterbi_new) rs"

lemma metric_run_snoc: "metric_run (rs @ [r]) = step_metrics (metric_run rs) r"
  by (simp add: metric_run_def)

lemma initial_metrics: "length (metrics viterbi_new) = 64" "metrics viterbi_new ! 0 = 0"
  "0 < s \<Longrightarrow> s < 64 \<Longrightarrow> metrics viterbi_new ! s = V_INF"
  by (simp_all add: viterbi_new_def STATES_def)

text \<open>Metrics in order: 64 of them, none negative or above the sentinel, and a zero.\<close>

definition metrics_ok :: "int list \<Rightarrow> bool" where
  "metrics_ok ms \<longleftrightarrow> length ms = 64 \<and> (\<forall>s < 64. 0 \<le> ms ! s \<and> ms ! s \<le> V_INF) \<and> (\<exists>s < 64. ms ! s = 0)"

text \<open>The common amount a step takes off every finite metric.\<close>

definition step_minimum :: "int list \<Rightarrow> u8 \<times> u8 \<Rightarrow> int" where
  "step_minimum ms r = Min (set (fst (trellis ms r)))"

lemma nth_normalize:
  "t < length nxt \<Longrightarrow> normalize nxt ! t = (if nxt ! t < V_INF then nxt ! t - Min (set nxt) else nxt ! t)"
  by (simp add: normalize_def Let_def)

lemma step_metrics_spec:
  assumes ok: "metrics_ok ms"
  shows "metrics_ok (step_metrics ms r)" and "0 \<le> step_minimum ms r"
    and "\<And>s i. s < 64 \<Longrightarrow> ms ! s \<le> V_INF - 3 \<Longrightarrow> is_bit i \<Longrightarrow>
      step_metrics ms r ! next_state s i + step_minimum ms r \<le> ms ! s + branch_cost s i r"
    and "\<And>t. t < 64 \<Longrightarrow> step_metrics ms r ! t < V_INF \<Longrightarrow>
      \<exists>i. is_bit i \<and> unat (snd (trellis ms r) ! t) < 64 \<and> ms ! unat (snd (trellis ms r) ! t) < V_INF \<and>
        t = next_state (unat (snd (trellis ms r) ! t)) i \<and>
        step_metrics ms r ! t + step_minimum ms r =
          ms ! unat (snd (trellis ms r) ! t) + branch_cost (unat (snd (trellis ms r) ! t)) i r"
proof -
  obtain nxt pre where t: "trellis ms r = (nxt, pre)" by force
  note spec = trellis_spec [OF t]
  define m where "m = step_minimum ms r"
  have m_def': "m = Min (set nxt)" by (simp add: m_def step_minimum_def t)
  have nonneg: "0 \<le> nxt ! u" if "u < 64" for u
  proof (cases "nxt ! u < V_INF")
    case True
    from spec(4) [OF that True] obtain i where "unat (pre ! u) < 64"
      "nxt ! u = ms ! unat (pre ! u) + branch_cost (unat (pre ! u)) i r" by auto
    then show ?thesis
      using ok branch_cost_bounds(1) [of "unat (pre ! u)" i r] by (simp add: metrics_ok_def)
  next
    case False
    then show ?thesis by (simp add: V_INF_def)
  qed
  have le: "m \<le> nxt ! u" if "u < 64" for u
    unfolding m_def' using that spec(1) by (intro Min_le) auto
  obtain z where z: "z < 64" "ms ! z = 0" using ok by (auto simp: metrics_ok_def)
  have small: "nxt ! next_state z 0 \<le> 2"
    using spec(3) [of z 0] z branch_cost_bounds(2) [of z 0 r] by (simp add: V_INF_def)
  have min_in: "m \<in> set nxt" unfolding m_def' using spec(1) by (intro Min_in) auto
  then have m: "0 \<le> m" "m \<le> 2"
    using small le [of "next_state z 0"] next_state_less [of 0 z] z(1) nonneg spec(1)
    by (auto simp: in_set_conv_nth)
  have nth: "step_metrics ms r ! u = (if nxt ! u < V_INF then nxt ! u - m else nxt ! u)" if "u < 64" for u
    using that spec(1) by (simp add: step_metrics_def t nth_normalize m_def')
  show "0 \<le> step_minimum ms r" using m(1) by (simp add: m_def)
  show "metrics_ok (step_metrics ms r)"
    unfolding metrics_ok_def
  proof (intro conjI)
    show "length (step_metrics ms r) = 64" using spec(1) by (simp add: step_metrics_def t normalize_def Let_def)
    show "\<forall>u < 64. 0 \<le> step_metrics ms r ! u \<and> step_metrics ms r ! u \<le> V_INF"
      using nth le m spec(5) by (auto simp: V_INF_def)
    obtain u where "u < 64" "nxt ! u = m" using min_in spec(1) by (auto simp: in_set_conv_nth)
    then show "\<exists>s < 64. step_metrics ms r ! s = 0" using nth [of u] m by (auto simp: V_INF_def)
  qed
  show "step_metrics ms r ! next_state s i + step_minimum ms r \<le> ms ! s + branch_cost s i r"
    if "s < 64" "ms ! s \<le> V_INF - 3" "is_bit i" for s i
  proof -
    have "nxt ! next_state s i \<le> ms ! s + branch_cost s i r" using spec(3) that by simp
    moreover from this have "nxt ! next_state s i < V_INF" using that(2) branch_cost_bounds(2) [of s i r] by simp
    ultimately show ?thesis using nth next_state_less [OF that(3,1)] by (simp add: m_def)
  qed
  show "\<exists>i. is_bit i \<and> unat (snd (trellis ms r) ! u) < 64 \<and> ms ! unat (snd (trellis ms r) ! u) < V_INF \<and>
      u = next_state (unat (snd (trellis ms r) ! u)) i \<and>
      step_metrics ms r ! u + step_minimum ms r =
        ms ! unat (snd (trellis ms r) ! u) + branch_cost (unat (snd (trellis ms r) ! u)) i r"
    if "u < 64" "step_metrics ms r ! u < V_INF" for u
  proof -
    have f: "nxt ! u < V_INF" using nth [OF that(1)] that(2) by (auto split: if_splits)
    show ?thesis using spec(4) [OF that(1) f] nth [OF that(1)] f by (simp add: t m_def)
  qed
qed

lemma metric_run_ok: "metrics_ok (metric_run rs)"
proof (induction rs rule: rev_induct)
  case Nil
  have "\<forall>s < 64. metrics viterbi_new ! s = (if s = 0 then 0 else V_INF)"
    using initial_metrics by auto
  then show ?case
    using initial_metrics(2) by (auto simp: metric_run_def metrics_ok_def initial_metrics(1) V_INF_def intro: exI [of _ 0])
next
  case (snoc r rs)
  then show ?case by (simp add: metric_run_snoc step_metrics_spec(1))
qed

section \<open>Bounded metrics\<close>

lemma path_state_simps [simp]:
  "path_state s [] = s" "path_state s (i # is) = path_state (next_state s i) is"
  "path_state s (is @ js) = path_state (path_state s is) js"
  by (simp_all add: path_state_def)

lemma path_state_less: "list_all is_bit is \<Longrightarrow> s < 64 \<Longrightarrow> path_state s is < 64"
  by (induction "is" arbitrary: s) (simp_all add: next_state_less)

text \<open>Six inputs lead from any state to any other.\<close>

definition inputs_to :: "nat \<Rightarrow> u8 list" where
  "inputs_to t = map (\<lambda>k. of_bool (bit t k)) [0..<6]"

lemma inputs_to_bits: "list_all is_bit (inputs_to t)" "length (inputs_to t) = 6"
  by (simp_all add: inputs_to_def list_all_iff)

lemma bits_table:
  "list_all (\<lambda>t. 32 * of_bool (bit t 5) + (16 * of_bool (bit t 4) + (8 * of_bool (bit t 3) +
      (4 * of_bool (bit t 2) + (2 * of_bool (bit t 1) + of_bool (bit t 0))))) = t) [0..<64]"
  by code_simp

lemma bits_sum:
  "t < 64 \<Longrightarrow> 32 * of_bool (bit t 5) + (16 * of_bool (bit t 4) + (8 * of_bool (bit t 3) +
      (4 * of_bool (bit t 2) + (2 * of_bool (bit t 1) + of_bool (bit t 0))))) = t" for t :: nat
  by (rule bspec [OF bits_table [unfolded list_all_iff]]) simp

lemma inputs_to_reaches:
  assumes "s < 64" "t < 64"
  shows "path_state s (inputs_to t) = t"
proof -
  have u: "inputs_to t = [of_bool (bit t 0), of_bool (bit t 1), of_bool (bit t 2), of_bool (bit t 3),
      of_bool (bit t 4), of_bool (bit t 5)]"
    by (simp add: inputs_to_def upt_conv_Cons numeral_eq_Suc)
  have n: "next_state s (of_bool c) = 32 * of_bool c + s div 2" if "s < 64" for s c
    using that by (simp add: next_state_eq)
  have lt: "32 * of_bool c + s div 2 < (64 :: nat)" if "s < 64" for s c using that by auto
  have halves: "(32 * of_bool c + x) div 2 = 16 * of_bool c + x div 2" "(16 * of_bool c + x) div 2 = 8 * of_bool c + x div 2"
    "(8 * of_bool c + x) div 2 = 4 * of_bool c + x div 2" "(4 * of_bool c + x) div 2 = 2 * of_bool c + x div 2"
    "(2 * of_bool c + x) div 2 = of_bool c + x div 2" for c and x :: nat
    by (cases c; simp add: div_plus_div_distrib_dvd_left)+
  have "s div 2 div 2 div 2 div 2 div 2 div 2 = 0" using assms(1) by (simp flip: div_mult2_eq)
  then show ?thesis
    unfolding u path_state_simps
    using assms bits_sum [OF assms(2)] by (simp only: n lt) (simp only: halves add_0_right)
qed

definition levels :: "nat \<Rightarrow> int list \<Rightarrow> bool" where
  "levels n ms \<longleftrightarrow>
     (\<forall>j \<le> 6. j \<le> n \<longrightarrow> (\<exists>b < 64. (j = n \<longrightarrow> b = 0) \<and>
        (\<forall>u. length u = j \<longrightarrow> list_all is_bit u \<longrightarrow> ms ! path_state b u \<le> 2 * int j)))"

lemma levelsD:
  "levels n ms \<Longrightarrow> j \<le> 6 \<Longrightarrow> j \<le> n \<Longrightarrow>
     \<exists>b < 64. (j = n \<longrightarrow> b = 0) \<and>
       (\<forall>u. length u = j \<longrightarrow> list_all is_bit u \<longrightarrow> ms ! path_state b u \<le> 2 * int j)"
  unfolding levels_def by blast

lemma metric_run_levels: "levels (length rs) (metric_run rs)"
proof (induction rs rule: rev_induct)
  case Nil
  then show ?case by (simp add: levels_def metric_run_def initial_metrics)
next
  case (snoc r rs)
  let ?ms = "metric_run rs" and ?ms' = "metric_run (rs @ [r])"
  note spec = step_metrics_spec [where r = r, OF metric_run_ok [of rs], folded metric_run_snoc]
  show ?case unfolding levels_def
  proof (intro allI impI)
    fix j assume j: "j \<le> 6" "j \<le> length (rs @ [r])"
    show "\<exists>b < 64. (j = length (rs @ [r]) \<longrightarrow> b = 0) \<and>
        (\<forall>u. length u = j \<longrightarrow> list_all is_bit u \<longrightarrow> ?ms' ! path_state b u \<le> 2 * int j)"
    proof (cases j)
      case 0
      then show ?thesis using spec(1) by (auto simp: metrics_ok_def)
    next
      case (Suc k)
      then obtain b where b: "b < 64" "k = length rs \<longrightarrow> b = 0"
        and le: "\<And>u. length u = k \<Longrightarrow> list_all is_bit u \<Longrightarrow> ?ms ! path_state b u \<le> 2 * int k"
        using levelsD [OF snoc.IH, of k] j by auto
      have "?ms' ! path_state b u \<le> 2 * int j" if u: "length u = j" "list_all is_bit u" for u
      proof -
        obtain v i where v: "u = v @ [i]" using u(1) Suc by (cases u rule: rev_cases) auto
        then have vi: "length v = k" "list_all is_bit v" "is_bit i" using u Suc by auto
        have "?ms ! path_state b v \<le> 2 * int k" using le vi by blast
        moreover have "path_state b v < 64" using path_state_less vi(2) b(1) by blast
        ultimately show ?thesis
          using spec(2) spec(3) [of "path_state b v" i] vi(3) branch_cost_bounds(2) [of "path_state b v" i r] j(1) Suc
          by (simp add: v V_INF_def)
      qed
      then show ?thesis using b Suc by auto
    qed
  qed
qed

text \<open>Reachable states in the first steps.\<close>

lemma metric_run_finite_path:
  "t < 64 \<Longrightarrow> metric_run rs ! t < V_INF \<Longrightarrow>
     \<exists>u. length u = length rs \<and> list_all is_bit u \<and> path_state 0 u = t"
proof (induction rs arbitrary: t rule: rev_induct)
  case Nil
  then show ?case using initial_metrics(3) [of t] by (cases "t = 0") (auto simp: metric_run_def)
next
  case (snoc r rs)
  note spec = step_metrics_spec(4) [where r = r, OF metric_run_ok [of rs], folded metric_run_snoc, of t]
  obtain i where i: "is_bit i" "unat (snd (trellis (metric_run rs) r) ! t) < 64"
    "metric_run rs ! unat (snd (trellis (metric_run rs) r) ! t) < V_INF"
    "t = next_state (unat (snd (trellis (metric_run rs) r) ! t)) i"
    using spec snoc.prems by auto
  obtain u where "length u = length rs" "list_all is_bit u" "path_state 0 u = unat (snd (trellis (metric_run rs) r) ! t)"
    using snoc.IH [OF i(2,3)] by auto
  then show ?case using i by (intro exI [of _ "u @ [i]"]) auto
qed

lemma metric_run_bound:
  assumes "t < 64"
  shows "metric_run rs ! t = V_INF \<or> metric_run rs ! t \<le> 12"
proof (cases "length rs \<ge> 6")
  case True
  then obtain b where "b < 64" "\<forall>u. length u = 6 \<longrightarrow> list_all is_bit u \<longrightarrow> metric_run rs ! path_state b u \<le> 12"
    using metric_run_levels [of rs, unfolded levels_def, rule_format, of 6] by auto
  then show ?thesis using inputs_to_bits [of t] inputs_to_reaches [of b t] assms by auto
next
  case False
  show ?thesis
  proof (cases "metric_run rs ! t < V_INF")
    case fin: True
    obtain u where "length u = length rs" "list_all is_bit u" "path_state 0 u = t"
      using metric_run_finite_path [OF assms fin] by auto
    moreover have "\<forall>u. length u = length rs \<longrightarrow> list_all is_bit u \<longrightarrow>
        metric_run rs ! path_state 0 u \<le> 2 * int (length rs)"
      using levelsD [OF metric_run_levels [of rs], of "length rs"] False by auto
    ultimately show ?thesis using False by fastforce
  next
    case False
    then show ?thesis using metric_run_ok [of rs] assms by (auto simp: metrics_ok_def)
  qed
qed

section \<open>The metrics are path costs\<close>

lemma length_encode_pairs [simp]: "length (encode_pairs s u) = length u"
  by (induction u arbitrary: s) simp_all

lemma encode_pairs_append: "encode_pairs s (u @ v) = encode_pairs s u @ encode_pairs (path_state s u) v"
  by (induction u arbitrary: s) simp_all

lemma pairs_cost_snoc:
  "length u = length rs \<Longrightarrow>
     pairs_cost (encode_pairs s (u @ [i])) (rs @ [r]) =
       pairs_cost (encode_pairs s u) rs + branch_cost (path_state s u) i r"
  by (simp add: encode_pairs_append pairs_cost_def branch_cost_def Let_def)

lemma finite_metric_small: "t < 64 \<Longrightarrow> metric_run rs ! t < V_INF \<Longrightarrow> metric_run rs ! t \<le> V_INF - 3"
  using metric_run_bound [of t rs] by (auto simp: V_INF_def)

lemma metrics_are_path_costs:
  "\<exists>off. \<forall>t < 64.
     (metric_run rs ! t < V_INF \<longrightarrow>
       (\<exists>u. length u = length rs \<and> list_all is_bit u \<and> path_state 0 u = t \<and>
          pairs_cost (encode_pairs 0 u) rs = metric_run rs ! t + off)) \<and>
     (\<forall>u. length u = length rs \<longrightarrow> list_all is_bit u \<longrightarrow> path_state 0 u = t \<longrightarrow>
       metric_run rs ! t < V_INF \<and> metric_run rs ! t + off \<le> pairs_cost (encode_pairs 0 u) rs)"
proof (induction rs rule: rev_induct)
  case Nil
  have "metric_run [] ! t < V_INF \<longleftrightarrow> t = 0" if "t < 64" for t
    using initial_metrics(2) initial_metrics(3) [of t] that by (cases "t = 0") (auto simp: metric_run_def V_INF_def)
  then show ?case using initial_metrics(2) by (intro exI [of _ 0]) (auto simp: pairs_cost_def metric_run_def V_INF_def)
next
  case (snoc r rs)
  then obtain off where
    path: "\<And>t. t < 64 \<Longrightarrow> metric_run rs ! t < V_INF \<Longrightarrow>
      \<exists>u. length u = length rs \<and> list_all is_bit u \<and> path_state 0 u = t \<and>
        pairs_cost (encode_pairs 0 u) rs = metric_run rs ! t + off" and
    least: "\<And>t u. t < 64 \<Longrightarrow> length u = length rs \<Longrightarrow> list_all is_bit u \<Longrightarrow> path_state 0 u = t \<Longrightarrow>
      metric_run rs ! t < V_INF \<and> metric_run rs ! t + off \<le> pairs_cost (encode_pairs 0 u) rs"
    by blast
  let ?ms = "metric_run rs" and ?ms' = "metric_run (rs @ [r])" and ?p = "\<lambda>t. unat (snd (trellis (metric_run rs) r) ! t)"
  note spec = step_metrics_spec [where r = r, OF metric_run_ok [of rs], folded metric_run_snoc]
  define off' where "off' = off + step_minimum ?ms r"
  have "\<exists>u. length u = length (rs @ [r]) \<and> list_all is_bit u \<and> path_state 0 u = t \<and>
      pairs_cost (encode_pairs 0 u) (rs @ [r]) = ?ms' ! t + off'" if t: "t < 64" "?ms' ! t < V_INF" for t
  proof -
    obtain i where i: "is_bit i" "?p t < 64" "?ms ! ?p t < V_INF" "t = next_state (?p t) i"
      "?ms' ! t + step_minimum ?ms r = ?ms ! ?p t + branch_cost (?p t) i r"
      using spec(4) [OF t] by blast
    obtain u where u: "length u = length rs" "list_all is_bit u" "path_state 0 u = ?p t"
      "pairs_cost (encode_pairs 0 u) rs = ?ms ! ?p t + off" using path [OF i(2,3)] by blast
    have "path_state 0 (u @ [i]) = t" using u(3) i(4) by simp
    moreover have "pairs_cost (encode_pairs 0 (u @ [i])) (rs @ [r]) = ?ms' ! t + off'"
      unfolding pairs_cost_snoc [OF u(1)] u(3,4) off'_def using i(5) by simp
    ultimately show ?thesis using u(1,2) i(1) by (intro exI [of _ "u @ [i]"]) simp
  qed
  moreover have "?ms' ! t < V_INF \<and> ?ms' ! t + off' \<le> pairs_cost (encode_pairs 0 u) (rs @ [r])"
    if t: "t < 64" and u: "length u = length (rs @ [r])" "list_all is_bit u" "path_state 0 u = t" for t u
  proof -
    obtain v i where v: "u = v @ [i]" using u(1) by (cases u rule: rev_cases) auto
    then have vi: "length v = length rs" "list_all is_bit v" "is_bit i" using u by auto
    have s: "path_state 0 v < 64" using path_state_less [OF vi(2)] by simp
    note l = least [OF s vi(1,2) refl]
    have "?ms ! path_state 0 v \<le> V_INF - 3" using finite_metric_small [OF s] l by blast
    from spec(3) [OF s this vi(3)] have
      "?ms' ! t + step_minimum ?ms r \<le> ?ms ! path_state 0 v + branch_cost (path_state 0 v) i r"
      using u(3) v by simp
    then show ?thesis
      using l spec(2) finite_metric_small [OF s, of rs] branch_cost_bounds(2) [of "path_state 0 v" i r]
      unfolding v pairs_cost_snoc [OF vi(1)] off'_def by simp
  qed
  ultimately show ?case by blast
qed

section \<open>An error-free channel\<close>

definition true_pairs :: "u8 list \<Rightarrow> (u8 \<times> u8) list" where
  "true_pairs is = encode_pairs 0 is"

lemma noiseless_metrics:
  "list_all is_bit is \<Longrightarrow>
     metric_run (true_pairs is) ! path_state 0 is = 0 \<and>
     (\<forall>t < 64. t \<noteq> path_state 0 is \<longrightarrow> metric_run (true_pairs is) ! t \<ge> 1)"
proof (induction "is" rule: rev_induct)
  case Nil
  have "metric_run [] ! t \<ge> 1" if "t < 64" "t \<noteq> 0" for t
    using initial_metrics(3) [of t] that by (simp add: metric_run_def V_INF_def)
  then show ?case using initial_metrics(2) by (auto simp: true_pairs_def metric_run_def)
next
  case (snoc i "is")
  let ?rs = "true_pairs is" and ?s = "path_state 0 is" and ?r = "expected_bits (path_state 0 is) i"
  have bits: "list_all is_bit is" "is_bit i" using snoc.prems by auto
  have rs: "true_pairs (is @ [i]) = ?rs @ [?r]" by (simp add: true_pairs_def encode_pairs_append)
  note IH = snoc.IH [OF bits(1)]
  note spec = step_metrics_spec [where r = ?r, OF metric_run_ok [of ?rs], folded metric_run_snoc]
  have s: "?s < 64" using path_state_less [OF bits(1)] by simp
  have ms: "metrics_ok (metric_run ?rs)" by (rule metric_run_ok)
  have zero: "metric_run (?rs @ [?r]) ! next_state ?s i + step_minimum (metric_run ?rs) ?r \<le> 0"
    using spec(3) [OF s _ bits(2)] IH by (simp add: V_INF_def branch_cost_expected)
  have ok: "0 \<le> metric_run (?rs @ [?r]) ! t" if "t < 64" for t
    using spec(1) that by (simp add: metrics_ok_def)
  have min0: "step_minimum (metric_run ?rs) ?r = 0" "metric_run (?rs @ [?r]) ! next_state ?s i = 0"
    using zero spec(2) ok [OF next_state_less [OF bits(2) s]] by linarith+
  have "metric_run (?rs @ [?r]) ! t \<ge> 1" if t: "t < 64" "t \<noteq> next_state ?s i" for t
  proof (cases "metric_run (?rs @ [?r]) ! t < V_INF")
    case True
    let ?p = "unat (snd (trellis (metric_run ?rs) ?r) ! t)"
    obtain j where j: "is_bit j" "?p < 64" "t = next_state ?p j"
      "metric_run (?rs @ [?r]) ! t = metric_run ?rs ! ?p + branch_cost ?p j ?r"
      using spec(4) [OF t(1) True] min0(1) by auto
    show ?thesis
    proof (cases "?p = ?s")
      case p: True
      then have "j \<noteq> i" using j(3) t(2) by auto
      then have "branch_cost ?s j ?r = 2" using branch_cost_other [OF bits(2) j(1) _ s] by auto
      then show ?thesis using j(4) IH unfolding p by simp
    next
      case False
      then have "metric_run ?rs ! ?p \<ge> 1" using IH j(2) by blast
      then show ?thesis unfolding j(4) using branch_cost_bounds(1) [of ?p j ?r] by simp
    qed
  next
    case False
    then show ?thesis by (simp add: V_INF_def)
  qed
  then show ?case using min0(2) rs by simp
qed

lemma noiseless_predecessor:
  assumes "list_all is_bit (is @ [i])"
  shows "unat (snd (trellis (metric_run (true_pairs is)) (expected_bits (path_state 0 is) i))
    ! path_state 0 (is @ [i])) = path_state 0 is"
proof -
  let ?r = "expected_bits (path_state 0 is) i" and ?t = "path_state 0 (is @ [i])"
  let ?p = "unat (snd (trellis (metric_run (true_pairs is)) ?r) ! ?t)"
  have bits: "list_all is_bit is" "is_bit i" using assms by auto
  have t: "?t < 64" using path_state_less [OF assms] by simp
  have rs: "true_pairs (is @ [i]) = true_pairs is @ [?r]" by (simp add: true_pairs_def encode_pairs_append)
  have z: "metric_run (true_pairs is @ [?r]) ! ?t = 0" using noiseless_metrics [OF assms] rs by simp
  note spec = step_metrics_spec [where r = ?r, OF metric_run_ok [of "true_pairs is"], folded metric_run_snoc]
  obtain j where j: "?p < 64" "metric_run (true_pairs is @ [?r]) ! ?t + step_minimum (metric_run (true_pairs is)) ?r =
      metric_run (true_pairs is) ! ?p + branch_cost ?p j ?r"
    using spec(4) [OF t] z by (auto simp: V_INF_def)
  have s: "path_state 0 is < 64" using path_state_less [OF bits(1)] by simp
  have "step_minimum (metric_run (true_pairs is)) ?r \<le> 0"
    using spec(3) [OF s _ bits(2)] noiseless_metrics [OF bits(1)] z by (simp add: V_INF_def branch_cost_expected)
  then have "metric_run (true_pairs is) ! ?p \<le> 0" using j(2) z branch_cost_bounds(1) [of ?p j ?r] by linarith
  then show ?thesis using noiseless_metrics [OF bits(1)] j(1) by fastforce
qed

section \<open>Survivor and traceback\<close>

lemma best_state_fold:
  "n \<le> length ms \<Longrightarrow> 0 < n \<Longrightarrow> foldl (\<lambda>b i. if ms ! i < ms ! b then i else b) 0 [0..<n] = b \<Longrightarrow>
     b < n \<and> (\<forall>i < n. ms ! b \<le> ms ! i)" for ms :: "int list"
proof (induction n arbitrary: b)
  case (Suc n)
  show ?case
  proof (cases n)
    case 0
    then show ?thesis using Suc.prems by auto
  next
    case (Suc m)
    obtain b' where b': "foldl (\<lambda>b i. if ms ! i < ms ! b then i else b) 0 [0..<n] = b'" by simp
    from Suc.IH [OF _ _ this] Suc Suc.prems have "b' < n" "\<forall>i < n. ms ! b' \<le> ms ! i" by auto
    moreover have "b = (if ms ! n < ms ! b' then n else b')" using Suc.prems(3) b' by simp
    ultimately show ?thesis by (auto simp: less_Suc_eq)
  qed
qed simp

lemma best_state_least:
  "ms \<noteq> [] \<Longrightarrow> best_state ms < length ms \<and> (\<forall>i < length ms. ms ! best_state ms \<le> ms ! i)"
  unfolding best_state_def by (rule best_state_fold) auto

lemma traceback_fold:
  fixes \<sigma> :: "nat \<Rightarrow> nat" and u :: "nat \<Rightarrow> u8"
  assumes "\<forall>k < m. unat (ds ! k ! \<sigma> (Suc k)) = \<sigma> k"
    and "\<forall>k < m. \<sigma> (Suc k) = next_state (\<sigma> k) (u k) \<and> is_bit (u k) \<and> \<sigma> k < 64"
    and "m \<le> length tb"
    and "foldl (\<lambda>(tb, state) idx. (tb[idx := of_nat (drop_bit 5 state AND 1)], unat (ds ! idx ! state)))
      (tb, \<sigma> m) (rev [0..<m]) = (tb', s')"
  shows "length tb' = length tb \<and> (\<forall>k < m. tb' ! k = u k) \<and> (\<forall>k. m \<le> k \<longrightarrow> k < length tb \<longrightarrow> tb' ! k = tb ! k)"
  using assms
proof (induction m arbitrary: tb)
  case (Suc m)
  let ?tb = "tb[m := u m]"
  have "of_nat (drop_bit 5 (\<sigma> (Suc m)) AND 1) = u m"
    using Suc.prems(2) next_state_input [of "u m" "\<sigma> m"] by simp
  then have "foldl (\<lambda>(tb, state) idx. (tb[idx := of_nat (drop_bit 5 state AND 1)], unat (ds ! idx ! state)))
      (?tb, \<sigma> m) (rev [0..<m]) = (tb', s')"
    using Suc.prems(1,4) by simp
  from Suc.IH [OF _ _ _ this] Suc.prems(1-3) show ?case
    by (auto simp: nth_list_update less_Suc_eq)
qed simp

lemma traceback_path:
  assumes "\<forall>k < length ds. unat (ds ! k ! \<sigma> (Suc k)) = \<sigma> k"
    and "\<forall>k < length ds. \<sigma> (Suc k) = next_state (\<sigma> k) (u k) \<and> is_bit (u k) \<and> \<sigma> k < 64"
    and "0 < length ds"
  shows "traceback ds (\<sigma> (length ds)) ! 0 = u 0"
proof -
  obtain tb :: "u8 list" and s where f: "foldl (\<lambda>(tb, state) idx. (tb[idx := of_nat (drop_bit 5 state AND 1)], unat (ds ! idx ! state)))
      (replicate (length ds) 0, \<sigma> (length ds)) (rev [0..<length ds]) = (tb, s)" by force
  from traceback_fold [OF assms(1,2) _ f] show ?thesis
    using assms(3) unfolding traceback_def f by simp
qed

section \<open>Runs of the decoder\<close>

fun run_pairs :: "viterbi \<Rightarrow> (u8 \<times> u8) list \<Rightarrow> viterbi \<times> u8 list" where
  "run_pairs v [] = (v, [])"
| "run_pairs v (r # rs) =
     (let (v, out) = viterbi_step v r; (v', out') = run_pairs v rs in (v', out @ out'))"

lemma run_pairs_snoc:
  "run_pairs v (rs @ [r]) =
     (let (v1, out) = run_pairs v rs; (v2, out') = viterbi_step v1 r in (v2, out @ out'))"
  by (induction rs arbitrary: v) (auto simp: Let_def split: prod.splits)

lemma parity_bit: "is_bit (parity v XOR 1)"
proof -
  have "parity v = 0 \<or> parity v = 1" by (auto simp: parity_def and_one_eq mod_2_eq_odd)
  then show ?thesis by (auto simp: is_bit_def)
qed

lemma bit_and_1: "is_bit b \<Longrightarrow> b AND 1 = b"
  by (auto simp: is_bit_def)

lemma expected_bits_bits: "expected_bits s i = (a, b) \<Longrightarrow> a AND 1 = a \<and> b AND 1 = b"
  by (auto simp: expected_bits_def Let_def bit_and_1 parity_bit)

lemma viterbi_run_encoded:
  "viterbi_run v (concat (map (\<lambda>(a, b). [a, b]) (encode_pairs s u))) = run_pairs v (encode_pairs s u)"
proof (induction u arbitrary: v s)
  case (Cons i u)
  obtain a b where ab: "expected_bits s i = (a, b)" by force
  then show ?case using Cons.IH expected_bits_bits [OF ab] by simp
qed simp

text \<open>The predecessor tables of a series of pairs.\<close>

definition tables :: "(u8 \<times> u8) list \<Rightarrow> u8 list list" where
  "tables rs = map (\<lambda>k. snd (trellis (metric_run (take k rs)) (rs ! k))) [0..<length rs]"

lemma length_tables [simp]: "length (tables rs) = length rs"
  by (simp add: tables_def)

lemma nth_tables: "m < length rs \<Longrightarrow> tables rs ! m = snd (trellis (metric_run (take m rs)) (rs ! m))"
  by (simp add: tables_def)

lemma tables_snoc: "tables (rs @ [r]) = tables rs @ [snd (trellis (metric_run rs) r)]"
  by (auto simp: tables_def nth_append intro: map_cong)

lemma viterbi_step_eq:
  "viterbi_step v r =
     (let ds = decisions v @ [snd (trellis (metrics v) r)]; ms = step_metrics (metrics v) r in
      (v\<lparr>metrics := ms, decisions := (if length ds \<ge> 64 then tl ds else ds)\<rparr>,
       if length ds \<ge> 64 then [traceback ds (best_state ms) ! 0] else []))"
  by (simp add: viterbi_step_def Let_def TRACEBACK_def step_metrics_def split_beta)

lemma tl_drop_Suc: "tl (drop n xs) = drop (Suc n) xs"
  by (simp add: drop_Suc tl_drop)

lemma run_pairs_state:
  "run_pairs viterbi_new rs = (v, out) \<Longrightarrow>
     metrics v = metric_run rs \<and> decisions v = drop (length rs - 63) (tables rs) \<and> pending_bit v = None"
proof (induction rs arbitrary: v out rule: rev_induct)
  case Nil
  then show ?case by (auto simp: metric_run_def tables_def viterbi_new_def)
next
  case (snoc r rs)
  obtain v1 out1 where v1: "run_pairs viterbi_new rs = (v1, out1)" by force
  note IH = snoc.IH [OF v1]
  have v: "v = fst (viterbi_step v1 r)" using snoc.prems v1 by (simp add: run_pairs_snoc split_beta)
  have ds: "decisions v1 @ [snd (trellis (metrics v1) r)] = drop (length rs - 63) (tables (rs @ [r]))"
    using IH by (simp add: tables_snoc)
  have l: "length (drop (length rs - 63) (tables (rs @ [r]))) \<ge> 64 \<longleftrightarrow> length rs \<ge> 63" by (simp, arith)
  have "v = v1\<lparr>metrics := step_metrics (metrics v1) r,
      decisions := (if length rs \<ge> 63 then tl (drop (length rs - 63) (tables (rs @ [r])))
        else drop (length rs - 63) (tables (rs @ [r])))\<rparr>"
    unfolding v viterbi_step_eq Let_def ds l by simp
  moreover have "Suc (length rs - 63) = length rs - 62" if "length rs \<ge> 63" using that by arith
  ultimately show ?case using IH by (auto simp: metric_run_snoc tl_drop_Suc)
qed

lemma noiseless_output:
  "list_all is_bit is \<Longrightarrow> snd (run_pairs viterbi_new (true_pairs is)) = take (length is - 63) is"
proof (induction "is" rule: rev_induct)
  case Nil
  then show ?case by (simp add: true_pairs_def)
next
  case (snoc i "is")
  let ?n = "length is" and ?all = "is @ [i]"
  let ?r = "expected_bits (path_state 0 is) i" and ?T = "tables (true_pairs (is @ [i]))"
  have rs: "true_pairs ?all = true_pairs is @ [?r]" by (simp add: true_pairs_def encode_pairs_append)
  have bits: "list_all is_bit is" using snoc.prems by auto
  obtain v out where v: "run_pairs viterbi_new (true_pairs is) = (v, out)" by force
  have out: "out = take (?n - 63) is" using snoc.IH [OF bits] v by simp
  have len: "length (true_pairs is) = ?n" by (simp add: true_pairs_def)
  note st = run_pairs_state [OF v, unfolded len]
  let ?ds = "drop (?n - 63) ?T"
  have ds: "decisions v @ [snd (trellis (metrics v) ?r)] = ?ds"
    using st by (simp add: rs tables_snoc len)
  have lds: "length ?ds = Suc ?n - (?n - 63)" by (simp add: rs len)
  have ms: "step_metrics (metrics v) ?r = metric_run (true_pairs ?all)" using st by (simp add: rs metric_run_snoc)
  have c: "64 \<le> length ?ds \<longleftrightarrow> 63 \<le> ?n" unfolding lds by arith
  have eq: "snd (run_pairs viterbi_new (true_pairs ?all)) =
      out @ (if ?n \<ge> 63 then [traceback ?ds (best_state (metric_run (true_pairs ?all))) ! 0] else [])"
    unfolding rs run_pairs_snoc v Let_def prod.case viterbi_step_eq ds [unfolded rs] ms [unfolded rs] snd_conv
    by (simp only: c [unfolded rs])
  show ?case
  proof (cases "?n \<ge> 63")
    case False
    then show ?thesis using eq out by simp
  next
    case True
    let ?\<sigma> = "\<lambda>k. path_state 0 (take (?n - 63 + k) ?all)" and ?u = "\<lambda>k. ?all ! (?n - 63 + k)"
    have l64: "length ?ds = 64" using True lds by simp
    have best: "best_state (metric_run (true_pairs ?all)) = path_state 0 ?all"
    proof -
      have l: "length (metric_run (true_pairs ?all)) = 64" using metric_run_ok by (simp add: metrics_ok_def)
      then have b: "best_state (metric_run (true_pairs ?all)) < 64"
        "\<forall>j < 64. metric_run (true_pairs ?all) ! best_state (metric_run (true_pairs ?all)) \<le> metric_run (true_pairs ?all) ! j"
        using best_state_least [of "metric_run (true_pairs ?all)"] by fastforce+
      have "path_state 0 ?all < 64" using path_state_less [OF snoc.prems] by simp
      then show ?thesis using b noiseless_metrics [OF snoc.prems] by fastforce
    qed
    have step: "take (Suc m) ?all = take m ?all @ [?all ! m]" if "m \<le> ?n" for m
      using that by (intro take_Suc_conv_app_nth) simp
    have bitsm: "list_all is_bit (take (Suc m) ?all)" for m
      using snoc.prems by (metis append_take_drop_id list_all_append)
    have rsm: "take m (true_pairs ?all) = true_pairs (take m ?all)" for m
      by (metis append_take_drop_id encode_pairs_append length_encode_pairs length_take append_eq_conv_conj
          true_pairs_def)
    have nthm: "true_pairs ?all ! m = expected_bits (path_state 0 (take m ?all)) (?all ! m)" if "m \<le> ?n" for m
    proof -
      have "true_pairs ?all ! m = true_pairs (take (Suc m) ?all) ! m" by (simp only: nth_take lessI flip: rsm)
      also have "\<dots> = expected_bits (path_state 0 (take m ?all)) (?all ! m)"
        using that unfolding step [OF that] by (simp add: true_pairs_def encode_pairs_append nth_append)
      finally show ?thesis .
    qed
    have table: "unat (?T ! m ! path_state 0 (take (Suc m) ?all)) = path_state 0 (take m ?all)" if "m \<le> ?n" for m
    proof -
      have "m < length (true_pairs ?all)" using that by (simp add: true_pairs_def)
      then have "?T ! m = snd (trellis (metric_run (true_pairs (take m ?all)))
          (expected_bits (path_state 0 (take m ?all)) (?all ! m)))"
        by (simp only: nth_tables rsm nthm [OF that])
      then show ?thesis using noiseless_predecessor [of "take m ?all" "?all ! m"] bitsm [of m]
        by (simp only: step [OF that])
    qed
    have "traceback ?ds (?\<sigma> (length ?ds)) ! 0 = ?u 0"
    proof (rule traceback_path)
      show "\<forall>k < length ?ds. unat (?ds ! k ! ?\<sigma> (Suc k)) = ?\<sigma> k"
      proof (intro allI impI)
        fix k assume "k < length ?ds"
        then have k: "?n - 63 + k \<le> ?n" using l64 True by simp
        have "?ds ! k = ?T ! (?n - 63 + k)" by (rule nth_drop) (simp add: rs len)
        then show "unat (?ds ! k ! ?\<sigma> (Suc k)) = ?\<sigma> k" using table [OF k] by (simp only: add_Suc_right)
      qed
      show "\<forall>k < length ?ds. ?\<sigma> (Suc k) = next_state (?\<sigma> k) (?u k) \<and> is_bit (?u k) \<and> ?\<sigma> k < 64"
      proof (intro allI impI)
        fix k assume "k < length ?ds"
        then have k: "?n - 63 + k \<le> ?n" using l64 True by simp
        have "list_all is_bit (take (?n - 63 + k) ?all)" "is_bit (?u k)"
          using bitsm [of "?n - 63 + k"] unfolding step [OF k] by simp_all
        then show "?\<sigma> (Suc k) = next_state (?\<sigma> k) (?u k) \<and> is_bit (?u k) \<and> ?\<sigma> k < 64"
          using step [OF k] path_state_less [of "take (?n - 63 + k) ?all" 0]
          by (simp only: add_Suc_right path_state_simps)
      qed
      show "0 < length ?ds" unfolding l64 by simp
    qed
    moreover have "?\<sigma> (length ?ds) = path_state 0 ?all" using l64 True by simp
    ultimately have "traceback ?ds (best_state (metric_run (true_pairs ?all))) ! 0 = ?all ! (?n - 63)"
      by (simp add: best)
    moreover have "length ?all - 63 = Suc (?n - 63)" using True by simp
    moreover have "take (?n - 63) ?all = take (?n - 63) is" by simp
    ultimately show ?thesis
      using eq out True step [of "?n - 63"] by (simp only: if_True diff_le_self)
  qed
qed

section \<open>Chunks\<close>

lemma viterbi_run_append:
  "pending_bit v = None \<Longrightarrow>
     viterbi_run v (xs @ ys) =
       (let (v1, out1) = viterbi_run v xs; (v2, out2) = viterbi_push_bits v1 ys in (v2, out1 @ out2))"
proof (induction v xs rule: viterbi_run.induct)
  case (1 v)
  then have "v\<lparr>pending_bit := None\<rparr> = v" by (cases v) simp
  note same = this
  show ?case using 1 by (simp add: viterbi_push_bits_def same)
next
  case (2 v b)
  then have "v\<lparr>pending_bit := None\<rparr> = v" by (cases v) simp
  note same = this
  show ?case by (simp add: viterbi_push_bits_def same)
next
  case (3 v b c coded)
  obtain v1 out where s: "viterbi_step v (b AND 1, c AND 1) = (v1, out)" by force
  have "pending_bit v1 = None" using 3(2) s by (auto simp: viterbi_step_eq Let_def)
  then show ?case using 3(1) [OF s [symmetric] refl] s by (simp add: Let_def split: prod.splits)
qed

text \<open>The states of a decoder that was fed anything since it was made.\<close>

definition viterbi_ok :: "viterbi \<Rightarrow> bool" where
  "viterbi_ok v \<longleftrightarrow>
     length (metrics v) = 64 \<and> length (decisions v) \<le> 63 \<and>
     (\<forall>s < 64. metrics v ! s = V_INF \<or> 0 \<le> metrics v ! s \<and> metrics v ! s \<le> 12) \<and>
     (\<exists>s < 64. metrics v ! s = 0)"

definition tracked :: "viterbi \<Rightarrow> bool" where
  "tracked v \<longleftrightarrow> (\<exists>rs. metrics v = metric_run rs) \<and> length (decisions v) \<le> 63"

lemma tracked_step: "tracked v \<Longrightarrow> tracked (fst (viterbi_step v r))"
  unfolding tracked_def viterbi_step_eq Let_def by (auto simp flip: metric_run_snoc)

lemma tracked_run: "tracked v \<Longrightarrow> tracked (fst (viterbi_run v bits))"
proof (induction v bits rule: viterbi_run.induct)
  case (3 v b c coded)
  obtain v1 out where s: "viterbi_step v (b AND 1, c AND 1) = (v1, out)" by force
  then have "tracked v1" using tracked_step [OF 3(2)] by (metis fst_conv)
  from 3(1) [OF s [symmetric] refl this] show ?case by (simp add: s split_beta)
qed (simp_all add: tracked_def)

lemma tracked_push: "tracked v \<Longrightarrow> tracked (fst (viterbi_push_bits v bits))"
  unfolding viterbi_push_bits_def by (rule tracked_run) (simp add: tracked_def)

lemma tracked_new: "tracked viterbi_new"
  unfolding tracked_def by (auto simp: viterbi_new_def metric_run_def intro!: exI [of _ "[]"])

lemma tracked_ok: "tracked v \<Longrightarrow> viterbi_ok v"
  unfolding tracked_def viterbi_ok_def
  using metric_run_ok metric_run_bound by (fastforce simp: metrics_ok_def)

lemma push_bits_append:
  "viterbi_push_bits v (xs @ ys) =
     (let (v1, out1) = viterbi_push_bits v xs; (v2, out2) = viterbi_push_bits v1 ys in (v2, out1 @ out2))"
  unfolding viterbi_push_bits_def [of v] append_assoc [symmetric] by (rule viterbi_run_append) simp

lemma push_bits_Nil: "viterbi_push_bits v [] = (v, [])"
  by (cases v) (auto simp: viterbi_push_bits_def split: option.split)

interpretation viterbi: chunked viterbi_push_bits "\<lambda>_. True"
  by unfold_locales (simp_all add: push_bits_append push_bits_Nil split_beta Let_def)

text \<open>The encoding of a bit string decodes to it, delayed by the window.\<close>

lemma clean_channel:
  "snd (viterbi_push_bits viterbi_new (conv_encode bits)) = map of_bool (take (length bits - 63) bits)"
proof -
  have b: "list_all is_bit (map of_bool bits)" by (simp add: list_all_iff)
  have "viterbi_new\<lparr>pending_bit := None\<rparr> = viterbi_new" by (simp add: viterbi_new_def)
  then have "snd (viterbi_push_bits viterbi_new (conv_encode bits)) = snd (run_pairs viterbi_new (true_pairs (map of_bool bits)))"
    by (simp add: viterbi_push_bits_def conv_encode_def viterbi_run_encoded true_pairs_def viterbi_new_def)
  then show ?thesis using noiseless_output [OF b] by (simp add: take_map)
qed

section \<open>Properties\<close>

text \<open>C18: the decoder inverts the encoder: fed the encoding of any bit string it returns that string,
  delayed by the 63 steps of the traceback window.\<close>

theorem viterbi_decodes_clean_channel:
  "snd (viterbi_push_bits viterbi_new (conv_encode bits)) = map of_bool (take (length bits - 63) bits)"
  by (rule clean_channel)

text \<open>The path metrics are exact: up to one common offset the metric of a state is the least number
  of received bits any input sequence leading to it disagrees with, and it is the sentinel exactly
  for states no sequence reaches; this on every received sequence.\<close>

lemma viterbi_metrics_are_least_costs:
  "\<exists>offset. \<forall>t < 64.
     (metrics (fst (run_pairs viterbi_new rs)) ! t < V_INF \<longrightarrow>
       (\<exists>u. length u = length rs \<and> list_all is_bit u \<and> path_state 0 u = t \<and>
          pairs_cost (encode_pairs 0 u) rs = metrics (fst (run_pairs viterbi_new rs)) ! t + offset)) \<and>
     (\<forall>u. length u = length rs \<longrightarrow> list_all is_bit u \<longrightarrow> path_state 0 u = t \<longrightarrow>
       metrics (fst (run_pairs viterbi_new rs)) ! t < V_INF \<and>
       metrics (fst (run_pairs viterbi_new rs)) ! t + offset \<le> pairs_cost (encode_pairs 0 u) rs)"
proof -
  have "metrics (fst (run_pairs viterbi_new rs)) = metric_run rs"
    using run_pairs_state [of rs] by (cases "run_pairs viterbi_new rs") auto
  then show ?thesis using metrics_are_path_costs [of rs] by simp
qed

lemma viterbi_metrics_are_least_costs_witness:
  "\<exists>offset. metrics (fst (run_pairs viterbi_new [])) ! 0 + offset \<le> pairs_cost (encode_pairs 0 []) []"
  using viterbi_metrics_are_least_costs [of "[]"] by (rule ex_forward) (auto dest: spec [of _ 0])

text \<open>Whatever bytes it is fed, in whatever chunks, no metric overflows or reaches the sentinel by
  accumulation: each is the sentinel or at most 12, the least is 0, and at most 63 predecessor
  tables are kept.\<close>

lemma viterbi_metrics_bounded:
  "viterbi_ok (foldl (\<lambda>v chunk. fst (viterbi_push_bits v chunk)) viterbi_new chunks)"
proof -
  have "tracked v \<Longrightarrow> tracked (foldl (\<lambda>v chunk. fst (viterbi_push_bits v chunk)) v chunks)" for v
    by (induction chunks arbitrary: v) (simp_all add: tracked_push)
  then show ?thesis by (blast intro: tracked_new tracked_ok)
qed

text \<open>Chunking does not matter: any two ways of cutting the coded bits into calls give the same
  output and leave the same state, pairs split between calls included.\<close>

lemma viterbi_chunk_invariant:
  assumes "concat chunks = concat chunks'"
  shows "feed viterbi_push_bits v chunks = feed viterbi_push_bits v chunks'"
  using assms by (rule viterbi.feed_partition [OF TrueI])

lemma viterbi_chunk_invariant_witness:
  "feed viterbi_push_bits viterbi_new [[1, 0, 1], [], [1]] = feed viterbi_push_bits viterbi_new [[1], [0, 1, 1]]"
  by (rule viterbi_chunk_invariant) simp

end
