(* ===== verification/Frame_Sync.thy ===== *)
theory Frame_Sync
  imports Prelude
begin

text \<open>
  CADU frame synchronisation, \<^verbatim>\<open>lrpt-decode/src/frame_sync.rs\<close>: the search for the attached sync
  marker and the loop that cuts frames out of the bit buffer. The caller's \<open>validate\<close> closure is a
  predicate on the candidate; bit positions (\<open>u64\<close>) are naturals. The lemmas show that the buffer
  stays below one frame and that frames do not depend on how the bits are cut into calls.
\<close>

section \<open>The code\<close>

definition SYNC_MARKER :: u32 where "SYNC_MARKER = 0x1ACFFC1D"
definition SYNC_MARKER_BITS :: nat where "SYNC_MARKER_BITS = 32"
definition CADU_LEN_BYTES :: nat where "CADU_LEN_BYTES = 1024"
definition TRANSPORT_FRAME_LEN :: nat where "TRANSPORT_FRAME_LEN = CADU_LEN_BYTES - 4"
definition MAX_MARKER_ERRORS :: nat where "MAX_MARKER_ERRORS = 2"
definition CADU_BITS :: nat where "CADU_BITS = CADU_LEN_BYTES * 8"
definition MAX_UNLOCKED_BITS :: nat where "MAX_UNLOCKED_BITS = CADU_BITS * 4"

definition marker_rotations :: "u32 list" where
  "marker_rotations = map (\<lambda>i. word_rotl (i * 8) SYNC_MARKER) [0..<4]"

definition bits_to_u32 :: "u8 list \<Rightarrow> u32" where
  "bits_to_u32 bits = pack_bits bits"

record sync_match =
  bit_offset :: nat
  errors :: nat

text \<open>The number of bits in which the 32 bits at an offset differ from the marker.\<close>

definition marker_distance :: "u8 list \<Rightarrow> nat \<Rightarrow> nat" where
  "marker_distance bits offset =
     count_ones (bits_to_u32 (take SYNC_MARKER_BITS (drop offset bits)) XOR SYNC_MARKER)"

definition find_sync :: "u8 list \<Rightarrow> sync_match option" where
  "find_sync bits =
     (if length bits < SYNC_MARKER_BITS then None
      else map_option (\<lambda>offset. \<lparr>bit_offset = offset, errors = marker_distance bits offset\<rparr>)
        (find (\<lambda>offset. marker_distance bits offset \<le> MAX_MARKER_ERRORS)
          [0..<length bits - SYNC_MARKER_BITS + 1]))"

record frame_sync =
  bit_buffer :: "u8 list"
  locked :: bool
  bits_received :: nat

definition frame_sync_new :: frame_sync where
  "frame_sync_new = \<lparr>bit_buffer = [], locked = False, bits_received = 0\<rparr>"

record located_frame =
  end_bit :: nat
  frame_bytes :: "u8 list"

text \<open>What one turn of the loop finds at the front of the buffer: the lock is dropped when the marker is
  not where it should be, and an unlocked buffer is searched. \<open>None\<close> is a buffer without a marker.\<close>

definition still_locked :: "bool \<Rightarrow> u8 list \<Rightarrow> bool" where
  "still_locked lck buf \<longleftrightarrow> lck \<and> marker_distance buf 0 \<le> MAX_MARKER_ERRORS"

definition align :: "bool \<Rightarrow> u8 list \<Rightarrow> u8 list option" where
  "align lck buf =
     (if still_locked lck buf then Some buf
      else map_option (\<lambda>found. drop (bit_offset found) buf) (find_sync buf))"

lemma align_length: "align lck buf = Some buf' \<Longrightarrow> length buf' \<le> length buf"
  by (auto simp: align_def split: if_splits)

function frame_loop :: "(u8 list \<Rightarrow> bool) \<Rightarrow> nat \<Rightarrow> bool \<Rightarrow> u8 list \<Rightarrow> (bool \<times> u8 list) \<times> located_frame list" where
  "frame_loop validate received lck buf =
     (if length buf < SYNC_MARKER_BITS then ((lck, buf), [])
      else case align lck buf of
        None \<Rightarrow> ((False, drop (length buf - (SYNC_MARKER_BITS - 1)) buf), [])
      | Some buf' \<Rightarrow>
          if length buf' < CADU_BITS then ((still_locked lck buf, buf'), [])
          else
            let candidate = bits_to_bytes (take CADU_BITS buf');
                lck' = validate candidate;
                frame = \<lparr>end_bit = received - length buf' + CADU_BITS, frame_bytes = candidate\<rparr>;
                (rest, frames) = frame_loop validate received lck' (drop (if lck' then CADU_BITS else 1) buf')
            in (rest, frame # frames))"
  by pat_completeness auto
termination
  by (relation "measure (\<lambda>(_, _, _, buf). length buf)")
    (auto dest!: align_length simp: SYNC_MARKER_BITS_def CADU_BITS_def CADU_LEN_BYTES_def)

declare frame_loop.simps [simp del]

definition push_bits_located ::
    "(u8 list \<Rightarrow> bool) \<Rightarrow> frame_sync \<Rightarrow> u8 list \<Rightarrow> frame_sync \<times> located_frame list" where
  "push_bits_located validate f bits =
     (let received = bits_received f + length bits;
          ((lck, buf), frames) = frame_loop validate received (locked f) (bit_buffer f @ bits)
      in (\<lparr>bit_buffer = buf, locked = lck, bits_received = received\<rparr>, frames))"

definition push_bits_checked ::
    "(u8 list \<Rightarrow> bool) \<Rightarrow> frame_sync \<Rightarrow> u8 list \<Rightarrow> frame_sync \<times> u8 list list" where
  "push_bits_checked validate f bits =
     (let (f, frames) = push_bits_located validate f bits in (f, map frame_bytes frames))"

definition push_bits :: "frame_sync \<Rightarrow> u8 list \<Rightarrow> frame_sync \<times> u8 list list" where
  "push_bits f bits = push_bits_checked (\<lambda>_. True) f bits"

section \<open>The search\<close>

lemma marker_distance_append:
  "offset + 32 \<le> length xs \<Longrightarrow> marker_distance (xs @ ys) offset = marker_distance xs offset"
  by (simp add: marker_distance_def SYNC_MARKER_BITS_def)

lemma marker_distance_drop: "marker_distance (drop k xs) offset = marker_distance xs (k + offset)"
  by (simp add: marker_distance_def add.commute)

text \<open>The search finds the first offset within the tolerance.\<close>

definition marker_at :: "u8 list \<Rightarrow> nat \<Rightarrow> bool" where
  "marker_at bits k \<longleftrightarrow> k + 32 \<le> length bits \<and> marker_distance bits k \<le> 2"

lemma find_sync_Some:
  "find_sync bits = Some m \<longleftrightarrow>
     marker_at bits (bit_offset m) \<and> errors m = marker_distance bits (bit_offset m) \<and>
     (\<forall>k < bit_offset m. \<not> marker_at bits k)"
proof (cases "length bits < 32")
  case True
  then show ?thesis by (auto simp: find_sync_def marker_at_def SYNC_MARKER_BITS_def)
next
  case False
  have "find_sync bits = Some m \<longleftrightarrow>
      find (\<lambda>k. marker_distance bits k \<le> 2) [0..<length bits - 32 + 1] = Some (bit_offset m) \<and>
      errors m = marker_distance bits (bit_offset m)"
    using False by (cases m) (auto simp: find_sync_def SYNC_MARKER_BITS_def MAX_MARKER_ERRORS_def)
  also have "find (\<lambda>k. marker_distance bits k \<le> 2) [0..<length bits - 32 + 1] = Some (bit_offset m) \<longleftrightarrow>
      marker_at bits (bit_offset m) \<and> (\<forall>k < bit_offset m. \<not> marker_at bits k)"
    using False unfolding find_upt_Some marker_at_def by auto
  finally show ?thesis by auto
qed

lemma find_sync_None: "find_sync bits = None \<longleftrightarrow> (\<forall>k. \<not> marker_at bits k)"
proof (cases "length bits < 32")
  case True
  then show ?thesis by (auto simp: find_sync_def marker_at_def SYNC_MARKER_BITS_def)
next
  case False
  have "find_sync bits = None \<longleftrightarrow> find (\<lambda>k. marker_distance bits k \<le> 2) [0..<length bits - 32 + 1] = None"
    using False by (simp add: find_sync_def SYNC_MARKER_BITS_def MAX_MARKER_ERRORS_def)
  also have "\<dots> \<longleftrightarrow> (\<forall>k. \<not> marker_at bits k)"
    using False unfolding find_upt_None marker_at_def by auto
  finally show ?thesis .
qed

lemma marker_at_append: "marker_at xs k \<Longrightarrow> marker_at (xs @ ys) k"
  by (simp add: marker_at_def marker_distance_append)

lemma marker_at_append_iff: "k + 32 \<le> length xs \<Longrightarrow> marker_at (xs @ ys) k \<longleftrightarrow> marker_at xs k"
  by (simp add: marker_at_def marker_distance_append)

lemma marker_at_drop: "n \<le> length xs \<Longrightarrow> marker_at (drop n xs) k \<longleftrightarrow> marker_at xs (n + k)"
  by (auto simp: marker_at_def marker_distance_drop)

lemma find_sync_append: "find_sync xs = Some m \<Longrightarrow> find_sync (xs @ ys) = Some m"
  unfolding find_sync_Some
  by (auto simp: marker_at_append marker_distance_append marker_at_def)

text \<open>Dropping bits that hold no marker shifts the search.\<close>

lemma find_sync_drop:
  assumes "n \<le> length xs" "\<forall>k < n. \<not> marker_at xs k"
  shows "map_option (\<lambda>m. drop (bit_offset m) xs) (find_sync xs) =
    map_option (\<lambda>m. drop (bit_offset m) (drop n xs)) (find_sync (drop n xs))"
proof (cases "find_sync (drop n xs)")
  case None
  then have "\<not> marker_at xs k" for k
    using assms marker_at_drop [OF assms(1), of "k - n"] by (cases "k < n") (auto simp: find_sync_None)
  then have "find_sync xs = None" by (simp add: find_sync_None)
  then show ?thesis using None by simp
next
  case (Some m)
  let ?m = "\<lparr>bit_offset = n + bit_offset m, errors = errors m\<rparr>"
  have "\<not> marker_at xs k" if "k < n + bit_offset m" for k
    using that Some assms marker_at_drop [OF assms(1), of "k - n"]
    by (cases "k < n") (auto simp: find_sync_Some)
  then have "find_sync xs = Some ?m"
    using Some assms(1) by (auto simp: find_sync_Some marker_at_drop marker_distance_drop)
  then show ?thesis using Some by (simp add: add.commute)
qed

section \<open>Chunks\<close>

lemma still_locked_append: "length buf \<ge> 32 \<Longrightarrow> still_locked lck (buf @ ys) = still_locked lck buf"
  by (simp add: still_locked_def marker_distance_append)

lemma align_append:
  assumes "32 \<le> length buf" "align lck buf = Some buf'"
  shows "align lck (buf @ ys) = Some (buf' @ ys)"
proof (cases "still_locked lck buf")
  case True
  then show ?thesis using assms by (simp add: align_def still_locked_append)
next
  case False
  then obtain m where m: "find_sync buf = Some m" "buf' = drop (bit_offset m) buf"
    using assms(2) by (auto simp: align_def)
  have "bit_offset m \<le> length buf" using m(1) by (auto simp: find_sync_Some marker_at_def)
  then show ?thesis using False m find_sync_append [OF m(1), of ys] assms(1)
    by (simp add: align_def still_locked_append)
qed

lemma align_None_suffix:
  assumes "32 \<le> length buf" "align lck buf = None"
  shows "align lck (buf @ ys) = align False (drop (length buf - 31) buf @ ys)"
proof -
  have n: "\<not> still_locked lck buf" "\<forall>k. \<not> marker_at buf k"
    using assms(2) by (auto simp: align_def find_sync_None split: if_splits)
  have "\<not> marker_at (buf @ ys) k" if "k < length buf - 31" for k
    using that n(2) assms(1) marker_at_append_iff [of k buf ys] by auto
  then have "map_option (\<lambda>m. drop (bit_offset m) (buf @ ys)) (find_sync (buf @ ys)) =
      map_option (\<lambda>m. drop (bit_offset m) (drop (length buf - 31) (buf @ ys)))
        (find_sync (drop (length buf - 31) (buf @ ys)))"
    by (intro find_sync_drop) auto
  then show ?thesis
    using n(1) assms(1) by (simp add: align_def still_locked_append) (simp add: still_locked_def)
qed

text \<open>A settled buffer is one the loop stops at.\<close>

definition settled_buffer :: "bool \<Rightarrow> u8 list \<Rightarrow> bool" where
  "settled_buffer lck buf \<longleftrightarrow>
     length buf < 32 \<or> (align lck buf = Some buf \<and> length buf < CADU_BITS \<and> still_locked lck buf = lck)"

lemma frame_loop_short: "length buf < 32 \<Longrightarrow> frame_loop validate received lck buf = ((lck, buf), [])"
  by (subst frame_loop.simps) (simp add: SYNC_MARKER_BITS_def)

lemma frame_loop_step:
  assumes "32 \<le> length buf"
  shows "frame_loop validate received lck buf =
    (case align lck buf of
       None \<Rightarrow> ((False, drop (length buf - 31) buf), [])
     | Some buf' \<Rightarrow>
         if length buf' < CADU_BITS then ((still_locked lck buf, buf'), [])
         else let candidate = bits_to_bytes (take CADU_BITS buf') in
           (fst (frame_loop validate received (validate candidate)
              (drop (if validate candidate then CADU_BITS else 1) buf')),
            \<lparr>end_bit = received - length buf' + CADU_BITS, frame_bytes = candidate\<rparr> #
            snd (frame_loop validate received (validate candidate)
              (drop (if validate candidate then CADU_BITS else 1) buf'))))"
  using assms by (subst frame_loop.simps) (simp add: SYNC_MARKER_BITS_def Let_def split_beta split: option.split)

text \<open>Aligning an aligned, unlocked buffer changes nothing.\<close>

lemma align_aligned:
  assumes "align lck buf = Some buf'" "32 \<le> length buf'"
  shows "align (still_locked lck buf) buf' = Some buf' \<and> still_locked (still_locked lck buf) buf' = still_locked lck buf"
proof (cases "still_locked lck buf")
  case True
  then show ?thesis using assms by (auto simp: align_def still_locked_def)
next
  case False
  then obtain m where m: "find_sync buf = Some m" "buf' = drop (bit_offset m) buf"
    using assms(1) by (auto simp: align_def)
  then have "marker_at buf' 0" using assms(2) by (auto simp: find_sync_Some marker_at_def marker_distance_drop)
  then have "find_sync buf' = Some \<lparr>bit_offset = 0, errors = marker_distance buf' 0\<rparr>"
    by (auto simp: find_sync_Some)
  then show ?thesis using False by (auto simp: align_def still_locked_def)
qed

lemma align_marker: "align lck buf = Some buf' \<Longrightarrow> 32 \<le> length buf \<Longrightarrow> 32 \<le> length buf'"
  by (auto simp: align_def find_sync_Some marker_at_def split: if_splits)

lemma frame_loop_settles:
  "settled_buffer (fst (fst (frame_loop validate received lck buf))) (snd (fst (frame_loop validate received lck buf)))"
proof (induction validate received lck buf rule: frame_loop.induct)
  case (1 validate received lck buf)
  show ?case
  proof (cases "length buf < 32")
    case True
    then show ?thesis by (simp add: frame_loop_short settled_buffer_def)
  next
    case long: False
    show ?thesis
    proof (cases "align lck buf")
      case None
      then show ?thesis using long by (simp add: frame_loop_step settled_buffer_def)
    next
      case (Some buf')
      show ?thesis
      proof (cases "length buf' < CADU_BITS")
        case True
        then show ?thesis
          using long Some align_aligned [OF Some] by (auto simp: frame_loop_step settled_buffer_def not_less)
      next
        case False
        then show ?thesis
          using "1.IH" [OF _ Some False refl refl refl] long Some
          by (simp add: frame_loop_step Let_def SYNC_MARKER_BITS_def)
      qed
    qed
  qed
qed

lemma frame_loop_settled:
  "settled_buffer lck buf \<Longrightarrow> frame_loop validate received lck buf = ((lck, buf), [])"
  by (cases "length buf < 32") (auto simp: frame_loop_short frame_loop_step settled_buffer_def)

text \<open>More bits: the loop first does what it would have done without them.\<close>

lemma frame_loop_append:
  "length buf \<le> received \<Longrightarrow>
   frame_loop validate (received + length ys) lck (buf @ ys) =
     (let ((lck1, buf1), out1) = frame_loop validate received lck buf;
          (rest, out2) = frame_loop validate (received + length ys) lck1 (buf1 @ ys)
      in (rest, out1 @ out2))"
proof (induction validate received lck buf rule: frame_loop.induct)
  case (1 validate received lck buf)
  show ?case
  proof (cases "length buf < 32")
    case True
    then show ?thesis by (simp add: frame_loop_short split_beta)
  next
    case long: False
    then have l: "32 \<le> length buf" "32 \<le> length (buf @ ys)" by auto
    show ?thesis
    proof (cases "align lck buf")
      case None
      let ?suf = "drop (length buf - 31) buf"
      have one: "frame_loop validate received lck buf = ((False, ?suf), [])"
        using None l(1) by (simp add: frame_loop_step)
      have eq: "align lck (buf @ ys) = align False (?suf @ ys)" by (rule align_None_suffix [OF l(1) None])
      have st: "\<not> still_locked lck (buf @ ys)" "\<not> still_locked False (?suf @ ys)"
        using None still_locked_append [OF l(1), of lck ys] by (auto simp: align_def still_locked_def split: if_splits)
      have "frame_loop validate (received + length ys) lck (buf @ ys) =
          frame_loop validate (received + length ys) False (?suf @ ys)"
      proof (cases "ys = []")
        case True
        then show ?thesis using one l(1) None by (simp add: frame_loop_step frame_loop_short)
      next
        case False
        then have "32 \<le> length (?suf @ ys)" using l(1) by (cases ys) auto
        moreover have "drop (length (buf @ ys) - 31) (buf @ ys) = drop (length (?suf @ ys) - 31) (?suf @ ys)"
          using l(1) by (simp add: drop_append add.commute)
        ultimately show ?thesis
          unfolding frame_loop_step [OF l(2)] frame_loop_step [OF \<open>32 \<le> length (?suf @ ys)\<close>] eq
          using st by (auto split: option.split)
      qed
      then show ?thesis by (simp add: one split_beta)
    next
      case (Some buf')
      have app: "align lck (buf @ ys) = Some (buf' @ ys)" using align_append [OF l(1) Some] .
      show ?thesis
      proof (cases "length buf' < CADU_BITS")
        case True
        have one: "frame_loop validate received lck buf = ((still_locked lck buf, buf'), [])"
          using True Some l(1) by (simp add: frame_loop_step)
        have lk: "still_locked lck (buf @ ys) = still_locked lck buf" by (rule still_locked_append [OF l(1)])
        have "frame_loop validate (received + length ys) lck (buf @ ys) =
            frame_loop validate (received + length ys) (still_locked lck buf) (buf' @ ys)"
        proof (cases "32 \<le> length buf'")
          case long': True
          then have l': "32 \<le> length (buf' @ ys)" by simp
          note al = align_aligned [OF Some long']
          have "align (still_locked lck buf) (buf' @ ys) = Some (buf' @ ys)"
            using align_append [OF long'] al by blast
          moreover have "still_locked (still_locked lck buf) (buf' @ ys) = still_locked lck buf"
            using still_locked_append [OF long'] al by simp
          ultimately show ?thesis
            unfolding frame_loop_step [OF l(2)] frame_loop_step [OF l'] app using lk by simp
        next
          case False
          then show ?thesis using align_marker [OF Some l(1)] by simp
        qed
        then show ?thesis by (simp add: one split_beta)
      next
        case False
        let ?c = "bits_to_bytes (take CADU_BITS buf')"
        let ?n = "if validate ?c then CADU_BITS else 1"
        have n: "?n \<le> length buf'" using False by (auto simp: CADU_BITS_def CADU_LEN_BYTES_def)
        have rec: "length buf' \<le> received" using align_length [OF Some] "1.prems" by simp
        have ih: "frame_loop validate (received + length ys) (validate ?c) (drop ?n buf' @ ys) =
            (let ((lck1, buf1), out1) = frame_loop validate received (validate ?c) (drop ?n buf');
                 (rest, out2) = frame_loop validate (received + length ys) lck1 (buf1 @ ys)
             in (rest, out1 @ out2))"
          using "1.IH" [OF _ Some False refl refl refl] rec long by (simp add: SYNC_MARKER_BITS_def)
        have dr: "drop ?n (buf' @ ys) = drop ?n buf' @ ys" using n by simp
        have tk: "take CADU_BITS (buf' @ ys) = take CADU_BITS buf'" using False by simp
        have big: "\<not> length (buf' @ ys) < CADU_BITS" using False by simp
        have eb: "received + length ys - length (buf' @ ys) = received - length buf'" by simp
        show ?thesis
          unfolding frame_loop_step [OF l(1)] frame_loop_step [OF l(2)] app Some option.case
            if_not_P [OF big] if_not_P [OF False] Let_def tk dr eb ih
          by (simp add: split_beta)
      qed
    qed
  qed
qed

lemma frame_loop_length:
  "length (snd (fst (frame_loop validate received lck buf))) \<le> length buf"
proof (induction validate received lck buf rule: frame_loop.induct)
  case (1 validate received lck buf)
  show ?case
  proof (cases "length buf < 32")
    case True
    then show ?thesis by (simp add: frame_loop_short)
  next
    case long: False
    show ?thesis
    proof (cases "align lck buf")
      case None
      then show ?thesis using long by (simp add: frame_loop_step)
    next
      case (Some buf')
      show ?thesis
      proof (cases "length buf' < CADU_BITS")
        case True
        then show ?thesis using long Some align_length [OF Some] by (simp add: frame_loop_step)
      next
        case False
        then show ?thesis
          using "1.IH" [OF _ Some False refl refl refl] long Some align_length [OF Some]
          by (simp add: frame_loop_step Let_def SYNC_MARKER_BITS_def)
      qed
    qed
  qed
qed

text \<open>A synchroniser that rests between calls.\<close>

definition sync_settled :: "frame_sync \<Rightarrow> bool" where
  "sync_settled f \<longleftrightarrow>
     settled_buffer (locked f) (bit_buffer f) \<and> length (bit_buffer f) \<le> bits_received f"

lemma sync_settled_new [simp]: "sync_settled frame_sync_new"
  by (simp add: sync_settled_def frame_sync_new_def settled_buffer_def)

lemma sync_settled_length: "sync_settled f \<Longrightarrow> length (bit_buffer f) < CADU_BITS"
  by (auto simp: sync_settled_def settled_buffer_def CADU_BITS_def CADU_LEN_BYTES_def)

interpretation frame_sync: chunked "push_bits_located validate" sync_settled for validate
proof unfold_locales
  fix f bits
  assume f: "sync_settled f"
  show "sync_settled (fst (push_bits_located validate f bits))"
    using frame_loop_settles [of validate "bits_received f + length bits" "locked f" "bit_buffer f @ bits"]
      frame_loop_length [of validate "bits_received f + length bits" "locked f" "bit_buffer f @ bits"] f
    by (simp add: push_bits_located_def split_beta sync_settled_def Let_def)
  show "push_bits_located validate f [] = (f, [])"
    using f by (simp add: push_bits_located_def frame_loop_settled sync_settled_def)
  fix more
  show "push_bits_located validate f (bits @ more) =
      (fst (push_bits_located validate (fst (push_bits_located validate f bits)) more),
       snd (push_bits_located validate f bits) @
       snd (push_bits_located validate (fst (push_bits_located validate f bits)) more))"
    using frame_loop_append [of "bit_buffer f @ bits" "bits_received f + length bits" validate more "locked f"] f
    by (simp add: push_bits_located_def split_beta sync_settled_def add.assoc Let_def)
qed

section \<open>The specification: a greedy scan of the whole stream\<close>

text \<open>Without a buffer, a lock or calls: from a position, the next marker opens the next candidate; after
  an accepted candidate the scan goes on behind it, after a rejected one at the next bit.\<close>

definition candidate_at :: "u8 list \<Rightarrow> nat \<Rightarrow> u8 list" where
  "candidate_at bits k = bits_to_bytes (take CADU_BITS (drop k bits))"

function greedy_frames :: "(u8 list \<Rightarrow> bool) \<Rightarrow> u8 list \<Rightarrow> nat \<Rightarrow> located_frame list" where
  "greedy_frames validate bits p =
     (case find (marker_at bits) [p..<length bits] of
        None \<Rightarrow> []
      | Some k \<Rightarrow>
          if length bits < k + CADU_BITS then []
          else \<lparr>end_bit = k + CADU_BITS, frame_bytes = candidate_at bits k\<rparr> #
            greedy_frames validate bits (if validate (candidate_at bits k) then k + CADU_BITS else k + 1))"
  by pat_completeness auto
termination
  by (relation "measure (\<lambda>(_, bits, p). length bits - p)")
    (auto simp: find_from_Some CADU_BITS_def CADU_LEN_BYTES_def)

declare greedy_frames.simps [simp del]

lemma align_first:
  assumes "32 \<le> length buf"
  shows "align lck buf = map_option (\<lambda>k. drop k buf) (find (marker_at buf) [0..<length buf])"
proof (cases "find (marker_at buf) [0..<length buf]")
  case None
  then have n: "\<not> marker_at buf k" for k by (cases "k < length buf") (auto simp: find_upt_None marker_at_def)
  then have "find_sync buf = None" by (simp add: find_sync_None)
  moreover have "\<not> still_locked lck buf"
    using n [of 0] assms by (simp add: still_locked_def marker_at_def MAX_MARKER_ERRORS_def)
  ultimately show ?thesis using None by (simp add: align_def)
next
  case (Some k)
  then have k: "marker_at buf k" "\<forall>j < k. \<not> marker_at buf j" by (auto simp: find_upt_Some)
  show ?thesis
  proof (cases "still_locked lck buf")
    case True
    then have "marker_at buf 0" using assms by (simp add: still_locked_def marker_at_def MAX_MARKER_ERRORS_def)
    then have "k = 0" using k(2) by (cases k) auto
    then show ?thesis using True Some by (simp add: align_def)
  next
    case False
    have "find_sync buf = Some \<lparr>bit_offset = k, errors = marker_distance buf k\<rparr>"
      using k by (simp add: find_sync_Some)
    then show ?thesis using False Some by (simp add: align_def)
  qed
qed

lemma find_marker_drop:
  assumes "p \<le> length bits"
  shows "find (marker_at bits) [p..<length bits] =
    map_option (\<lambda>k. p + k) (find (marker_at (drop p bits)) [0..<length (drop p bits)])"
proof (cases "find (marker_at (drop p bits)) [0..<length (drop p bits)]")
  case None
  then have "\<not> marker_at bits k" if "p \<le> k" "k < length bits" for k
    using that marker_at_drop [OF assms, of "k - p"] by (auto simp: find_upt_None dest!: spec [of _ "k - p"])
  then have "find (marker_at bits) [p..<length bits] = None" by (auto simp: find_from_None)
  then show ?thesis using None by simp
next
  case (Some k)
  then have k: "k < length bits - p" "marker_at bits (p + k)"
      "\<forall>j < k. \<not> marker_at bits (p + j)"
    using assms by (auto simp: find_upt_Some marker_at_drop)
  have "\<not> marker_at bits j" if "p \<le> j" "j < p + k" for j
    using k(3) that by (auto dest!: spec [of _ "j - p"])
  then have "find (marker_at bits) [p..<length bits] = Some (p + k)"
    using k by (auto simp: find_from_Some)
  then show ?thesis using Some by simp
qed

lemma frame_loop_greedy:
  "p \<le> length bits \<Longrightarrow>
   snd (frame_loop validate (length bits) lck (drop p bits)) = greedy_frames validate bits p"
proof (induction validate bits p arbitrary: lck rule: greedy_frames.induct)
  case (1 validate bits p)
  show ?case
  proof (cases "length (drop p bits) < 32")
    case True
    then have "find (marker_at bits) [p..<length bits] = None"
      by (auto simp: find_from_None marker_at_def)
    then show ?thesis using True by (subst greedy_frames.simps) (simp add: frame_loop_short)
  next
    case False
    then have l: "32 \<le> length (drop p bits)" by simp
    note fm = find_marker_drop [OF "1.prems"] and al = align_first [OF l, of lck]
    show ?thesis
    proof (cases "find (marker_at (drop p bits)) [0..<length (drop p bits)]")
      case None
      then show ?thesis using fm al
        by (subst greedy_frames.simps) (simp add: frame_loop_step [OF l])
    next
      case (Some k)
      let ?k = "p + k"
      have f: "find (marker_at bits) [p..<length bits] = Some ?k" using fm Some by simp
      have kl: "?k < length bits" using Some by (auto simp: find_upt_Some)
      have a: "align lck (drop p bits) = Some (drop ?k bits)" using al Some by (simp add: add.commute)
      show ?thesis
      proof (cases "length bits < ?k + CADU_BITS")
        case True
        then have "length (drop ?k bits) < CADU_BITS" using kl by simp
        then show ?thesis using True f
          by (subst greedy_frames.simps) (simp add: frame_loop_step [OF l] a)
      next
        case big: False
        then have nl: "\<not> length (drop ?k bits) < CADU_BITS" by simp
        let ?c = "candidate_at bits ?k"
        let ?p = "if validate ?c then ?k + CADU_BITS else ?k + 1"
        have dr: "drop (if validate ?c then CADU_BITS else 1) (drop ?k bits) = drop ?p bits"
          by (simp add: add.commute)
        have e: "length bits - length (drop ?k bits) + CADU_BITS = ?k + CADU_BITS" using kl by simp
        have pl: "?p \<le> length bits" using big kl by auto
        have ih: "snd (frame_loop validate (length bits) l' (drop ?p bits)) = greedy_frames validate bits ?p" for l'
          using "1.IH" [OF f big pl] .
        show ?thesis
          unfolding frame_loop_step [OF l] a option.case if_not_P [OF nl] Let_def
            candidate_at_def [symmetric] dr e snd_conv ih
          using f big by (subst (2) greedy_frames.simps) simp
      qed
    qed
  qed
qed

lemma push_located_greedy:
  "snd (push_bits_located validate frame_sync_new bits) = greedy_frames validate bits 0"
  using frame_loop_greedy [of 0 bits validate False]
  by (simp add: push_bits_located_def frame_sync_new_def split_beta Let_def)

section \<open>Properties\<close>

text \<open>C16: the synchroniser refines the greedy scan: fed a stream in any chunks it reports exactly the
  frames of the scan of the whole stream, with their bytes and their end positions in order, whatever
  its lock flag did on the way.\<close>

theorem frame_sync_refines_greedy_scan:
  "snd (feed (push_bits_located validate) frame_sync_new chunks) =
     greedy_frames validate (concat chunks) 0"
  by (simp add: frame_sync.feed_concat push_located_greedy)

text \<open>Between calls less than one frame is buffered, so the assertion of the loop on
  \<open>MAX_UNLOCKED_BITS\<close> holds after every call.\<close>

lemma frame_sync_buffer_bounded:
  "length (bit_buffer (fst (feed (push_bits_located validate) frame_sync_new chunks))) < CADU_BITS \<and>
   CADU_BITS \<le> MAX_UNLOCKED_BITS"
  using sync_settled_length [OF frame_sync.feed_settled [OF sync_settled_new]]
  by (simp add: MAX_UNLOCKED_BITS_def)

end
