(* ===== verification/Interleaver.thy ===== *)
theory Interleaver
  imports Prelude
begin

text \<open>
  The Meteor transport deinterleaver, \<^verbatim>\<open>lrpt-decode/src/interleaver.rs\<close>: marker acquisition, the
  36-branch commutator and the loop that cuts blocks out of the pending bits. Positions and counters
  (\<open>u64\<close>, \<open>usize\<close>) are naturals, except in \<open>observed_symbol_end\<close>, whose saturation is written out.
  The lemmas show that blocks do not depend on the partition of the input into calls and that, after
  acquisition, every data bit comes out with exactly the delay of its branch.
\<close>

section \<open>The code\<close>

definition BRANCHES :: nat where "BRANCHES = 36"
definition DELAY_STEP :: nat where "DELAY_STEP = 2048"
definition MARKER :: u8 where "MARKER = 0x27"
definition WIRE_BITS :: nat where "WIRE_BITS = 80"
definition DATA_BITS :: nat where "DATA_BITS = 72"
definition ACQUIRE_BITS :: nat where "ACQUIRE_BITS = 2 * WIRE_BITS + 8"
definition MAX_BAD_MARKERS :: nat where "MAX_BAD_MARKERS = 3"

lemmas interleaver_constants =
  WIRE_BITS_def DATA_BITS_def ACQUIRE_BITS_def MAX_BAD_MARKERS_def

record channel_bit =
  bit_value :: u8
  bit_valid :: bool

definition ERASURE :: channel_bit where
  "ERASURE = \<lparr>bit_value = 0, bit_valid = False\<rparr>"

record transport_block =
  block_generation :: nat
  block_first_wire_bit :: nat
  block_bits :: "channel_bit list"

record deinterleaver =
  pending :: "channel_bit list"
  front_wire_bit :: nat
  generation :: nat
  marker_locked :: bool
  bad_markers :: nat
  first_wire_bit :: nat
  branches :: "channel_bit list list"
  branch :: nat

definition deinterleaver_new :: deinterleaver where
  "deinterleaver_new = \<lparr>pending = [], front_wire_bit = 0, generation = 0, marker_locked = False,
     bad_markers = 0, first_wire_bit = 0, branches = replicate BRANCHES [], branch = 0\<rparr>"

definition marker_bit :: "nat \<Rightarrow> u8" where
  "marker_bit k = drop_bit (7 - k) MARKER AND 1"

definition marker_errors :: "channel_bit list \<Rightarrow> nat \<Rightarrow> nat" where
  "marker_errors bits offset =
     length (filter (\<lambda>k. let received = bits ! (offset + k) in
       \<not> bit_valid received \<or> bit_value received \<noteq> marker_bit k) [0..<8])"

definition discard :: "nat \<Rightarrow> deinterleaver \<Rightarrow> deinterleaver" where
  "discard count d = d\<lparr>pending := drop count (pending d), front_wire_bit := front_wire_bit d + count\<rparr>"

text \<open>The number of visits by which a branch delays.\<close>

definition branch_delay :: "nat \<Rightarrow> nat" where
  "branch_delay k = (BRANCHES - 1 - k) * DELAY_STEP"

definition acquire :: "deinterleaver \<Rightarrow> deinterleaver" where
  "acquire d = d\<lparr>generation := generation d + 1, marker_locked := True, bad_markers := 0,
     first_wire_bit := front_wire_bit d + 8, branch := 0,
     branches := map (\<lambda>k. replicate (branch_delay k) ERASURE) [0..<length (branches d)]\<rparr>"

fun exchange :: "channel_bit list \<Rightarrow> channel_bit \<Rightarrow> channel_bit list \<times> channel_bit" where
  "exchange [] incoming = ([], incoming)"
| "exchange (delayed # history) incoming = (history @ [incoming], delayed)"

fun visits ::
    "channel_bit list list \<Rightarrow> nat \<Rightarrow> channel_bit list \<Rightarrow> (channel_bit list list \<times> nat) \<times> channel_bit list" where
  "visits brs b [] = ((brs, b), [])"
| "visits brs b (incoming # later) =
     (let (history, result) = exchange (brs ! b) incoming;
          (rest, results) = visits (brs[b := history]) ((b + 1) mod BRANCHES) later
      in (rest, result # results))"

text \<open>The three exact markers that acquisition asks for.\<close>

definition markers_missing :: "deinterleaver \<Rightarrow> bool" where
  "markers_missing d \<longleftrightarrow>
     list_ex (\<lambda>offset. marker_errors (pending d) offset \<noteq> 0) [0, WIRE_BITS, 2 * WIRE_BITS]"

definition check_marker :: "deinterleaver \<Rightarrow> deinterleaver" where
  "check_marker d =
     d\<lparr>bad_markers := if marker_errors (pending d) 0 > 2 then bad_markers d + 1 else 0\<rparr>"

definition take_block :: "deinterleaver \<Rightarrow> deinterleaver \<times> transport_block" where
  "take_block d =
     (let ((brs, b), bits) = visits (branches d) (branch d) (take DATA_BITS (drop 8 (pending d)))
      in (discard WIRE_BITS (d\<lparr>branches := brs, branch := b\<rparr>),
          \<lparr>block_generation = generation d, block_first_wire_bit = first_wire_bit d, block_bits = bits\<rparr>))"

lemma pending_simps [simp]:
  "pending (acquire d) = pending d"
  "pending (check_marker d) = pending d"
  "pending (discard n d) = drop n (pending d)"
  "pending (fst (take_block d)) = drop WIRE_BITS (pending d)"
  by (simp_all add: acquire_def check_marker_def discard_def take_block_def split_beta Let_def)

function deinterleaver_loop :: "deinterleaver \<Rightarrow> deinterleaver \<times> transport_block list" where
  "deinterleaver_loop d =
     (if \<not> marker_locked d \<and> length (pending d) < ACQUIRE_BITS then (d, [])
      else if \<not> marker_locked d \<and> markers_missing d then deinterleaver_loop (discard 1 d)
      else
        let d1 = (if marker_locked d then d else acquire d) in
        if length (pending d1) < WIRE_BITS then (d1, [])
        else let d2 = check_marker d1 in
          if bad_markers d2 \<ge> MAX_BAD_MARKERS then
            deinterleaver_loop (discard 1 (d2\<lparr>marker_locked := False\<rparr>))
          else
            let (d3, block) = take_block d2; (rest, output) = deinterleaver_loop d3
            in (rest, block # output))"
  by pat_completeness auto
termination
proof (relation "measure (\<lambda>d. length (pending d))", goal_cases)
  case (4 d d1 d2 p d3 block)
  have "length (pending d3) = length (pending d) - WIRE_BITS"
    using 4 by (metis fst_conv length_drop pending_simps(1,2,4))
  then show ?case using 4 by (simp add: interleaver_constants split: if_splits)
qed (auto simp: interleaver_constants split: if_splits)

declare deinterleaver_loop.simps [simp del]

definition deinterleaver_push_bits ::
    "deinterleaver \<Rightarrow> channel_bit list \<Rightarrow> deinterleaver \<times> transport_block list" where
  "deinterleaver_push_bits d bits = deinterleaver_loop (d\<lparr>pending := pending d @ bits\<rparr>)"

definition observed_symbol_end :: "nat \<Rightarrow> nat \<Rightarrow> nat" where
  "observed_symbol_end first information_end =
     (let last_data = min (information_end * 2) (2 ^ 64 - 1) - 1;
          last_wire = first + (last_data div DATA_BITS) * WIRE_BITS + last_data mod DATA_BITS
      in (last_wire + 1 + 1) div 2)"

section \<open>Chunks\<close>

text \<open>A deinterleaver with later bits already pending.\<close>

definition extended :: "channel_bit list \<Rightarrow> deinterleaver \<Rightarrow> deinterleaver" where
  "extended later d = d\<lparr>pending := pending d @ later\<rparr>"

lemma marker_errors_append:
  "offset + 8 \<le> length bits \<Longrightarrow> marker_errors (bits @ later) offset = marker_errors bits offset"
  unfolding marker_errors_def by (intro arg_cong [where f = length] filter_cong) (auto simp: nth_append Let_def)

lemma extended_simps [simp]:
  "marker_locked (extended later d) = marker_locked d"
  "bad_markers (extended later d) = bad_markers d"
  "pending (extended later d) = pending d @ later"
  "extended [] d = d"
  "acquire (extended later d) = extended later (acquire d)"
  "(extended later d)\<lparr>marker_locked := l\<rparr> = extended later (d\<lparr>marker_locked := l\<rparr>)"
  "extended ys (extended xs d) = extended (xs @ ys) d"
  by (simp_all add: extended_def acquire_def)

lemma extended_discard:
  "n \<le> length (pending d) \<Longrightarrow> discard n (extended later d) = extended later (discard n d)"
  by (simp add: extended_def discard_def)

lemma extended_check_marker:
  "8 \<le> length (pending d) \<Longrightarrow> check_marker (extended later d) = extended later (check_marker d)"
  by (simp add: extended_def check_marker_def marker_errors_append)

lemma extended_take_block:
  "80 \<le> length (pending d) \<Longrightarrow>
   take_block (extended later d) = (extended later (fst (take_block d)), snd (take_block d))"
  by (simp add: extended_def take_block_def discard_def interleaver_constants split_beta Let_def)

lemma extended_markers_missing:
  "168 \<le> length (pending d) \<Longrightarrow> markers_missing (extended later d) = markers_missing d"
  by (simp add: markers_missing_def interleaver_constants marker_errors_append)

definition settled_pending :: "deinterleaver \<Rightarrow> bool" where
  "settled_pending d \<longleftrightarrow> length (pending d) < (if marker_locked d then 80 else 168)"

lemma loop_settled: "settled_pending d \<Longrightarrow> deinterleaver_loop d = (d, [])"
  by (subst deinterleaver_loop.simps) (auto simp: settled_pending_def interleaver_constants Let_def)

text \<open>The turns of the loop, one lemma each.\<close>

lemma loop_search:
  assumes "\<not> marker_locked d" "168 \<le> length (pending d)" "markers_missing d"
  shows "deinterleaver_loop d = deinterleaver_loop (discard 1 d)"
  using assms by (subst deinterleaver_loop.simps) (simp add: interleaver_constants)

lemma loop_acquire:
  assumes "\<not> marker_locked d" "168 \<le> length (pending d)" "\<not> markers_missing d"
  shows "deinterleaver_loop d = deinterleaver_loop (acquire d)"
proof -
  have l: "marker_locked (acquire d)" by (simp add: acquire_def)
  show ?thesis using assms l
    by (subst deinterleaver_loop.simps, subst (2) deinterleaver_loop.simps) (simp add: interleaver_constants Let_def)
qed

lemma loop_lost:
  assumes "marker_locked d" "80 \<le> length (pending d)" "3 \<le> bad_markers (check_marker d)"
  shows "deinterleaver_loop d = deinterleaver_loop (discard 1 ((check_marker d)\<lparr>marker_locked := False\<rparr>))"
  using assms by (subst deinterleaver_loop.simps) (simp add: interleaver_constants Let_def)

lemma loop_block:
  assumes "marker_locked d" "80 \<le> length (pending d)" "bad_markers (check_marker d) < 3"
  shows "deinterleaver_loop d =
    (fst (deinterleaver_loop (fst (take_block (check_marker d)))),
     snd (take_block (check_marker d)) # snd (deinterleaver_loop (fst (take_block (check_marker d)))))"
  using assms by (subst deinterleaver_loop.simps) (simp add: interleaver_constants Let_def split_beta)

lemma deinterleaver_turns [case_names settled search acquire lost block]:
  assumes "\<And>d. settled_pending d \<Longrightarrow> P d"
    and "\<And>d. \<not> marker_locked d \<Longrightarrow> 168 \<le> length (pending d) \<Longrightarrow> markers_missing d \<Longrightarrow>
      P (discard 1 d) \<Longrightarrow> P d"
    and "\<And>d. \<not> marker_locked d \<Longrightarrow> 168 \<le> length (pending d) \<Longrightarrow> \<not> markers_missing d \<Longrightarrow>
      P (acquire d) \<Longrightarrow> P d"
    and "\<And>d. marker_locked d \<Longrightarrow> 80 \<le> length (pending d) \<Longrightarrow> 3 \<le> bad_markers (check_marker d) \<Longrightarrow>
      P (discard 1 ((check_marker d)\<lparr>marker_locked := False\<rparr>)) \<Longrightarrow> P d"
    and "\<And>d. marker_locked d \<Longrightarrow> 80 \<le> length (pending d) \<Longrightarrow> bad_markers (check_marker d) < 3 \<Longrightarrow>
      P (fst (take_block (check_marker d))) \<Longrightarrow> P d"
  shows "P d"
proof (induction "2 * length (pending d) + of_bool (\<not> marker_locked d)" arbitrary: d rule: less_induct)
  case less
  have shorter: "P d'" if "length (pending d') < length (pending d)" for d'
    using that by (intro less) (simp add: of_bool_def)
  show ?case
  proof (cases "settled_pending d")
    case True
    then show ?thesis by (rule assms(1))
  next
    case pend: False
    show ?thesis
    proof (cases "marker_locked d")
      case True
      then have l: "80 \<le> length (pending d)" using pend by (simp add: settled_pending_def)
      show ?thesis
      proof (cases "3 \<le> bad_markers (check_marker d)")
        case lost: True
        show ?thesis by (rule assms(4) [OF True l lost shorter]) (use l in simp)
      next
        case False
        show ?thesis by (rule assms(5) [OF True l _ shorter]) (use l False in \<open>simp_all add: WIRE_BITS_def\<close>)
      qed
    next
      case False
      then have l: "168 \<le> length (pending d)" using pend by (simp add: settled_pending_def)
      have "P (acquire d)" by (rule less) (use False in \<open>simp add: acquire_def\<close>)
      moreover have "P (discard 1 d)" by (rule shorter) (use l in simp)
      ultimately show ?thesis using assms(2,3) [OF False l] by blast
    qed
  qed
qed

lemma loop_settles: "settled_pending (fst (deinterleaver_loop d))"
  by (induction d rule: deinterleaver_turns)
    (simp_all add: loop_settled loop_search loop_acquire loop_lost loop_block)

lemma loop_extended:
  "deinterleaver_loop (extended later d) =
     (fst (deinterleaver_loop (extended later (fst (deinterleaver_loop d)))),
      snd (deinterleaver_loop d) @ snd (deinterleaver_loop (extended later (fst (deinterleaver_loop d)))))"
proof (induction d rule: deinterleaver_turns)
  case (settled d)
  then show ?case by (simp add: loop_settled)
next
  case (search d)
  then have "deinterleaver_loop (extended later d) = deinterleaver_loop (extended later (discard 1 d))"
    by (simp add: loop_search extended_markers_missing extended_discard)
  then show ?case using search by (simp add: loop_search [of d])
next
  case (acquire d)
  then have "deinterleaver_loop (extended later d) = deinterleaver_loop (extended later (acquire d))"
    by (simp add: loop_acquire extended_markers_missing)
  then show ?case using acquire by (simp add: loop_acquire [of d])
next
  case (lost d)
  have "deinterleaver_loop (extended later d) =
      deinterleaver_loop (extended later (discard 1 ((check_marker d)\<lparr>marker_locked := False\<rparr>)))"
    using lost by (subst loop_lost) (simp_all add: extended_check_marker extended_discard)
  then show ?case using lost by (simp add: loop_lost [of d])
next
  case (block d)
  have "deinterleaver_loop (extended later d) =
      (fst (deinterleaver_loop (extended later (fst (take_block (check_marker d))))),
       snd (take_block (check_marker d)) # snd (deinterleaver_loop (extended later (fst (take_block (check_marker d))))))"
    using block by (subst loop_block) (simp_all add: extended_check_marker extended_take_block)
  then show ?case using block by (simp add: loop_block [of d])
qed

interpretation deinterleaver: chunked deinterleaver_push_bits settled_pending
proof unfold_locales
  fix d xs ys
  assume d: "settled_pending d"
  have push: "deinterleaver_push_bits d bits = deinterleaver_loop (extended bits d)" for d bits
    by (simp add: deinterleaver_push_bits_def extended_def)
  show "settled_pending (fst (deinterleaver_push_bits d xs))" by (simp add: push loop_settles)
  show "deinterleaver_push_bits d [] = (d, [])" by (simp add: push loop_settled d)
  show "deinterleaver_push_bits d (xs @ ys) =
      (fst (deinterleaver_push_bits (fst (deinterleaver_push_bits d xs)) ys),
       snd (deinterleaver_push_bits d xs) @ snd (deinterleaver_push_bits (fst (deinterleaver_push_bits d xs)) ys))"
    using loop_extended [of ys "extended xs d"] by (simp add: push)
qed

section \<open>The delay of each branch\<close>

text \<open>The specification of the commutator: bit \<open>k\<close> of the data after acquisition is the one its branch
  took in \<open>branch_delay\<close> rounds earlier, and an erasure when that is before the acquisition.\<close>

definition delayed :: "channel_bit list \<Rightarrow> nat \<Rightarrow> channel_bit" where
  "delayed p k = (let d = BRANCHES * branch_delay (k mod BRANCHES) in if d \<le> k then p ! (k - d) else ERASURE)"

text \<open>The bit count at which a branch is visited next.\<close>

definition next_visit :: "nat \<Rightarrow> nat \<Rightarrow> nat" where
  "next_visit n j = n + (j + 36 - n mod 36) mod 36"

lemma next_visit_now: "j = n mod 36 \<Longrightarrow> next_visit n j = n"
  by (simp add: next_visit_def)

lemma next_visit_advance:
  assumes "j < 36"
  shows "next_visit (Suc n) j = (if j = n mod 36 then n + 36 else next_visit n j)"
proof -
  obtain q r where n: "n = q * 36 + r" "r < 36" by (metis div_mult_mod_eq mod_less_divisor zero_less_numeral)
  have m: "n mod 36 = r" using n by simp
  have ms: "Suc n mod 36 = (if r = 35 then 0 else Suc r)" using n by (simp add: mod_Suc)
  have red: "x mod 36 = (if x < 36 then x else x - 36)" if "x < 72" for x :: nat
    using that by (simp add: mod_if)
  show ?thesis using assms n(2) by (auto simp: next_visit_def m ms red)
qed

lemma next_visit_mod: "j < 36 \<Longrightarrow> next_visit n j mod 36 = j"
  by (induction n) (auto simp: next_visit_def [of 0] next_visit_advance mod_Suc)

lemma next_visit_less: "next_visit n j < n + 36"
  by (simp add: next_visit_def)

definition branches_track :: "channel_bit list list \<Rightarrow> channel_bit list \<Rightarrow> bool" where
  "branches_track brs p \<longleftrightarrow> length brs = 36 \<and>
     (\<forall>j < 36. length (brs ! j) = branch_delay j \<and>
       (\<forall>i < branch_delay j. brs ! j ! i = delayed p (next_visit (length p) j + 36 * i)))"

lemma delayed_append:
  "k < length p + 36 * branch_delay (k mod 36) \<Longrightarrow> delayed (p @ q) k = delayed p k"
  by (auto simp: delayed_def Let_def BRANCHES_def nth_append)

lemma branches_track_fresh:
  "branches_track (map (\<lambda>k. replicate (branch_delay k) ERASURE) [0..<36]) []"
proof -
  have "delayed [] (next_visit 0 j + 36 * i) = ERASURE" if "j < 36" "i < branch_delay j" for i j
  proof -
    have "(next_visit 0 j + 36 * i) mod 36 = j" using next_visit_mod [OF that(1), of 0] by simp
    moreover have "next_visit 0 j + 36 * i < 36 * branch_delay j"
      using that(2) next_visit_less [of 0 j] by simp
    ultimately show ?thesis by (simp add: delayed_def Let_def BRANCHES_def)
  qed
  then show ?thesis by (simp add: branches_track_def del: upt_Suc)
qed

text \<open>One visit.\<close>

lemma exchange_track:
  assumes t: "branches_track brs p" and b: "b = length p mod 36"
    and x: "exchange (brs ! b) x = (h, y)"
  shows "branches_track (brs[b := h]) (p @ [x])" "y = delayed (p @ [x]) (length p)"
proof -
  let ?K = "branch_delay"
  have b36: "b < 36" using b by simp
  have len: "length brs = 36" and lenb: "\<And>j. j < 36 \<Longrightarrow> length (brs ! j) = ?K j"
    and val: "\<And>j i. j < 36 \<Longrightarrow> i < ?K j \<Longrightarrow> brs ! j ! i = delayed p (next_visit (length p) j + 36 * i)"
    using t by (auto simp: branches_track_def)
  have modk: "(next_visit n j + 36 * i) mod 36 = j" if "j < 36" for n j i
    using next_visit_mod [OF that, of n] by simp
  have grow: "delayed (p @ [x]) (next_visit (length p) j + 36 * i) = brs ! j ! i" if "j < 36" "i < ?K j" for i j
    using val [OF that] that(2) next_visit_less [of "length p" j]
      delayed_append [of "next_visit (length p) j + 36 * i" p "[x]", unfolded modk [OF that(1)]]
    by simp
  have self: "delayed (p @ [x]) (length p + 36 * ?K b) = x"
    using b by (simp add: delayed_def Let_def BRANCHES_def nth_append)
  have now: "next_visit (length p) b = length p" using b by (rule next_visit_now)
  show "y = delayed (p @ [x]) (length p)"
  proof (cases "brs ! b")
    case Nil
    then show ?thesis using x self lenb [OF b36] by simp
  next
    case (Cons z zs)
    then have "0 < ?K b" using lenb [OF b36] by simp
    then show ?thesis using grow [OF b36, of 0] now x Cons by simp
  qed
  have hx: "length h = ?K b \<and> (\<forall>i < ?K b. h ! i = delayed (p @ [x]) (length p + 36 + 36 * i))"
  proof (cases "brs ! b")
    case Nil
    then show ?thesis using x lenb [OF b36] by simp
  next
    case (Cons z zs)
    then have K: "?K b = Suc (length zs)" "h = zs @ [x]" using lenb [OF b36] x by simp_all
    have "h ! i = delayed (p @ [x]) (length p + 36 + 36 * i)" if "i < ?K b" for i
    proof (cases "i < length zs")
      case True
      then have "zs ! i = brs ! b ! Suc i" using Cons by simp
      then show ?thesis using True grow [OF b36, of "Suc i"] now K by (simp add: nth_append add.assoc)
    next
      case False
      then have "i = length zs" using that K by simp
      then show ?thesis using self K by (simp add: nth_append add.assoc)
    qed
    then show ?thesis using K by simp
  qed
  have "length (brs[b := h] ! j) = ?K j \<and>
      (\<forall>i < ?K j. brs[b := h] ! j ! i = delayed (p @ [x]) (next_visit (Suc (length p)) j + 36 * i))"
    if "j < 36" for j
    using that hx grow [OF that] len lenb [OF that] b
    by (cases "j = b") (simp_all add: next_visit_advance)
  then show "branches_track (brs[b := h]) (p @ [x])" using len by (simp add: branches_track_def)
qed

lemma visits_track:
  "branches_track brs p \<Longrightarrow> b = length p mod 36 \<Longrightarrow> visits brs b xs = ((brs', b'), ys) \<Longrightarrow>
   branches_track brs' (p @ xs) \<and> b' = length (p @ xs) mod 36 \<and>
   ys = map (\<lambda>i. delayed (p @ xs) (length p + i)) [0..<length xs]"
proof (induction xs arbitrary: brs b p brs' b' ys)
  case (Cons x xs)
  obtain h y where e: "exchange (brs ! b) x = (h, y)" by fastforce
  obtain zs where v: "visits (brs[b := h]) ((b + 1) mod 36) xs = ((brs', b'), zs)" "ys = y # zs"
    using Cons.prems(3) e by (auto simp: BRANCHES_def split: prod.splits)
  note one = exchange_track [OF Cons.prems(1,2) e]
  have ih: "branches_track brs' (p @ x # xs) \<and> b' = length (p @ x # xs) mod 36 \<and>
      zs = map (\<lambda>i. delayed (p @ x # xs) (length p + Suc i)) [0..<length xs]"
    using Cons.IH [OF one(1) _ v(1)] Cons.prems(2) by (simp add: mod_Suc_eq)
  have "y = delayed (p @ x # xs) (length p)"
    using one(2) delayed_append [of "length p" "p @ [x]" xs] by simp
  then show ?case using ih v(2) by (simp add: upt_conv_Cons map_Suc_upt [symmetric] del: upt_Suc)
qed auto

section \<open>A clean wire\<close>

text \<open>What the transmitter sends for 72 data bits.\<close>

definition wire_block :: "channel_bit list \<Rightarrow> channel_bit list" where
  "wire_block block = map (\<lambda>k. \<lparr>bit_value = marker_bit k, bit_valid = True\<rparr>) [0..<8] @ block"

lemma wire_block_length [simp]: "length (wire_block block) = 8 + length block"
  by (simp add: wire_block_def)

lemma marker_errors_shift: "marker_errors (xs @ ys) (length xs + k) = marker_errors ys k"
  by (simp add: marker_errors_def add.assoc)

lemma marker_errors_wire_block [simp]: "marker_errors (wire_block block @ rest) 0 = 0"
proof -
  have "wire_block block ! k = \<lparr>bit_value = marker_bit k, bit_valid = True\<rparr>" if "k < 8" for k
    using that by (simp add: wire_block_def nth_append del: upt_Suc)
  then show ?thesis by (auto simp: marker_errors_def filter_empty_conv nth_append Let_def simp del: upt_Suc)
qed

lemma clean_marker: "pending d = wire_block block @ rest \<Longrightarrow> check_marker d = d\<lparr>bad_markers := 0\<rparr>"
  by (simp add: check_marker_def)

lemma take_clean_block:
  assumes "pending d = wire_block block @ rest" "length block = 72"
    and "branches_track (branches d) p" "branch d = length p mod 36"
    and "take_block d = (d', b)"
  shows "pending d' = rest" "marker_locked d' = marker_locked d"
    "branches_track (branches d') (p @ block)" "branch d' = length (p @ block) mod 36"
    "block_bits b = map (\<lambda>i. delayed (p @ block) (length p + i)) [0..<72]"
proof -
  have data: "take DATA_BITS (drop 8 (pending d)) = block"
    using assms(1,2) by (simp add: wire_block_def DATA_BITS_def)
  obtain brs c ys where v: "visits (branches d) (branch d) block = ((brs, c), ys)"
    by (metis prod.exhaust)
  have d': "d' = discard WIRE_BITS (d\<lparr>branches := brs, branch := c\<rparr>)" and b: "block_bits b = ys"
    using assms(5) v by (auto simp: take_block_def data)
  show "pending d' = rest" "marker_locked d' = marker_locked d"
    using assms(1,2) by (simp_all add: d' WIRE_BITS_def) (simp add: discard_def)
  show "branches_track (branches d') (p @ block)" "branch d' = length (p @ block) mod 36"
    "block_bits b = map (\<lambda>i. delayed (p @ block) (length p + i)) [0..<72]"
    using visits_track [OF assms(3,4) v] assms(2) by (simp_all add: d' discard_def b)
qed

lemma clean_blocks:
  "marker_locked d \<Longrightarrow> pending d = concat (map wire_block ds) \<Longrightarrow> \<forall>block \<in> set ds. length block = 72 \<Longrightarrow>
   branches_track (branches d) p \<Longrightarrow> branch d = length p mod 36 \<Longrightarrow>
   concat (map block_bits (snd (deinterleaver_loop d))) =
     map (\<lambda>i. delayed (p @ concat ds) (length p + i)) [0..<length (concat ds)]"
proof (induction ds arbitrary: d p)
  case Nil
  then show ?case by (simp add: loop_settled settled_pending_def)
next
  case (Cons block ds)
  let ?c = "d\<lparr>bad_markers := 0\<rparr>"
  obtain d' b where t: "take_block ?c = (d', b)" by fastforce
  have pend: "pending d = wire_block block @ concat (map wire_block ds)" using Cons.prems by simp
  note c = clean_marker [OF pend]
  have loop: "deinterleaver_loop d = (fst (deinterleaver_loop d'), b # snd (deinterleaver_loop d'))"
    using loop_block [of d] Cons.prems(1,3) pend by (simp add: c t)
  note one = take_clean_block [OF _ _ _ _ t, of block "concat (map wire_block ds)" p]
  have blk: "length block = 72" using Cons.prems(3) by simp
  have facts: "pending d' = concat (map wire_block ds)" "marker_locked d'"
    "branches_track (branches d') (p @ block)" "branch d' = length (p @ block) mod 36"
    "block_bits b = map (\<lambda>i. delayed (p @ block) (length p + i)) [0..<72]"
    using one Cons.prems pend blk by simp_all
  have old: "delayed (p @ block) (length p + i) = delayed (p @ block @ concat ds) (length p + i)"
    if "i < length block" for i
    using delayed_append [of "length p + i" "p @ block" "concat ds"] that by simp
  have ih: "concat (map block_bits (snd (deinterleaver_loop d'))) =
      map (\<lambda>i. delayed (p @ block @ concat ds) (length (p @ block) + i)) [0..<length (concat ds)]"
    using Cons.IH [of d' "p @ block"] facts Cons.prems(3) by simp
  have split: "[0..<length block + n] = [0..<length block] @ map (\<lambda>i. length block + i) [0..<n]" for n
    using map_add_upt [of "length block" n] upt_add_eq_append [of 0 "length block" n] by (simp add: add.commute)
  have "block_bits b = map (\<lambda>i. delayed (p @ block @ concat ds) (length p + i)) [0..<length block]"
    using facts(5) old blk by (simp del: upt_Suc)
  then show ?case using ih by (simp add: loop split comp_def add.assoc del: upt_Suc)
qed

lemma clean_wire:
  assumes "\<forall>block \<in> set ds. length block = 72" "3 \<le> length ds"
  shows "concat (map block_bits (snd (deinterleaver_push_bits deinterleaver_new (concat (map wire_block ds))))) =
    map (delayed (concat ds)) [0..<length (concat ds)]"
proof -
  let ?d = "deinterleaver_new\<lparr>pending := concat (map wire_block ds)\<rparr>"
  obtain x y z zs where ds: "ds = x # y # z # zs"
    using assms(2) by (cases ds; cases "tl ds"; cases "tl (tl ds)") auto
  have l: "length x = 72" "length y = 72" "length z = 72" using assms(1) ds by auto
  have "marker_errors (wire_block x @ wire_block y @ wire_block z @ rest) 80 = 0" for rest
    using marker_errors_shift [of "wire_block x" "wire_block y @ wire_block z @ rest" 0] l by simp
  moreover have "marker_errors (wire_block x @ wire_block y @ wire_block z @ rest) 160 = 0" for rest
    using marker_errors_shift [of "wire_block x @ wire_block y" "wire_block z @ rest" 0] l by simp
  ultimately have "\<not> markers_missing ?d"
    by (simp add: markers_missing_def ds WIRE_BITS_def)
  then have "deinterleaver_loop ?d = deinterleaver_loop (acquire ?d)"
    using l by (intro loop_acquire) (simp_all add: deinterleaver_new_def ds)
  moreover have "concat (map block_bits (snd (deinterleaver_loop (acquire ?d)))) =
      map (delayed (concat ds)) [0..<length (concat ds)]"
    using clean_blocks [of "acquire ?d" ds "[]"] assms(1) branches_track_fresh
    by (simp add: acquire_def deinterleaver_new_def BRANCHES_def del: upt_Suc)
  ultimately show ?thesis by (simp add: deinterleaver_push_bits_def deinterleaver_new_def)
qed

text \<open>The transmitter's interleaver delays branch \<open>j\<close> by \<open>j * 2048\<close> rounds and starts from \<open>fill\<close>.\<close>

definition interleave :: "channel_bit \<Rightarrow> channel_bit list \<Rightarrow> channel_bit list" where
  "interleave fill xs =
     map (\<lambda>n. let d = BRANCHES * (n mod BRANCHES * DELAY_STEP) in if d \<le> n then xs ! (n - d) else fill)
       [0..<length xs]"

definition TOTAL_DELAY :: nat where "TOTAL_DELAY = BRANCHES * branch_delay 0"

lemma mod_diff_rounds: "m * k \<le> n \<Longrightarrow> (n - m * k) mod m = n mod m" for m n k :: nat
  by (metis le_add_diff_inverse2 mod_mult_self2)

lemma deinterleave_interleave:
  assumes "n < length xs" "TOTAL_DELAY \<le> n"
  shows "delayed (interleave fill xs) n = xs ! (n - TOTAL_DELAY)"
proof -
  let ?b = "n mod 36" and ?up = "36 * ((35 - n mod 36) * 2048)" and ?down = "36 * (n mod 36 * 2048)"
  have b: "?b < 36" by simp
  have sum: "?up + ?down = TOTAL_DELAY"
    using b by (simp add: TOTAL_DELAY_def branch_delay_def BRANCHES_def DELAY_STEP_def)
  have m: "(n - ?up) mod 36 = ?b" using sum assms(2) by (intro mod_diff_rounds) simp
  have up: "?up \<le> n" "n - ?up < length xs" "?down \<le> n - ?up" "n - ?up - ?down = n - TOTAL_DELAY"
    using sum assms by linarith+
  have "delayed (interleave fill xs) n = interleave fill xs ! (n - ?up)"
    using up(1) by (simp add: delayed_def branch_delay_def BRANCHES_def DELAY_STEP_def Let_def)
  also have "\<dots> = xs ! (n - ?up - ?down)"
    using up(2,3) m by (simp add: interleave_def BRANCHES_def DELAY_STEP_def Let_def del: diff_diff_left upt_Suc)
  finally show ?thesis by (simp only: up(4))
qed

section \<open>Properties\<close>

text \<open>C26: the receiver inverts the transmitter's interleaver: a stream of at least three clean blocks, cut
  into calls in any way, comes out as the interleaver's input, delayed by the sum of both delay lines
  and with nothing lost, added or reordered.\<close>

theorem deinterleaver_inverts_interleaver:
  assumes "\<forall>block \<in> set ds. length block = 72" "3 \<le> length ds"
    and "concat ds = interleave fill xs" "concat chunks = concat (map wire_block ds)"
    and "output = concat (map block_bits (snd (feed deinterleaver_push_bits deinterleaver_new chunks)))"
  shows "length output = length xs \<and> drop TOTAL_DELAY output = take (length xs - TOTAL_DELAY) xs"
proof -
  have "settled_pending deinterleaver_new" by (simp add: settled_pending_def deinterleaver_new_def)
  then have out: "output = map (delayed (interleave fill xs)) [0..<length (interleave fill xs)]"
    using clean_wire [OF assms(1,2)] assms(3-5) by (simp add: deinterleaver.feed_concat)
  then have l: "length output = length xs" by (simp add: interleave_def)
  moreover have "drop TOTAL_DELAY output = take (length xs - TOTAL_DELAY) xs"
  proof (rule nth_equalityI)
    fix i
    assume "i < length (drop TOTAL_DELAY output)"
    then have "TOTAL_DELAY + i < length xs" using l by simp
    then show "drop TOTAL_DELAY output ! i = take (length xs - TOTAL_DELAY) xs ! i"
      using deinterleave_interleave [of "TOTAL_DELAY + i" xs fill] l
      by (simp add: out interleave_def del: upt_Suc)
  qed (simp add: l)
  ultimately show ?thesis by simp
qed

text \<open>The hypotheses hold on a stream longer than the total delay: 40000 blocks of a constant bit.\<close>

lemma concat_constant: "concat (replicate n (replicate m b)) = replicate (n * m) b"
  by (induction n) (simp_all add: replicate_add)

theorem deinterleaver_inverts_interleaver_witness:
  "let b = \<lparr>bit_value = 1, bit_valid = True\<rparr>; ds = replicate 40000 (replicate 72 b);
       output = concat (map block_bits (snd (feed deinterleaver_push_bits deinterleaver_new (map wire_block ds))))
   in length output = 2880000 \<and> drop 2580480 output = replicate 299520 b"
proof -
  let ?b = "\<lparr>bit_value = 1, bit_valid = True\<rparr>" and ?ds = "replicate 40000 (replicate 72 \<lparr>bit_value = 1, bit_valid = True\<rparr>)"
  have x: "interleave ?b (replicate 2880000 ?b) = replicate 2880000 ?b"
    by (rule nth_equalityI) (auto simp: interleave_def Let_def)
  have d: "TOTAL_DELAY = 2580480"
    by (simp add: TOTAL_DELAY_def branch_delay_def BRANCHES_def DELAY_STEP_def)
  show ?thesis
    using deinterleaver_inverts_interleaver [of ?ds ?b "replicate 2880000 ?b" "map wire_block ?ds", OF _ _ _ _ refl]
    by (simp add: Let_def concat_constant x d in_set_replicate)
qed

text \<open>The blocks and the state depend on the bits received, not on their partition into calls.\<close>

lemma deinterleaver_chunk_invariant:
  "feed deinterleaver_push_bits deinterleaver_new chunks =
     deinterleaver_push_bits deinterleaver_new (concat chunks)"
  by (rule deinterleaver.feed_concat) (simp add: settled_pending_def deinterleaver_new_def)

end
