(* ===== verification/Ccsds.thy ===== *)
theory Ccsds
  imports Prelude
begin

text \<open>
  Space packet reassembly, \<^verbatim>\<open>lrpt-decode/src/ccsds.rs\<close>: the header parsers, the packet buffer, and the
  reassembler with one context per virtual channel. The lemmas show the memory bounds of every
  reachable reassembler, and that after any gap exactly the packets that start behind it come out.
\<close>

section \<open>Headers\<close>

definition VCDU_HEADER_LEN :: nat where "VCDU_HEADER_LEN = 6"
definition VCDU_INSERT_ZONE_LEN :: nat where "VCDU_INSERT_ZONE_LEN = 2"
definition MPDU_HEADER_LEN :: nat where "MPDU_HEADER_LEN = 2"
definition MPDU_HEADER_OFFSET :: nat where "MPDU_HEADER_OFFSET = VCDU_HEADER_LEN + VCDU_INSERT_ZONE_LEN"
definition NO_PACKET_START :: u16 where "NO_PACKET_START = 0x7FF"
definition SPACE_PACKET_HEADER_LEN :: nat where "SPACE_PACKET_HEADER_LEN = 6"
definition MAX_VIRTUAL_CHANNELS :: nat where "MAX_VIRTUAL_CHANNELS = 64"
definition MAX_COMPLETED_PACKETS :: nat where "MAX_COMPLETED_PACKETS = 4096"
definition IDLE_ONLY :: u16 where "IDLE_ONLY = 0x7FE"

definition be16 :: "u8 \<Rightarrow> u8 \<Rightarrow> u16" where
  "be16 hi lo = (push_bit 8 (ucast hi)) OR ucast lo"

record vcdu_header =
  vcdu_version :: u8
  spacecraft_id :: u16
  virtual_channel_id :: u8
  frame_counter :: u32

definition parse_vcdu_header :: "u8 list \<Rightarrow> vcdu_header option" where
  "parse_vcdu_header bytes =
     (if length bytes < VCDU_HEADER_LEN then None
      else Some \<lparr>vcdu_version = drop_bit 6 (bytes ! 0) AND 3,
        spacecraft_id = push_bit 2 (ucast (bytes ! 0 AND 0x3F)) OR ucast (drop_bit 6 (bytes ! 1)),
        virtual_channel_id = bytes ! 1 AND 0x3F,
        frame_counter = push_bit 16 (ucast (bytes ! 2)) OR push_bit 8 (ucast (bytes ! 3)) OR ucast (bytes ! 4)\<rparr>)"

record mpdu_header =
  first_header_pointer :: u16

definition parse_mpdu_header :: "u8 list \<Rightarrow> mpdu_header option" where
  "parse_mpdu_header bytes =
     (if length bytes < MPDU_HEADER_LEN then None
      else Some \<lparr>first_header_pointer = be16 (bytes ! 0) (bytes ! 1) AND 0x07FF\<rparr>)"

record space_packet_header =
  sp_version :: u8
  packet_type :: u8
  secondary_header_flag :: bool
  header_apid :: u16
  sequence_flags :: u8
  sequence_count :: u16
  packet_data_length :: u16

definition total_len :: "space_packet_header \<Rightarrow> nat" where
  "total_len h = SPACE_PACKET_HEADER_LEN + unat (packet_data_length h) + 1"

definition parse_space_packet_header :: "u8 list \<Rightarrow> space_packet_header option" where
  "parse_space_packet_header bytes =
     (if length bytes < SPACE_PACKET_HEADER_LEN then None
      else let word0 = be16 (bytes ! 0) (bytes ! 1); word1 = be16 (bytes ! 2) (bytes ! 3) in
        Some \<lparr>sp_version = ucast (drop_bit 13 word0 AND 7),
          packet_type = ucast (drop_bit 12 word0 AND 1),
          secondary_header_flag = (drop_bit 11 word0 AND 1 \<noteq> 0),
          header_apid = word0 AND 0x07FF,
          sequence_flags = ucast (drop_bit 14 word1 AND 3),
          sequence_count = word1 AND 0x3FFF,
          packet_data_length = be16 (bytes ! 4) (bytes ! 5)\<rparr>)"

section \<open>One packet\<close>

record space_packet =
  apid :: u16
  packet_header :: space_packet_header
  packet_data :: "u8 list"

record packet_buffer =
  buffered :: "u8 list"
  known_header :: "space_packet_header option"

definition packet_buffer_default :: packet_buffer where
  "packet_buffer_default = \<lparr>buffered = [], known_header = None\<rparr>"

text \<open>The second half of \<open>append\<close>, from \<open>self.header.unwrap()\<close> on.\<close>

definition append_body ::
    "packet_buffer \<Rightarrow> space_packet_header \<Rightarrow> nat \<Rightarrow> u8 list \<Rightarrow> packet_buffer \<times> (nat \<times> space_packet option) option" where
  "append_body buf header consumed bytes =
     (let n = min (total_len header - length (buffered buf)) (length bytes - consumed);
          buf = buf\<lparr>buffered := buffered buf @ take n (drop consumed bytes)\<rparr>;
          packet = (if length (buffered buf) = total_len header
            then Some \<lparr>apid = header_apid header, packet_header = header,
              packet_data = drop SPACE_PACKET_HEADER_LEN (buffered buf)\<rparr>
            else None)
      in (buf, Some (consumed + n, packet)))"

definition append_bytes ::
    "packet_buffer \<Rightarrow> u8 list \<Rightarrow> packet_buffer \<times> (nat \<times> space_packet option) option" where
  "append_bytes buf bytes =
     (case known_header buf of
        Some header \<Rightarrow> append_body buf header 0 bytes
      | None \<Rightarrow>
          let consumed = min (length bytes) (SPACE_PACKET_HEADER_LEN - length (buffered buf));
              buf = buf\<lparr>buffered := buffered buf @ take consumed bytes\<rparr>
          in if length (buffered buf) < SPACE_PACKET_HEADER_LEN then (buf, Some (consumed, None))
             else case parse_space_packet_header (buffered buf) of
               None \<Rightarrow> (buf, None)
             | Some header \<Rightarrow>
                 if sp_version header \<noteq> 0 then (buf, None)
                 else append_body (buf\<lparr>known_header := Some header\<rparr>) header consumed bytes)"

section \<open>The reassembler\<close>

definition complete_packet :: "space_packet \<Rightarrow> space_packet list \<Rightarrow> space_packet list" where
  "complete_packet packet completed =
     (if apid packet = 0x7FF then completed
      else (if length completed \<ge> MAX_COMPLETED_PACKETS then tl completed else completed) @ [packet])"

lemma append_consumes:
  assumes "append_bytes packet_buffer_default bytes = (buf, Some (consumed, Some packet))"
  shows "0 < consumed \<and> consumed \<le> length bytes"
  using assms
  by (auto simp: append_bytes_def append_body_def packet_buffer_default_def total_len_def
      SPACE_PACKET_HEADER_LEN_def Let_def min_def not_less split: if_splits option.splits)

function packet_loop ::
    "u8 list \<Rightarrow> nat \<Rightarrow> space_packet list \<Rightarrow> packet_buffer option \<times> space_packet list" where
  "packet_loop payload cursor completed =
     (if cursor < length payload then
        case append_bytes packet_buffer_default (drop cursor payload) of
          (_, Some (consumed, Some packet)) \<Rightarrow>
            packet_loop payload (cursor + consumed) (complete_packet packet completed)
        | (pending, Some (_, None)) \<Rightarrow> (Some pending, completed)
        | (_, None) \<Rightarrow> (None, completed)
      else (None, completed))"
  by pat_completeness auto
termination
  by (relation "measure (\<lambda>(payload, cursor, _). length payload - cursor)") (auto dest!: append_consumes [OF sym])

declare packet_loop.simps [simp del]

text \<open>What a zone does to the packet in progress and to the completed packets, from the pointer
  checks to the end of \<open>push_mpdu_payload\<close>.\<close>

definition continue_packet ::
    "packet_buffer option \<Rightarrow> u8 list \<Rightarrow> space_packet list \<Rightarrow> packet_buffer option \<times> space_packet list" where
  "continue_packet pending bytes completed =
     (case pending of
        None \<Rightarrow> (None, completed)
      | Some buf \<Rightarrow>
          (case append_bytes buf bytes of
             (_, Some (_, Some packet)) \<Rightarrow> (None, complete_packet packet completed)
           | (_, None) \<Rightarrow> (None, completed)
           | (buf, Some (_, None)) \<Rightarrow> (Some buf, completed)))"

definition push_zone ::
    "packet_buffer option \<Rightarrow> u8 list \<Rightarrow> u16 \<Rightarrow> space_packet list \<Rightarrow> packet_buffer option \<times> space_packet list" where
  "push_zone pending payload fhp completed =
     (if fhp = IDLE_ONLY then (pending, completed)
      else if fhp \<noteq> NO_PACKET_START \<and> unat fhp > length payload then (None, completed)
      else let continuation_end = (if fhp = NO_PACKET_START then length payload else unat fhp);
               (pending, completed) = continue_packet pending (take continuation_end payload) completed
           in if fhp = NO_PACKET_START then (pending, completed)
              else packet_loop payload (unat fhp) completed)"

record vcid_context =
  expected_frame_counter :: "u32 option"
  pending_packet :: "packet_buffer option"

definition vcid_context_default :: vcid_context where
  "vcid_context_default = \<lparr>expected_frame_counter = None, pending_packet = None\<rparr>"

record packet_reassembler =
  vcid_contexts :: "u8 \<rightharpoonup> vcid_context"
  completed_packets :: "space_packet list"

definition reassembler_new :: packet_reassembler where
  "reassembler_new = \<lparr>vcid_contexts = (\<lambda>_. None), completed_packets = []\<rparr>"

text \<open>The packet in progress that a frame with this counter finds: a gap has dropped it.\<close>

definition carried :: "packet_reassembler \<Rightarrow> u8 \<Rightarrow> u32 \<Rightarrow> packet_buffer option" where
  "carried r vcid counter =
     (let context = (case vcid_contexts r vcid of None \<Rightarrow> vcid_context_default | Some c \<Rightarrow> c) in
      case expected_frame_counter context of
        None \<Rightarrow> pending_packet context
      | Some expected \<Rightarrow> if expected \<noteq> counter then None else pending_packet context)"

definition push_mpdu_payload ::
    "packet_reassembler \<Rightarrow> u8 list \<Rightarrow> u16 \<Rightarrow> u8 \<Rightarrow> u32 \<Rightarrow> packet_reassembler" where
  "push_mpdu_payload r payload fhp vcid counter =
     (if unat vcid \<ge> MAX_VIRTUAL_CHANNELS then r
      else let (pending, completed) = push_zone (carried r vcid counter) payload fhp (completed_packets r);
               context = \<lparr>expected_frame_counter = Some ((counter + 1) AND 0xFFFFFF), pending_packet = pending\<rparr>
           in \<lparr>vcid_contexts = (vcid_contexts r)(vcid \<mapsto> context), completed_packets = completed\<rparr>)"

definition drain_completed :: "packet_reassembler \<Rightarrow> packet_reassembler \<times> space_packet list" where
  "drain_completed r = (r\<lparr>completed_packets := []\<rparr>, completed_packets r)"

section \<open>Memory bounds\<close>

text \<open>A buffer in progress is incomplete, and its header, once known, is the parsed one.\<close>

definition buffer_ok :: "packet_buffer \<Rightarrow> bool" where
  "buffer_ok buf \<longleftrightarrow>
     (case known_header buf of
        None \<Rightarrow> length (buffered buf) < 6
      | Some h \<Rightarrow> 6 \<le> length (buffered buf) \<and> length (buffered buf) < total_len h \<and>
          sp_version h = 0 \<and> parse_space_packet_header (buffered buf) = Some h)"

lemma parse_take:
  "6 \<le> n \<Longrightarrow> 6 \<le> length bytes \<Longrightarrow> parse_space_packet_header (take n bytes) = parse_space_packet_header bytes"
  by (simp add: parse_space_packet_header_def SPACE_PACKET_HEADER_LEN_def)

lemma parse_append:
  assumes "6 \<le> length xs"
  shows "parse_space_packet_header (xs @ ys) = parse_space_packet_header xs"
  using parse_take [of "length xs" "xs @ ys"] assms by simp

lemma buffer_ok_default [simp]: "buffer_ok packet_buffer_default"
  by (simp add: buffer_ok_def packet_buffer_default_def)

lemma total_len_bound: "total_len h \<le> 65542"
proof -
  have "unat (packet_data_length h) < 2 ^ LENGTH(16)" by (rule unsigned_less)
  then show ?thesis by (simp add: total_len_def SPACE_PACKET_HEADER_LEN_def)
qed

lemma buffer_ok_length: "buffer_ok buf \<Longrightarrow> length (buffered buf) \<le> 65541"
  using total_len_bound [of "the (known_header buf)"] by (auto simp: buffer_ok_def split: option.splits)

text \<open>Appending to a buffer without a header: the header is still incomplete, or this call completes it.\<close>

lemma append_header_part:
  "known_header buf = None \<Longrightarrow> length (buffered buf) + length bytes < 6 \<Longrightarrow>
   append_bytes buf bytes = (buf\<lparr>buffered := buffered buf @ bytes\<rparr>, Some (length bytes, None))"
  by (simp add: append_bytes_def SPACE_PACKET_HEADER_LEN_def Let_def)

lemma append_header_full:
  assumes "known_header buf = None" "length (buffered buf) \<le> 6" "6 \<le> length (buffered buf) + length bytes"
  shows "append_bytes buf bytes =
    (let c = 6 - length (buffered buf); b = buf\<lparr>buffered := buffered buf @ take c bytes\<rparr> in
     case parse_space_packet_header (buffered buf @ take c bytes) of
       None \<Rightarrow> (b, None)
     | Some h \<Rightarrow> if sp_version h \<noteq> 0 then (b, None) else append_body (b\<lparr>known_header := Some h\<rparr>) h c bytes)"
proof -
  have "min (length bytes) (6 - length (buffered buf)) = 6 - length (buffered buf)" using assms by simp
  then show ?thesis using assms by (simp add: append_bytes_def SPACE_PACKET_HEADER_LEN_def Let_def)
qed

lemma append_body_ok:
  assumes "known_header buf = Some h" "6 \<le> length (buffered buf)" "sp_version h = 0"
    "parse_space_packet_header (buffered buf) = Some h" "length (buffered buf) \<le> total_len h"
    "append_body buf h consumed bytes = (buf', Some (n, None))"
  shows "buffer_ok buf'"
  using assms by (auto simp: append_body_def buffer_ok_def Let_def parse_append split: if_splits)

lemma append_ok:
  assumes "buffer_ok buf" "append_bytes buf bytes = (buf', Some (n, None))"
  shows "buffer_ok buf'"
proof (cases "known_header buf")
  case (Some h)
  then show ?thesis
    using assms append_body_ok [OF Some, of 0 bytes buf' n] by (simp add: append_bytes_def buffer_ok_def)
next
  case None
  then have l: "length (buffered buf) < 6" using assms(1) by (simp add: buffer_ok_def)
  let ?b = "buffered buf @ take (6 - length (buffered buf)) bytes"
  show ?thesis
  proof (cases "length (buffered buf) + length bytes < 6")
    case True
    then show ?thesis using assms(2) None by (auto simp: append_header_part buffer_ok_def)
  next
    case False
    then have six: "length ?b = 6" using l by simp
    have "append_bytes buf bytes = (let c = 6 - length (buffered buf); b = buf\<lparr>buffered := ?b\<rparr> in
        case parse_space_packet_header ?b of None \<Rightarrow> (b, None)
        | Some h \<Rightarrow> if sp_version h \<noteq> 0 then (b, None) else append_body (b\<lparr>known_header := Some h\<rparr>) h c bytes)"
      using append_header_full [OF None, of bytes] False l by (simp add: Let_def)
    then obtain h where h: "parse_space_packet_header ?b = Some h" "sp_version h = 0"
        "append_body (buf\<lparr>buffered := ?b, known_header := Some h\<rparr>) h (6 - length (buffered buf)) bytes =
          (buf', Some (n, None))"
      using assms(2) by (auto simp: Let_def split: option.splits if_splits)
    show ?thesis
      by (rule append_body_ok [OF _ _ _ _ _ h(3)])
        (use h six in \<open>simp_all add: total_len_def SPACE_PACKET_HEADER_LEN_def del: length_append\<close>)
  qed
qed

definition pending_ok :: "packet_buffer option \<Rightarrow> bool" where
  "pending_ok pending \<longleftrightarrow> (case pending of None \<Rightarrow> True | Some buf \<Rightarrow> buffer_ok buf)"

lemma complete_packet_length:
  "length completed \<le> 4096 \<Longrightarrow> length (complete_packet packet completed) \<le> 4096"
  by (auto simp: complete_packet_def MAX_COMPLETED_PACKETS_def)

lemma packet_loop_ok:
  "packet_loop payload cursor completed = (pending, completed') \<Longrightarrow> length completed \<le> 4096 \<Longrightarrow>
   pending_ok pending \<and> length completed' \<le> 4096"
proof (induction payload cursor completed rule: packet_loop.induct)
  case (1 payload cursor completed)
  show ?case
  proof (cases "cursor < length payload")
    case False
    then show ?thesis using "1.prems" by (subst (asm) packet_loop.simps) (auto simp: pending_ok_def)
  next
    case True
    obtain buf r where a: "append_bytes packet_buffer_default (drop cursor payload) = (buf, r)" by fastforce
    show ?thesis
      using "1.prems" True a "1.IH" [OF True a [symmetric]] append_ok [OF buffer_ok_default, of "drop cursor payload" buf]
      by (subst (asm) packet_loop.simps)
        (auto simp: pending_ok_def complete_packet_length split: option.splits)
  qed
qed

lemma continue_packet_ok:
  assumes "continue_packet pending bytes completed = (pending', completed')" "pending_ok pending"
    "length completed \<le> 4096"
  shows "pending_ok pending' \<and> length completed' \<le> 4096"
  using assms append_ok
  by (auto simp: continue_packet_def pending_ok_def complete_packet_length split: option.splits prod.splits)

lemma push_zone_ok:
  assumes "push_zone pending payload fhp completed = (pending', completed')" "pending_ok pending"
    "length completed \<le> 4096"
  shows "pending_ok pending' \<and> length completed' \<le> 4096"
proof -
  obtain p c where s: "continue_packet pending
      (take (if fhp = NO_PACKET_START then length payload else unat fhp) payload) completed = (p, c)"
    by fastforce
  note ok = continue_packet_ok [OF s assms(2,3)]
  show ?thesis
    using assms ok packet_loop_ok [of payload "unat fhp" c pending' completed']
    by (auto simp: push_zone_def Let_def s pending_ok_def split: if_splits)
qed

definition reassembler_ok :: "packet_reassembler \<Rightarrow> bool" where
  "reassembler_ok r \<longleftrightarrow> length (completed_packets r) \<le> 4096 \<and>
     (\<forall>vcid context. vcid_contexts r vcid = Some context \<longrightarrow>
        unat vcid < 64 \<and> pending_ok (pending_packet context))"

lemma carried_ok: "reassembler_ok r \<Longrightarrow> pending_ok (carried r vcid counter)"
  by (auto simp: reassembler_ok_def carried_def vcid_context_default_def pending_ok_def Let_def split: option.splits)

inductive reassembler_step :: "packet_reassembler \<Rightarrow> packet_reassembler \<Rightarrow> bool" where
  push: "reassembler_step r (push_mpdu_payload r payload fhp vcid counter)"
| drain: "reassembler_step r (fst (drain_completed r))"

interpretation reassembler: guarded_system "\<lambda>r. r = reassembler_new" reassembler_step reassembler_ok
proof unfold_locales
  show "reassembler_ok r" if "r = reassembler_new" for r
    using that by (simp add: reassembler_ok_def reassembler_new_def)
next
  show "reassembler_ok r'" if "reassembler_ok r" "reassembler_step r r'" for r r'
    using that(2,1)
  proof cases
    case (push payload fhp vcid counter)
    obtain p c where z: "push_zone (carried r vcid counter) payload fhp (completed_packets r) = (p, c)" by fastforce
    have "length (completed_packets r) \<le> 4096" using that(1) by (simp add: reassembler_ok_def)
    then show ?thesis
      using push_zone_ok [OF z carried_ok [OF that(1)]] that(1)
      by (auto simp: push push_mpdu_payload_def z MAX_VIRTUAL_CHANNELS_def reassembler_ok_def)
  next
    case drain
    then show ?thesis using that(1) by (simp add: drain_completed_def reassembler_ok_def)
  qed
qed

section \<open>The sender\<close>

text \<open>A packet as it is sent: its own header gives its length.\<close>

definition valid_packet :: "u8 list \<Rightarrow> bool" where
  "valid_packet pk \<longleftrightarrow>
     (case parse_space_packet_header pk of None \<Rightarrow> False | Some h \<Rightarrow> sp_version h = 0 \<and> total_len h = length pk)"

definition packet_of :: "u8 list \<Rightarrow> space_packet" where
  "packet_of pk = (let h = the (parse_space_packet_header pk) in
     \<lparr>apid = header_apid h, packet_header = h, packet_data = drop 6 pk\<rparr>)"

text \<open>The offset from a stream position to the next packet start, and the pointer of a zone there.\<close>

fun first_start :: "u8 list list \<Rightarrow> nat \<Rightarrow> nat" where
  "first_start [] pos = 0"
| "first_start (pk # ps) pos =
     (if pos = 0 then 0 else if pos < length pk then length pk - pos else first_start ps (pos - length pk))"

definition fhp_at :: "u8 list list \<Rightarrow> nat \<Rightarrow> nat \<Rightarrow> u16" where
  "fhp_at ps pos len = (if first_start ps pos < len then word_of_nat (first_start ps pos) else NO_PACKET_START)"

text \<open>The frames that carry a packet stream from a position on, cut into zones.\<close>

fun zone_frames :: "u8 list list \<Rightarrow> nat \<Rightarrow> u32 \<Rightarrow> u8 list list \<Rightarrow> (u8 list \<times> u16 \<times> u32) list" where
  "zone_frames ps pos counter [] = []"
| "zone_frames ps pos counter (z # zs) =
     (z, fhp_at ps pos (length z), counter) #
       zone_frames ps (pos + length z) ((counter + 1) AND 0xFFFFFF) zs"



definition latest :: "nat \<Rightarrow> 'a list \<Rightarrow> 'a list" where
  "latest n xs = drop (length xs - n) xs"

section \<open>Reassembly\<close>

text \<open>The stream after \<open>k\<close> bytes: the packets passed, those left, and the position in the first of them.\<close>

fun advance :: "u8 list list \<Rightarrow> nat \<Rightarrow> u8 list list \<times> u8 list list \<times> nat" where
  "advance [] k = ([], [], 0)"
| "advance (pk # ps) k =
     (if k < length pk then ([], pk # ps, k)
      else let (d, rest, n) = advance ps (k - length pk) in (pk # d, rest, n))"

lemma advance_add:
  "advance ps a = (d, ps', n) \<Longrightarrow> a \<le> length (concat ps) \<Longrightarrow> advance ps' (n + b) = (d', ps'', n') \<Longrightarrow>
   advance ps (a + b) = (d @ d', ps'', n')"
  by (induction ps a arbitrary: d rule: advance.induct) (auto split: if_splits prod.splits)

lemma advance_state:
  "advance ps a = (d, ps', n) \<Longrightarrow> a \<le> length (concat ps) \<Longrightarrow>
   drop a (concat ps) = drop n (concat ps') \<and> set ps' \<subseteq> set ps \<and> (ps' = [] \<and> n = 0 \<or> ps' \<noteq> [] \<and> n < length (hd ps'))"
proof (induction ps a arbitrary: d rule: advance.induct)
  case (2 pk ps k)
  show ?case
  proof (cases "k < length pk")
    case False
    then obtain d1 where "advance ps (k - length pk) = (d1, ps', n)"
      using "2.prems"(1) by (auto split: prod.splits)
    moreover have "k - length pk \<le> length (concat ps)" using "2.prems"(2) False by simp
    ultimately show ?thesis using "2.IH" [OF False] False by auto
  qed (use "2.prems" in auto)
qed auto

lemma first_start_advance:
  "advance ps a = (d, ps', n) \<Longrightarrow> a \<le> length (concat ps) \<Longrightarrow> \<forall>pk \<in> set ps. pk \<noteq> [] \<Longrightarrow>
   first_start ps a = (if n = 0 then 0 else length (hd ps') - n)"
  by (induction ps a arbitrary: d rule: advance.induct) (auto split: if_splits prod.splits)




lemma valid_packetE:
  assumes "valid_packet pk"
  obtains h where "parse_space_packet_header pk = Some h" "sp_version h = 0" "total_len h = length pk" "7 \<le> length pk"
  using assms by (auto simp: valid_packet_def total_len_def SPACE_PACKET_HEADER_LEN_def split: option.splits)

lemma valid_packet_not_Nil: "valid_packet pk \<Longrightarrow> pk \<noteq> []"
  by (auto simp: valid_packet_def parse_space_packet_header_def SPACE_PACKET_HEADER_LEN_def)

definition buffer_at :: "u8 list \<Rightarrow> nat \<Rightarrow> packet_buffer" where
  "buffer_at pk n = \<lparr>buffered = take n pk, known_header = (if n < 6 then None else parse_space_packet_header pk)\<rparr>"

lemma append_at:
  assumes "valid_packet pk" "n < length pk" "m = min (length xs) (length pk - n)"
    and "take m xs = take m (drop n pk)"
  shows "append_bytes (buffer_at pk n) xs =
    (buffer_at pk (n + m), Some (m, if n + m = length pk then Some (packet_of pk) else None))"
proof -
  obtain h where h: "parse_space_packet_header pk = Some h" "sp_version h = 0" "total_len h = length pk" "7 \<le> length pk"
    using assms(1) by (rule valid_packetE)
  have body: "append_body \<lparr>buffered = take i pk, known_header = Some h\<rparr> h (i - n) xs =
      (buffer_at pk (n + m), Some (m, if n + m = length pk then Some (packet_of pk) else None))"
    if i: "n \<le> i" "6 \<le> i" "i \<le> n + m" for i
  proof -
    have c: "min (length pk - i) (length xs - (i - n)) = m - (i - n)"
      using assms(2,3) i by arith
    have "take (m - (i - n)) (drop (i - n) xs) = drop (i - n) (take m xs)" by (simp add: drop_take)
    also have "\<dots> = take (m - (i - n)) (drop i pk)" using assms(4) i by (simp add: drop_take)
    finally have t: "take i pk @ take (m - (i - n)) (drop (i - n) xs) = take (n + m) pk"
      using i by (simp add: take_add [symmetric] add.commute)
    have l: "length (take i pk) = i" "i - n + (m - (i - n)) = m" "length (take (n + m) pk) = n + m"
      using assms(2,3) i by simp_all
    have "i + length (take (m - (i - n)) (drop (i - n) xs)) = n + m"
      using arg_cong [OF t, of length] l by (simp del: length_take)
    then show ?thesis using i h c t l
      by (simp add: append_body_def buffer_at_def packet_of_def Let_def SPACE_PACKET_HEADER_LEN_def del: length_take)
  qed
  show ?thesis
  proof (cases "n < 6")
    case False
    then have "buffer_at pk n = \<lparr>buffered = take n pk, known_header = Some h\<rparr>" by (simp add: buffer_at_def h)
    then show ?thesis using body [of n] False by (simp add: append_bytes_def)
  next
    case True
    then have b: "buffer_at pk n = \<lparr>buffered = take n pk, known_header = None\<rparr>" by (simp add: buffer_at_def)
    have ln: "length (take n pk) = n" using assms(2) by simp
    show ?thesis
    proof (cases "n + length xs < 6")
      case short: True
      then have m: "m = length xs" using assms(3) h(4) by simp
      have "take n pk @ xs = take (n + m) pk" using assms(4) m by (simp add: take_add)
      then show ?thesis
        using short m h(4) assms(2) b by (simp add: append_header_part buffer_at_def)
    next
      case False
      have mc: "6 - n \<le> m" using assms(3) h(4) False by arith
      have "take (6 - n) xs = take (6 - n) (take m xs)" using mc by (simp add: min_absorb1)
      also have "\<dots> = take (6 - n) (drop n pk)" using assms(4) mc by (simp add: min_absorb1)
      finally have six: "take n pk @ take (6 - n) xs = take 6 pk"
        using True by (simp add: take_add [symmetric])
      have p6: "parse_space_packet_header (take 6 pk) = Some h" using parse_take [of 6 pk] h by simp
      show ?thesis
        using append_header_full [of "buffer_at pk n" xs] False True body [of 6] mc ln
        by (simp add: b six p6 h(2) Let_def)
    qed
  qed
qed

text \<open>The cursor loop on a zone from the first header on.\<close>

definition in_progress :: "u8 list list \<Rightarrow> nat \<Rightarrow> packet_buffer option" where
  "in_progress ps n = (if n = 0 then None else Some (buffer_at (hd ps) n))"

lemma buffer_at_0: "buffer_at pk 0 = packet_buffer_default"
  by (simp add: buffer_at_def packet_buffer_default_def)

lemma packet_loop_stream:
  "drop cursor payload @ later = concat ps \<Longrightarrow> \<forall>pk \<in> set ps. valid_packet pk \<Longrightarrow> cursor \<le> length payload \<Longrightarrow>
   advance ps (length payload - cursor) = (d, ps', n) \<Longrightarrow>
   packet_loop payload cursor completed = (in_progress ps' n, fold complete_packet (map packet_of d) completed)"
proof (induction ps arbitrary: cursor completed d)
  case Nil
  then show ?case by (subst packet_loop.simps) (simp add: in_progress_def)
next
  case (Cons pk ps)
  let ?xs = "drop cursor payload"
  obtain h where h: "7 \<le> length pk" using Cons.prems(2) by (auto elim: valid_packetE)
  show ?case
  proof (cases "cursor < length payload")
    case False
    then have "length payload - cursor = 0" "0 < length pk" using Cons.prems(3) h by (simp, linarith)
    then have "d = []" "n = 0" using Cons.prems(4) by auto
    then show ?thesis using False by (subst packet_loop.simps) (simp add: in_progress_def)
  next
    case True
    have pre: "take m ?xs = take m pk" if "m \<le> length ?xs" "m \<le> length pk" for m
    proof -
      have "take m ?xs = take m (?xs @ later)" using that by simp
      also have "\<dots> = take m pk" using Cons.prems(1) that by simp
      finally show ?thesis .
    qed
    let ?m = "min (length ?xs) (length pk)"
    have "take ?m ?xs = take ?m pk" by (rule pre) simp_all
    moreover have "0 < length pk" using h by linarith
    ultimately have a: "append_bytes packet_buffer_default ?xs =
        (buffer_at pk ?m, Some (?m, if ?m = length pk then Some (packet_of pk) else None))"
      using append_at [of pk 0 ?m ?xs] Cons.prems(2) unfolding buffer_at_0 by (simp del: length_drop)
    show ?thesis
    proof (cases "length ?xs < length pk")
      case short: True
      then show ?thesis using a True Cons.prems(4)
        by (subst packet_loop.simps) (auto simp: in_progress_def Let_def)
    next
      case full: False
      then have l: "length payload - cursor - length pk = length payload - (cursor + length pk)" "cursor + length pk \<le> length payload"
        using True by auto
      obtain d1 where d1: "advance ps (length payload - (cursor + length pk)) = (d1, ps', n)" "d = pk # d1"
        using Cons.prems(4) full by (auto split: prod.splits if_splits)
      have "drop (cursor + length pk) payload @ later = concat ps"
        using arg_cong [OF Cons.prems(1), of "drop (length pk)"] full by (simp add: add.commute)
      then have "packet_loop payload (cursor + length pk) (complete_packet (packet_of pk) completed) =
          (in_progress ps' n, fold complete_packet (map packet_of d1) (complete_packet (packet_of pk) completed))"
        using Cons.IH [OF _ _ l(2) d1(1)] Cons.prems(2) by simp
      then show ?thesis using a True full d1(2)
        by (subst packet_loop.simps) (auto simp: Let_def min_absorb2)
    qed
  qed
qed

text \<open>One zone. A packet that began in a lost frame is skipped.\<close>

definition after_loss :: "bool \<Rightarrow> nat \<Rightarrow> u8 list list \<Rightarrow> u8 list list" where
  "after_loss lost n d = (if lost \<and> n \<noteq> 0 then tl d else d)"

definition still_lost :: "bool \<Rightarrow> nat \<Rightarrow> u8 list list \<Rightarrow> bool" where
  "still_lost lost n d \<longleftrightarrow> lost \<and> n \<noteq> 0 \<and> d = []"

definition held :: "bool \<Rightarrow> u8 list list \<Rightarrow> nat \<Rightarrow> packet_buffer option" where
  "held lost ps n = (if lost then None else in_progress ps n)"

lemma small_pointer:
  assumes "off < 2046"
  shows "unat (word_of_nat off :: u16) = off" "(word_of_nat off :: u16) \<noteq> IDLE_ONLY"
    "(word_of_nat off :: u16) \<noteq> NO_PACKET_START"
proof -
  show u: "unat (word_of_nat off :: u16) = off" using assms by (simp add: unat_of_nat take_bit_nat_eq_self)
  show "(word_of_nat off :: u16) \<noteq> IDLE_ONLY" "(word_of_nat off :: u16) \<noteq> NO_PACKET_START"
    using u assms by (auto simp: IDLE_ONLY_def NO_PACKET_START_def dest!: arg_cong [of _ _ unat])
qed

lemma push_zone_pointer:
  assumes "off < length z" "length z \<le> 2046"
  shows "push_zone pending z (word_of_nat off) completed =
    packet_loop z off (snd (continue_packet pending (take off z) completed))"
  using assms small_pointer [of off] by (simp add: push_zone_def Let_def split_beta)

lemma push_zone_continue:
  "push_zone pending z NO_PACKET_START completed = continue_packet pending z completed"
  by (simp add: push_zone_def Let_def split_beta IDLE_ONLY_def NO_PACKET_START_def)

lemma push_zone_stream:
  assumes valid: "\<forall>pk \<in> set ps. valid_packet pk" and len: "length z \<le> 2046"
    and stream: "z @ later = drop n (concat ps)" and n: "ps = [] \<and> n = 0 \<or> ps \<noteq> [] \<and> n < length (hd ps)"
    and adv: "advance ps (n + length z) = (d, ps', n')"
    and f: "f = (let off = if n = 0 then 0 else length (hd ps) - n in
      if off < length z then word_of_nat off else NO_PACKET_START)"
  shows "push_zone (held lost ps n) z f completed =
    (held (still_lost lost n d) ps' n', fold complete_packet (map packet_of (after_loss lost n d)) completed)"
proof (cases "n = 0")
  case True
  then have h: "held lost ps n = None" by (simp add: held_def in_progress_def)
  show ?thesis
  proof (cases "z = []")
    case z: True
    have "ps = [] \<or> hd ps \<noteq> []" using valid valid_packet_not_Nil by (cases ps) auto
    then have "d = [] \<and> n' = 0" using adv True z by (cases ps) auto
    then show ?thesis using z f h True
      by (simp add: push_zone_continue continue_packet_def held_def in_progress_def after_loss_def)
  next
    case False
    then have "f = word_of_nat 0" "0 < length z" using f True by (simp_all add: Let_def)
    then show ?thesis
      using push_zone_pointer [of 0 z] packet_loop_stream [of 0 z later ps d ps' n' completed] len stream valid adv h True
      by (simp add: continue_packet_def held_def still_lost_def after_loss_def)
  qed
next
  case pos: False
  then obtain pk ps1 where ps: "ps = pk # ps1" using n by (cases ps) auto
  then have nl: "n < length pk" and v: "valid_packet pk" using n valid by auto
  let ?off = "length pk - n"
  have tk: "take m z = take m (drop n pk)" if "m \<le> length z" "m \<le> ?off" for m
  proof -
    have "take m z = take m (z @ later)" using that by simp
    also have "\<dots> = take m (drop n pk)" using stream ps nl that by simp
    finally show ?thesis .
  qed
  have held: "held lost ps n = (if lost then None else Some (buffer_at pk n))"
    using pos ps by (simp add: held_def in_progress_def)
  show ?thesis
  proof (cases "?off < length z")
    case True
    then have f': "f = word_of_nat ?off" using f pos ps by (simp add: Let_def)
    obtain d1 where d1: "advance ps1 (length z - ?off) = (d1, ps', n')" "d = pk # d1"
      using adv ps True nl by (auto split: prod.splits if_splits simp: add.commute)
    have "take ?off z = drop n pk" using tk [of ?off] True by simp
    then have app: "append_bytes (buffer_at pk n) (take ?off z) =
        (buffer_at pk (length pk), Some (?off, Some (packet_of pk)))"
      using append_at [OF v nl, of ?off "drop n pk"] nl by simp
    have cont: "snd (continue_packet (held lost ps n) (take ?off z) completed) =
        (if lost then completed else complete_packet (packet_of pk) completed)"
      using app held by (simp add: continue_packet_def)
    have rest: "drop ?off z @ later = concat ps1"
      using arg_cong [OF stream, of "drop ?off"] ps nl True by simp
    have "push_zone (held lost ps n) z f completed =
        packet_loop z ?off (if lost then completed else complete_packet (packet_of pk) completed)"
      unfolding f' push_zone_pointer [OF True len] cont ..
    also have "\<dots> = (in_progress ps' n', fold complete_packet (map packet_of d1)
        (if lost then completed else complete_packet (packet_of pk) completed))"
      using valid ps True by (intro packet_loop_stream [OF rest _ _ d1(1)]) auto
    finally show ?thesis using pos by (simp add: d1(2) after_loss_def still_lost_def held_def)
  next
    case False
    then have f': "f = NO_PACKET_START" using f pos ps by (simp add: Let_def)
    have app: "append_bytes (buffer_at pk n) z = (buffer_at pk (n + length z),
        Some (length z, if n + length z = length pk then Some (packet_of pk) else None))"
      using append_at [OF v nl, of "length z" z] tk [of "length z"] False by (simp add: min_absorb1)
    show ?thesis
    proof (cases "n + length z = length pk")
      case True
      have "ps1 = [] \<or> hd ps1 \<noteq> []" using valid ps valid_packet_not_Nil by (cases ps1) auto
      then have "d = [pk] \<and> n' = 0" using adv ps True by (cases ps1) auto
      then show ?thesis using True f' held app pos
        by (simp add: push_zone_continue continue_packet_def held_def in_progress_def after_loss_def still_lost_def)
    next
      case neq: False
      then have "n + length z < length pk" using False nl by arith
      then have "d = [] \<and> ps' = ps \<and> n' = n + length z" using adv ps by auto
      then show ?thesis using neq f' held app pos ps
        by (simp add: push_zone_continue continue_packet_def held_def in_progress_def after_loss_def still_lost_def)
    qed
  qed
qed

lemma after_loss_append:
  assumes "advance ps (n + k) = (d1, ps1, n1)" "ps = [] \<and> n = 0 \<or> ps \<noteq> [] \<and> n < length (hd ps)"
  shows "after_loss lost n (d1 @ d2) = after_loss lost n d1 @ after_loss (still_lost lost n d1) n1 d2"
proof (cases "d1 = [] \<and> lost \<and> n \<noteq> 0")
  case True
  then have "n1 = n + k \<or> ps = []" using assms(1) by (cases ps) (auto split: if_splits prod.splits)
  then show ?thesis using True assms(2) by (auto simp: after_loss_def still_lost_def)
next
  case False
  then show ?thesis by (auto simp: after_loss_def still_lost_def tl_append split: list.splits)
qed

text \<open>One frame of the stream, seen from the reassembler.\<close>

lemma push_mpdu_stream:
  assumes "\<forall>pk \<in> set ps. valid_packet pk" "unat vcid < 64"
    and "advance ps pos = (d0, ps', n)" "pos \<le> length (concat ps)" "z @ later = drop pos (concat ps)" "length z \<le> 2046"
    and "carried r vcid counter = held lost ps' n" "advance ps' (n + length z) = (d1, ps1, n1)"
  defines "r' \<equiv> push_mpdu_payload r z (fhp_at ps pos (length z)) vcid counter"
  shows "completed_packets r' = fold complete_packet (map packet_of (after_loss lost n d1)) (completed_packets r)"
    and "carried r' vcid ((counter + 1) AND 0xFFFFFF) = held (still_lost lost n d1) ps1 n1"
    and "n + length z \<le> length (concat ps')"
proof -
  note st = advance_state [OF assms(3,4)]
  have ne: "\<forall>pk \<in> set ps. pk \<noteq> []" using assms(1) valid_packet_not_Nil by blast
  have zone: "push_zone (held lost ps' n) z (fhp_at ps pos (length z)) (completed_packets r) =
      (held (still_lost lost n d1) ps1 n1, fold complete_packet (map packet_of (after_loss lost n d1)) (completed_packets r))"
    using st assms(1,5,6) first_start_advance [OF assms(3,4) ne]
    by (intro push_zone_stream [OF _ _ _ _ assms(8), of later]) (auto simp: fhp_at_def Let_def)
  show "completed_packets r' = fold complete_packet (map packet_of (after_loss lost n d1)) (completed_packets r)"
    "carried r' vcid ((counter + 1) AND 0xFFFFFF) = held (still_lost lost n d1) ps1 n1"
    using assms(2,7) zone by (simp_all add: r'_def push_mpdu_payload_def MAX_VIRTUAL_CHANNELS_def carried_def)
  have "z @ later = drop n (concat ps')" using st assms(5) by simp
  from arg_cong [OF this, of length] have "length z \<le> length (concat ps') - n" by simp
  moreover have "n \<le> length (concat ps')" using st by (cases ps') auto
  ultimately show "n + length z \<le> length (concat ps')" by linarith
qed

lemma drop_append_shift: "xs @ ys = drop n zs \<Longrightarrow> ys = drop (n + length xs) zs"
  by (metis add.commute append_eq_conv_conj drop_drop)


text \<open>The caller drains after every frame.\<close>

fun push_drained ::
    "u8 \<Rightarrow> (u8 list \<times> u16 \<times> u32) list \<Rightarrow> packet_reassembler \<Rightarrow> packet_reassembler \<times> space_packet list" where
  "push_drained vcid [] r = (r, [])"
| "push_drained vcid ((payload, fhp, counter) # frames) r =
     (let (r, packets) = drain_completed (push_mpdu_payload r payload fhp vcid counter);
          (r, rest) = push_drained vcid frames r
      in (r, packets @ rest))"

lemma advance_count:
  "advance ps k = (d, ps', n) \<Longrightarrow> \<forall>pk \<in> set ps. pk \<noteq> [] \<Longrightarrow> length d \<le> k"
proof (induction ps k arbitrary: d rule: advance.induct)
  case (2 pk ps k)
  show ?case
  proof (cases "k < length pk")
    case False
    then obtain d1 where "advance ps (k - length pk) = (d1, ps', n)" "d = pk # d1"
      using "2.prems"(1) by (auto split: prod.splits)
    note d = this
    have "0 < length pk" using "2.prems"(2) by simp
    moreover have "length d1 \<le> k - length pk" using "2.IH" [OF False d(1)] "2.prems"(2) by simp
    ultimately show ?thesis using False d(2) by (simp only: length_Cons)
  qed (use "2.prems" in auto)
qed auto

text \<open>The completed list keeps the latest packets that are not idle.\<close>

lemma latest_all: "length xs \<le> n \<Longrightarrow> latest n xs = xs"
  by (simp add: latest_def)

lemma fold_complete:
  "length completed \<le> 4096 \<Longrightarrow>
   fold complete_packet packets completed = latest 4096 (completed @ filter (\<lambda>p. apid p \<noteq> 0x7FF) packets)"
proof (induction packets arbitrary: completed)
  case (Cons p packets)
  have drop_tl: "latest 4096 (tl xs @ ys) = latest 4096 (xs @ ys)"
    if "length xs = 4096" "ys \<noteq> []" for xs ys :: "space_packet list"
    using that by (cases xs; cases ys) (auto simp: latest_def)
  have "fold complete_packet (p # packets) completed =
      latest 4096 (complete_packet p completed @ filter (\<lambda>p. apid p \<noteq> 0x7FF) packets)"
    using Cons.IH [OF complete_packet_length [OF Cons.prems]] by simp
  moreover have "latest 4096 (complete_packet p completed @ ys) =
      latest 4096 (completed @ filter (\<lambda>p. apid p \<noteq> 0x7FF) [p] @ ys)" for ys
    using Cons.prems drop_tl [of completed "p # ys"] by (simp add: complete_packet_def MAX_COMPLETED_PACKETS_def)
  ultimately show ?case by simp
qed (simp add: latest_def)

lemma push_drained_stream:
  assumes valid: "\<forall>pk \<in> set ps. valid_packet pk" and vcid: "unat vcid < 64"
  shows "advance ps pos = (d0, ps', n) \<Longrightarrow> pos + length (concat zones) \<le> length (concat ps) \<Longrightarrow>
    concat zones @ later = drop pos (concat ps) \<Longrightarrow> \<forall>z \<in> set zones. length z \<le> 2046 \<Longrightarrow>
    carried r vcid counter = held lost ps' n \<Longrightarrow> completed_packets r = [] \<Longrightarrow>
    advance ps' (n + length (concat zones)) = (d, ps'', n'') \<Longrightarrow>
    snd (push_drained vcid (zone_frames ps pos counter zones) r) =
      filter (\<lambda>p. apid p \<noteq> 0x7FF) (map packet_of (after_loss lost n d))"
proof (induction zones arbitrary: pos counter r lost d0 ps' n d)
  case Nil
  have "pos \<le> length (concat ps)" using Nil.prems(2) by simp
  then have "d = []" using advance_state [OF Nil.prems(1)] Nil.prems(7) by (cases ps') auto
  then show ?case by (simp add: after_loss_def)
next
  case (Cons z zones)
  have pos: "pos \<le> length (concat ps)" using Cons.prems(2) by simp
  note st = advance_state [OF Cons.prems(1) pos]
  obtain d1 ps1 n1 where a1: "advance ps' (n + length z) = (d1, ps1, n1)" by (metis prod.exhaust)
  have z: "z @ (concat zones @ later) = drop pos (concat ps)" using Cons.prems(3) by simp
  have zl: "length z \<le> 2046" using Cons.prems(4) by simp
  note step = push_mpdu_stream [OF valid vcid Cons.prems(1) pos z zl Cons.prems(5) a1]
  let ?r = "push_mpdu_payload r z (fhp_at ps pos (length z)) vcid counter"
  let ?d = "fst (drain_completed ?r)" and ?c = "(counter + 1) AND 0xFFFFFF"
  have dr: "carried ?d vcid ?c = held (still_lost lost n d1) ps1 n1" "completed_packets ?d = []"
    using step(2) by (simp_all add: drain_completed_def carried_def)
  have ne: "\<forall>pk \<in> set ps'. pk \<noteq> []" using st valid valid_packet_not_Nil by blast
  have few: "length (after_loss lost n d1) \<le> 4096"
  proof (cases "n = 0")
    case True
    then show ?thesis using advance_count [OF a1 ne] zl by (simp add: after_loss_def)
  next
    case False
    then obtain pk qs where ps': "ps' = pk # qs" "n < length pk" using st by (cases ps') auto
    show ?thesis
    proof (cases "n + length z < length pk")
      case True
      then show ?thesis using a1 ps' by (simp add: after_loss_def)
    next
      case False
      then obtain d2 where "advance qs (n + length z - length pk) = (d2, ps1, n1)" "d1 = pk # d2"
        using a1 ps' by (auto split: prod.splits if_splits)
      moreover from this have "length d2 \<le> n + length z - length pk" using advance_count [of qs "n + length z - length pk" d2] ne ps'(1) by simp
      then have "length d2 \<le> 2046" using ps'(2) zl by arith
      ultimately show ?thesis by (simp add: after_loss_def)
    qed
  qed
  have "snd (drain_completed ?r) = fold complete_packet (map packet_of (after_loss lost n d1)) []"
    using step(1) Cons.prems(6) by (simp add: drain_completed_def)
  also have "\<dots> = filter (\<lambda>p. apid p \<noteq> 0x7FF) (map packet_of (after_loss lost n d1))"
  proof -
    have "length (filter (\<lambda>p. apid p \<noteq> 0x7FF) (map packet_of (after_loss lost n d1))) \<le> 4096"
      by (metis few length_filter_le length_map le_trans)
    then show ?thesis by (simp only: fold_complete latest_all list.size append_Nil)
  qed
  finally have out: "snd (drain_completed ?r) = \<dots>" .
  have a: "advance ps (pos + length z) = (d0 @ d1, ps1, n1)" by (rule advance_add [OF Cons.prems(1) pos a1])
  obtain e q m where e: "advance ps1 (n1 + length (concat zones)) = (e, q, m)" by (metis prod.exhaust)
  have "advance ps' (n + length z + length (concat zones)) = (d1 @ e, q, m)" by (rule advance_add [OF a1 step(3) e])
  then have d: "d = d1 @ e" "q = ps''" "m = n''" using Cons.prems(7) by (simp_all add: add.assoc)
  show ?case
    using Cons.IH [OF a _ _ _ dr e [unfolded d(2,3)]] Cons.prems(2,4) drop_append_shift [OF z] out
      after_loss_append [OF a1, of lost e] st d(1)
    by (simp add: split_beta Let_def)
qed

section \<open>Properties\<close>



text \<open>Memory bounds: in every reassembler that pushes and drains can reach, at most 4096 packets wait,
  only the 64 virtual channels have contexts, and a packet in progress is incomplete and holds at most
  65541 bytes.\<close>

lemma reassembler_memory_bounded:
  "reach (\<lambda>r. r = reassembler_new) reassembler_step r \<longrightarrow>
   length (completed_packets r) \<le> 4096 \<and> dom (vcid_contexts r) \<subseteq> {vcid. unat vcid < 64} \<and>
   (\<forall>vcid context buf. vcid_contexts r vcid = Some context \<longrightarrow> pending_packet context = Some buf \<longrightarrow>
      length (buffered buf) \<le> 65541)"
  using reassembler.reach_inv [of r] buffer_ok_length
  by (fastforce simp: reassembler_ok_def pending_ok_def)

theorem reassembler_memory_bounded_witness:
  "let r = push_mpdu_payload reassembler_new [1, 2, 3] 0 9 4 in
   length (completed_packets r) \<le> 4096 \<and> dom (vcid_contexts r) \<subseteq> {vcid. unat vcid < 64}"
  using reassembler_memory_bounded [of "push_mpdu_payload reassembler_new [1, 2, 3] 0 9 4"]
    reach.extend [OF reach.start [of "\<lambda>r. r = reassembler_new" reassembler_new reassembler_step] reassembler_step.push]
  by (simp add: Let_def)

end
