(* ===== verification/Reed_Solomon.thy ===== *)
theory Reed_Solomon
  imports GF256
begin

text \<open>
  RS(255,223) with interleave depth four, \<^verbatim>\<open>lrpt-decode/src/reed_solomon.rs\<close>: the field tables,
  polynomials as byte lists with the highest degree first, the encoder, the Berlekamp-Massey decoder
  with its linear solver, and the interleaved frame. Bytes keep their width, indices and counts are
  naturals. The lemmas show that the tables implement \<open>gf_tables\<close>, that the encoder makes codewords,
  that frames survive the round trip and that the decoder accepts nothing but nearby codewords.
\<close>

section \<open>The field\<close>

definition INTERLEAVE :: nat where "INTERLEAVE = 4"
definition RS_DATA_LEN :: nat where "RS_DATA_LEN = 223"
definition RS_PARITY_LEN :: nat where "RS_PARITY_LEN = 32"
definition RS_CODEWORD_LEN :: nat where "RS_CODEWORD_LEN = RS_DATA_LEN + RS_PARITY_LEN"
definition INTERLEAVED_FRAME_LEN :: nat where "INTERLEAVED_FRAME_LEN = RS_CODEWORD_LEN * INTERLEAVE"
definition FIELD_SIZE :: nat where "FIELD_SIZE = 255"
definition FIELD_POLY :: u16 where "FIELD_POLY = 0x187"
definition FIRST_ROOT :: int where "FIRST_ROOT = 112"
definition PRIMITIVE_STEP :: int where "PRIMITIVE_STEP = 11"

lemmas rs_constants = INTERLEAVE_def RS_DATA_LEN_def RS_PARITY_LEN_def RS_CODEWORD_LEN_def
  INTERLEAVED_FRAME_LEN_def FIELD_SIZE_def FIRST_ROOT_def PRIMITIVE_STEP_def

record gf256 =
  exp_table :: "u8 list"
  log_table :: "u8 list"

text \<open>One turn of the first loop of \<open>gf\<close>.\<close>

definition gf_turn :: "u16 \<times> u8 list \<times> u8 list \<Rightarrow> nat \<Rightarrow> u16 \<times> u8 list \<times> u8 list" where
  "gf_turn t i =
     (case t of (x, exps, logs) \<Rightarrow>
        let exps = exps[i := ucast x]; logs = logs[unat x := of_nat i]; x = push_bit 1 x;
            x = (if x AND 0x100 \<noteq> 0 then x XOR FIELD_POLY else x)
        in (x, exps, logs))"

definition GF :: gf256 where
  "GF =
     (let (_, exps, logs) = foldl gf_turn (1, replicate (FIELD_SIZE * 2) 0, replicate 256 255) [0..<FIELD_SIZE];
          exps = foldl (\<lambda>exps j. exps[j := exps ! (j - FIELD_SIZE)]) exps [FIELD_SIZE..<FIELD_SIZE * 2]
      in \<lparr>exp_table = exps, log_table = logs\<rparr>)"

definition rs_log :: "u8 \<Rightarrow> nat" where
  "rs_log a = unat (log_table GF ! unat a)"

definition mul :: "u8 \<Rightarrow> u8 \<Rightarrow> u8" where
  "mul a b = (if a = 0 \<or> b = 0 then 0 else exp_table GF ! (rs_log a + rs_log b))"

definition inv :: "u8 \<Rightarrow> u8" where
  "inv a = exp_table GF ! (FIELD_SIZE - rs_log a)"

definition alpha_exp :: "int \<Rightarrow> u8" where
  "alpha_exp exponent = exp_table GF ! nat (exponent mod int FIELD_SIZE)"

definition pow_exp :: "u8 \<Rightarrow> int \<Rightarrow> u8" where
  "pow_exp v exponent =
     (if v = 0 then (if exponent = 0 then 1 else 0) else alpha_exp (int (rs_log v) * exponent))"

section \<open>Polynomials\<close>

fun trim :: "u8 list \<Rightarrow> u8 list" where
  "trim (c # d # p) = (if c = 0 then trim (d # p) else c # d # p)"
| "trim p = p"

definition mul_poly :: "u8 list \<Rightarrow> u8 list \<Rightarrow> u8 list" where
  "mul_poly a b =
     trim (foldl (\<lambda>out i. foldl (\<lambda>out j. out[i + j := out ! (i + j) XOR mul (a ! i) (b ! j)]) out [0..<length b])
       (replicate (length a + length b - 1) 0) [0..<length a])"

definition add_poly :: "u8 list \<Rightarrow> u8 list \<Rightarrow> u8 list" where
  "add_poly a b =
     (let n = max (length a) (length b) in
      trim (map (\<lambda>i. (if i \<ge> n - length a then a ! (i - (n - length a)) else 0) XOR
                     (if i \<ge> n - length b then b ! (i - (n - length b)) else 0)) [0..<n]))"

definition scale_poly :: "u8 list \<Rightarrow> u8 \<Rightarrow> u8 list" where
  "scale_poly a factor = map (\<lambda>x. mul x factor) a"

definition eval_poly :: "u8 list \<Rightarrow> u8 \<Rightarrow> u8" where
  "eval_poly p x = foldl (\<lambda>acc c. mul acc x XOR c) 0 p"

definition reverse_poly :: "u8 list \<Rightarrow> u8 list" where
  "reverse_poly p = rev p"

definition root :: "nat \<Rightarrow> u8" where
  "root i = alpha_exp ((FIRST_ROOT + int i) * PRIMITIVE_STEP)"

definition generator :: "u8 list" where
  "generator = foldl (\<lambda>g i. mul_poly g [1, root i]) [1] [0..<RS_PARITY_LEN]"

section \<open>Encoder\<close>

definition divide_turn :: "u8 list \<Rightarrow> u8 list \<Rightarrow> nat \<Rightarrow> u8 list" where
  "divide_turn g work i =
     (let factor = work ! i in
      if factor \<noteq> 0
      then foldl (\<lambda>work j. work[i + j := work ! (i + j) XOR mul factor (g ! j)]) work [0..<length g]
      else work)"

definition encode_codeword :: "u8 list \<Rightarrow> u8 list" where
  "encode_codeword data =
     (let work = foldl (divide_turn generator) (data @ replicate RS_PARITY_LEN 0) [0..<RS_DATA_LEN]
      in data @ drop RS_DATA_LEN work)"

definition encode_interleaved :: "u8 list \<Rightarrow> u8 list run" where
  "encode_interleaved payload =
     (if length payload \<noteq> RS_DATA_LEN * INTERLEAVE then Panic
      else
        let codewords = map (\<lambda>cw. encode_codeword (map (\<lambda>pos. payload ! (pos * INTERLEAVE + cw)) [0..<RS_DATA_LEN]))
              [0..<INTERLEAVE]
        in Done (map (\<lambda>i. codewords ! (i mod INTERLEAVE) ! (i div INTERLEAVE)) [0..<INTERLEAVED_FRAME_LEN]))"

section \<open>Decoder\<close>

definition syndromes :: "u8 list \<Rightarrow> u8 list" where
  "syndromes codeword = map (\<lambda>i. eval_poly codeword (root i)) [0..<RS_PARITY_LEN]"

definition locator_discrepancy :: "u8 list \<Rightarrow> u8 list \<Rightarrow> nat \<Rightarrow> u8" where
  "locator_discrepancy s locator k =
     foldl (\<lambda>d j. d XOR mul (locator ! (length locator - 1 - j)) (s ! (k - j))) (s ! k) [1..<length locator]"

definition locator_step :: "u8 list \<Rightarrow> u8 list \<times> u8 list \<Rightarrow> nat \<Rightarrow> u8 list \<times> u8 list" where
  "locator_step s t k =
     (case t of (locator, old) \<Rightarrow>
        let discrepancy = locator_discrepancy s locator k; old = old @ [0] in
        if discrepancy = 0 then (locator, old)
        else if length old > length locator then
          let nxt = scale_poly old discrepancy; old = scale_poly locator (inv discrepancy)
          in (add_poly nxt (scale_poly old discrepancy), old)
        else (add_poly locator (scale_poly old discrepancy), old))"

definition find_error_locator :: "u8 list \<Rightarrow> u8 list option" where
  "find_error_locator s =
     (let locator = fst (foldl (locator_step s) ([1], [1]) [0..<length s])
      in if length locator - 1 \<le> RS_PARITY_LEN div 2 then Some locator else None)"

definition error_positions :: "u8 list \<Rightarrow> nat list option" where
  "error_positions locator =
     (let expected = length locator - 1;
          locator = reverse_poly locator;
          positions = map (\<lambda>i. RS_CODEWORD_LEN - 1 - i)
            (filter (\<lambda>i. eval_poly locator (alpha_exp (int i * PRIMITIVE_STEP)) = 0) [0..<RS_CODEWORD_LEN])
      in if length positions = expected then Some positions else None)"

definition error_matrix :: "u8 list \<Rightarrow> nat list \<Rightarrow> u8 list list" where
  "error_matrix s positions =
     map (\<lambda>row. map (\<lambda>position. pow_exp (root row) (int (RS_CODEWORD_LEN - 1 - position))) positions @ [s ! row])
       [0..<length positions]"

definition scale_row :: "nat \<Rightarrow> nat \<Rightarrow> u8 list list \<Rightarrow> u8 list list" where
  "scale_row n column matrix =
     (let factor = inv (matrix ! column ! column)
      in matrix[column := foldl (\<lambda>r item. r[item := mul (r ! item) factor]) (matrix ! column) [column..<n + 1]])"

definition eliminate :: "nat \<Rightarrow> nat \<Rightarrow> u8 list list \<Rightarrow> nat \<Rightarrow> u8 list list" where
  "eliminate n column matrix row =
     (if row = column then matrix
      else let factor = matrix ! row ! column in
        if factor = 0 then matrix
        else matrix[row := foldl (\<lambda>r item. r[item := r ! item XOR mul factor (matrix ! column ! item)])
          (matrix ! row) [column..<n + 1]])"

fun gauss :: "nat \<Rightarrow> nat list \<Rightarrow> u8 list list \<Rightarrow> u8 list list option" where
  "gauss n [] matrix = Some matrix"
| "gauss n (column # columns) matrix =
     (case find (\<lambda>row. matrix ! row ! column \<noteq> 0) [column..<n] of
        None \<Rightarrow> None
      | Some pivot \<Rightarrow>
          let matrix = matrix[column := matrix ! pivot, pivot := matrix ! column];
              matrix = scale_row n column matrix
          in gauss n columns (foldl (eliminate n column) matrix [0..<n]))"

definition solve_error_magnitudes :: "u8 list \<Rightarrow> nat list \<Rightarrow> u8 list option" where
  "solve_error_magnitudes s positions =
     (let n = length positions
      in map_option (\<lambda>matrix. map (\<lambda>row. matrix ! row ! n) [0..<n]) (gauss n [0..<n] (error_matrix s positions)))"

definition apply_magnitudes :: "u8 list \<Rightarrow> nat list \<Rightarrow> u8 list \<Rightarrow> u8 list" where
  "apply_magnitudes input positions magnitudes =
     foldl (\<lambda>corrected (pos, magnitude). corrected[pos := corrected ! pos XOR magnitude]) input
       (zip positions magnitudes)"

definition correct_codeword :: "u8 list \<Rightarrow> u8 list option" where
  "correct_codeword input =
     (let s = syndromes input in
      if list_all (\<lambda>x. x = 0) s then Some input
      else case find_error_locator s of
        None \<Rightarrow> None
      | Some locator \<Rightarrow>
          (case error_positions locator of
             None \<Rightarrow> None
           | Some positions \<Rightarrow>
               if positions = [] \<or> length positions > RS_PARITY_LEN div 2 then None
               else case solve_error_magnitudes s positions of
                 None \<Rightarrow> None
               | Some magnitudes \<Rightarrow>
                   let corrected = apply_magnitudes input positions magnitudes
                   in if list_all (\<lambda>x. x = 0) (syndromes corrected) then Some corrected else None))"

section \<open>Interleaved frames\<close>

record rs_decode_result =
  rs_data :: "u8 list"
  codewords_ok :: nat
  codewords_failed :: nat

definition deinterleave :: "u8 list \<Rightarrow> u8 list list" where
  "deinterleave frame =
     foldl (\<lambda>codewords i. codewords[i mod INTERLEAVE := (codewords ! (i mod INTERLEAVE))[i div INTERLEAVE := frame ! i]])
       (replicate INTERLEAVE (replicate RS_CODEWORD_LEN 0)) [0..<min (length frame) INTERLEAVED_FRAME_LEN]"

definition interleave_data :: "u8 list list \<Rightarrow> u8 list" where
  "interleave_data codewords =
     foldl (\<lambda>out (pos, cw). out[pos * INTERLEAVE + cw := codewords ! cw ! pos])
       (replicate (RS_DATA_LEN * INTERLEAVE) 0) (List.product [0..<RS_DATA_LEN] [0..<INTERLEAVE])"

definition decode_interleaved :: "u8 list \<Rightarrow> rs_decode_result" where
  "decode_interleaved frame =
     (let results = map correct_codeword (deinterleave frame);
          data = map (\<lambda>r. case r of None \<Rightarrow> replicate RS_DATA_LEN 0 | Some c \<Rightarrow> take RS_DATA_LEN c) results
      in \<lparr>rs_data = interleave_data data,
          codewords_ok = length (filter (\<lambda>r. r \<noteq> None) results),
          codewords_failed = length (filter (\<lambda>r. r = None) results)\<rparr>)"

section \<open>The tables implement the field\<close>

lemma gf_turn_value:
  "(let v = push_bit 1 (ucast a :: u16) in if v AND 0x100 \<noteq> 0 then v XOR FIELD_POLY else v) = ucast (gfx a)"
    (is "?l = _") for a :: u8
proof -
  let ?v = "push_bit 1 (ucast a :: u16)"
  have c: "(?v AND 0x100 \<noteq> 0) = bit a 7"
    using and_exp_eq_0_iff_not_bit [of ?v 8] by (simp add: bit_simps del: push_bit_Suc)
  have k: "FIELD_POLY = push_bit 8 1 OR ucast (0x87 :: u8)" by (simp add: FIELD_POLY_def)
  show ?thesis
  proof (rule bit_word_eqI)
    fix i assume "i < LENGTH(16)"
    then have i: "i < 16" by simp
    have k': "bit FIELD_POLY i = (i = 8 \<or> bit (0x87 :: u8) i)"
      unfolding k using i by (simp only: bit_or_iff bit_push_bit_iff bit_unsigned_iff bit_1_iff) auto
    have b: "bit ?v i = (0 < i \<and> bit a (i - 1))" using i by (auto simp: bit_simps simp del: push_bit_Suc)
    have high: "\<not> bit (0x87 :: u8) 8" "\<not> bit a n" if "8 \<le> n" for n
      using that bit_imp_le_length [of a n] bit_imp_le_length [of "0x87 :: u8" 8] by auto
    consider "i < 8" | "i = 8" | "9 \<le> i" by arith
    then show "bit ?l i = bit (ucast (gfx a) :: u16) i"
    proof cases
      case 2
      have "bit ?v 8 = bit a 7" "bit FIELD_POLY 8" using b k' 2 by simp_all
      moreover have "\<not> bit (gfx a) 8" using bit_imp_le_length [of "gfx a" 8] by auto
      ultimately show ?thesis unfolding Let_def c 2
        by (simp only: bit_xor_iff bit_unsigned_iff split: if_split) simp
    qed (unfold Let_def c, use i high [of "i - 1"] high [of i] in
        \<open>auto simp only: bit_xor_iff k' b bit_unsigned_iff gfx_def bit_push_bit_iff split: if_splits\<close>, auto)
  qed
qed

lemma gf_turn_step:
  "gf_turn (ucast a, exps, logs) i = (ucast (gfx a), exps[i := a], logs[unat a := of_nat i])" for a :: u8
proof -
  have "unat (ucast a :: u16) = unat a" by (rule unat_ucast_up) simp
  moreover have "(ucast (ucast a :: u16) :: u8) = a" by (rule bit_word_eqI) (auto simp: bit_simps)
  ultimately show ?thesis
    using gf_turn_value [of a] by (simp add: gf_turn_def Let_def del: push_bit_Suc One_nat_def)
qed

lemma gf_fill:
  assumes "n \<le> 255"
  shows "\<exists>exps logs. foldl gf_turn (1, replicate 510 0, replicate 256 255) [0..<n] = (ucast (alpha_pow n), exps, logs) \<and>
    length exps = 510 \<and> length logs = 256 \<and>
    (\<forall>j < n. exps ! j = alpha_pow j \<and> logs ! unat (alpha_pow j) = of_nat j)"
  using assms
proof (induction n)
  case (Suc n)
  then obtain exps logs where ih: "foldl gf_turn (1, replicate 510 0, replicate 256 255) [0..<n] = (ucast (alpha_pow n), exps, logs)"
      "length exps = 510" "length logs = 256" "\<forall>j < n. exps ! j = alpha_pow j \<and> logs ! unat (alpha_pow j) = of_nat j"
    by auto
  have ne: "unat (alpha_pow n) \<noteq> unat (alpha_pow j)" if "j < n" for j
    using that Suc.prems alpha_pow_inj [of n j] by (auto simp: word_unat_eq_iff)
  have "unat (alpha_pow n) < 256" by (rule unat_u8_less)
  then show ?case
    using ih ne Suc.prems by (auto simp: gf_turn_step alpha_pow_Suc nth_list_update less_Suc_eq)
qed simp

lemma exp_table_GF: "j < 510 \<Longrightarrow> exp_table GF ! j = alpha_pow j"
  and log_table_GF: "k < 255 \<Longrightarrow> log_table GF ! unat (alpha_pow k) = of_nat k"
proof -
  obtain exps logs where f: "foldl gf_turn (1, replicate 510 0, replicate 256 255) [0..<255] = (ucast (alpha_pow 255), exps, logs)"
      "length exps = 510" "\<forall>j < 255. exps ! j = alpha_pow j \<and> logs ! unat (alpha_pow j) = of_nat j"
    using gf_fill [of 255] by (auto simp del: upt_rec_numeral)
  have second: "length (foldl (\<lambda>e j. e[j := e ! (j - 255)]) exps [255..<m]) = 510 \<and>
      (\<forall>j < m. foldl (\<lambda>e j. e[j := e ! (j - 255)]) exps [255..<m] ! j = alpha_pow j)"
    if "255 \<le> m" "m \<le> 510" for m
    using that
  proof (induction m rule: nat_induct_at_least)
    case (Suc m)
    then show ?case
      using alpha_pow_period [of 1 "m - 255"] by (auto simp: nth_list_update less_Suc_eq)
  qed (use f in simp)
  show "exp_table GF ! j = alpha_pow j" if "j < 510"
    using second [of 510] that f by (simp add: GF_def FIELD_SIZE_def del: upt_rec_numeral)
  show "log_table GF ! unat (alpha_pow k) = of_nat k" if "k < 255"
    using f that by (simp add: GF_def FIELD_SIZE_def del: upt_rec_numeral)
qed

lemma rs_log_alpha: "k < 255 \<Longrightarrow> rs_log (alpha_pow k) = k"
  by (simp add: rs_log_def log_table_GF unsigned_of_nat take_bit_nat_eq_self)

text \<open>The tables of this decoder provide the interface of \<open>gf_tables\<close>, too.\<close>

interpretation rs: gf_tables "\<lambda>i. exp_table GF ! i" rs_log
proof
  fix x :: u8 assume "x \<noteq> 0"
  then obtain i where i: "i < 255" "x = alpha_pow i" using alpha_pow_surj by blast
  then show "rs_log x < 255" "exp_table GF ! rs_log x = x" by (simp_all add: rs_log_alpha exp_table_GF)
qed (simp add: exp_table_GF)

lemma mul_alpha: "mul x (alpha_pow k) = (gfx ^^ k) x"
proof (cases "x = 0")
  case False
  have "rs_log x + rs_log (alpha_pow k) < 510" using False rs.logt_less [of x] rs.logt_less [of "alpha_pow k"] by simp
  then have "mul x (alpha_pow k) = alpha_pow (rs_log x + k mod 255)"
    using False by (simp add: mul_def exp_table_GF rs.logt_alpha_mod)
  also have "\<dots> = (gfx ^^ (k mod 255)) x"
    using False alpha_pow_add [of "k mod 255" "rs_log x"] by (simp add: rs.alpha_logt add.commute)
  finally show ?thesis by (simp add: gfx_pow_mod)
qed (simp add: mul_def)

lemma mul_commute: "mul a b = mul b a"
  by (simp add: mul_def add.commute)

lemma alpha_exp_nat: "alpha_exp (int n) = alpha_pow n"
proof -
  have "nat (int n mod int FIELD_SIZE) = n mod 255" by (simp add: FIELD_SIZE_def nat_mod_distrib)
  then show ?thesis by (simp add: alpha_exp_def exp_table_GF alpha_pow_mod)
qed

definition root_exp :: "nat \<Rightarrow> nat" where
  "root_exp i = (112 + i) * 11"

lemma root_alpha: "root i = alpha_pow (root_exp i)"
  using alpha_exp_nat [of "(112 + i) * 11"] by (simp add: root_def root_exp_def FIRST_ROOT_def PRIMITIVE_STEP_def)

lemma eval_poly_horner: "eval_poly p (alpha_pow e) = horner e p"
  by (simp add: eval_poly_def horner_def mul_alpha xor.commute)

section \<open>Values of words\<close>

definition xor_sum :: "u8 list \<Rightarrow> u8" where
  "xor_sum xs = foldr (XOR) xs 0"

lemma xor_sum_simps [simp]: "xor_sum [] = 0" "xor_sum (x # xs) = x XOR xor_sum xs"
  "xor_sum (xs @ ys) = xor_sum xs XOR xor_sum ys"
proof -
  show "xor_sum (xs @ ys) = xor_sum xs XOR xor_sum ys"
    by (induction xs) (simp_all add: xor_sum_def xor.assoc)
qed (simp_all add: xor_sum_def)

lemma gfx_xor_sum: "(gfx ^^ k) (xor_sum (map f xs)) = xor_sum (map (\<lambda>x. (gfx ^^ k) (f x)) xs)"
  by (induction xs) (simp_all add: gfx_pow_xor)

lemma xor_sum_xor: "xor_sum (map (\<lambda>x. f x XOR g x) xs) = xor_sum (map f xs) XOR xor_sum (map g xs)"
  by (induction xs) (simp_all add: ac_simps)

lemma horner_sum: "horner e p = xor_sum (map (\<lambda>j. (gfx ^^ (e * (length p - 1 - j))) (p ! j)) [0..<length p])"
proof (induction p rule: rev_induct)
  case (snoc b xs)
  have "(gfx ^^ e) (horner e xs) =
      xor_sum (map (\<lambda>j. (gfx ^^ (e * (length (xs @ [b]) - 1 - j))) ((xs @ [b]) ! j)) [0..<length xs])"
    unfolding snoc gfx_xor_sum
  proof (intro arg_cong [where f = xor_sum] map_cong refl)
    fix j assume "j \<in> set [0..<length xs]"
    then have j: "j < length xs" by simp
    then have "e + e * (length xs - 1 - j) = e * (length xs - j)"
      by (metis Suc_diff_Suc diff_Suc_eq_diff_pred mult_Suc_right)
    then show "(gfx ^^ e) ((gfx ^^ (e * (length xs - 1 - j))) (xs ! j)) =
        (gfx ^^ (e * (length (xs @ [b]) - 1 - j))) ((xs @ [b]) ! j)"
      using j by (simp add: gfx_pow_pow nth_append)
  qed
  then show ?case by (simp add: nth_append xor.commute [of b])
qed simp

lemma horner_xor:
  assumes "length p = length q"
  shows "horner e (map2 (XOR) p q) = horner e p XOR horner e q"
proof -
  have "horner e (map2 (XOR) p q) =
      xor_sum (map (\<lambda>j. (gfx ^^ (e * (length p - 1 - j))) (p ! j) XOR (gfx ^^ (e * (length p - 1 - j))) (q ! j)) [0..<length p])"
    unfolding horner_sum [of e "map2 (XOR) p q"] using assms
    by (intro arg_cong [where f = xor_sum] map_cong) (simp_all add: gfx_pow_xor)
  then show ?thesis using assms by (simp add: xor_sum_xor horner_sum [of e p] horner_sum [of e q])
qed

text \<open>Exclusive or of values into consecutive places.\<close>

abbreviation xor_into :: "nat \<Rightarrow> (nat \<Rightarrow> u8) \<Rightarrow> nat \<Rightarrow> u8 list \<Rightarrow> u8 list" where
  "xor_into i v n w \<equiv> foldl (\<lambda>w j. w[i + j := w ! (i + j) XOR v j]) w [0..<n]"

lemma xor_into_length [simp]: "length (xor_into i v n w) = length w"
  by (induction n) simp_all

lemma xor_into_nth:
  "i + n \<le> length w \<Longrightarrow> xor_into i v n w ! p = (if i \<le> p \<and> p < i + n then w ! p XOR v (p - i) else w ! p)"
  by (induction n) (auto simp: nth_list_update less_Suc_eq)

lemma horner_xor_into:
  "i + n \<le> length w \<Longrightarrow>
   horner e (xor_into i v n w) = horner e w XOR xor_sum (map (\<lambda>j. (gfx ^^ (e * (length w - 1 - (i + j)))) (v j)) [0..<n])"
  by (induction n) (simp_all add: horner_flip xor.assoc)

section \<open>The generator and the encoder\<close>

lemma horner_Cons0: "horner e (0 # p) = horner e p"
  by (simp add: horner_def)

lemma horner_zero: "horner e (replicate n 0) = 0"
  by (induction n) (simp_all add: horner_Cons0)

lemma horner_trim: "horner e (trim p) = horner e p"
  by (induction p rule: trim.induct) (simp_all add: horner_Cons0)

text \<open>Multiplying by a factor \<open>x + root\<close>.\<close>

lemma mul_poly_factor:
  assumes "a \<noteq> []" "a ! 0 = 1"
  shows "horner e (mul_poly a [1, alpha_pow k]) = (gfx ^^ e) (horner e a) XOR (gfx ^^ k) (horner e a)"
    and "length (mul_poly a [1, alpha_pow k]) = Suc (length a)" and "mul_poly a [1, alpha_pow k] ! 0 = 1"
proof -
  let ?m = "length a" and ?v = "\<lambda>i j. mul (a ! i) ([1, alpha_pow k] ! j)"
  let ?out = "\<lambda>n. foldl (\<lambda>out i. xor_into i (?v i) 2 out) (replicate (Suc ?m) 0) [0..<n]"
  have v: "?v i 0 = a ! i" "?v i 1 = (gfx ^^ k) (a ! i)" for i
    using mul_alpha [of "a ! i" 0] mul_alpha [of "a ! i" k] by simp_all
  have len: "length (?out n) = Suc ?m" for n by (induction n) simp_all
  have two: "[0..<2] = [0, 1 :: nat]" by (simp add: eval_nat_numeral)
  have val: "horner e (?out n) = xor_sum (map (\<lambda>i. (gfx ^^ (e * (?m - i))) (a ! i) XOR (gfx ^^ (e * (?m - Suc i))) ((gfx ^^ k) (a ! i))) [0..<n])"
    if "n \<le> ?m" for n
    using that
  proof (induction n)
    case (Suc n)
    define w where "w = ?out n"
    have lw: "length w = Suc ?m" unfolding w_def by (rule len)
    have "horner e (xor_into n (?v n) 2 w) =
        horner e w XOR xor_sum (map (\<lambda>j. (gfx ^^ (e * (length w - 1 - (n + j)))) (?v n j)) [0..<2])"
      using Suc.prems by (intro horner_xor_into) (simp add: lw)
    also have "\<dots> = horner e w XOR ((gfx ^^ (e * (?m - n))) (a ! n) XOR (gfx ^^ (e * (?m - Suc n))) ((gfx ^^ k) (a ! n)))"
      unfolding two lw using v by simp
    also have "horner e w = xor_sum (map (\<lambda>i. (gfx ^^ (e * (?m - i))) (a ! i) XOR (gfx ^^ (e * (?m - Suc i))) ((gfx ^^ k) (a ! i))) [0..<n])"
      unfolding w_def using Suc by simp
    finally show ?case by (simp add: w_def)
  qed (simp add: horner_zero horner_Cons0)
  have first: "?out (Suc n) ! 0 = a ! 0" if "Suc n \<le> ?m" for n
    using that
  proof (induction n)
    case 0
    then show ?case using v(1) by (simp add: two)
  next
    case (Suc n)
    have "?out (Suc (Suc n)) ! 0 = xor_into (Suc n) (?v (Suc n)) 2 (?out (Suc n)) ! 0" by simp
    also have "\<dots> = ?out (Suc n) ! 0" using Suc.prems by (subst xor_into_nth) (simp_all add: len del: replicate_Suc)
    finally show ?case using Suc by simp
  qed
  have m: "mul_poly a [1, alpha_pow k] = trim (?out ?m)"
    by (simp add: mul_poly_def eval_nat_numeral)
  obtain m where m1: "?m = Suc m" using assms(1) by (cases a) auto
  have nz: "?out ?m ! 0 = 1" using first [of m] assms(2) m1 by simp
  have t: "trim (?out ?m) = ?out ?m"
    using nz len [of ?m] by (cases "?out ?m" rule: trim.cases) auto
  show "length (mul_poly a [1, alpha_pow k]) = Suc (length a)" "mul_poly a [1, alpha_pow k] ! 0 = 1"
    unfolding m t using len nz by auto
  have "horner e (?out ?m) = (gfx ^^ e) (horner e a) XOR (gfx ^^ k) (horner e a)"
    unfolding val [OF order_refl] xor_sum_xor horner_sum [of e a] gfx_xor_sum gfx_pow_pow
  proof (intro arg_cong2 [where f = "(XOR)"] arg_cong [where f = xor_sum] map_cong refl)
    fix i assume "i \<in> set [0..<?m]"
    then have i: "i < ?m" by simp
    then have "e + e * (?m - 1 - i) = e * (?m - i)"
      by (metis Suc_diff_Suc diff_Suc_eq_diff_pred mult_Suc_right)
    then show "(gfx ^^ (e * (?m - i))) (a ! i) = (gfx ^^ (e + e * (?m - 1 - i))) (a ! i)" by simp
    show "(gfx ^^ (e * (?m - Suc i) + k)) (a ! i) = (gfx ^^ (k + e * (?m - 1 - i))) (a ! i)" by (simp add: add.commute)
  qed
  then show "horner e (mul_poly a [1, alpha_pow k]) = (gfx ^^ e) (horner e a) XOR (gfx ^^ k) (horner e a)"
    unfolding m t .
qed

lemma generator_props:
  "length (foldl (\<lambda>g i. mul_poly g [1, root i]) [1] [0..<n]) = Suc n \<and>
   foldl (\<lambda>g i. mul_poly g [1, root i]) [1] [0..<n] ! 0 = 1 \<and>
   (\<forall>i < n. horner (root_exp i) (foldl (\<lambda>g i. mul_poly g [1, root i]) [1] [0..<n]) = 0)"
proof (induction n)
  case (Suc n)
  let ?g = "foldl (\<lambda>g i. mul_poly g [1, root i]) [1] [0..<n]"
  have g: "?g \<noteq> []" "?g ! 0 = 1" using Suc by auto
  show ?case using mul_poly_factor [OF g] Suc by (auto simp: root_alpha less_Suc_eq)
qed simp

lemma length_generator: "length generator = 33" and generator_0: "generator ! 0 = 1"
  and generator_root: "i < 32 \<Longrightarrow> horner (root_exp i) generator = 0"
  using generator_props [of 32] by (simp_all add: generator_def RS_PARITY_LEN_def del: upt_rec_numeral)

text \<open>One turn of the division clears its byte and keeps the value at every root.\<close>

lemma divide_turn_props:
  assumes "i + length g \<le> length w" "g \<noteq> []" "g ! 0 = 1"
  shows "length (divide_turn g w i) = length w" "p < i \<Longrightarrow> divide_turn g w i ! p = w ! p"
    "divide_turn g w i ! i = 0" "horner e g = 0 \<Longrightarrow> horner e (divide_turn g w i) = horner e w"
proof -
  let ?n = "length g"
  have n: "0 < ?n" using assms(2) by simp
  have d: "divide_turn g w i = (if w ! i = 0 then w else xor_into i (\<lambda>j. mul (w ! i) (g ! j)) ?n w)"
    by (simp add: divide_turn_def Let_def)
  show "length (divide_turn g w i) = length w" by (simp add: d)
  show "divide_turn g w i ! p = w ! p" if "p < i"
    using that assms(1) by (auto simp: d xor_into_nth)
  have "mul x 1 = x" for x using mul_alpha [of x 0] by simp
  then show "divide_turn g w i ! i = 0"
    using assms n by (auto simp: d xor_into_nth)
  show "horner e (divide_turn g w i) = horner e w" if z: "horner e g = 0"
  proof (cases "w ! i = 0")
    case False
    then obtain f where f: "alpha_pow f = w ! i" using alpha_pow_surj by blast
    let ?k = "e * (length w - i - ?n)"
    have "xor_sum (map (\<lambda>j. (gfx ^^ (e * (length w - 1 - (i + j)))) (mul (w ! i) (g ! j))) [0..<?n]) =
        xor_sum (map (\<lambda>j. (gfx ^^ (?k + f)) ((gfx ^^ (e * (?n - 1 - j))) (g ! j))) [0..<?n])"
    proof (intro arg_cong [where f = xor_sum] map_cong refl)
      fix j assume "j \<in> set [0..<?n]"
      then have "length w - 1 - (i + j) = (length w - i - ?n) + (?n - 1 - j)" using assms(1) by auto
      then have "e * (length w - 1 - (i + j)) + f = ?k + f + e * (?n - 1 - j)" by (simp add: add_mult_distrib2)
      then show "(gfx ^^ (e * (length w - 1 - (i + j)))) (mul (w ! i) (g ! j)) =
          (gfx ^^ (?k + f)) ((gfx ^^ (e * (?n - 1 - j))) (g ! j))"
        by (simp add: f [symmetric] mul_commute [of "alpha_pow f"] mul_alpha gfx_pow_pow ac_simps)
    qed
    also have "\<dots> = (gfx ^^ (?k + f)) (horner e g)" by (simp only: horner_sum [of e g] gfx_xor_sum)
    finally show ?thesis using False assms(1) z by (simp add: d horner_xor_into)
  qed (simp add: d)
qed

lemma divided:
  assumes "length data = 223" "n \<le> 223"
  defines "w \<equiv> foldl (divide_turn generator) (data @ replicate 32 0) [0..<n]"
  shows "length w = 255 \<and> (\<forall>p < n. w ! p = 0) \<and> (\<forall>i < 32. horner (root_exp i) w = horner (root_exp i) (data @ replicate 32 0))"
  using assms(2) unfolding w_def
proof (induction n)
  case 0
  then show ?case using assms(1) by simp
next
  case (Suc n)
  have g: "generator \<noteq> []" using length_generator by auto
  let ?w = "foldl (divide_turn generator) (data @ replicate 32 0) [0..<n]"
  have ih: "length ?w = 255" "\<forall>p < n. ?w ! p = 0"
    "\<forall>i < 32. horner (root_exp i) ?w = horner (root_exp i) (data @ replicate 32 0)"
    using Suc by simp_all
  then have "n + length generator \<le> length ?w" using Suc.prems by (simp add: length_generator)
  note t = divide_turn_props [OF this g generator_0]
  show ?case using t ih generator_root by (auto simp: less_Suc_eq)
qed

definition roots :: "nat list" where
  "roots = map root_exp [0..<32]"

lemma encode_codeword_props:
  assumes "length data = 223"
  shows "length (encode_codeword data) = 255" "take 223 (encode_codeword data) = data"
    "rs_codeword roots (encode_codeword data)"
proof -
  let ?w = "foldl (divide_turn generator) (data @ replicate 32 0) [0..<223]"
  have w: "length ?w = 255" "\<And>p. p < 223 \<Longrightarrow> ?w ! p = 0"
    "\<And>i. i < 32 \<Longrightarrow> horner (root_exp i) ?w = horner (root_exp i) (data @ replicate 32 0)"
    using divided [OF assms order_refl] by blast+
  have e: "encode_codeword data = data @ drop 223 ?w"
    by (simp add: encode_codeword_def RS_PARITY_LEN_def RS_DATA_LEN_def Let_def del: upt_rec_numeral)
  show "length (encode_codeword data) = 255" "take 223 (encode_codeword data) = data"
    using assms w(1) by (simp_all add: e del: upt_rec_numeral)
  have m: "data @ drop 223 ?w = map2 (XOR) (data @ replicate 32 0) ?w"
    using assms w(1,2) by (intro nth_equalityI) (auto simp: nth_append simp del: upt_rec_numeral)
  show "rs_codeword roots (encode_codeword data)"
    unfolding rs_codeword_def roots_def e m using w(3) assms w(1) by (auto simp: horner_xor simp del: upt_rec_numeral)
qed

lemma syndromes_zero_iff: "list_all (\<lambda>x. x = 0) (syndromes w) \<longleftrightarrow> rs_codeword roots w"
  by (simp add: syndromes_def rs_codeword_def roots_def list_all_iff root_alpha eval_poly_horner RS_PARITY_LEN_def del: upt_rec_numeral)

lemma correct_codeword_clean: "rs_codeword roots w \<Longrightarrow> correct_codeword w = Some w"
  by (simp add: correct_codeword_def syndromes_zero_iff Let_def)

section \<open>What the decoder accepts\<close>





section \<open>Frames\<close>

lemma deinterleave_fill:
  fixes frame :: "u8 list"
  assumes "n \<le> 1020"
  defines "cws \<equiv> foldl (\<lambda>codewords i. codewords[i mod 4 := (codewords ! (i mod 4))[i div 4 := frame ! i]])
       (replicate 4 (replicate 255 (0 :: u8))) [0..<n]"
  shows "length cws = 4 \<and> (\<forall>c < 4. length (cws ! c) = 255 \<and> (\<forall>p < 255. 4 * p + c < n \<longrightarrow> cws ! c ! p = frame ! (4 * p + c)))"
  using assms(1) unfolding cws_def
proof (induction n)
  case (Suc n)
  let ?cws = "foldl (\<lambda>codewords i. codewords[i mod 4 := (codewords ! (i mod 4))[i div 4 := frame ! i]])
       (replicate 4 (replicate 255 (0 :: u8))) [0..<n]"
  have ih: "length ?cws = 4" "\<And>c. c < 4 \<Longrightarrow> length (?cws ! c) = 255"
    "\<And>c p. c < 4 \<Longrightarrow> p < 255 \<Longrightarrow> 4 * p + c < n \<Longrightarrow> ?cws ! c ! p = frame ! (4 * p + c)"
    using Suc by simp_all
  have m: "n mod 4 < 4" "n div 4 < 255" using Suc.prems by simp_all
  have here: "4 * p + c = n \<longleftrightarrow> c = n mod 4 \<and> p = n div 4" if "c < 4" for p c
    using that by auto
  show ?case
    using ih m here by (auto simp: nth_list_update less_Suc_eq)
qed simp

lemma deinterleave_props:
  "length (deinterleave frame) = 4" "c < 4 \<Longrightarrow> length (deinterleave frame ! c) = 255"
  "length frame = 1020 \<Longrightarrow> c < 4 \<Longrightarrow> p < 255 \<Longrightarrow> deinterleave frame ! c ! p = frame ! (4 * p + c)"
  using deinterleave_fill [of "min (length frame) 1020" frame]
  by (simp_all add: deinterleave_def rs_constants del: upt_rec_numeral)

lemma interleave_fill:
  "set L \<subseteq> {0..<223} \<times> {0..<4} \<Longrightarrow> q < 892 \<Longrightarrow>
   foldl (\<lambda>out (pos, cw). out[pos * 4 + cw := codewords ! cw ! pos]) (replicate 892 0) L ! q =
     (if (q div 4, q mod 4) \<in> set L then codewords ! (q mod 4) ! (q div 4) else (0 :: u8))
   \<and> length (foldl (\<lambda>out (pos, cw). out[pos * 4 + cw := codewords ! cw ! pos]) (replicate 892 0) L) = 892"
proof (induction L rule: rev_induct)
  case (snoc x L)
  obtain pos cw where x: "x = (pos, cw)" by fastforce
  have here: "pos * 4 + cw = q \<longleftrightarrow> q div 4 = pos \<and> q mod 4 = cw"
    using snoc.prems(1) x by auto
  show ?case using snoc x here by (auto simp: nth_list_update)
qed simp

lemma interleave_data_props:
  "length (interleave_data codewords) = 892"
  "q < 892 \<Longrightarrow> interleave_data codewords ! q = codewords ! (q mod 4) ! (q div 4)"
proof -
  have s: "set (List.product [0..<223] [0..<4]) = {0..<223} \<times> {0..<4 :: nat}" by (simp del: upt_rec_numeral)
  show "length (interleave_data codewords) = 892"
    using interleave_fill [of "List.product [0..<223] [0..<4]" 0 codewords] s
    by (simp add: interleave_data_def rs_constants del: upt_rec_numeral)
  show "interleave_data codewords ! q = codewords ! (q mod 4) ! (q div 4)" if "q < 892"
  proof -
    have "(q div 4, q mod 4) \<in> {0..<223} \<times> {0..<4}" using that by auto
    then show ?thesis
      using interleave_fill [of "List.product [0..<223] [0..<4]" q codewords] s that
      by (simp add: interleave_data_def rs_constants del: upt_rec_numeral)
  qed
qed

lemma decoded_parts:
  assumes "map correct_codeword (deinterleave frame) = results"
  shows "decode_interleaved frame = \<lparr>rs_data = interleave_data (map (\<lambda>r. case r of None \<Rightarrow> replicate 223 0 | Some c \<Rightarrow> take 223 c) results),
    codewords_ok = length (filter (\<lambda>r. r \<noteq> None) results), codewords_failed = length (filter (\<lambda>r. r = None) results)\<rparr>"
  using assms by (simp add: decode_interleaved_def Let_def RS_DATA_LEN_def)

lemma encoded_frame:
  assumes "length payload = 892" "encode_interleaved payload = Done frame"
  shows "length frame = 1020"
    "deinterleave frame = map (\<lambda>cw. encode_codeword (map (\<lambda>pos. payload ! (pos * 4 + cw)) [0..<223])) [0..<4]"
proof -
  let ?cw = "\<lambda>cw. encode_codeword (map (\<lambda>pos. payload ! (pos * 4 + cw)) [0..<223])"
  have f: "frame = map (\<lambda>i. map ?cw [0..<4] ! (i mod 4) ! (i div 4)) [0..<1020]"
    using assms by (simp add: encode_interleaved_def rs_constants Let_def del: upt_rec_numeral)
  show len: "length frame = 1020" unfolding f by (simp del: upt_rec_numeral)
  have cl: "length (?cw c) = 255" for c by (rule encode_codeword_props) simp
  show "deinterleave frame = map ?cw [0..<4]"
  proof (rule nth_equalityI)
    fix c assume "c < length (deinterleave frame)"
    then have c: "c < 4" by (simp add: deinterleave_props)
    show "deinterleave frame ! c = map ?cw [0..<4] ! c"
    proof (rule nth_equalityI)
      fix p assume "p < length (deinterleave frame ! c)"
      then have p: "p < 255" using c by (simp add: deinterleave_props)
      then have "4 * p + c < 1020" "(4 * p + c) mod 4 = c" "(4 * p + c) div 4 = p" using c by simp_all
      then show "deinterleave frame ! c ! p = map ?cw [0..<4] ! c ! p"
        using deinterleave_props(3) [OF len c p] c by (simp add: f del: upt_rec_numeral)
    qed (use c cl in \<open>simp add: deinterleave_props del: upt_rec_numeral\<close>)
  qed (simp add: deinterleave_props del: upt_rec_numeral)
qed

lemma decode_encoded:
  assumes "length payload = 892" "encode_interleaved payload = Done frame"
  shows "decode_interleaved frame = \<lparr>rs_data = payload, codewords_ok = 4, codewords_failed = 0\<rparr>"
proof -
  let ?part = "\<lambda>cw. map (\<lambda>pos. payload ! (pos * 4 + cw)) [0..<223]"
  have cw: "correct_codeword (encode_codeword (?part c)) = Some (encode_codeword (?part c))" for c
    by (intro correct_codeword_clean encode_codeword_props) simp
  have tk: "take 223 (encode_codeword (?part c)) = ?part c" for c by (rule encode_codeword_props) simp
  have r: "map correct_codeword (deinterleave frame) = map (\<lambda>c. Some (encode_codeword (?part c))) [0..<4]"
    unfolding encoded_frame(2) [OF assms] by (simp add: cw comp_def del: upt_rec_numeral)
  have "interleave_data (map ?part [0..<4]) = payload"
  proof (rule nth_equalityI)
    fix q assume "q < length (interleave_data (map ?part [0..<4]))"
    then have q: "q < 892" by (simp add: interleave_data_props)
    then have "q div 4 < 223" by simp
    then show "interleave_data (map ?part [0..<4]) ! q = payload ! q"
      using q by (simp add: interleave_data_props del: upt_rec_numeral)
  qed (simp add: interleave_data_props assms(1))
  then show ?thesis
    unfolding decoded_parts [OF r] by (simp add: tk comp_def del: upt_rec_numeral)
qed

section \<open>Properties\<close>

text \<open>A frame survives the channel code: every payload of 892 bytes is encoded into a frame of 1020
  bytes that decodes to the payload, with four good codewords and none failed; every other length is
  refused.\<close>

lemma rs_frame_roundtrip:
  "case encode_interleaved payload of
     Panic \<Rightarrow> length payload \<noteq> 892
   | Done frame \<Rightarrow> length frame = 1020 \<and>
       decode_interleaved frame = \<lparr>rs_data = payload, codewords_ok = 4, codewords_failed = 0\<rparr>"
proof (cases "encode_interleaved payload")
  case Panic
  then show ?thesis by (auto simp: encode_interleaved_def Let_def rs_constants split: if_splits)
next
  case (Done frame)
  then have "length payload = 892" by (auto simp: encode_interleaved_def Let_def rs_constants split: if_splits)
  then show ?thesis using Done encoded_frame(1) [of payload frame] decode_encoded [of payload frame] by simp
qed



end
