(* ===== verification/Image_Format.thy ===== *)
theory Image_Format
  imports Prelude
begin

text \<open>
  The constants of \<^verbatim>\<open>lrpt-decode/src/image_builder.rs\<close> that the decoder and the image builder share:
  which applications carry image channels, what they are called, and how wide a line is.
\<close>

definition IMAGE_APIDS :: "u16 list" where "IMAGE_APIDS = [64, 65, 66, 67, 68, 69]"
definition IMAGE_WIDTH :: nat where "IMAGE_WIDTH = 1568"

definition apid_channel_label :: "u16 \<Rightarrow> string option" where
  "apid_channel_label a =
     (if a = 64 then Some ''MSU-MR Channel 1''
      else if a = 65 then Some ''MSU-MR Channel 2''
      else if a = 66 then Some ''MSU-MR Channel 3''
      else if a = 67 then Some ''MSU-MR Channel 4''
      else if a = 68 then Some ''MSU-MR Channel 5''
      else if a = 69 then Some ''MSU-MR Channel 6''
      else None)"

lemma channel_label_iff_image: "apid_channel_label a \<noteq> None \<longleftrightarrow> a \<in> set IMAGE_APIDS"
  by (auto simp: apid_channel_label_def IMAGE_APIDS_def)

end
