(* ===== verification/Lrpt_Decoder.thy ===== *)
theory Lrpt_Decoder
  imports Image_Format Bitstream Viterbi Frame_Sync Interleaver Ccsds Reed_Solomon Messages "HOL-Library.Product_Lexorder"
begin

text \<open>
  The LRPT receiver above the demodulator, \<^verbatim>\<open>lrpt-decode/src/lib.rs\<close>: sixteen decode lanes, one per
  phase and stagger hypothesis, and the decoder that merges their frames in stream order, corrects them
  and hands their packets on. Symbols are pairs of \<open>f32\<close> bit patterns; \<open>norm_sqr\<close> of the complex number
  library is a parameter. Counters and positions are naturals. The calls into the image builder are
  recorded in order, the demodulator and the progress channel are outside the model.
\<close>

section \<open>Symbols\<close>

type_synonym complex32 = "u32 \<times> u32"

record recovered_symbol =
  symbol_value :: complex32
  alternate_value :: "complex32 option"

text \<open>Comparisons of \<open>f32\<close> bit patterns: \<open>x < 0.0\<close>, \<open>is_finite\<close>, and \<open>x > 1e-12\<close> for a finite \<open>x\<close>.\<close>

definition f32_is_nan :: "u32 \<Rightarrow> bool" where
  "f32_is_nan w \<longleftrightarrow> w AND 0x7F800000 = 0x7F800000 \<and> w AND 0x007FFFFF \<noteq> 0"

definition f32_lt_zero :: "u32 \<Rightarrow> bool" where
  "f32_lt_zero w \<longleftrightarrow> \<not> f32_is_nan w \<and> bit w 31 \<and> w AND 0x7FFFFFFF \<noteq> 0"

definition f32_is_finite :: "u32 \<Rightarrow> bool" where
  "f32_is_finite w \<longleftrightarrow> w AND 0x7F800000 \<noteq> 0x7F800000"

definition energetic :: "u32 \<Rightarrow> bool" where
  "energetic w \<longleftrightarrow> f32_is_finite w \<and> \<not> bit w 31 \<and> 0x2B8CBCCC < w"

definition hypothesis_value :: "nat \<Rightarrow> recovered_symbol \<Rightarrow> complex32" where
  "hypothesis_value hypothesis symbol =
     (if hypothesis AND 8 \<noteq> 0
      then (case alternate_value symbol of None \<Rightarrow> symbol_value symbol | Some v \<Rightarrow> v)
      else symbol_value symbol)"

definition coded_pair :: "nat \<Rightarrow> recovered_symbol \<Rightarrow> u8 list" where
  "coded_pair hypothesis symbol =
     (let value = hypothesis_value hypothesis symbol;
          first = of_bool (f32_lt_zero (fst value)); second = of_bool (f32_lt_zero (snd value));
          (first, second) = (if hypothesis AND 4 \<noteq> 0 then (second, first) else (first, second))
      in [first XOR of_bool (hypothesis AND 1 \<noteq> 0), second XOR of_bool (hypothesis AND 2 \<noteq> 0)])"

section \<open>One lane\<close>

definition FRAME_LOCK_MAX_AGE :: nat where "FRAME_LOCK_MAX_AGE = 2 * CADU_LEN_BYTES * 8"
definition VITERBI_OUTPUT_DELAY :: nat where "VITERBI_OUTPUT_DELAY = 63"

record decode_lane =
  lane_viterbi :: viterbi
  plain_framer :: frame_sync
  nrzm_framer :: frame_sync
  nrzm_previous :: "u8 option"
  lane_profile :: "meteor_profile option"
  lane_interleaver :: "deinterleaver option"
  transport_generation :: nat
  transport_bits_received :: nat
  transport_erasures :: "nat list"

definition lane_new :: decode_lane where
  "lane_new = \<lparr>lane_viterbi = viterbi_new, plain_framer = frame_sync_new, nrzm_framer = frame_sync_new,
     nrzm_previous = None, lane_profile = None, lane_interleaver = None, transport_generation = 0,
     transport_bits_received = 0, transport_erasures = []\<rparr>"

definition nrzm :: "meteor_profile \<Rightarrow> bool" where
  "nrzm p = (case p of Oqpsk72 \<Rightarrow> True | Oqpsk80Interleaved \<Rightarrow> True)"

definition oqpsk :: "meteor_profile \<Rightarrow> bool" where
  "oqpsk p = (case p of Oqpsk72 \<Rightarrow> True | Oqpsk80Interleaved \<Rightarrow> True)"

definition lane_for_profile :: "meteor_profile option \<Rightarrow> decode_lane" where
  "lane_for_profile profile =
     lane_new\<lparr>lane_profile := profile,
       lane_interleaver := (case profile of None \<Rightarrow> None
         | Some p \<Rightarrow> if interleaved p then Some deinterleaver_new else None)\<rparr>"

definition validate_cadu :: "u8 list \<Rightarrow> bool" where
  "validate_cadu cadu =
     (let result = decode_interleaved (derandomize (drop 4 cadu))
      in codewords_failed result = 0 \<and> codewords_ok result = 4)"

fun nrzm_decode :: "u8 option \<Rightarrow> u8 list \<Rightarrow> u8 option \<times> u8 list" where
  "nrzm_decode previous [] = (previous, [])"
| "nrzm_decode previous (b # bits) =
     (let (last, out) = nrzm_decode (Some b) bits
      in (last, (case previous of None \<Rightarrow> [] | Some p \<Rightarrow> [p XOR b]) @ out))"

definition push_coded_bits :: "decode_lane \<Rightarrow> u8 list \<Rightarrow> decode_lane \<times> located_frame list" where
  "push_coded_bits lane coded =
     (let (v, recovered) = viterbi_push_bits (lane_viterbi lane) coded;
          lane = lane\<lparr>lane_viterbi := v\<rparr>;
          (plain, frames) =
            (if (case lane_profile lane of None \<Rightarrow> True | Some p \<Rightarrow> \<not> nrzm p)
             then push_bits_located validate_cadu (plain_framer lane) recovered
             else (plain_framer lane, []));
          lane = lane\<lparr>plain_framer := plain\<rparr>
      in if (case lane_profile lane of None \<Rightarrow> False | Some p \<Rightarrow> \<not> nrzm p) then (lane, frames)
         else
           let (previous, bits) = nrzm_decode (nrzm_previous lane) recovered;
               (framer, nrzm_frames) = push_bits_located validate_cadu (nrzm_framer lane) bits
           in (lane\<lparr>nrzm_previous := previous, nrzm_framer := framer\<rparr>,
               frames @ map (\<lambda>f. f\<lparr>end_bit := end_bit f + 1\<rparr>) nrzm_frames))"

text \<open>One transport block: a new acquisition restarts the lane, erasures are noted at the half rate of
  the code, and a frame that covers one is dropped.\<close>

definition restart_lane :: "nat \<Rightarrow> decode_lane \<Rightarrow> decode_lane" where
  "restart_lane new_generation lane =
     lane\<lparr>transport_generation := new_generation, lane_viterbi := viterbi_new, plain_framer := frame_sync_new,
       nrzm_framer := frame_sync_new, nrzm_previous := None, transport_bits_received := 0,
       transport_erasures := []\<rparr>"

definition note_erasures :: "channel_bit list \<Rightarrow> decode_lane \<Rightarrow> decode_lane" where
  "note_erasures bits lane =
     lane\<lparr>transport_erasures := transport_erasures lane @
            map (\<lambda>index. (transport_bits_received lane + index) div 2)
              (filter (\<lambda>index. \<not> bit_valid (bits ! index)) [0..<length bits]),
          transport_bits_received := transport_bits_received lane + length bits\<rparr>"

definition covers_erasure :: "nat list \<Rightarrow> nat \<Rightarrow> bool" where
  "covers_erasure erasures frame_end =
     list_ex (\<lambda>index. frame_end - CADU_LEN_BYTES * 8 \<le> index \<and> index < frame_end) erasures"

definition push_transport_block :: "decode_lane \<Rightarrow> transport_block \<Rightarrow> decode_lane \<times> located_frame list" where
  "push_transport_block lane block =
     (let lane = (if block_generation block \<noteq> transport_generation lane
            then restart_lane (block_generation block) lane else lane);
          lane = note_erasures (block_bits block) lane;
          (lane, recovered) = push_coded_bits lane (map bit_value (block_bits block));
          kept = filter (\<lambda>f. \<not> covers_erasure (transport_erasures lane) (end_bit f)) recovered;
          frames = map (\<lambda>f. f\<lparr>end_bit := observed_symbol_end (block_first_wire_bit block)
            (end_bit f + VITERBI_OUTPUT_DELAY)\<rparr>) kept;
          oldest = transport_bits_received lane div 2 - (VITERBI_OUTPUT_DELAY + CADU_LEN_BYTES * 8)
      in (lane\<lparr>transport_erasures := dropWhile (\<lambda>index. index < oldest) (transport_erasures lane)\<rparr>, frames))"

fun push_transport_blocks :: "decode_lane \<Rightarrow> transport_block list \<Rightarrow> decode_lane \<times> located_frame list" where
  "push_transport_blocks lane [] = (lane, [])"
| "push_transport_blocks lane (block # blocks) =
     (let (lane, frames) = push_transport_block lane block; (lane, rest) = push_transport_blocks lane blocks
      in (lane, frames @ rest))"

definition push_symbols ::
    "(complex32 \<Rightarrow> u32) \<Rightarrow> decode_lane \<Rightarrow> recovered_symbol list \<Rightarrow> nat \<Rightarrow> decode_lane \<times> located_frame list" where
  "push_symbols norm_sqr lane symbols hypothesis =
     (case lane_interleaver lane of
        Some stage \<Rightarrow>
          let bits = concat (map (\<lambda>symbol. map (\<lambda>v. \<lparr>bit_value = v,
                bit_valid = energetic (norm_sqr (hypothesis_value hypothesis symbol))\<rparr>)
                (coded_pair hypothesis symbol)) symbols);
              (stage, blocks) = deinterleaver_push_bits stage bits
          in push_transport_blocks (lane\<lparr>lane_interleaver := Some stage\<rparr>) blocks
      | None \<Rightarrow> push_coded_bits lane (concat (map (coded_pair hypothesis) symbols)))"

section \<open>The decoder\<close>

text \<open>\<open>image_calls\<close> records the calls of \<open>ImageBuilder::push_packet\<close>: APID, sequence count, data.\<close>

record lrpt_decoder =
  profile :: "meteor_profile option"
  lanes :: "decode_lane list"
  selected_lane :: "nat option"
  symbols_received :: nat
  last_valid_frame_end :: "nat option"
  low_energy_symbols :: "nat list \<times> nat list"
  reassembler :: packet_reassembler
  image_calls :: "(u16 \<times> u16 \<times> u8 list) list"
  ever_locked :: bool
  rs_ok :: nat
  rs_failed :: nat
  progress_interval_symbols :: nat
  symbols_at_progress :: nat
  last_progress_lock :: "(bool \<times> bool) option"

definition progress_interval :: "nat \<Rightarrow> nat" where
  "progress_interval symbol_rate = (symbol_rate + 3) div 4"

definition decoder_new :: "nat \<Rightarrow> nat \<Rightarrow> lrpt_decoder run" where
  "decoder_new sample_rate symbol_rate =
     (if sample_rate = 0 \<or> symbol_rate = 0 then Panic
      else Done \<lparr>profile = None, lanes = replicate 16 lane_new, selected_lane = None, symbols_received = 0,
        last_valid_frame_end = None, low_energy_symbols = ([], []), reassembler = reassembler_new,
        image_calls = [], ever_locked = False, rs_ok = 0, rs_failed = 0,
        progress_interval_symbols = progress_interval symbol_rate, symbols_at_progress = 0,
        last_progress_lock = None\<rparr>)"

definition reset_stream :: "lrpt_decoder \<Rightarrow> nat \<Rightarrow> nat \<Rightarrow> lrpt_decoder run" where
  "reset_stream d sample_rate symbol_rate =
     (if sample_rate = 0 \<or> symbol_rate = 0 then Panic
      else if (case profile d of None \<Rightarrow> False | Some p \<Rightarrow> symbol_rate_hz p \<noteq> symbol_rate) then Panic
      else Done (d\<lparr>lanes := replicate 16 (lane_for_profile (profile d)), selected_lane := None,
        symbols_received := 0, last_valid_frame_end := None, low_energy_symbols := ([], []),
        reassembler := reassembler_new, progress_interval_symbols := progress_interval symbol_rate,
        symbols_at_progress := 0, last_progress_lock := None\<rparr>))"

definition for_mission :: "nat \<Rightarrow> meteor_profile \<Rightarrow> (configuration_error + lrpt_decoder) run" where
  "for_mission sample_rate p =
     (case validate_mission_sampling sample_rate p of
        Inl e \<Rightarrow> Done (Inl e)
      | Inr _ \<Rightarrow>
          (case decoder_new sample_rate (symbol_rate_hz p) of
             Panic \<Rightarrow> Panic
           | Done d \<Rightarrow>
               (case reset_stream (d\<lparr>profile := Some p\<rparr>) sample_rate (symbol_rate_hz p) of
                  Panic \<Rightarrow> Panic | Done d \<Rightarrow> Done (Inr d))))"

definition reset_mission_stream :: "lrpt_decoder \<Rightarrow> nat \<Rightarrow> (configuration_error + lrpt_decoder) run" where
  "reset_mission_stream d sample_rate =
     (case profile d of
        None \<Rightarrow> Done (Inl MissionProfileRequired)
      | Some p \<Rightarrow>
          (case validate_mission_sampling sample_rate p of
             Inl e \<Rightarrow> Done (Inl e)
           | Inr _ \<Rightarrow>
               (case reset_stream d sample_rate (symbol_rate_hz p) of
                  Panic \<Rightarrow> Panic | Done d \<Rightarrow> Done (Inr d))))"

definition start_new_product :: "lrpt_decoder \<Rightarrow> nat \<Rightarrow> meteor_profile \<Rightarrow> (configuration_error + lrpt_decoder) run" where
  "start_new_product d sample_rate p = for_mission sample_rate p"

text \<open>The packets of a frame that go to the image builder.\<close>

definition image_packets :: "space_packet list \<Rightarrow> (u16 \<times> u16 \<times> u8 list) list" where
  "image_packets packets =
     map (\<lambda>p. (apid p, sequence_count (packet_header p), packet_data p))
       (filter (\<lambda>p. apid p \<in> set IMAGE_APIDS) packets)"

definition process_cadu_frame :: "lrpt_decoder \<Rightarrow> u8 list \<Rightarrow> lrpt_decoder \<times> bool" where
  "process_cadu_frame d cadu =
     (if length cadu < 4 + INTERLEAVED_FRAME_LEN then (d, False)
      else
        let result = decode_interleaved (derandomize (take INTERLEAVED_FRAME_LEN (drop 4 cadu)));
            d = d\<lparr>rs_ok := rs_ok d + codewords_ok result, rs_failed := rs_failed d + codewords_failed result\<rparr>
        in if codewords_failed result > 0 \<or> codewords_ok result = 0 then (d, False)
           else
             let d = d\<lparr>ever_locked := True\<rparr>; payload = rs_data result in
             if length payload < MPDU_HEADER_OFFSET + MPDU_HEADER_LEN then (d, False)
             else case parse_vcdu_header payload of
               None \<Rightarrow> (d, False)
             | Some vcdu \<Rightarrow>
                 (case parse_mpdu_header (take MPDU_HEADER_LEN (drop MPDU_HEADER_OFFSET payload)) of
                    None \<Rightarrow> (d, False)
                  | Some mpdu \<Rightarrow>
                      let r = push_mpdu_payload (reassembler d) (drop (MPDU_HEADER_OFFSET + MPDU_HEADER_LEN) payload)
                            (first_header_pointer mpdu) (virtual_channel_id vcdu) (frame_counter vcdu);
                          (r, packets) = drain_completed r
                      in (d\<lparr>reassembler := r, image_calls := image_calls d @ image_packets packets\<rparr>, True)))"

text \<open>The merge of one batch: frames in stream order, those of the selected lane first among equals.\<close>

definition is_interleaved :: "lrpt_decoder \<Rightarrow> bool" where
  "is_interleaved d = (case profile d of None \<Rightarrow> False | Some p \<Rightarrow> interleaved p)"

definition low_energy_of :: "lrpt_decoder \<Rightarrow> nat \<Rightarrow> nat list" where
  "low_energy_of d hypothesis =
     (if hypothesis div 8 = 0 then fst (low_energy_symbols d) else snd (low_energy_symbols d))"

definition refused :: "lrpt_decoder \<Rightarrow> nat \<times> located_frame \<Rightarrow> bool" where
  "refused d f =
     (case f of (hypothesis, frame) \<Rightarrow>
        (\<not> is_interleaved d \<and> covers_erasure (low_energy_of d hypothesis) (end_bit frame)) \<or>
        (case last_valid_frame_end d of
           None \<Rightarrow> False
         | Some prev \<Rightarrow> end_bit frame \<le> sat_add prev (if is_interleaved d then 1 else 0)))"

definition merge_frame :: "lrpt_decoder \<Rightarrow> nat \<times> located_frame \<Rightarrow> lrpt_decoder" where
  "merge_frame d f =
     (if refused d f then d
      else let (d, valid) = process_cadu_frame d (frame_bytes (snd f)) in
        if valid then d\<lparr>last_valid_frame_end := Some (end_bit (snd f)), selected_lane := Some (fst f)\<rparr> else d)"

definition note_low_energy ::
    "(complex32 \<Rightarrow> u32) \<Rightarrow> lrpt_decoder \<Rightarrow> recovered_symbol list \<Rightarrow> nat list \<times> nat list" where
  "note_low_energy norm_sqr d symbols =
     (let positions = (\<lambda>hypothesis. map (\<lambda>offset. symbols_received d + offset)
            (filter (\<lambda>offset. \<not> energetic (norm_sqr (hypothesis_value hypothesis (symbols ! offset))))
              [0..<length symbols]))
      in (fst (low_energy_symbols d) @ positions 0, snd (low_energy_symbols d) @ positions 8))"

definition lane_results ::
    "(complex32 \<Rightarrow> u32) \<Rightarrow> decode_lane list \<Rightarrow> recovered_symbol list \<Rightarrow> (decode_lane \<times> located_frame list) list" where
  "lane_results norm_sqr ls symbols =
     map (\<lambda>(hypothesis, lane). push_symbols norm_sqr lane symbols hypothesis) (enumerate 0 ls)"

definition batch_frames ::
    "nat option \<Rightarrow> (decode_lane \<times> located_frame list) list \<Rightarrow> (nat \<times> located_frame) list" where
  "batch_frames selected results =
     sort_key (\<lambda>(lane, frame). (end_bit frame, Some lane \<noteq> selected))
       (concat (map (\<lambda>(hypothesis, result). map (\<lambda>frame. (hypothesis, frame)) (snd result)) (enumerate 0 results)))"

definition push_symbol_batch ::
    "(complex32 \<Rightarrow> u32) \<Rightarrow> lrpt_decoder \<Rightarrow> recovered_symbol list \<Rightarrow> lrpt_decoder" where
  "push_symbol_batch norm_sqr d symbols =
     (let d = d\<lparr>low_energy_symbols := note_low_energy norm_sqr d symbols\<rparr>;
          d = d\<lparr>symbols_received := symbols_received d + length symbols\<rparr>;
          results = lane_results norm_sqr (lanes d) symbols;
          d = d\<lparr>lanes := map fst results\<rparr>;
          d = foldl merge_frame d (batch_frames (selected_lane d) results);
          recovered_end = (if is_interleaved d then symbols_received d else symbols_received d - VITERBI_OUTPUT_DELAY);
          oldest = recovered_end - CADU_LEN_BYTES * 8;
          d = d\<lparr>low_energy_symbols := map_prod (dropWhile (\<lambda>p. p < oldest)) (dropWhile (\<lambda>p. p < oldest))
                 (low_energy_symbols d)\<rparr>;
          max_frame_age = (if is_interleaved d then (FRAME_LOCK_MAX_AGE * 10 + 8) div 9 else FRAME_LOCK_MAX_AGE)
      in if (case last_valid_frame_end d of None \<Rightarrow> True | Some prev \<Rightarrow> recovered_end - prev \<ge> max_frame_age)
         then d\<lparr>selected_lane := None\<rparr> else d)"

text \<open>\<open>symbols.chunks(1024)\<close>.\<close>

function push_recovered_symbols ::
    "(complex32 \<Rightarrow> u32) \<Rightarrow> lrpt_decoder \<Rightarrow> recovered_symbol list \<Rightarrow> lrpt_decoder" where
  "push_recovered_symbols norm_sqr d symbols =
     (if symbols = [] then d
      else push_recovered_symbols norm_sqr (push_symbol_batch norm_sqr d (take 1024 symbols)) (drop 1024 symbols))"
  by pat_completeness auto
termination by (relation "measure (\<lambda>(_, _, symbols). length symbols)") auto

declare push_recovered_symbols.simps [simp del]

text \<open>The progress message: the lock of the demodulator, the fill of the channel and whether it accepts
  the message come from outside; the second result tells whether one was sent.\<close>

definition maybe_send_progress :: "bool \<Rightarrow> bool \<Rightarrow> nat \<Rightarrow> bool \<Rightarrow> lrpt_decoder \<Rightarrow> lrpt_decoder \<times> bool" where
  "maybe_send_progress demod_locked is_full queued accepted d =
     (let lock = (demod_locked, selected_lane d \<noteq> None) in
      if last_progress_lock d = Some lock
        \<and> symbols_received d - symbols_at_progress d < progress_interval_symbols d then (d, False)
      else if is_full \<or> queued \<ge> 2 then (d, False)
      else if accepted
      then (d\<lparr>symbols_at_progress := symbols_received d, last_progress_lock := Some lock\<rparr>, True)
      else (d, False))"

text \<open>\<open>push_complex\<close> after the demodulator.\<close>

definition push_demodulated ::
    "(complex32 \<Rightarrow> u32) \<Rightarrow> bool \<Rightarrow> bool \<Rightarrow> nat \<Rightarrow> bool \<Rightarrow> lrpt_decoder \<Rightarrow> recovered_symbol list \<Rightarrow> lrpt_decoder" where
  "push_demodulated norm_sqr demod_locked is_full queued accepted d symbols =
     (if symbols = [] then d
      else fst (maybe_send_progress demod_locked is_full queued accepted (push_recovered_symbols norm_sqr d symbols)))"

definition result_snapshot :: "lrpt_decoder \<Rightarrow> ((u16 \<times> u16 \<times> u8 list) list \<times> nat \<times> nat) option" where
  "result_snapshot d = (if \<not> ever_locked d then None else Some (image_calls d, rs_ok d, rs_failed d))"

end
