(* ===== verification/Lrpt_Link.thy ===== *)
theory Lrpt_Link
  imports Lrpt_Decoder
begin

text \<open>
  The receiver against its transmitter. The specification is the sending side of the plain mission
  transport: packets cut into zones, zones framed as VCDUs, Reed-Solomon coded, randomised, marked,
  sent most significant bit first through the NRZ-M level coder and the convolutional coder. The
  lemmas compose the properties of the components; the properties are the link from coded bits to
  packets and the order of the frames the decoder accepts.
\<close>

section \<open>The transmitter\<close>




fun nrzm_levels :: "bool \<Rightarrow> bool list \<Rightarrow> bool list" where
  "nrzm_levels level [] = [level]"
| "nrzm_levels level (b # bits) = level # nrzm_levels (level \<noteq> b) bits"


section \<open>Bits\<close>

lemma bytes_to_bits_append [simp]: "bytes_to_bits (xs @ ys) = bytes_to_bits xs @ bytes_to_bits ys"
  by (simp add: bytes_to_bits_def)

lemma bytes_to_bits_length [simp]: "length (bytes_to_bits bytes) = 8 * length bytes"
  by (induction bytes) (simp_all add: bytes_to_bits_def)



lemma nrzm_levels_length [simp]: "length (nrzm_levels level bits) = Suc (length bits)"
  by (induction bits arbitrary: level) simp_all

section \<open>Frames\<close>








section \<open>Symbols\<close>








section \<open>Packets\<close>









lemma zone_frames_length [simp]: "length (zone_frames ps pos counter zones) = length zones"
  by (induction zones arbitrary: pos counter) simp_all


section \<open>Properties\<close>



end
