(* ===== verification/Float_Real.thy ===== *)
theory Float_Real
  imports Complex_Main Prelude
begin

text \<open>
  What the components use of \<open>f64\<close>: a value is the real it stands for, and every operation that can
  round is wrapped in a parameter \<open>fl\<close>, the rounding of a real to an \<open>f64\<close>. Not-a-number and the
  infinities do not arise in the modelled code.
\<close>

text \<open>\<open>f64::round\<close>: half away from zero.\<close>

definition round_half_away :: "real \<Rightarrow> real" where
  "round_half_away x = (if x < 0 then - of_int \<lfloor>- x + 1/2\<rfloor> else of_int \<lfloor>x + 1/2\<rfloor>)"

lemma round_half_away_nonneg: "0 \<le> x \<Longrightarrow> 0 \<le> round_half_away x"
  by (simp add: round_half_away_def)

text \<open>\<open>x.round().clamp(0.0, 255.0) as u8\<close>.\<close>

definition clamp_u8 :: "real \<Rightarrow> u8" where
  "clamp_u8 x = word_of_int \<lfloor>max 0 (min 255 (round_half_away x))\<rfloor>"

text \<open>\<open>i64::rem_euclid\<close> and \<open>div_euclid\<close> by a positive number are \<open>mod\<close> and \<open>div\<close> of HOL.\<close>

end
