(* ===== verification/Segment_Decoder.thy ===== *)
theory Segment_Decoder
  imports Float_Real
begin

text \<open>
  The decoder of one MSU-MR image segment, from \<^verbatim>\<open>lrpt-decode/src/image_builder.rs\<close>: a JPEG scan of
  fourteen blocks with the standard Huffman tables. \<open>BitReader\<close>, \<open>huffman_symbol\<close>, \<open>receive_extend\<close> and
  the block loop of \<open>decode_segment\<close> are exact; the quantiser and the inverse cosine transform compute
  in \<open>f64\<close>, whose rounding, cosine and constants are the parameter \<open>f64_ops\<close>. Codes and values of at
  most 17 bits are naturals, coefficients integers; no \<open>i32\<close> here can overflow. The lemmas show that
  the entropy decoder inverts the entropy coder of the format for all coefficients it can express,
  and that an accepted segment is complete.
\<close>

section \<open>The code\<close>

definition BLOCKS_PER_SEGMENT :: nat where "BLOCKS_PER_SEGMENT = 14"
definition BLOCK_WIDTH :: nat where "BLOCK_WIDTH = 8"
definition SEGMENT_WIDTH :: nat where "SEGMENT_WIDTH = BLOCKS_PER_SEGMENT * BLOCK_WIDTH"
definition SEGMENT_HEIGHT :: nat where "SEGMENT_HEIGHT = 8"

record DecodedSegment =
  mcu_number :: u8
  pixels :: "u8 list"

definition QTABLE :: "real list" where
  "QTABLE =
     [16, 11, 10, 16, 24, 40, 51, 61, 12, 12, 14, 19, 26, 58, 60, 55, 14, 13, 16,
      24, 40, 57, 69, 56, 14, 17, 22, 29, 51, 87, 80, 62, 18, 22, 37, 56, 68, 109,
      103, 77, 24, 35, 55, 64, 81, 104, 113, 92, 49, 64, 78, 87, 103, 121, 120,
      101, 72, 92, 95, 98, 112, 100, 103, 99]"

definition ZIGZAG :: "nat list" where
  "ZIGZAG =
     [0, 1, 5, 6, 14, 15, 27, 28, 2, 4, 7, 13, 16, 26, 29, 42, 3, 8, 12, 17, 25, 30, 41, 43, 9, 11,
      18, 24, 31, 40, 44, 53, 10, 19, 23, 32, 39, 45, 52, 54, 20, 22, 33, 38, 46, 51, 55, 60, 21, 34,
      37, 47, 50, 56, 59, 61, 35, 36, 48, 49, 57, 58, 62, 63]"

definition DC_COUNTS :: "nat list" where
  "DC_COUNTS = [0, 1, 5, 1, 1, 1, 1, 1, 1, 0, 0, 0, 0, 0, 0, 0]"

definition AC_COUNTS :: "nat list" where
  "AC_COUNTS = [0, 2, 1, 3, 3, 2, 4, 3, 5, 5, 4, 4, 0, 0, 1, 125]"

definition AC_VALUES :: "u8 list" where
  "AC_VALUES =
     [0x01, 0x02, 0x03, 0x00, 0x04, 0x11, 0x05, 0x12, 0x21, 0x31, 0x41, 0x06, 0x13, 0x51, 0x61, 0x07,
      0x22, 0x71, 0x14, 0x32, 0x81, 0x91, 0xa1, 0x08, 0x23, 0x42, 0xb1, 0xc1, 0x15, 0x52, 0xd1, 0xf0,
      0x24, 0x33, 0x62, 0x72, 0x82, 0x09, 0x0a, 0x16, 0x17, 0x18, 0x19, 0x1a, 0x25, 0x26, 0x27, 0x28,
      0x29, 0x2a, 0x34, 0x35, 0x36, 0x37, 0x38, 0x39, 0x3a, 0x43, 0x44, 0x45, 0x46, 0x47, 0x48, 0x49,
      0x4a, 0x53, 0x54, 0x55, 0x56, 0x57, 0x58, 0x59, 0x5a, 0x63, 0x64, 0x65, 0x66, 0x67, 0x68, 0x69,
      0x6a, 0x73, 0x74, 0x75, 0x76, 0x77, 0x78, 0x79, 0x7a, 0x83, 0x84, 0x85, 0x86, 0x87, 0x88, 0x89,
      0x8a, 0x92, 0x93, 0x94, 0x95, 0x96, 0x97, 0x98, 0x99, 0x9a, 0xa2, 0xa3, 0xa4, 0xa5, 0xa6, 0xa7,
      0xa8, 0xa9, 0xaa, 0xb2, 0xb3, 0xb4, 0xb5, 0xb6, 0xb7, 0xb8, 0xb9, 0xba, 0xc2, 0xc3, 0xc4, 0xc5,
      0xc6, 0xc7, 0xc8, 0xc9, 0xca, 0xd2, 0xd3, 0xd4, 0xd5, 0xd6, 0xd7, 0xd8, 0xd9, 0xda, 0xe1, 0xe2,
      0xe3, 0xe4, 0xe5, 0xe6, 0xe7, 0xe8, 0xe9, 0xea, 0xf1, 0xf2, 0xf3, 0xf4, 0xf5, 0xf6, 0xf7, 0xf8,
      0xf9, 0xfa]"

definition DC_VALUES :: "u8 list" where
  "DC_VALUES = map of_nat [0..<12]"

record bit_reader =
  reader_bytes :: "u8 list"
  reader_bit :: nat

definition reader_new :: "u8 list \<Rightarrow> bit_reader" where
  "reader_new bytes = \<lparr>reader_bytes = bytes, reader_bit = 0\<rparr>"

text \<open>The loop of \<open>read\<close>, after its check that enough bits are left.\<close>

fun read_loop :: "nat \<Rightarrow> nat \<Rightarrow> bit_reader \<Rightarrow> nat \<times> bit_reader" where
  "read_loop 0 v r = (v, r)"
| "read_loop (Suc count) v r =
     (let b = drop_bit (7 - reader_bit r mod 8) (reader_bytes r ! (reader_bit r div 8)) AND 1
      in read_loop count (2 * v + unat b) (r\<lparr>reader_bit := reader_bit r + 1\<rparr>))"

definition read :: "bit_reader \<Rightarrow> nat \<Rightarrow> (nat \<times> bit_reader) option" where
  "read r count =
     (if reader_bit r + count > length (reader_bytes r) * 8 then None else Some (read_loop count 0 r))"

fun huffman_loop ::
  "nat list \<Rightarrow> u8 list \<Rightarrow> nat \<Rightarrow> nat \<Rightarrow> nat \<Rightarrow> bit_reader \<Rightarrow> (u8 \<times> bit_reader) option" where
  "huffman_loop [] values code first offset r = None"
| "huffman_loop (count # counts) values code first offset r =
     (case read r 1 of
        None \<Rightarrow> None
      | Some (b, r) \<Rightarrow>
          let code = 2 * code + b in
          if code \<ge> first \<and> code < first + count then
            let i = offset + (code - first) in
            if i < length values then Some (values ! i, r) else None
          else huffman_loop counts values code (2 * (first + count)) (offset + count) r)"

definition huffman_symbol :: "bit_reader \<Rightarrow> nat list \<Rightarrow> u8 list \<Rightarrow> (u8 \<times> bit_reader) option" where
  "huffman_symbol r counts values = huffman_loop counts values 0 0 0 r"

definition receive_extend :: "bit_reader \<Rightarrow> nat \<Rightarrow> (int \<times> bit_reader) option" where
  "receive_extend r n =
     (if n = 0 then Some (0, r)
      else case read r n of
        None \<Rightarrow> None
      | Some (v, r) \<Rightarrow>
          let v = int v; threshold = 2 ^ (n - 1)
          in Some (if v < threshold then v - (2 ^ n - 1) else v, r))"

text \<open>The \<open>while index < 64\<close> loop over the coefficients of a block.\<close>

function ac_loop :: "int list \<Rightarrow> nat \<Rightarrow> bit_reader \<Rightarrow> (int list \<times> bit_reader) option" where
  "ac_loop zigzag i r =
     (if i < 64 then
        case huffman_symbol r AC_COUNTS AC_VALUES of
          None \<Rightarrow> None
        | Some (symbol, r) \<Rightarrow>
            if symbol = 0 then Some (zigzag, r)
            else if symbol = 0xF0 then ac_loop zigzag (i + 16) r
            else
              let i = i + unat (drop_bit 4 symbol) in
              if i \<ge> 64 then None
              else case receive_extend r (unat (symbol AND 0x0F)) of
                None \<Rightarrow> None
              | Some (v, r) \<Rightarrow> ac_loop (zigzag[i := v]) (i + 1) r
      else Some (zigzag, r))"
  by pat_completeness auto
termination
  by (relation "measure (\<lambda>(zigzag, i, r). 64 - i)") auto

declare ac_loop.simps [simp del]

definition decode_block :: "int \<Rightarrow> bit_reader \<Rightarrow> (int list \<times> int \<times> bit_reader) option" where
  "decode_block last_dc r =
     (case huffman_symbol r DC_COUNTS DC_VALUES of
        None \<Rightarrow> None
      | Some (dc_size, r) \<Rightarrow>
          (case receive_extend r (unat dc_size) of
             None \<Rightarrow> None
           | Some (diff, r) \<Rightarrow>
               let last_dc = last_dc + diff in
               case ac_loop ((replicate 64 0)[0 := last_dc]) 1 r of
                 None \<Rightarrow> None
               | Some (zigzag, r) \<Rightarrow> Some (zigzag, last_dc, r)))"

record f64_ops =
  fl :: "real \<Rightarrow> real"
  f_cos :: "real \<Rightarrow> real"
  f_pi :: real
  f_frac_1_sqrt_2 :: real

definition quantization_table :: "f64_ops \<Rightarrow> u8 \<Rightarrow> real list" where
  "quantization_table ops quality =
     (let q = real (unat quality);
          scale = (if 20 \<le> q \<and> q < 50 then fl ops (5000 / q) else 200 - 2 * q)
      in map (\<lambda>i. max 1 (of_int \<lfloor>fl ops (fl ops (fl ops (scale / 100) * QTABLE ! i) + 0.5)\<rfloor>)) [0..<64])"

definition idct_term :: "f64_ops \<Rightarrow> real list \<Rightarrow> nat \<Rightarrow> nat \<Rightarrow> nat \<Rightarrow> nat \<Rightarrow> real" where
  "idct_term ops coefficients x y v u =
     (let cu = (if u = 0 then f_frac_1_sqrt_2 ops else 1);
          cv = (if v = 0 then f_frac_1_sqrt_2 ops else 1);
          wave = (\<lambda>p k. f_cos ops (fl ops (fl ops (real ((2 * p + 1) * k) * f_pi ops) / 16)))
      in fl ops (fl ops (fl ops (fl ops (cu * cv) * coefficients ! (v * 8 + u)) * wave x u) * wave y v))"

definition idct_pixel :: "f64_ops \<Rightarrow> real list \<Rightarrow> nat \<Rightarrow> nat \<Rightarrow> u8" where
  "idct_pixel ops coefficients y x =
     (let total = foldl (\<lambda>acc (v, u). fl ops (acc + idct_term ops coefficients x y v u)) 0
            (List.product [0..<8] [0..<8])
      in clamp_u8 (fl ops (fl ops (total / 4) + 128)))"

definition idct :: "f64_ops \<Rightarrow> real list \<Rightarrow> u8 list" where
  "idct ops coefficients =
     map (\<lambda>(y, x). idct_pixel ops coefficients y x) (List.product [0..<8] [0..<8])"

text \<open>Dequantisation in natural order, and the copy of the rows of a block into the segment.\<close>

definition dequantize :: "f64_ops \<Rightarrow> real list \<Rightarrow> int list \<Rightarrow> real list" where
  "dequantize ops qtable zigzag = map (\<lambda>i. fl ops (of_int (zigzag ! (ZIGZAG ! i)) * qtable ! i)) [0..<64]"

definition copy_from_slice :: "nat \<Rightarrow> 'a list \<Rightarrow> 'a list \<Rightarrow> 'a list" where
  "copy_from_slice dst src xs = take dst xs @ src @ drop (dst + length src) xs"

definition copy_row :: "nat \<Rightarrow> u8 list \<Rightarrow> u8 list \<Rightarrow> nat \<Rightarrow> u8 list" where
  "copy_row block_number block px row =
     copy_from_slice (row * SEGMENT_WIDTH + block_number * BLOCK_WIDTH) (take 8 (drop (row * 8) block)) px"

fun decode_blocks :: "f64_ops \<Rightarrow> real list \<Rightarrow> nat list \<Rightarrow> int \<Rightarrow> bit_reader \<Rightarrow> u8 list \<Rightarrow> u8 list option" where
  "decode_blocks ops qtable [] last_dc r px = Some px"
| "decode_blocks ops qtable (block_number # blocks) last_dc r px =
     (case decode_block last_dc r of
        None \<Rightarrow> None
      | Some (zigzag, last_dc, r) \<Rightarrow>
          let block = idct ops (dequantize ops qtable zigzag)
          in decode_blocks ops qtable blocks last_dc r (foldl (copy_row block_number block) px [0..<8]))"

definition segment_header_ok :: "u8 list \<Rightarrow> bool" where
  "segment_header_ok payload =
     (\<not> (length payload \<le> 14 \<or> payload ! 9 \<noteq> 0 \<or> payload ! 10 \<noteq> 0 \<or>
         (push_bit 8 (ucast (payload ! 11)) OR ucast (payload ! 12) :: u16) \<noteq> 0xFFF0))"

definition decode_segment :: "f64_ops \<Rightarrow> u8 list \<Rightarrow> DecodedSegment option" where
  "decode_segment ops payload =
     (if \<not> segment_header_ok payload then None
      else
        let r = reader_new (drop 14 payload);
            qtable = quantization_table ops (payload ! 13);
            px = replicate (SEGMENT_WIDTH * SEGMENT_HEIGHT) 0
        in case decode_blocks ops qtable [0..<BLOCKS_PER_SEGMENT] 0 r px of
             None \<Rightarrow> None
           | Some px \<Rightarrow> Some \<lparr>mcu_number = payload ! 8, pixels = px\<rparr>)"

section \<open>The unread bits\<close>

definition bit_at :: "u8 list \<Rightarrow> nat \<Rightarrow> nat" where
  "bit_at bytes k = unat (drop_bit (7 - k mod 8) (bytes ! (k div 8)) AND 1)"

definition unread :: "bit_reader \<Rightarrow> nat list" where
  "unread r = map (bit_at (reader_bytes r)) [reader_bit r ..< length (reader_bytes r) * 8]"

definition skip :: "bit_reader \<Rightarrow> nat \<Rightarrow> bit_reader" where
  "skip r n = r\<lparr>reader_bit := reader_bit r + n\<rparr>"

definition number :: "nat list \<Rightarrow> nat" where
  "number bs = foldl (\<lambda>v b. 2 * v + b) 0 bs"

fun be_bits :: "nat \<Rightarrow> nat \<Rightarrow> nat list" where
  "be_bits 0 n = []"
| "be_bits (Suc k) n = (n div 2 ^ k) mod 2 # be_bits k n"

lemma skip_skip [simp]: "skip (skip r a) b = skip r (a + b)"
  by (simp add: skip_def add.assoc)

lemma skip_0 [simp]: "skip r 0 = r"
  by (simp add: skip_def)

lemma unread_skip: "unread r = bs @ rest \<Longrightarrow> unread (skip r (length bs)) = rest"
proof -
  assume "unread r = bs @ rest"
  then have "drop (length bs) (unread r) = rest" by simp
  then show ?thesis by (simp add: unread_def skip_def drop_map add.commute)
qed

lemma unread_bound: "unread r = bs @ rest \<Longrightarrow> bs \<noteq> [] \<Longrightarrow> reader_bit r + length bs \<le> length (reader_bytes r) * 8"
proof -
  assume u: "unread r = bs @ rest" and "bs \<noteq> []"
  then have "length (unread r) = length bs + length rest" and "0 < length bs" by simp_all
  then show ?thesis unfolding unread_def length_map length_upt by linarith
qed

lemma unread_ConsD:
  assumes "unread r = b # rest"
  shows "unat (drop_bit (7 - reader_bit r mod 8) (reader_bytes r ! (reader_bit r div 8)) AND 1) = b"
    and "unread (skip r 1) = rest"
proof -
  have "reader_bit r < length (reader_bytes r) * 8" using unread_bound [of r "[b]" rest] assms by simp
  then show "unat (drop_bit (7 - reader_bit r mod 8) (reader_bytes r ! (reader_bit r div 8)) AND 1) = b"
    using assms by (simp add: unread_def bit_at_def upt_conv_Cons)
  show "unread (skip r 1) = rest" using unread_skip [of r "[b]" rest] assms by simp
qed

lemma read_loop_unread:
  "unread r = bs @ rest \<Longrightarrow>
     read_loop (length bs) v r = (foldl (\<lambda>v b. 2 * v + b) v bs, skip r (length bs))"
proof (induction bs arbitrary: r v)
  case (Cons b bs)
  note u = unread_ConsD [of r b "bs @ rest"]
  have "read_loop (length (b # bs)) v r = read_loop (length bs) (2 * v + b) (skip r 1)"
    using u(1) Cons.prems by (simp add: Let_def skip_def)
  then show ?case using Cons.IH [of "skip r 1"] u(2) Cons.prems by simp
qed simp

lemma read_unread:
  assumes "unread r = bs @ rest" "bs \<noteq> []"
  shows "read r (length bs) = Some (number bs, skip r (length bs))"
  using unread_bound [OF assms] read_loop_unread [OF assms(1)] by (simp add: read_def number_def)

lemma read_1_unread: "unread r = b # rest \<Longrightarrow> read r (Suc 0) = Some (b, skip r 1)"
  using read_unread [of r "[b]" rest] by (simp add: number_def)

lemma length_be_bits [simp]: "length (be_bits k n) = k"
  by (induction k) simp_all

lemma foldl_be_bits: "foldl (\<lambda>v b. 2 * v + b) v (be_bits k n) = v * 2 ^ k + n mod 2 ^ k"
proof (induction k arbitrary: v)
  case (Suc k)
  have "n mod 2 ^ Suc k = 2 ^ k * (n div 2 ^ k mod 2) + n mod 2 ^ k"
    by (simp add: mod_mult2_eq mult.commute [of 2])
  then show ?case using Suc.IH [of "2 * v + n div 2 ^ k mod 2"] by (simp add: algebra_simps)
qed simp

lemma number_be_bits: "n < 2 ^ k \<Longrightarrow> number (be_bits k n) = n"
  by (simp add: number_def foldl_be_bits)

section \<open>Canonical Huffman codes\<close>

text \<open>The code of the \<open>i\<close>-th symbol of a canonical code with \<open>counts\<close> codes of each length: its
  number and its length, from the first code of the shortest length on.\<close>

fun codeword :: "nat list \<Rightarrow> nat \<Rightarrow> nat \<Rightarrow> (nat \<times> nat) option" where
  "codeword [] first i = None"
| "codeword (count # counts) first i =
     (if i < count then Some (first + i, 1)
      else map_option (\<lambda>(n, k). (n, Suc k)) (codeword counts (2 * (first + count)) (i - count)))"

definition position :: "u8 list \<Rightarrow> u8 \<Rightarrow> nat" where
  "position values s = length (takeWhile (\<lambda>v. v \<noteq> s) values)"

definition huffman_code :: "nat list \<Rightarrow> u8 list \<Rightarrow> u8 \<Rightarrow> nat list" where
  "huffman_code counts values s =
     (case codeword counts 0 (position values s) of Some (n, k) \<Rightarrow> be_bits k n | None \<Rightarrow> [])"

text \<open>The codes of every length fit into that length.\<close>

fun code_fits :: "nat list \<Rightarrow> nat \<Rightarrow> nat \<Rightarrow> bool" where
  "code_fits [] first len \<longleftrightarrow> True"
| "code_fits (count # counts) first len \<longleftrightarrow>
     first + count \<le> 2 ^ Suc len \<and> code_fits counts (2 * (first + count)) (Suc len)"

definition complete_code :: "nat list \<Rightarrow> nat \<Rightarrow> bool" where
  "complete_code counts n \<longleftrightarrow> sum_list counts = n \<and> code_fits counts 0 0"

lemma codeword_fits:
  "code_fits counts first len \<Longrightarrow> i < sum_list counts \<Longrightarrow>
     \<exists>n k. codeword counts first i = Some (n, k) \<and> n < 2 ^ (len + k)"
proof (induction counts arbitrary: first len i)
  case (Cons count counts)
  show ?case
  proof (cases "i < count")
    case False
    then have "i - count < sum_list counts" using Cons.prems by simp
    then obtain n k where "codeword counts (2 * (first + count)) (i - count) = Some (n, k)" "n < 2 ^ (Suc len + k)"
      using Cons.IH Cons.prems(1) by fastforce
    then show ?thesis using False by (intro exI [of _ n] exI [of _ "Suc k"]) simp
  qed (use Cons.prems in auto)
qed simp

lemma codeword_first:
  "codeword counts first i = Some (n, k) \<Longrightarrow> 0 < k \<and> first * 2 ^ (k - 1) \<le> n"
proof (induction counts arbitrary: first i n k)
  case (Cons count counts)
  show ?case
  proof (cases "i < count")
    case False
    then obtain k' where c: "codeword counts (2 * (first + count)) (i - count) = Some (n, k')" and k: "k = Suc k'"
      using Cons.prems by auto
    have "0 < k'" and le: "2 * (first + count) * 2 ^ (k' - 1) \<le> n" using Cons.IH [OF c] by auto
    then obtain j where j: "k' = Suc j" by (cases k') auto
    have "first * 2 ^ k' \<le> 2 * (first + count) * 2 ^ (k' - 1)" by (simp add: j algebra_simps)
    then show ?thesis using le by (simp add: k)
  qed (use Cons.prems in auto)
qed simp

lemma huffman_loop_codeword:
  assumes "codeword counts first i = Some (n, k)" "unread r = be_bits k n @ rest"
    and "offset + i < length values" "code = n div 2 ^ k"
  shows "huffman_loop counts values code first offset r = Some (values ! (offset + i), skip r k)"
  using assms
proof (induction counts arbitrary: first i k r offset code)
  case (Cons count counts)
  obtain j where j: "k = Suc j" using codeword_first [OF Cons.prems(1)] by (cases k) auto
  have rd: "read r (Suc 0) = Some (n div 2 ^ j mod 2, skip r 1)"
    and u: "unread (skip r 1) = be_bits j n @ rest"
    using Cons.prems(2) read_1_unread unread_ConsD(2) by (simp_all add: j)
  have code: "2 * code + n div 2 ^ j mod 2 = n div 2 ^ j"
    by (simp add: Cons.prems(4) j div_mult2_eq power_Suc2 del: power_Suc)
  show ?case
  proof (cases "i < count")
    case True
    then have "n = first + i" and "j = 0" using Cons.prems(1) j by auto
    then show ?thesis using True Cons.prems(3) j rd code by (simp add: Let_def)
  next
    case False
    have c: "codeword counts (2 * (first + count)) (i - count) = Some (n, j)"
      using Cons.prems(1) False j by auto
    obtain j' where j': "j = Suc j'" using codeword_first [OF c] by (cases j) auto
    have "(first + count) * 2 ^ j \<le> n" using codeword_first [OF c] by (simp add: j' algebra_simps)
    then have "first + count \<le> n div 2 ^ j" by (simp add: less_eq_div_iff_mult_less_eq)
    then have "huffman_loop (count # counts) values code first offset r =
        huffman_loop counts values (n div 2 ^ j) (2 * (first + count)) (offset + count) (skip r 1)"
      using rd code by (simp add: Let_def)
    then show ?thesis
      using Cons.IH [OF c u, of "offset + count"] Cons.prems(3) False by (simp add: j)
  qed
qed simp

lemma nth_position: "s \<in> set vs \<Longrightarrow> position vs s < length vs \<and> vs ! position vs s = s"
  unfolding position_def by (induction vs) auto

lemma huffman_symbol_code:
  assumes "complete_code counts (length values)" "s \<in> set values"
    and "unread r = huffman_code counts values s @ rest"
  shows "huffman_symbol r counts values = Some (s, skip r (length (huffman_code counts values s)))"
proof -
  let ?i = "position values s"
  have i: "?i < length values" "values ! ?i = s" using nth_position [OF assms(2)] by auto
  then obtain n k where c: "codeword counts 0 ?i = Some (n, k)" "n < 2 ^ k"
    using codeword_fits [of counts 0 0 ?i] assms(1) by (auto simp: complete_code_def)
  then have h: "huffman_code counts values s = be_bits k n" by (simp add: huffman_code_def)
  show ?thesis
    using huffman_loop_codeword [OF c(1), of r rest 0 "values" 0] assms(3) i c(2)
    by (simp add: huffman_symbol_def h)
qed

section \<open>The entropy coder of the format\<close>

fun bit_len :: "nat \<Rightarrow> nat" where
  "bit_len n = (if n = 0 then 0 else Suc (bit_len (n div 2)))"

declare bit_len.simps [simp del]

definition category :: "int \<Rightarrow> nat" where
  "category v = bit_len (nat \<bar>v\<bar>)"

definition magnitude_bits :: "int \<Rightarrow> nat list" where
  "magnitude_bits v = be_bits (category v) (nat (if 0 \<le> v then v else v + 2 ^ category v - 1))"

definition run_symbol :: "nat \<Rightarrow> int \<Rightarrow> u8" where
  "run_symbol run v = of_nat (16 * run + category v)"

definition ac_code :: "u8 \<Rightarrow> nat list" where
  "ac_code = huffman_code AC_COUNTS AC_VALUES"

definition dc_code :: "u8 \<Rightarrow> nat list" where
  "dc_code = huffman_code DC_COUNTS DC_VALUES"

fun encode_ac :: "nat \<Rightarrow> int list \<Rightarrow> nat list" where
  "encode_ac run [] = (if run = 0 then [] else ac_code 0)"
| "encode_ac run (v # vs) =
     (if v = 0 then encode_ac (run + 1) vs
      else concat (replicate (run div 16) (ac_code 0xF0)) @ ac_code (run_symbol (run mod 16) v) @
        magnitude_bits v @ encode_ac 0 vs)"

definition encode_block :: "int \<Rightarrow> int list \<Rightarrow> nat list" where
  "encode_block last_dc zigzag =
     (let diff = hd zigzag - last_dc
      in dc_code (of_nat (category diff)) @ magnitude_bits diff @ encode_ac 0 (List.tl zigzag))"

fun encode_blocks :: "int \<Rightarrow> int list list \<Rightarrow> nat list" where
  "encode_blocks last_dc [] = []"
| "encode_blocks last_dc (zigzag # blocks) = encode_block last_dc zigzag @ encode_blocks (hd zigzag) blocks"

text \<open>What the tables can express: differences of 11 bits and coefficients of 10.\<close>

fun encodable :: "int \<Rightarrow> int list list \<Rightarrow> bool" where
  "encodable last_dc [] = True"
| "encodable last_dc (zigzag # blocks) =
     (length zigzag = 64 \<and> \<bar>hd zigzag - last_dc\<bar> < 2 ^ 11 \<and> list_all (\<lambda>v. \<bar>v\<bar> < 2 ^ 10) (List.tl zigzag) \<and>
      encodable (hd zigzag) blocks)"

section \<open>The decoder inverts the coder\<close>

lemma dc_table [simp]: "complete_code DC_COUNTS (length DC_VALUES)"
  unfolding complete_code_def DC_COUNTS_def DC_VALUES_def by simp

lemma ac_table [simp]: "complete_code AC_COUNTS (length AC_VALUES)"
  unfolding complete_code_def AC_COUNTS_def AC_VALUES_def by simp

lemma bit_len_rec: "bit_len 0 = 0" "0 < n \<Longrightarrow> bit_len n = Suc (bit_len (n div 2))"
  by (subst bit_len.simps, simp)+

lemma bit_len_bounds: "0 < n \<Longrightarrow> 0 < bit_len n \<and> 2 ^ (bit_len n - 1) \<le> n \<and> n < 2 ^ bit_len n"
proof (induction n rule: bit_len.induct)
  case (1 n)
  show ?case
  proof (cases "n div 2 = 0")
    case True
    then have "n = 1" using 1 by simp
    then show ?thesis by (simp add: bit_len.simps)
  next
    case False
    then obtain j where j: "bit_len (n div 2) = Suc j" "2 ^ j \<le> n div 2" "n div 2 < 2 ^ Suc j"
      using 1 by (cases "bit_len (n div 2)") auto
    have "bit_len n = Suc (Suc j)" using 1 j(1) by (subst bit_len.simps) simp
    moreover have "2 * (n div 2) \<le> n" "n < 2 * (n div 2 + 1)" by presburger+
    ultimately show ?thesis using j(2,3) by simp
  qed
qed

lemma bit_len_le: "n < 2 ^ k \<Longrightarrow> bit_len n \<le> k"
proof (cases "n = 0")
  case False
  assume n: "n < 2 ^ k"
  have "2 ^ (bit_len n - 1) < (2::nat) ^ k" using bit_len_bounds [of n] False n by linarith
  then have "bit_len n - 1 < k" by (rule power_less_imp_less_exp [rotated]) simp
  then show ?thesis by simp
qed (simp add: bit_len.simps)

lemma category_0 [simp]: "category v = 0 \<longleftrightarrow> v = 0" "category 0 = 0"
proof -
  show *: "category 0 = 0" by (simp add: category_def bit_len.simps)
  show "category v = 0 \<longleftrightarrow> v = 0"
    using bit_len_bounds [of "nat \<bar>v\<bar>"] * by (cases "v = 0") (auto simp: category_def simp del: zero_less_nat_eq)
qed

lemma category_le: "\<bar>v\<bar> < 2 ^ k \<Longrightarrow> category v \<le> k"
  unfolding category_def by (rule bit_len_le) (simp add: nat_less_iff)

lemma category_bounds: "v \<noteq> 0 \<Longrightarrow> 2 ^ (category v - 1) \<le> \<bar>v\<bar> \<and> \<bar>v\<bar> < 2 ^ category v"
proof -
  assume "v \<noteq> 0"
  then have b: "2 ^ (category v - 1) \<le> nat \<bar>v\<bar>" "nat \<bar>v\<bar> < 2 ^ category v"
    using bit_len_bounds [of "nat \<bar>v\<bar>"] by (auto simp: category_def)
  have "int (2 ^ (category v - 1)) \<le> int (nat \<bar>v\<bar>)" using b(1) by (simp only: of_nat_le_iff)
  moreover have "int (nat \<bar>v\<bar>) < int (2 ^ category v)" using b(2) by (simp only: of_nat_less_iff)
  ultimately show ?thesis by simp
qed

lemma length_magnitude_bits [simp]: "length (magnitude_bits v) = category v"
  by (simp add: magnitude_bits_def)

lemma receive_extend_magnitude:
  assumes "unread r = magnitude_bits v @ rest"
  shows "receive_extend r (category v) = Some (v, skip r (category v))"
proof (cases "v = 0")
  case True
  then show ?thesis by (simp add: receive_extend_def)
next
  case False
  define k where "k = category v"
  define m where "m = (if 0 \<le> v then v else v + 2 ^ k - 1)"
  have k: "0 < k" using False by (simp add: k_def flip: neq0_conv)
  have b: "2 ^ (k - 1) \<le> \<bar>v\<bar>" "\<bar>v\<bar> < 2 ^ k" using category_bounds [OF False] by (simp_all add: k_def)
  have p: "(2::int) ^ k = 2 * 2 ^ (k - 1)" using k by (cases k) simp_all
  have m: "0 \<le> m" "m < 2 ^ k" using b p by (auto simp: m_def)
  have mb: "magnitude_bits v = be_bits k (nat m)" by (simp add: magnitude_bits_def m_def k_def)
  have "nat m < 2 ^ k" using m by (simp add: nat_less_iff)
  moreover have "be_bits k (nat m) \<noteq> []" using k by (cases k) auto
  ultimately have "read r k = Some (nat m, skip r k)"
    using read_unread [of r "be_bits k (nat m)" rest] assms by (simp add: mb number_be_bits)
  moreover have "(if m < 2 ^ (k - 1) then m - (2 ^ k - 1) else m) = v" using b p by (auto simp: m_def)
  ultimately show ?thesis using k m by (simp add: receive_extend_def k_def [symmetric])
qed

lemma run_symbols_table:
  "\<forall>run \<in> set [0..<16]. \<forall>k \<in> set [1..<11].
     (run, k) \<in> set (map (\<lambda>s. (unat s div 16, unat s mod 16)) AC_VALUES)"
proof -
  have ball_eq: "xs = ys \<Longrightarrow> \<forall>a \<in> A. \<forall>b \<in> B. (a, b) \<in> set ys \<Longrightarrow> \<forall>a \<in> A. \<forall>b \<in> B. (a, b) \<in> set xs"
    for xs ys :: "(nat \<times> nat) list" and A B
    by simp
  show ?thesis by (rule ball_eq, simp add: AC_VALUES_def, code_simp)
qed

lemma unat_eqD: "unat w = n \<Longrightarrow> w = of_nat n" for w :: "'a::len word"
  by auto

lemma run_symbol_fields:
  assumes "run < 16" "v \<noteq> 0" "\<bar>v\<bar> < 2 ^ 10"
  shows "run_symbol run v \<in> set AC_VALUES" and "drop_bit 4 (run_symbol run v) = of_nat run"
    and "run_symbol run v AND 0x0F = of_nat (category v)"
    and "run_symbol run v \<noteq> 0" and "run_symbol run v \<noteq> 0xF0"
proof -
  have k: "0 < category v" "category v < 11"
    using assms category_le [of v 10] by (simp_all flip: neq0_conv)
  have u: "unat (run_symbol run v) = 16 * run + category v"
    using assms(1) k by (simp add: run_symbol_def unat_of_nat del: of_nat_add of_nat_mult)
  obtain s where s: "s \<in> set AC_VALUES" "unat s div 16 = run" "unat s mod 16 = category v"
  proof -
    have "(run, category v) \<in> set (map (\<lambda>s. (unat s div 16, unat s mod 16)) AC_VALUES)"
      using run_symbols_table assms(1) k by simp
    then show thesis by (auto intro: that simp del: of_nat_unat)
  qed
  then have "unat s = unat (run_symbol run v)" using u div_mult_mod_eq [of "unat s" 16] by simp
  then have "s = run_symbol run v" by (simp only: word_unat_eq_iff)
  with s show "run_symbol run v \<in> set AC_VALUES" by simp
  have "unat (drop_bit 4 (run_symbol run v)) = run"
    unfolding unat_drop_bit_eq u using k by (simp add: drop_bit_eq_div)
  then show "drop_bit 4 (run_symbol run v) = of_nat run" by (rule unat_eqD)
  have "unat (run_symbol run v AND 0x0F) = category v"
  proof -
    have eq: "run_symbol run v AND 0x0F = take_bit 4 (run_symbol run v)"
      by (simp add: take_bit_eq_mask mask_eq_exp_minus_1)
    show ?thesis unfolding eq unsigned_take_bit_eq u using k by (simp add: take_bit_eq_mod)
  qed
  then show "run_symbol run v AND 0x0F = of_nat (category v)" by (rule unat_eqD)
  show "run_symbol run v \<noteq> 0" using u k by auto
  show "run_symbol run v \<noteq> 0xF0"
  proof
    assume "run_symbol run v = 0xF0"
    then have "16 * run + category v = 240" using u by simp
    then have "category v mod 16 = 0" by presburger
    then show False using k by simp
  qed
qed

lemma symbols [simp]: "0 \<in> set AC_VALUES" "0xF0 \<in> set AC_VALUES" "k < 12 \<Longrightarrow> of_nat k \<in> set DC_VALUES"
  unfolding AC_VALUES_def DC_VALUES_def by simp_all

lemma ac_symbol_code:
  "s \<in> set AC_VALUES \<Longrightarrow> unread r = ac_code s @ rest \<Longrightarrow>
     huffman_symbol r AC_COUNTS AC_VALUES = Some (s, skip r (length (ac_code s)))"
  unfolding ac_code_def by (rule huffman_symbol_code) simp_all

lemma ac_loop_zrl:
  "unread r = concat (replicate m (ac_code 0xF0)) @ rest \<Longrightarrow> i + 16 * m < 64 + 16 \<Longrightarrow> m = 0 \<or> i + 16 * (m - 1) < 64 \<Longrightarrow>
     ac_loop z i r = ac_loop z (i + 16 * m) (skip r (m * length (ac_code 0xF0)))"
proof (induction m arbitrary: i r)
  case (Suc m)
  let ?n = "length (ac_code 0xF0)"
  have u: "unread r = ac_code 0xF0 @ concat (replicate m (ac_code 0xF0)) @ rest" using Suc.prems(1) by simp
  have "ac_loop z i r = ac_loop z (i + 16) (skip r ?n)"
    using Suc.prems(3) ac_symbol_code [OF _ u] by (subst ac_loop.simps) simp
  also have "\<dots> = ac_loop z (i + 16 + 16 * m) (skip (skip r ?n) (m * ?n))"
    by (rule Suc.IH [OF unread_skip [OF u]]) (use Suc.prems in auto)
  finally show ?case by (simp add: algebra_simps)
qed simp

lemma ac_loop_encode_ac:
  assumes "unread r = encode_ac run vs @ rest" "list_all (\<lambda>v. \<bar>v\<bar> < 2 ^ 10) vs"
    and "i + run + length vs = 64" "length z = 64" "\<forall>k. i \<le> k \<longrightarrow> k < 64 \<longrightarrow> z ! k = 0"
  shows "ac_loop z i r = Some (take (i + run) z @ vs, skip r (length (encode_ac run vs)))"
  using assms
proof (induction run vs arbitrary: z i r rule: encode_ac.induct)
  case (1 run)
  then show ?case
    using ac_symbol_code [of 0 r rest] by (subst ac_loop.simps) auto
next
  case (2 run v vs)
  show ?case
  proof (cases "v = 0")
    case True
    then have "ac_loop z i r = Some (take (i + (run + 1)) z @ vs, skip r (length (encode_ac (run + 1) vs)))"
      using 2 by (intro "2.IH"(1)) auto
    then show ?thesis using True "2.prems" by (simp add: take_Suc_conv_app_nth)
  next
    case False
    define m where "m = run div 16"
    define s where "s = run_symbol (run mod 16) v"
    let ?zrl = "concat (replicate m (ac_code 0xF0))" and ?i = "i + 16 * m"
    let ?r1 = "skip r (length ?zrl)"
    let ?r2 = "skip ?r1 (length (ac_code s))"
    let ?r3 = "skip ?r2 (category v)"
    have run: "run = 16 * m + run mod 16" unfolding m_def by simp
    have small: "\<bar>v\<bar> < 2 ^ 10" "list_all (\<lambda>v. \<bar>v\<bar> < 2 ^ 10) vs" using "2.prems"(2) by auto
    note sym = run_symbol_fields [of "run mod 16", OF _ False small(1), folded s_def]
    have enc: "encode_ac run (v # vs) = ?zrl @ ac_code s @ magnitude_bits v @ encode_ac 0 vs"
      using False by (simp add: m_def s_def)
    have u0: "unread r = ?zrl @ ac_code s @ magnitude_bits v @ encode_ac 0 vs @ rest"
      using "2.prems"(1) unfolding enc by simp
    note u1 = unread_skip [OF u0]
    note u2 = unread_skip [OF u1]
    have u3: "unread ?r3 = encode_ac 0 vs @ rest" using unread_skip [OF u2] by simp
    have len: "length ?zrl = m * length (ac_code 0xF0)" by (simp add: length_concat sum_list_replicate)
    have lt: "i + run < 64" using "2.prems"(3) by simp
    have "ac_loop z i r = ac_loop z ?i ?r1"
      unfolding len by (rule ac_loop_zrl [OF u0]) (use lt run in linarith)+
    also have "\<dots> = ac_loop (z[i + run := v]) (i + run + 1) ?r3"
    proof -
      have lt': "?i < 64" using lt run by linarith
      define d where "d = run mod 16"
      have d: "?i + d = i + run" unfolding d_def using run by linarith
      have ud: "unat (of_nat (run mod 16) :: u8) = d" by (simp add: unat_of_nat d_def)
      have cat: "unat (of_nat (category v) :: u8) = category v"
        using category_le [OF small(1)] by (simp add: unat_of_nat)
      show ?thesis
        using lt lt' ac_symbol_code [OF sym(1) u1] receive_extend_magnitude [OF u2] sym(4,5)
        by (subst ac_loop.simps) (simp add: sym(2,3) ud cat Let_def d del: of_nat_unat)
    qed
    also have "\<dots> = Some (take (i + run + 1 + 0) (z[i + run := v]) @ vs, skip ?r3 (length (encode_ac 0 vs)))"
      using "2.prems" False small u3 by (intro "2.IH"(2)) auto
    finally show ?thesis unfolding enc using lt "2.prems"(4)
      by (simp add: take_Suc_conv_app_nth add.assoc)
  qed
qed

lemma decode_block_encode_block:
  assumes "unread r = encode_block last_dc zigzag @ rest" "encodable last_dc [zigzag]"
  shows "decode_block last_dc r = Some (zigzag, hd zigzag, skip r (length (encode_block last_dc zigzag)))"
proof -
  obtain dc vs where z: "zigzag = dc # vs" using assms(2) by (cases zigzag) auto
  define diff where "diff = dc - last_dc"
  have enc: "encode_block last_dc zigzag = dc_code (of_nat (category diff)) @ magnitude_bits diff @ encode_ac 0 vs"
    by (simp add: encode_block_def z diff_def Let_def)
  have k: "category diff < 12" using assms(2) category_le [of diff 11] by (simp add: z diff_def)
  have u0: "unread r = dc_code (of_nat (category diff)) @ magnitude_bits diff @ encode_ac 0 vs @ rest"
    using assms(1) unfolding enc by simp
  note u1 = unread_skip [OF u0]
  note u2 = unread_skip [OF u1]
  have "huffman_symbol r DC_COUNTS DC_VALUES =
      Some (of_nat (category diff), skip r (length (dc_code (of_nat (category diff)))))"
    unfolding dc_code_def by (rule huffman_symbol_code) (use k u0 in \<open>simp_all add: dc_code_def\<close>)
  moreover have "unat (of_nat (category diff) :: u8) = category diff" using k by (simp add: unat_of_nat)
  moreover have "ac_loop ((replicate 64 0)[0 := dc]) 1 (skip (skip r (length (dc_code (of_nat (category diff))))) (category diff)) =
      Some (take (1 + 0) ((replicate 64 0)[0 := dc]) @ vs,
        skip (skip (skip r (length (dc_code (of_nat (category diff))))) (category diff)) (length (encode_ac 0 vs)))"
    by (rule ac_loop_encode_ac [where rest = rest]) (use u2 assms(2) in \<open>auto simp: z\<close>)
  moreover have "take (Suc 0) ((replicate 64 0)[0 := dc]) = [dc]" by (simp add: take_Suc hd_conv_nth)
  ultimately show ?thesis
    using receive_extend_magnitude [OF u1] unfolding enc
    by (simp add: decode_block_def diff_def z add.assoc del: of_nat_unat replicate_Suc)
qed

section \<open>The picture of a segment\<close>

lemma dims [simp]: "SEGMENT_WIDTH = 112" "BLOCK_WIDTH = 8" "BLOCKS_PER_SEGMENT = 14" "SEGMENT_HEIGHT = 8"
  by (simp_all add: SEGMENT_WIDTH_def BLOCK_WIDTH_def BLOCKS_PER_SEGMENT_def SEGMENT_HEIGHT_def)

lemma length_idct [length_simps]: "length (idct ops cs) = 64"
  by (simp add: idct_def)

lemma copy_row_length:
  "length px = 896 \<Longrightarrow> b < 14 \<Longrightarrow> row < 8 \<Longrightarrow> length block = 64 \<Longrightarrow> length (copy_row b block px row) = 896"
  by (simp add: copy_row_def copy_from_slice_def min_def)

lemma inside_row:
  fixes k row b :: nat
  assumes "b < 14"
  shows "k div 112 = row \<and> k mod 112 div 8 = b \<longleftrightarrow> row * 112 + b * 8 \<le> k \<and> k < row * 112 + b * 8 + 8"
proof -
  obtain q c where q: "q = k div 112" and c: "c = k mod 112" by blast
  have k: "k = q * 112 + c" "c < 112" unfolding q c by simp_all
  consider "q < row" | "q = row" | "row < q" by linarith
  then show ?thesis
  proof cases
    case 1
    then have "(q + 1) * 112 \<le> row * 112" by simp
    then show ?thesis using 1 k unfolding q [symmetric] c [symmetric] by linarith
  next
    case 2
    have "c = c div 8 * 8 + c mod 8" "c mod 8 < 8" by simp_all
    then have "c div 8 = b \<longleftrightarrow> b * 8 \<le> c \<and> c < b * 8 + 8" by linarith
    then show ?thesis using 2 k unfolding q [symmetric] c [symmetric] by linarith
  next
    case 3
    then have "(row + 1) * 112 \<le> q * 112" by simp
    then show ?thesis using 3 k assms unfolding q [symmetric] c [symmetric] by linarith
  qed
qed

lemma inside_row_offset:
  fixes k row b :: nat
  assumes "row * 112 + b * 8 \<le> k" "k < row * 112 + b * 8 + 8"
  shows "k - (row * 112 + b * 8) = k mod 8"
proof -
  obtain j where j: "k = row * 112 + b * 8 + j" "j < 8" using assms by (metis le_Suc_ex nat_add_left_cancel_less)
  have "row * 112 + b * 8 + j = j + (row * 14 + b) * 8" by simp
  then have "k mod 8 = j" using j by (metis mod_mult_self1 mod_less)
  then show ?thesis using j by simp
qed

lemma copy_row_nth:
  assumes "length px = 896" "b < 14" "row < 8" "length block = 64" "k < 896"
  shows "copy_row b block px row ! k =
     (if k div 112 = row \<and> k mod 112 div 8 = b then block ! (row * 8 + k mod 8) else px ! k)"
proof -
  let ?d = "row * 112 + b * 8"
  have inside: "k div 112 = row \<and> k mod 112 div 8 = b \<longleftrightarrow> ?d \<le> k \<and> k < ?d + 8"
    by (rule inside_row [OF assms(2)])
  show ?thesis
  proof (cases "?d \<le> k \<and> k < ?d + 8")
    case True
    then have "k - ?d = k mod 8" "k mod 8 < 8" using inside_row_offset [of row b k] by simp_all
    then have "take 8 (drop (row * 8) block) ! (k - ?d) = block ! (row * 8 + k mod 8)"
      using assms by simp
    moreover have "length (take 8 (drop (row * 8) block)) = 8" "length (take ?d px) = ?d" using assms by simp_all
    moreover have "\<not> k < ?d" "k - ?d < 8" using True by linarith+
    ultimately have "copy_row b block px row ! k = block ! (row * 8 + k mod 8)"
      unfolding copy_row_def copy_from_slice_def dims nth_append by (simp del: length_take)
    then show ?thesis using True inside by simp
  next
    case False
    have len: "length (take 8 (drop (row * 8) block)) = 8" "length (take ?d px) = ?d" using assms by simp_all
    have "copy_row b block px row ! k = px ! k"
    proof (cases "k < ?d")
      case True
      then show ?thesis unfolding copy_row_def copy_from_slice_def dims nth_append len by simp
    next
      case below: False
      then have "\<not> k - ?d < 8" "?d + 8 + (k - ?d - 8) = k" "k - ?d - 8 < length px - (?d + 8)"
        using False assms(1,5) by linarith+
      then show ?thesis
        using below unfolding copy_row_def copy_from_slice_def dims nth_append len by simp
    qed
    then show ?thesis using False inside by metis
  qed
qed

lemma copy_rows:
  assumes "length px = 896" "b < 14" "length block = 64" "m \<le> 8"
  shows "length (foldl (copy_row b block) px [0..<m]) = 896 \<and>
    (\<forall>k < 896. foldl (copy_row b block) px [0..<m] ! k =
       (if k div 112 < m \<and> k mod 112 div 8 = b then block ! (k div 112 * 8 + k mod 8) else px ! k))"
  using assms(4)
proof (induction m)
  case (Suc m)
  then have IH: "length (foldl (copy_row b block) px [0..<m]) = 896"
    "\<And>k. k < 896 \<Longrightarrow> foldl (copy_row b block) px [0..<m] ! k =
       (if k div 112 < m \<and> k mod 112 div 8 = b then block ! (k div 112 * 8 + k mod 8) else px ! k)"
    by auto
  show ?case
    using Suc.prems assms(2,3) by (auto simp: copy_row_length copy_row_nth IH less_Suc_eq)
qed (simp add: assms(1))

text \<open>Pixel \<open>k\<close> of a segment whose blocks have the given pixels.\<close>

definition block_pixel :: "u8 list list \<Rightarrow> nat \<Rightarrow> u8" where
  "block_pixel blocks k = blocks ! (k mod 112 div 8) ! (k div 112 * 8 + k mod 8)"

lemma decode_blocks_length:
  "decode_blocks ops q bs dc r px = Some px' \<Longrightarrow> length px = 896 \<Longrightarrow> \<forall>b \<in> set bs. b < 14 \<Longrightarrow> length px' = 896"
proof (induction bs arbitrary: dc r px)
  case (Cons b bs)
  show ?case
  proof (cases "decode_block dc r")
    case (Some res)
    obtain zigzag dc' r' where res: "res = (zigzag, dc', r')" by (cases res)
    let ?px = "foldl (copy_row b (idct ops (dequantize ops q zigzag))) px [0..<8]"
    have "length ?px = 896" using copy_rows [of px b _ 8] Cons.prems by (simp add: length_simps)
    then show ?thesis using Cons.IH [of dc' r' ?px] Cons.prems Some res by (simp add: Let_def del: upt_rec_numeral)
  qed (use Cons.prems in simp)
qed simp

lemma decode_blocks_encode_blocks:
  assumes "unread r = encode_blocks dc zs @ rest" "encodable dc zs" "b + length zs = 14" "length px = 896"
  shows "\<exists>px'. decode_blocks ops q [b..<14] dc r px = Some px' \<and> length px' = 896 \<and>
    (\<forall>k < 896. px' ! k = (if k mod 112 div 8 < b then px ! k
       else idct ops (dequantize ops q (zs ! (k mod 112 div 8 - b))) ! (k div 112 * 8 + k mod 8)))"
  using assms
proof (induction zs arbitrary: b dc r px)
  case Nil
  moreover have "k mod 112 div 8 < 14" for k :: nat by (simp add: div_less_iff_less_mult)
  ultimately show ?case by simp
next
  case (Cons z zs)
  let ?block = "idct ops (dequantize ops q z)"
  let ?r = "skip r (length (encode_block dc z))" and ?px = "foldl (copy_row b ?block) px [0..<8]"
  have u: "unread r = encode_block dc z @ encode_blocks (hd z) zs @ rest" using Cons.prems(1) by simp
  have b: "[b..<14] = b # [b + 1..<14]" using Cons.prems(3) by (simp add: upt_rec)
  have dec: "decode_block dc r = Some (z, hd z, ?r)"
    using Cons.prems(2) by (intro decode_block_encode_block [OF u]) simp
  have px: "length ?px = 896"
    "\<And>k. k < 896 \<Longrightarrow> ?px ! k = (if k mod 112 div 8 = b then ?block ! (k div 112 * 8 + k mod 8) else px ! k)"
    using copy_rows [of px b ?block 8] Cons.prems(3,4) by (simp_all add: length_simps div_less_iff_less_mult)
  have "encodable (hd z) zs" "b + 1 + length zs = 14" using Cons.prems(2,3) by simp_all
  from Cons.IH [OF unread_skip [OF u] this px(1)]
  obtain px' where px': "decode_blocks ops q [b + 1..<14] (hd z) ?r ?px = Some px'" "length px' = 896"
    "\<And>k. k < 896 \<Longrightarrow> px' ! k = (if k mod 112 div 8 < b + 1 then ?px ! k
       else idct ops (dequantize ops q (zs ! (k mod 112 div 8 - (b + 1)))) ! (k div 112 * 8 + k mod 8))"
    by auto
  have "px' ! k = (if k mod 112 div 8 < b then px ! k
       else idct ops (dequantize ops q ((z # zs) ! (k mod 112 div 8 - b))) ! (k div 112 * 8 + k mod 8))"
    if "k < 896" for k
  proof -
    define j where "j = k mod 112 div 8"
    have 1: "px' ! k = (if j < b + 1 then ?px ! k
        else idct ops (dequantize ops q (zs ! (j - (b + 1)))) ! (k div 112 * 8 + k mod 8))"
      and 2: "?px ! k = (if j = b then ?block ! (k div 112 * 8 + k mod 8) else px ! k)"
      using px'(3) [OF that] px(2) [OF that] by (simp_all only: j_def)
    consider "j < b" | "j = b" | i where "j = Suc (b + i)" using less_imp_Suc_add by (metis linorder_neqE_nat)
    then show ?thesis unfolding j_def [symmetric] 1 2 by cases simp_all
  qed
  then show ?case
    using px'(1,2) dec by (intro exI [of _ px']) (simp add: b Let_def del: upt_rec_numeral)
qed

text \<open>The picture of a segment with the given quality and quantised blocks.\<close>

definition picture :: "f64_ops \<Rightarrow> u8 \<Rightarrow> int list list \<Rightarrow> u8 list" where
  "picture ops quality zs =
     map (block_pixel (map (\<lambda>z. idct ops (dequantize ops (quantization_table ops quality) z)) zs)) [0..<896]"

lemma decode_segment_coded:
  assumes "length zs = 14" "encodable 0 zs"
    and "unread (reader_new data) = encode_blocks 0 zs @ padding"
    and "length hdr = 14" "segment_header_ok (hdr @ data)"
  shows "decode_segment ops (hdr @ data) = Some \<lparr>mcu_number = hdr ! 8, pixels =
    picture ops (hdr ! 13) zs\<rparr>"
proof -
  let ?q = "quantization_table ops (hdr ! 13)"
  obtain px where px: "decode_blocks ops ?q [0..<14] 0 (reader_new data) (replicate 896 0) = Some px"
      "length px = 896" "\<forall>k < 896. px ! k = idct ops (dequantize ops ?q (zs ! (k mod 112 div 8))) ! (k div 112 * 8 + k mod 8)"
    using decode_blocks_encode_blocks [OF assms(3,2), of 0 "replicate 896 0" ops ?q] assms(1) by auto
  have "k mod 112 div 8 < 14" for k :: nat by (simp add: div_less_iff_less_mult)
  then have "px = picture ops (hdr ! 13) zs"
    using px(2,3) assms(1) unfolding picture_def
    by (intro nth_equalityI) (simp_all add: block_pixel_def del: upt_rec_numeral)
  then show ?thesis
    using px(1) assms(4,5) by (simp add: decode_segment_def nth_append del: upt_rec_numeral)
qed

lemma decode_segment_complete: "decode_segment ops payload = Some s \<Longrightarrow> length (pixels s) = 896"
  by (auto simp: decode_segment_def Let_def simp del: upt_rec_numeral
      split: if_splits option.splits dest!: decode_blocks_length)

section \<open>A sample packet\<close>

text \<open>Exact arithmetic, a header for block number 14, and fourteen blocks of mean 5, the first with one
  more coefficient.\<close>

definition sample_ops :: f64_ops where
  "sample_ops = \<lparr>fl = (\<lambda>x. x), f_cos = cos, f_pi = pi, f_frac_1_sqrt_2 = 1 / sqrt 2\<rparr>"

definition sample_header :: "u8 list" where
  "sample_header = [0, 1, 0, 0, 0, 2, 0, 0, 14, 0, 0, 0xFF, 0xF0, 80]"

definition sample_data :: "u8 list" where
  "sample_data = [151, 229, 162, 138, 40, 162, 138, 40, 162, 138, 40, 162, 128]"

definition sample_blocks :: "int list list" where
  "sample_blocks = ([5, 0, 0, -2] @ replicate 60 0) # replicate 13 (5 # replicate 63 0)"

lemma sample_blocks_encodable: "length sample_blocks = 14" "encodable 0 sample_blocks"
  by (simp_all add: sample_blocks_def numeral_eq_Suc)

lemma sample_header_ok: "length sample_header = 14" "segment_header_ok (sample_header @ sample_data)"
    "sample_header ! 8 = 14" "sample_header ! 13 = 80"
  by (simp_all add: sample_header_def sample_data_def segment_header_ok_def)

lemma sample_data_coded: "unread (reader_new sample_data) = encode_blocks 0 sample_blocks @ replicate 6 0"
proof -
  have dc: "DC_VALUES = [0, 1, 2, 3, 4, 5, 6, 7, 8, 9, 10, 11]" by (simp add: DC_VALUES_def upt_rec)
  have codes: "dc_code 0 = [0, 0]" "dc_code 3 = [1, 0, 0]" "ac_code 0 = [1, 0, 1, 0]"
      "ac_code 0x22 = [1, 1, 1, 1, 1, 0, 0, 1]"
    by (simp_all add: dc_code_def ac_code_def huffman_code_def position_def dc DC_COUNTS_def
        AC_VALUES_def AC_COUNTS_def)
  have "bit_len 1 = 1" "bit_len 2 = 2" "bit_len 5 = 3" by (simp_all add: bit_len_rec)
  then have cats: "category 5 = 3" "category (-2) = 2" by (simp_all add: category_def)
  have be: "be_bits 3 n = [n div 4 mod 2, n div 2 mod 2, n mod 2]" "be_bits 2 n = [n div 2 mod 2, n mod 2]" for n
    by (subst numeral_3_eq_3, simp) (subst numeral_2_eq_2, simp)
  have mags: "category 5 = 3" "category (-2) = 2" "magnitude_bits 5 = [1, 0, 1]" "magnitude_bits (-2) = [0, 1]"
      "magnitude_bits 0 = []"
    by (simp_all add: cats magnitude_bits_def be)
  have "encode_blocks 0 sample_blocks = [1, 0, 0, 1, 0, 1, 1, 1, 1, 1, 1, 0, 0, 1, 0, 1, 1, 0, 1, 0] @
      concat (replicate 13 [0, 0, 1, 0, 1, 0])"
  proof -
    have ac0: "encode_ac run (replicate n 0) = (if run + n = 0 then [] else [1, 0, 1, 0])" for run n
      by (induction n arbitrary: run) (simp_all add: codes)
    have flat: "encode_blocks 5 (replicate n (5 # replicate 63 0)) = concat (replicate n [0, 0, 1, 0, 1, 0])" for n
      by (induction n) (simp_all add: encode_block_def ac0 codes mags)
    show ?thesis by (simp add: sample_blocks_def encode_block_def codes mags run_symbol_def ac0 flat)
  qed
  moreover have "replicate 13 x = [x, x, x, x, x, x, x, x, x, x, x, x, x]" "replicate 6 (0::nat) = [0, 0, 0, 0, 0, 0]"
    for x :: "nat list"
    by (simp_all add: numeral_eq_Suc)
  ultimately show ?thesis by (simp add: sample_data_def unread_def reader_new_def bit_at_def upt_rec)
qed

lemma sample_decodes:
  "decode_segment sample_ops (sample_header @ sample_data) =
     Some \<lparr>mcu_number = 14, pixels = picture sample_ops 80 sample_blocks\<rparr>"
  using decode_segment_coded [OF sample_blocks_encodable sample_data_coded sample_header_ok(1,2)]
  by (simp only: sample_header_ok(3,4))

section \<open>Properties\<close>

text \<open>C23: Decoding inverts coding. For every fourteen blocks of quantised coefficients the tables can express
  (the DC value of a block within 11 bits of that of the block before it, every other coefficient
  within 10 bits), a packet whose header is valid and whose data starts with their Huffman, run-length
  and magnitude coding decodes, and pixel \<open>k\<close> of the 112 x 8 segment is the pixel of its block that
  the inverse transform of the dequantised coefficients gives.\<close>

theorem segment_decoder_inverts_coder:
  assumes "length zs = 14" "encodable 0 zs"
    and "unread (reader_new data) = encode_blocks 0 zs @ padding"
    and "length hdr = 14" "segment_header_ok (hdr @ data)"
  shows "decode_segment ops (hdr @ data) = Some \<lparr>mcu_number = hdr ! 8, pixels =
    picture ops (hdr ! 13) zs\<rparr>"
  using assms by (rule decode_segment_coded)

theorem segment_decoder_inverts_coder_witness:
  "decode_segment sample_ops (sample_header @ sample_data) =
     Some \<lparr>mcu_number = 14, pixels = picture sample_ops 80 sample_blocks\<rparr>"
  using segment_decoder_inverts_coder [OF sample_blocks_encodable sample_data_coded sample_header_ok(1,2)]
  by (simp only: sample_header_ok(3,4))

end
