(* ===== verification/Image_Builder.thy ===== *)
theory Image_Builder
  imports Image_Format Segment_Decoder Ordered_Map
begin

text \<open>
  The assembly of channel images from decoded segments, the \<open>ImageBuilder\<close> of
  \<^verbatim>\<open>lrpt-decode/src/image_builder.rs\<close>: the clock that unwraps the 14-bit sequence counters, the sparse
  channels, and the pictures, previews and line times read from them. \<open>i64\<close> values are integers: times
  stay below \<open>2 ^ 53\<close> microseconds and sequence numbers below \<open>2 ^ 40\<close> for any number of packets a
  receiver can see. A \<open>GrayImage\<close> is given by the arguments of \<open>GrayImage::from_fn\<close>: width, height and
  the pixel function.
\<close>

section \<open>The code\<close>

definition SEGMENTS_PER_LINE :: nat where "SEGMENTS_PER_LINE = 14"
definition MAX_CHANNEL_HEIGHT :: nat where "MAX_CHANNEL_HEIGHT = 16384"
definition MAX_CHANNEL_PIXELS :: nat where "MAX_CHANNEL_PIXELS = IMAGE_WIDTH * MAX_CHANNEL_HEIGHT"
definition PACKETS_PER_GROUP :: int where "PACKETS_PER_GROUP = 43"
definition SEQUENCE_MODULUS :: int where "SEQUENCE_MODULUS = 16384"
definition DAY_US :: int where "DAY_US = 86400000000"
definition GROUP_PERIOD_US :: real where "GROUP_PERIOD_US = 1231142"

datatype CdsEpoch = MeteorM2x | Ccsds1958

fun unix_epoch_seconds :: "CdsEpoch \<Rightarrow> real" where
  "unix_epoch_seconds MeteorM2x = 978220800"
| "unix_epoch_seconds Ccsds1958 = -378691200"

record ScanGroup =
  segments :: "u8 list option list"
  timestamp_unix_seconds :: "real option"

definition scan_group_default :: ScanGroup where
  "scan_group_default = \<lparr>segments = replicate SEGMENTS_PER_LINE None, timestamp_unix_seconds = None\<rparr>"

record ChannelImage =
  groups :: "(int \<times> ScanGroup) list"
  phase :: int
  latest_timed_base :: "(int \<times> int) option"

record SequenceClock =
  highest :: "int option"
  latest_time :: "int option"
  timed_anchors :: "(int \<times> int) list"
  group_period_us :: real

definition clock_default :: SequenceClock where
  "clock_default = \<lparr>highest = None, latest_time = None, timed_anchors = [], group_period_us = GROUP_PERIOD_US\<rparr>"

definition nearest_sequence :: "u16 \<Rightarrow> int \<Rightarrow> int" where
  "nearest_sequence sequence reference =
     reference + (int (unat sequence) - reference + SEQUENCE_MODULUS div 2) mod SEQUENCE_MODULUS - SEQUENCE_MODULUS div 2"

definition be_field :: "u8 list \<Rightarrow> int" where
  "be_field bytes = foldl (\<lambda>v b. 256 * v + int (unat b)) 0 bytes"

definition cds_days :: "u8 list \<Rightarrow> int" where "cds_days payload = be_field (take 2 payload)"
definition cds_millis :: "u8 list \<Rightarrow> int" where "cds_millis payload = be_field (take 4 (drop 2 payload))"
definition cds_micros :: "u8 list \<Rightarrow> int" where "cds_micros payload = be_field (take 2 (drop 6 payload))"

definition timestamp :: "SequenceClock \<Rightarrow> u8 list \<Rightarrow> int option" where
  "timestamp c payload =
     (let days = cds_days payload; millis = cds_millis payload; micros = cds_micros payload in
      if millis \<ge> 86400000 \<or> micros \<ge> 1000 \<or> (days = 0 \<and> millis = 0 \<and> micros = 0) then None
      else
        let raw = days * DAY_US + millis * 1000 + micros in
        if days = 0 then
          (case latest_time c of
             Some newest \<Rightarrow> Some (newest + (raw - newest + DAY_US div 2) mod DAY_US - DAY_US div 2)
           | None \<Rightarrow> Some raw)
        else Some raw)"

text \<open>\<open>range(..=time).next_back()\<close>, else \<open>range(time..).next()\<close>.\<close>

definition anchor_near :: "(int \<times> int) list \<Rightarrow> int \<Rightarrow> (int \<times> int) option" where
  "anchor_near anchors time =
     (let before = filter (\<lambda>(t, _). t \<le> time) anchors; after = filter (\<lambda>(t, _). time \<le> t) anchors in
      if before \<noteq> [] then Some (last before) else if after \<noteq> [] then Some (hd after) else None)"

definition locate :: "f64_ops \<Rightarrow> SequenceClock \<Rightarrow> u16 \<Rightarrow> int option \<Rightarrow> int" where
  "locate ops c sequence time =
     (let unanchored = nearest_sequence sequence (case highest c of Some h \<Rightarrow> h | None \<Rightarrow> int (unat sequence)) in
      case time of
        None \<Rightarrow> unanchored
      | Some t \<Rightarrow>
          (case anchor_near (timed_anchors c) t of
             None \<Rightarrow> unanchored
           | Some (anchor_time, anchor_sequence) \<Rightarrow>
               let elapsed_groups =
                 \<lfloor>round_half_away (fl ops (fl ops (of_int (t - anchor_time)) / group_period_us c))\<rfloor>
               in nearest_sequence sequence (anchor_sequence + elapsed_groups * PACKETS_PER_GROUP)))"

definition accept :: "SequenceClock \<Rightarrow> int \<Rightarrow> int option \<Rightarrow> SequenceClock" where
  "accept c absolute time =
     (let c = c\<lparr>highest := Some (case highest c of None \<Rightarrow> absolute | Some old \<Rightarrow> max old absolute)\<rparr> in
      case time of
        None \<Rightarrow> c
      | Some t \<Rightarrow>
          c\<lparr>latest_time := Some (case latest_time c of None \<Rightarrow> t | Some old \<Rightarrow> max old t),
            timed_anchors := (if map_of (timed_anchors c) t = None then om_insert t absolute (timed_anchors c)
                              else timed_anchors c)\<rparr>)"

definition cds_timestamp_unix_seconds :: "f64_ops \<Rightarrow> u8 list \<Rightarrow> CdsEpoch \<Rightarrow> real option" where
  "cds_timestamp_unix_seconds ops payload epoch =
     (if length payload < 8 then None
      else
        let days = cds_days payload; millis = cds_millis payload; micros = cds_micros payload in
        if days = 0 \<or> millis \<ge> 86400000 \<or> micros \<ge> 1000 then None
        else Some (fl ops (fl ops (fl ops (unix_epoch_seconds epoch + fl ops (of_int days * 86400))
          + fl ops (of_int millis / 1000)) + fl ops (of_int micros / 1000000))))"

record ImageBuilder =
  channels :: "(u16 \<times> ChannelImage) list"
  clock :: SequenceClock
  dropped_segments :: nat
  cds_epoch :: CdsEpoch

definition builder_new :: ImageBuilder where
  "builder_new = \<lparr>channels = [], clock = clock_default, dropped_segments = 0, cds_epoch = MeteorM2x\<rparr>"

definition set_cds_epoch :: "ImageBuilder \<Rightarrow> CdsEpoch \<Rightarrow> ImageBuilder" where
  "set_cds_epoch b epoch = b\<lparr>cds_epoch := epoch\<rparr>"

definition drop_segment :: "ImageBuilder \<Rightarrow> ImageBuilder" where
  "drop_segment b = b\<lparr>dropped_segments := sat_add (dropped_segments b) 1\<rparr>"

text \<open>The shift of a channel whose phase lies before that of the first channel.\<close>

definition phase_shift :: "int \<Rightarrow> int \<Rightarrow> int" where
  "phase_shift first_phase p = (if p < first_phase then 1 else 0)"

text \<open>The loop over \<open>channels.values()\<close>: the span of the groups held, widened from \<open>(first, last)\<close>.\<close>

definition widen :: "int \<Rightarrow> ChannelImage \<Rightarrow> int \<times> int \<Rightarrow> int \<times> int" where
  "widen first_phase c = (\<lambda>(lo, hi).
     let shift = phase_shift first_phase (phase c) in
     if groups c = [] then (lo, hi)
     else (min lo (fst (hd (groups c)) - shift), max hi (fst (last (groups c)) - shift)))"

definition span_with :: "int \<Rightarrow> ChannelImage list \<Rightarrow> int \<Rightarrow> int \<times> int" where
  "span_with first_phase cs candidate = foldl (\<lambda>s c. widen first_phase c s) (candidate, candidate) cs"

definition first_phase_for :: "(u16 \<times> ChannelImage) list \<Rightarrow> u16 \<Rightarrow> int \<Rightarrow> int" where
  "first_phase_for cs a p =
     (case cs of [] \<Rightarrow> p | (first_apid, c) # _ \<Rightarrow> if first_apid < a then phase c else p)"

definition span_too_high :: "int \<times> int \<Rightarrow> bool" where
  "span_too_high = (\<lambda>(lo, hi).
     let span_height = nat (hi - lo + 1) * SEGMENT_HEIGHT
     in span_height > MAX_CHANNEL_HEIGHT \<or> span_height * IMAGE_WIDTH \<ge> 2 ^ 64
        \<or> span_height * IMAGE_WIDTH > MAX_CHANNEL_PIXELS)"

text \<open>Division of \<open>i64\<close> truncates.\<close>

definition i64_div :: "int \<Rightarrow> int \<Rightarrow> int" where
  "i64_div a d = (if a < 0 then - (- a div d) else a div d)"

definition observe_period :: "f64_ops \<Rightarrow> (int \<times> int) option \<Rightarrow> int \<Rightarrow> int \<Rightarrow> SequenceClock \<Rightarrow> SequenceClock" where
  "observe_period ops timed time base c =
     (case timed of
        None \<Rightarrow> c
      | Some (old_time, old_base) \<Rightarrow>
          let cycles = i64_div (base - old_base) PACKETS_PER_GROUP in
          if cycles > 0 \<and> time > old_time then
            let observed = fl ops (fl ops (of_int (time - old_time)) / fl ops (of_int cycles)) in
            if 1000000 \<le> observed \<and> observed < 1500000 then c\<lparr>group_period_us := observed\<rparr> else c
          else c)"

definition later_base :: "(int \<times> int) option \<Rightarrow> int \<Rightarrow> int \<Rightarrow> (int \<times> int) option" where
  "later_base timed time base =
     (case timed of
        None \<Rightarrow> Some (time, base)
      | Some (old_time, _) \<Rightarrow> if time > old_time then Some (time, base) else timed)"

definition store_in_group :: "real option \<Rightarrow> nat \<Rightarrow> u8 list \<Rightarrow> ScanGroup \<Rightarrow> ScanGroup" where
  "store_in_group stamp column px g =
     g\<lparr>timestamp_unix_seconds := (case timestamp_unix_seconds g of None \<Rightarrow> stamp | Some t \<Rightarrow> Some t),
       segments := (segments g)[column := Some px]\<rparr>"

definition channel_for :: "ImageBuilder \<Rightarrow> u16 \<Rightarrow> int \<Rightarrow> ChannelImage" where
  "channel_for b a p =
     (case map_of (channels b) a of
        Some ch \<Rightarrow> ch
      | None \<Rightarrow> \<lparr>groups = [], phase = p, latest_timed_base = None\<rparr>)"

definition group_for :: "ChannelImage \<Rightarrow> int \<Rightarrow> ScanGroup" where
  "group_for ch raw_group =
     (case map_of (groups ch) raw_group of Some g \<Rightarrow> g | None \<Rightarrow> scan_group_default)"

text \<open>The end of \<open>push_packet\<close>, from the \<open>entry\<close> calls on.\<close>

definition store_segment ::
  "f64_ops \<Rightarrow> ImageBuilder \<Rightarrow> u16 \<Rightarrow> int \<Rightarrow> int \<Rightarrow> nat \<Rightarrow> u8 list \<Rightarrow> real option \<Rightarrow> int option \<Rightarrow> int \<Rightarrow> ImageBuilder" where
  "store_segment ops b a p base column px stamp time absolute =
     (let raw_group = base div PACKETS_PER_GROUP;
          ch = channel_for b a p;
          g = group_for ch raw_group;
          ch = ch\<lparr>groups := om_insert raw_group g (groups ch)\<rparr>
      in if segments g ! column \<noteq> None then b\<lparr>channels := om_insert a ch (channels b)\<rparr>
         else
           let ch = ch\<lparr>groups := om_insert raw_group (store_in_group stamp column px g) (groups ch)\<rparr>;
               c = (case time of
                      None \<Rightarrow> clock b
                    | Some t \<Rightarrow> observe_period ops (latest_timed_base ch) t base (clock b));
               ch = (case time of
                      None \<Rightarrow> ch
                    | Some t \<Rightarrow> ch\<lparr>latest_timed_base := later_base (latest_timed_base ch) t base\<rparr>)
           in b\<lparr>channels := om_insert a ch (channels b), clock := accept c absolute time\<rparr>)"

definition place_segment ::
  "f64_ops \<Rightarrow> ImageBuilder \<Rightarrow> u16 \<Rightarrow> u16 \<Rightarrow> u8 list \<Rightarrow> nat \<Rightarrow> u8 list \<Rightarrow> ImageBuilder" where
  "place_segment ops b a sequence payload column px =
     (let time = timestamp (clock b) payload;
          stamp = cds_timestamp_unix_seconds ops payload (cds_epoch b);
          absolute = locate ops (clock b) sequence time;
          base = absolute - int column;
          p = base mod PACKETS_PER_GROUP
      in if (case map_of (channels b) a of None \<Rightarrow> False | Some ch \<Rightarrow> phase ch \<noteq> p) then drop_segment b
         else
           let raw_group = base div PACKETS_PER_GROUP;
               first_phase = first_phase_for (channels b) a p;
               candidate_group = raw_group - phase_shift first_phase p
           in if span_too_high (span_with first_phase (map snd (channels b)) candidate_group) then drop_segment b
              else store_segment ops b a p base column px stamp time absolute)"

definition push_packet :: "f64_ops \<Rightarrow> ImageBuilder \<Rightarrow> u16 \<Rightarrow> u16 \<Rightarrow> u8 list \<Rightarrow> ImageBuilder" where
  "push_packet ops b a sequence payload =
     (if a \<notin> set IMAGE_APIDS then b
      else case decode_segment ops payload of
        None \<Rightarrow> drop_segment b
      | Some segment \<Rightarrow>
          let column = unat (mcu_number segment) div BLOCKS_PER_SEGMENT in
          if int (unat sequence) \<ge> SEQUENCE_MODULUS \<or> unat (mcu_number segment) mod BLOCKS_PER_SEGMENT \<noteq> 0
             \<or> column \<ge> SEGMENTS_PER_LINE
          then drop_segment b
          else place_segment ops b a sequence payload column (pixels segment))"

fun bounds_loop :: "int \<Rightarrow> ChannelImage list \<Rightarrow> int \<times> int \<Rightarrow> (int \<times> int) option" where
  "bounds_loop first_phase [] s = Some s"
| "bounds_loop first_phase (c # cs) s =
     (if groups c = [] then None else bounds_loop first_phase cs (widen first_phase c s))"

definition bounds :: "ImageBuilder \<Rightarrow> (int \<times> int \<times> int) option" where
  "bounds b =
     (case channels b of
        [] \<Rightarrow> None
      | (_, c) # _ \<Rightarrow>
          map_option (\<lambda>(lo, hi). (lo, hi, phase c))
            (bounds_loop (phase c) (map snd (channels b)) (2 ^ 63 - 1, - (2 ^ 63))))"

definition pixel :: "ChannelImage \<Rightarrow> int \<Rightarrow> nat \<Rightarrow> nat \<Rightarrow> u8" where
  "pixel ch raw_group x row =
     (case map_of (groups ch) raw_group of
        None \<Rightarrow> 0
      | Some g \<Rightarrow>
          (case segments g ! (x div SEGMENT_WIDTH) of
             None \<Rightarrow> 0
           | Some segment \<Rightarrow> segment ! (row * SEGMENT_WIDTH + x mod SEGMENT_WIDTH)))"

record gray_image =
  image_width :: nat
  image_height :: nat
  image_pixel :: "nat \<Rightarrow> nat \<Rightarrow> u8"

definition span_rows :: "int \<Rightarrow> int \<Rightarrow> nat" where
  "span_rows lo hi = nat (hi - lo + 1) * SEGMENT_HEIGHT"

definition render :: "ImageBuilder \<Rightarrow> u16 \<Rightarrow> gray_image option" where
  "render b a =
     (case map_of (channels b) a of
        None \<Rightarrow> None
      | Some ch \<Rightarrow>
          (case bounds b of
             None \<Rightarrow> None
           | Some (lo, hi, first_phase) \<Rightarrow>
               let shift = phase_shift first_phase (phase ch) in
               Some \<lparr>image_width = IMAGE_WIDTH, image_height = span_rows lo hi,
                 image_pixel = (\<lambda>x y. pixel ch (lo + int (y div SEGMENT_HEIGHT) + shift) x (y mod SEGMENT_HEIGHT))\<rparr>))"

definition render_all :: "ImageBuilder \<Rightarrow> (u16 \<times> gray_image) list" where
  "render_all b = List.map_filter (\<lambda>a. map_option (Pair a) (render b a)) (om_keys (channels b))"

definition line_timestamp :: "f64_ops \<Rightarrow> ImageBuilder \<Rightarrow> ChannelImage \<Rightarrow> int \<Rightarrow> nat \<Rightarrow> real option" where
  "line_timestamp ops b ch group_origin row =
     (case map_of (groups ch) (group_origin + int (row div SEGMENT_HEIGHT)) of
        None \<Rightarrow> None
      | Some g \<Rightarrow>
          map_option (\<lambda>t. fl ops (t + fl ops (fl ops (real (row mod SEGMENT_HEIGHT) * group_period_us (clock b)) / 8000000)))
            (timestamp_unix_seconds g))"

definition line_timestamps_unix_seconds :: "f64_ops \<Rightarrow> ImageBuilder \<Rightarrow> u16 \<Rightarrow> real option list" where
  "line_timestamps_unix_seconds ops b a =
     (case map_of (channels b) a of
        None \<Rightarrow> []
      | Some ch \<Rightarrow>
          (case bounds b of
             None \<Rightarrow> []
           | Some (lo, hi, first_phase) \<Rightarrow>
               map (line_timestamp ops b ch (lo + phase_shift first_phase (phase ch))) [0..<span_rows lo hi]))"

definition div_ceil :: "nat \<Rightarrow> nat \<Rightarrow> nat" where
  "div_ceil a d = (a + d - 1) div d"

definition preview_step :: "nat \<Rightarrow> nat \<Rightarrow> nat" where
  "preview_step full_height max_side = div_ceil (max IMAGE_WIDTH full_height) (max max_side 1)"

definition preview :: "ChannelImage \<Rightarrow> nat \<Rightarrow> int \<Rightarrow> nat \<Rightarrow> gray_image" where
  "preview ch step group_origin full_height =
     \<lparr>image_width = div_ceil IMAGE_WIDTH step, image_height = div_ceil full_height step,
      image_pixel = (\<lambda>x y. let source_y = y * step in
        pixel ch (group_origin + int (source_y div SEGMENT_HEIGHT)) (x * step) (source_y mod SEGMENT_HEIGHT))\<rparr>"

definition render_previews :: "ImageBuilder \<Rightarrow> nat \<Rightarrow> (u16 \<times> gray_image) list" where
  "render_previews b max_side =
     (case bounds b of
        None \<Rightarrow> []
      | Some (lo, hi, first_phase) \<Rightarrow>
          let full_height = span_rows lo hi; step = preview_step full_height max_side in
          map (\<lambda>(a, ch). (a, preview ch step (lo + phase_shift first_phase (phase ch)) full_height)) (channels b))"


definition total_line_count :: "ImageBuilder \<Rightarrow> nat" where
  "total_line_count b =
     length (filter (\<lambda>g. list_all (\<lambda>s. s \<noteq> None) (segments g))
       (concat (map (\<lambda>(_, ch). map snd (groups ch)) (channels b)))) * SEGMENT_HEIGHT"


definition dropped_scanlines :: "ImageBuilder \<Rightarrow> nat" where
  "dropped_scanlines b = dropped_segments b"

section \<open>Packets: skipped, dropped or stored\<close>

definition group_ok :: "ScanGroup \<Rightarrow> bool" where
  "group_ok g \<longleftrightarrow> length (segments g) = 14 \<and> (\<forall>px. Some px \<in> set (segments g) \<longrightarrow> length px = 896) \<and>
     (\<exists>px. Some px \<in> set (segments g))"

definition channel_ok :: "ChannelImage \<Rightarrow> bool" where
  "channel_ok ch \<longleftrightarrow> om_ok (groups ch) \<and> groups ch \<noteq> [] \<and> 0 \<le> phase ch \<and> phase ch < 43 \<and>
     (\<forall>(k, g) \<in> set (groups ch). group_ok g)"

definition first_phase_of :: "(u16 \<times> ChannelImage) list \<Rightarrow> int" where
  "first_phase_of cs = phase (snd (hd cs))"

definition shifted :: "int \<Rightarrow> ChannelImage \<Rightarrow> int set" where
  "shifted first_phase ch = (\<lambda>k. k - phase_shift first_phase (phase ch)) ` set (om_keys (groups ch))"

definition lines_used :: "int \<Rightarrow> (u16 \<times> ChannelImage) list \<Rightarrow> int set" where
  "lines_used first_phase cs = (\<Union>(a, ch) \<in> set cs. shifted first_phase ch)"

definition span_ok :: "int set \<Rightarrow> bool" where
  "span_ok ks \<longleftrightarrow> (\<forall>j \<in> ks. \<forall>k \<in> ks. k - j < 2048)"

definition builder_ok :: "ImageBuilder \<Rightarrow> bool" where
  "builder_ok b \<longleftrightarrow>
     om_ok (channels b) \<and> dropped_segments b < 2 ^ 64 \<and>
     (\<forall>(a, ch) \<in> set (channels b). a \<in> set IMAGE_APIDS \<and> channel_ok ch) \<and>
     span_ok (lines_used (first_phase_of (channels b)) (channels b)) \<and>
     (channels b = [] \<longrightarrow> clock b = clock_default) \<and>
     (channels b \<noteq> [] \<longrightarrow> (\<exists>(a, ch) \<in> set (channels b). \<exists>k \<in> set (om_keys (groups ch)). - 1 \<le> k \<and> k \<le> 381))"

definition stored_channel :: "ChannelImage \<Rightarrow> int \<Rightarrow> nat \<Rightarrow> u8 list \<Rightarrow> real option \<Rightarrow> (int \<times> int) option \<Rightarrow> ChannelImage" where
  "stored_channel ch raw_group column px stamp timed =
     ch\<lparr>groups := om_insert raw_group (store_in_group stamp column px (group_for ch raw_group)) (groups ch),
       latest_timed_base := timed\<rparr>"

lemma image_dims [simp]: "IMAGE_WIDTH = 1568" "SEGMENTS_PER_LINE = 14" "MAX_CHANNEL_HEIGHT = 16384"
    "PACKETS_PER_GROUP = 43" "SEQUENCE_MODULUS = 16384"
  by (simp_all add: IMAGE_WIDTH_def SEGMENTS_PER_LINE_def MAX_CHANNEL_HEIGHT_def PACKETS_PER_GROUP_def
      SEQUENCE_MODULUS_def)

lemma phase_shift_cases: "phase_shift fp p = 0 \<or> phase_shift fp p = 1"
  by (simp add: phase_shift_def)

lemma nearest_sequence_self: "int (unat sequence) < 16384 \<Longrightarrow> nearest_sequence sequence (int (unat sequence)) = int (unat sequence)"
  by (simp add: nearest_sequence_def del: of_nat_unat)

lemma locate_default: "int (unat sequence) < 16384 \<Longrightarrow> locate ops clock_default sequence time = int (unat sequence)"
  by (simp add: locate_def clock_default_def anchor_near_def nearest_sequence_self Let_def del: of_nat_unat split: option.split)

lemma push_packet_cases:
  assumes "builder_ok b"
  obtains (skipped) "push_packet ops b a sequence payload = b"
  | (dropped) "a \<in> set IMAGE_APIDS" "push_packet ops b a sequence payload = drop_segment b"
  | (stored) raw_group p column px stamp timed c where
      "a \<in> set IMAGE_APIDS" "column < 14" "length px = 896" "0 \<le> p" "p < 43"
      "\<And>ch. map_of (channels b) a = Some ch \<Longrightarrow> phase ch = p"
      "segments (group_for (channel_for b a p) raw_group) ! column = None"
      "\<not> span_too_high (span_with (first_phase_for (channels b) a p) (map snd (channels b))
          (raw_group - phase_shift (first_phase_for (channels b) a p) p))"
      "channels b = [] \<Longrightarrow> - 1 \<le> raw_group \<and> raw_group \<le> 381"
      "decode_segment ops payload = Some \<lparr>mcu_number = of_nat (14 * column), pixels = px\<rparr>"
      "push_packet ops b a sequence payload =
         b\<lparr>channels := om_insert a (stored_channel (channel_for b a p) raw_group column px stamp timed) (channels b), clock := c\<rparr>"
proof -
  consider (no_image) "a \<notin> set IMAGE_APIDS"
    | (bad) "a \<in> set IMAGE_APIDS" "push_packet ops b a sequence payload = drop_segment b"
    | (good) segment where "a \<in> set IMAGE_APIDS" "decode_segment ops payload = Some segment"
        "int (unat sequence) < 16384" "unat (mcu_number segment) mod 14 = 0" "unat (mcu_number segment) div 14 < 14"
        "push_packet ops b a sequence payload =
           place_segment ops b a sequence payload (unat (mcu_number segment) div 14) (pixels segment)"
  proof (cases "a \<in> set IMAGE_APIDS")
    case image: True
    show thesis
    proof (cases "decode_segment ops payload")
      case None
      then show thesis using image bad by (simp add: push_packet_def)
    next
      case (Some segment)
      let ?mcu = "unat (mcu_number segment)"
      show thesis
      proof (cases "int (unat sequence) \<ge> 16384 \<or> ?mcu mod 14 \<noteq> 0 \<or> ?mcu div 14 \<ge> 14")
        case True
        then have "push_packet ops b a sequence payload = drop_segment b"
          unfolding push_packet_def Let_def image_dims dims Some using image by simp
        then show thesis using image bad by blast
      next
        case False
        then have "push_packet ops b a sequence payload =
            place_segment ops b a sequence payload (?mcu div 14) (pixels segment)"
          unfolding push_packet_def Let_def image_dims dims Some using image by simp
        then show thesis using False image Some good by (simp add: not_le)
      qed
    qed
  qed (rule no_image)
  then show thesis
  proof cases
    case no_image
    then show ?thesis by (intro skipped) (simp add: push_packet_def)
  next
    case bad
    then show ?thesis by (rule dropped)
  next
    case good
    define column where "column = unat (mcu_number segment) div 14"
    define time where "time = timestamp (clock b) payload"
    define stamp where "stamp = cds_timestamp_unix_seconds ops payload (cds_epoch b)"
    define absolute where "absolute = locate ops (clock b) sequence time"
    define base where "base = absolute - int column"
    define p where "p = base mod 43"
    define fp where "fp = first_phase_for (channels b) a p"
    let ?high = "span_too_high (span_with fp (map snd (channels b)) (base div 43 - phase_shift fp p))"
    let ?store = "store_segment ops b a p base column (pixels segment) stamp time absolute"
    have place: "place_segment ops b a sequence payload column (pixels segment) =
        (if (case map_of (channels b) a of None \<Rightarrow> False | Some ch \<Rightarrow> phase ch \<noteq> p) then drop_segment b
         else if ?high then drop_segment b else ?store)"
      unfolding place_segment_def Let_def image_dims fp_def p_def base_def absolute_def stamp_def time_def
      by (rule refl)
    show ?thesis
    proof (cases "(case map_of (channels b) a of None \<Rightarrow> False | Some ch \<Rightarrow> phase ch \<noteq> p) \<or> ?high")
      case True
      then show ?thesis using good place by (intro dropped) (auto simp: column_def)
    next
      case False
      let ?ch = "channel_for b a p" and ?raw = "base div 43"
      let ?g = "group_for ?ch ?raw"
      have push: "push_packet ops b a sequence payload = ?store" using good place False by (auto simp: column_def)
      show ?thesis
      proof (cases "segments ?g ! column = None")
        case True
        show ?thesis
        proof (rule stored [of column "pixels segment" p ?raw])
          show "length (pixels segment) = 896" using good(2) by (rule decode_segment_complete)
          have "mcu_number segment = of_nat (14 * column)"
            using good(4) by (intro unat_eqD) (simp add: column_def mult.commute [of 14] minus_mod_eq_div_mult [symmetric])
          then show "decode_segment ops payload = Some \<lparr>mcu_number = of_nat (14 * column), pixels = pixels segment\<rparr>"
            using good(2) by (cases segment) simp
          show "- 1 \<le> ?raw \<and> ?raw \<le> 381" if "channels b = []"
          proof -
            have "absolute = int (unat sequence)"
              using assms that good(3) by (simp add: absolute_def builder_ok_def locate_default del: of_nat_unat)
            moreover have "int column < 14" "0 \<le> int (unat sequence)" using good(5) by (simp_all add: column_def del: of_nat_unat)
            ultimately have "- 14 < base" "base < 16384" using good(3) unfolding base_def by linarith+
            then show ?thesis by presburger
          qed
          show "push_packet ops b a sequence payload = b\<lparr>channels := om_insert a
              (stored_channel ?ch ?raw column (pixels segment) stamp
                (case time of None \<Rightarrow> latest_timed_base ?ch | Some t \<Rightarrow> later_base (latest_timed_base ?ch) t base)) (channels b),
              clock := accept (case time of None \<Rightarrow> clock b
                | Some t \<Rightarrow> observe_period ops (latest_timed_base ?ch) t base (clock b)) absolute time\<rparr>"
            using True by (simp add: push store_segment_def Let_def stored_channel_def split: option.split)
        qed (use False good True in \<open>auto simp: column_def p_def fp_def\<close>)
      next
        case occupied: False
        have "length (segments scan_group_default) = 14" "column < 14"
          using good(5) by (simp_all add: scan_group_default_def column_def)
        then obtain ch g where found: "map_of (channels b) a = Some ch" "map_of (groups ch) ?raw = Some g"
          using occupied
          by (auto simp: channel_for_def group_for_def scan_group_default_def simp del: replicate_Suc split: option.splits)
        have ok: "om_ok (channels b)" "om_ok (groups ch)"
          using assms found(1) by (auto simp: builder_ok_def channel_ok_def dest!: map_of_SomeD)
        have "?store = b"
          using occupied found ok
          by (simp add: store_segment_def Let_def channel_for_def group_for_def om_insert_same)
        then show ?thesis using push by (intro skipped) simp
      qed
    qed
  qed
qed

section \<open>The invariant\<close>

lemma drop_segment_ok [inv_intros]: "builder_ok b \<Longrightarrow> builder_ok (drop_segment b)"
  by (simp add: builder_ok_def drop_segment_def)

lemma set_cds_epoch_ok [inv_intros]: "builder_ok b \<Longrightarrow> builder_ok (set_cds_epoch b epoch)"
  by (simp add: builder_ok_def set_cds_epoch_def)

lemma builder_new_ok [inv_intros]: "builder_ok builder_new"
  by (simp add: builder_ok_def builder_new_def lines_used_def span_ok_def)

lemma widen_bounds:
  assumes "widen fp ch (l, h) = (lo, hi)" "om_ok (groups ch)"
  shows "lo \<le> l \<and> h \<le> hi \<and> (\<forall>x \<in> shifted fp ch. lo \<le> x \<and> x \<le> hi)"
  using assms om_first_le [OF assms(2)] om_last_ge [OF assms(2)]
  by (fastforce simp: widen_def shifted_def Let_def split: if_splits)

lemma span_fold_bounds:
  "foldl (\<lambda>s c. widen fp c s) (l, h) cs = (lo, hi) \<Longrightarrow> \<forall>ch \<in> set cs. om_ok (groups ch) \<Longrightarrow>
     lo \<le> l \<and> h \<le> hi \<and> (\<forall>ch \<in> set cs. \<forall>x \<in> shifted fp ch. lo \<le> x \<and> x \<le> hi)"
proof (induction cs arbitrary: l h)
  case (Cons c cs)
  obtain l' h' where w: "widen fp c (l, h) = (l', h')" by force
  have "lo \<le> l' \<and> h' \<le> hi \<and> (\<forall>ch \<in> set cs. \<forall>x \<in> shifted fp ch. lo \<le> x \<and> x \<le> hi)"
    using Cons.prems w by (intro Cons.IH) auto
  moreover have "l' \<le> l \<and> h \<le> h' \<and> (\<forall>x \<in> shifted fp c. l' \<le> x \<and> x \<le> h')"
    using widen_bounds [OF w] Cons.prems(2) by simp
  ultimately show ?case by fastforce
qed simp

lemma span_checked:
  assumes "\<not> span_too_high (span_with fp (map snd cs) k)" "\<forall>(a, ch) \<in> set cs. om_ok (groups ch)"
    and "ks \<subseteq> insert k (lines_used fp cs)"
  shows "span_ok ks"
proof -
  obtain lo hi where s: "span_with fp (map snd cs) k = (lo, hi)" by force
  have "lo \<le> k \<and> k \<le> hi \<and> (\<forall>ch \<in> set (map snd cs). \<forall>x \<in> shifted fp ch. lo \<le> x \<and> x \<le> hi)"
    using s assms(2) unfolding span_with_def by (intro span_fold_bounds) auto
  then have "\<forall>x \<in> ks. lo \<le> x \<and> x \<le> hi" using assms(3) unfolding lines_used_def by fastforce
  moreover have "nat (hi - lo + 1) \<le> 2048" using assms(1) by (simp add: span_too_high_def s Let_def)
  then have "hi - lo < 2048" by linarith
  ultimately show ?thesis
    unfolding span_ok_def by (metis diff_mono le_less_trans)
qed

lemma group_for_ok:
  assumes "\<And>ch. map_of (channels b) a = Some ch \<Longrightarrow> channel_ok ch"
  shows "length (segments (group_for (channel_for b a p) k)) = 14 \<and>
    (\<forall>px. Some px \<in> set (segments (group_for (channel_for b a p) k)) \<longrightarrow> length px = 896)"
  using assms
  by (fastforce simp: group_for_def channel_for_def scan_group_default_def channel_ok_def group_ok_def
      simp del: replicate_Suc split: option.splits dest: map_of_SomeD)

lemma store_in_group_ok:
  assumes "length (segments g) = 14" "\<forall>px. Some px \<in> set (segments g) \<longrightarrow> length px = 896"
    and "column < 14" "length px = 896"
  shows "group_ok (store_in_group stamp column px g)"
proof -
  have "Some px \<in> set ((segments g)[column := Some px])" using assms(1,3) by (intro set_update_memI) simp
  moreover have "set ((segments g)[column := Some px]) \<subseteq> insert (Some px) (set (segments g))"
    by (rule set_update_subset_insert)
  ultimately show ?thesis using assms(1,2,4) unfolding group_ok_def store_in_group_def by fastforce
qed

lemma builder_okD:
  assumes "builder_ok b"
  shows "om_ok (channels b)" "map_of (channels b) a = Some ch \<Longrightarrow> channel_ok ch \<and> a \<in> set IMAGE_APIDS"
    "(a, ch) \<in> set (channels b) \<Longrightarrow> channel_ok ch \<and> a \<in> set IMAGE_APIDS"
  using assms by (auto simp: builder_ok_def dest!: map_of_SomeD)

lemma channel_for_groups:
  assumes "builder_ok b"
  shows "om_ok (groups (channel_for b a p))" "\<forall>(k, g) \<in> set (groups (channel_for b a p)). group_ok g"
  using builder_okD(2) [OF assms, of a]
  by (auto simp: channel_for_def channel_ok_def split: option.splits)

lemma stored_channel_ok:
  assumes "builder_ok b" "column < 14" "length px = 896" "phase (channel_for b a p) = p" "0 \<le> p" "p < 43"
  shows "channel_ok (stored_channel (channel_for b a p) raw_group column px stamp timed)"
proof -
  let ?ch = "channel_for b a p"
  have "group_ok (store_in_group stamp column px (group_for ?ch raw_group))"
    using group_for_ok [of b a p raw_group] builder_okD(2) [OF assms(1)] assms(2,3)
    by (intro store_in_group_ok) auto
  then show ?thesis
    using channel_for_groups [OF assms(1), of a p] assms(4-6)
    by (auto simp: channel_ok_def stored_channel_def set_om_insert)
qed

lemma first_phase_stored:
  assumes "phase ch = p"
  shows "first_phase_of (om_insert a (stored_channel ch raw_group column px stamp timed) cs) = first_phase_for cs a p"
  using assms by (auto simp: first_phase_of_def first_phase_for_def hd_om_insert stored_channel_def split: list.splits)

lemma lines_used_stored:
  assumes "builder_ok b" "phase (channel_for b a p) = p"
  shows "lines_used fp (om_insert a (stored_channel (channel_for b a p) raw_group column px stamp timed) (channels b)) \<subseteq>
    insert (raw_group - phase_shift fp p) (lines_used fp (channels b))"
proof -
  let ?ch = "channel_for b a p"
  let ?ch' = "stored_channel ?ch raw_group column px stamp timed"
  have "shifted fp ?ch \<subseteq> lines_used fp (channels b)"
    by (auto simp: channel_for_def shifted_def lines_used_def split: option.splits dest!: map_of_SomeD)
  moreover have "shifted fp ?ch' = insert (raw_group - phase_shift fp p) (shifted fp ?ch)"
    using assms(2) by (simp add: shifted_def stored_channel_def)
  ultimately show ?thesis
    using builder_okD(1) [OF assms(1)] by (auto simp: lines_used_def set_om_insert)
qed

lemma push_packet_ok [inv_intros]:
  assumes "builder_ok b"
  shows "builder_ok (push_packet ops b a sequence payload)"
  using assms
proof (cases rule: push_packet_cases [where ops = ops and a = a and sequence = sequence and payload = payload])
  case skipped
  then show ?thesis using assms by simp
next
  case dropped
  then show ?thesis using assms by (simp add: drop_segment_ok)
next
  case (stored raw_group p column px stamp timed c)
  let ?ch = "channel_for b a p"
  let ?ch' = "stored_channel ?ch raw_group column px stamp timed"
  let ?cs = "om_insert a ?ch' (channels b)"
  have ph: "phase ?ch = p" using stored(6) by (simp add: channel_for_def split: option.split)
  note ok = builder_okD [OF assms]
  have set: "set ?cs = insert (a, ?ch') {x \<in> set (channels b). fst x \<noteq> a}" using ok(1) by (rule set_om_insert)
  have "channel_ok ?ch'" using assms stored(2,3) ph stored(4,5) by (rule stored_channel_ok)
  moreover have "span_ok (lines_used (first_phase_of ?cs) ?cs)"
    unfolding first_phase_stored [OF ph]
    by (rule span_checked [OF stored(8) _ lines_used_stored [OF assms ph]]) (use ok(3) in \<open>auto simp: channel_ok_def\<close>)
  moreover have "\<exists>(a, ch) \<in> set ?cs. \<exists>k \<in> set (om_keys (groups ch)). - 1 \<le> k \<and> k \<le> 381"
  proof (cases "channels b = []")
    case True
    then have "(a, ?ch') \<in> set ?cs" "raw_group \<in> set (om_keys (groups ?ch'))"
      by (simp add: set, simp add: stored_channel_def)
    then show ?thesis using stored(9) True by blast
  next
    case False
    then obtain a0 ch0 k where a0: "(a0, ch0) \<in> set (channels b)" "k \<in> set (om_keys (groups ch0))" "- 1 \<le> k \<and> k \<le> 381"
      using assms by (auto simp: builder_ok_def)
    then have "ch0 = ?ch" if "a0 = a" using that ok(1) by (simp add: channel_for_def om_ok_map_of [symmetric])
    then have "(a0, ch0) \<in> set ?cs \<or> (a, ?ch') \<in> set ?cs \<and> k \<in> set (om_keys (groups ?ch'))"
      using a0(1,2) by (cases "a0 = a") (auto simp: set, simp add: stored_channel_def)
    then show ?thesis using a0(2,3) by blast
  qed
  ultimately show ?thesis
    using assms ok(1) stored(1) by (auto simp: stored(11) builder_ok_def set)
qed

text \<open>A builder is driven by packets and by the choice of the epoch.\<close>

inductive builder_step :: "f64_ops \<Rightarrow> ImageBuilder \<Rightarrow> ImageBuilder \<Rightarrow> bool" for ops where
  push: "builder_step ops b (push_packet ops b a sequence payload)"
| epoch: "builder_step ops b (set_cds_epoch b epoch)"

interpretation image_builder: guarded_system "\<lambda>b. b = builder_new" "builder_step ops" builder_ok for ops
  by unfold_locales (auto elim!: builder_step.cases intro: inv_intros)

section \<open>The pictures\<close>

lemma bounds_loop_exact:
  assumes "bounds_loop fp cs (l, h) = Some (lo, hi)" "\<forall>ch \<in> set cs. om_ok (groups ch)"
  shows "lo \<le> l \<and> h \<le> hi \<and> (\<forall>ch \<in> set cs. \<forall>x \<in> shifted fp ch. lo \<le> x \<and> x \<le> hi) \<and>
    (lo = l \<or> (\<exists>ch \<in> set cs. lo \<in> shifted fp ch)) \<and> (hi = h \<or> (\<exists>ch \<in> set cs. hi \<in> shifted fp ch))"
  using assms
proof (induction cs arbitrary: l h)
  case (Cons c cs)
  obtain l' h' where w: "widen fp c (l, h) = (l', h')" by force
  have ne: "groups c \<noteq> []" and rest: "bounds_loop fp cs (l', h') = Some (lo, hi)"
    using Cons.prems(1) w by (auto split: if_splits)
  have "fst (hd (groups c)) - phase_shift fp (phase c) \<in> shifted fp c"
    "fst (last (groups c)) - phase_shift fp (phase c) \<in> shifted fp c"
    unfolding shifted_def using om_ends [OF ne] by blast+
  then have "(l' = l \<or> l' \<in> shifted fp c) \<and> (h' = h \<or> h' \<in> shifted fp c)"
    using w ne by (auto simp: widen_def Let_def min_def max_def split: if_splits)
  moreover have "l' \<le> l \<and> h \<le> h' \<and> (\<forall>x \<in> shifted fp c. l' \<le> x \<and> x \<le> h')"
    using widen_bounds [OF w] Cons.prems(2) by simp
  moreover note Cons.IH [OF rest]
  ultimately show ?case using Cons.prems(2) by (smt (verit) list.set_intros(1,2) set_ConsD)
qed simp

lemma bounds_loop_defined: "\<forall>ch \<in> set cs. groups ch \<noteq> [] \<Longrightarrow> bounds_loop fp cs s \<noteq> None"
  by (induction cs arbitrary: s) auto

lemma lines_used_near:
  assumes "builder_ok b" "x \<in> lines_used (first_phase_of (channels b)) (channels b)"
  shows "- 2100 < x \<and> x < 2500"
proof -
  let ?fp = "first_phase_of (channels b)"
  have "channels b \<noteq> []" using assms(2) by (auto simp: lines_used_def)
  then obtain a ch k where k: "(a, ch) \<in> set (channels b)" "k \<in> set (om_keys (groups ch))" "- 1 \<le> k" "k \<le> 381"
    using assms(1) by (auto simp: builder_ok_def)
  then have "k - phase_shift ?fp (phase ch) \<in> lines_used ?fp (channels b)"
    by (auto simp: lines_used_def shifted_def)
  then have "k - phase_shift ?fp (phase ch) - x < 2048" "x - (k - phase_shift ?fp (phase ch)) < 2048"
    using assms by (auto simp: builder_ok_def span_ok_def)
  then show ?thesis using k(3,4) phase_shift_cases [of ?fp "phase ch"] by linarith
qed

lemma bounds_exact:
  assumes "builder_ok b" "channels b \<noteq> []"
  obtains lo hi where "bounds b = Some (lo, hi, first_phase_of (channels b))"
    "\<And>x. x \<in> lines_used (first_phase_of (channels b)) (channels b) \<Longrightarrow> lo \<le> x \<and> x \<le> hi"
    "lo \<le> hi" "hi - lo < 2048"
proof -
  let ?fp = "first_phase_of (channels b)" and ?cs = "map snd (channels b)"
  let ?used = "lines_used ?fp (channels b)"
  obtain a ch rest where cs: "channels b = (a, ch) # rest" using assms(2) by (cases "channels b") auto
  have ok: "\<forall>c \<in> set ?cs. om_ok (groups c) \<and> groups c \<noteq> []"
    using builder_okD(3) [OF assms(1)] by (auto simp: channel_ok_def)
  then obtain lo hi where loop: "bounds_loop ?fp ?cs (2 ^ 63 - 1, - (2 ^ 63)) = Some (lo, hi)"
    using bounds_loop_defined [of ?cs ?fp "(2 ^ 63 - 1, - (2 ^ 63))"] by auto
  have used: "(\<exists>c \<in> set ?cs. x \<in> shifted ?fp c) \<longleftrightarrow> x \<in> ?used" for x by (force simp: lines_used_def)
  have ex: "lo \<le> 2 ^ 63 - 1 \<and> - (2 ^ 63) \<le> hi" "\<And>x. x \<in> ?used \<Longrightarrow> lo \<le> x \<and> x \<le> hi"
      "lo = 2 ^ 63 - 1 \<or> lo \<in> ?used" "hi = - (2 ^ 63) \<or> hi \<in> ?used"
    using bounds_loop_exact [OF loop] ok unfolding used [symmetric] by blast+
  have "?used \<noteq> {}" using ok by (auto simp: lines_used_def shifted_def om_keys_def cs)
  then obtain x where x: "x \<in> ?used" by blast
  have "lo \<in> ?used" "hi \<in> ?used"
    using ex(2) [OF x] ex(3,4) lines_used_near [OF assms(1) x] by auto
  then have "hi - lo < 2048" using assms(1) by (auto simp: builder_ok_def span_ok_def)
  moreover have "bounds b = Some (lo, hi, ?fp)" using loop by (simp add: bounds_def cs first_phase_of_def)
  ultimately show thesis using that ex(2) ex(2) [OF x] by force
qed

text \<open>The segment held for a channel, a group and a column.\<close>

definition held :: "ImageBuilder \<Rightarrow> u16 \<Rightarrow> int \<Rightarrow> nat \<Rightarrow> u8 list option" where
  "held b a k column =
     (case map_of (channels b) a of
        None \<Rightarrow> None
      | Some ch \<Rightarrow> (case map_of (groups ch) k of None \<Rightarrow> None | Some g \<Rightarrow> segments g ! column))"


lemma render_exact:
  assumes "builder_ok b" "map_of (channels b) a = Some ch"
  obtains lo hi where "render b a = Some \<lparr>image_width = 1568, image_height = span_rows lo hi,
      image_pixel = (\<lambda>x y. pixel ch (lo + int (y div 8) + phase_shift (first_phase_of (channels b)) (phase ch)) x (y mod 8))\<rparr>"
    "bounds b = Some (lo, hi, first_phase_of (channels b))"
    "\<And>x. x \<in> lines_used (first_phase_of (channels b)) (channels b) \<Longrightarrow> lo \<le> x \<and> x \<le> hi"
    "8 \<le> span_rows lo hi" "span_rows lo hi \<le> 16384"
proof -
  have "channels b \<noteq> []" using assms(2) by auto
  then obtain lo hi where *: "bounds b = Some (lo, hi, first_phase_of (channels b))"
    "\<And>x. x \<in> lines_used (first_phase_of (channels b)) (channels b) \<Longrightarrow> lo \<le> x \<and> x \<le> hi"
    "lo \<le> hi" "hi - lo < 2048"
    using bounds_exact [OF assms(1)] by metis
  show thesis
  proof (rule that)
    show "8 \<le> span_rows lo hi" "span_rows lo hi \<le> 16384" using *(3,4) by (simp_all add: span_rows_def)
  qed (use * assms(2) in \<open>auto simp: render_def Let_def\<close>)
qed


section \<open>What a packet changes\<close>







lemma span_rows_pos: "8 \<le> span_rows lo hi \<Longrightarrow> lo \<le> hi"
  by (simp add: span_rows_def)

lemma div_ceil_mult_less: "0 < d \<Longrightarrow> i < div_ceil n d \<Longrightarrow> i * d < n"
proof -
  assume d: "0 < d" and "i < div_ceil n d"
  then have "(i + 1) * d \<le> n + d - 1" unfolding div_ceil_def by (simp add: less_eq_div_iff_mult_less_eq Suc_le_eq [symmetric])
  then show "i * d < n" using d by simp
qed

lemma div_ceil_le: "0 < d \<Longrightarrow> n \<le> m * d \<Longrightarrow> div_ceil n d \<le> m"
proof -
  assume d: "0 < d" and "n \<le> m * d"
  then have "n + d - 1 < (m + 1) * d" by simp
  then show "div_ceil n d \<le> m" using d unfolding div_ceil_def by (simp add: div_less_iff_less_mult less_Suc_eq_le [symmetric])
qed

lemma le_div_ceil: "0 < d \<Longrightarrow> n \<le> div_ceil n d * d"
proof -
  assume d: "0 < d"
  have "n + d - 1 < ((n + d - 1) div d + 1) * d" using d by (simp add: dividend_less_times_div mult.commute)
  then show "n \<le> div_ceil n d * d" unfolding div_ceil_def by simp
qed

lemma preview_step_bounds:
  assumes "n \<le> max 1568 h" "0 < n"
  shows "0 < preview_step h side" "div_ceil n (preview_step h side) \<le> max side 1"
proof -
  have m: "max 1568 h \<le> preview_step h side * max side 1"
    using le_div_ceil [of "max side 1" "max 1568 h"] by (simp add: preview_step_def)
  then show pos: "0 < preview_step h side" using assms by (cases "preview_step h side = 0") auto
  show "div_ceil n (preview_step h side) \<le> max side 1"
    by (rule div_ceil_le [OF pos]) (use le_trans [OF assms(1) m] in \<open>simp only: mult.commute\<close>)
qed

section \<open>Sequence counters\<close>

lemma nearest_sequence_iff:
  assumes "int (unat sequence) < 16384"
  shows "nearest_sequence sequence r = n \<longleftrightarrow> n mod 16384 = int (unat sequence) \<and> r - 8192 \<le> n \<and> n < r + 8192"
proof -
  obtain s where s: "s = int (unat sequence)" by blast
  then have range: "0 \<le> s" "s < 16384" using assms by simp_all
  have "r + (s - r + 8192) mod 16384 - 8192 = n \<longleftrightarrow> n mod 16384 = s \<and> r - 8192 \<le> n \<and> n < r + 8192"
  proof
    assume n: "r + (s - r + 8192) mod 16384 - 8192 = n"
    have "(r + (s - r + 8192) mod 16384 - 8192) mod 16384 = (r + (s - r + 8192) - 8192) mod 16384"
      by (simp only: mod_add_right_eq mod_diff_left_eq flip: mod_diff_left_eq [of "r + (s - r + 8192) mod 16384"])
    also have "\<dots> = s" using range by simp
    finally have "n mod 16384 = s" by (simp only: n)
    moreover have "0 \<le> (s - r + 8192) mod 16384" "(s - r + 8192) mod 16384 < 16384" by simp_all
    ultimately show "n mod 16384 = s \<and> r - 8192 \<le> n \<and> n < r + 8192" using n by linarith
  next
    assume n: "n mod 16384 = s \<and> r - 8192 \<le> n \<and> n < r + 8192"
    have "(s - r + 8192) mod 16384 = (n mod 16384 - r + 8192) mod 16384" using n by simp
    also have "\<dots> = (n - r + 8192) mod 16384" by (metis mod_add_left_eq mod_diff_left_eq)
    also have "\<dots> = n - r + 8192" using n by simp
    finally show "r + (s - r + 8192) mod 16384 - 8192 = n" by simp
  qed
  then show ?thesis by (simp add: nearest_sequence_def s del: of_nat_unat)
qed

text \<open>Sequence counters of the given positions, met in this order and without time stamps, and the
  positions the clock gives them.\<close>

fun track_sequence :: "f64_ops \<Rightarrow> SequenceClock \<Rightarrow> int list \<Rightarrow> int list" where
  "track_sequence ops c [] = []"
| "track_sequence ops c (n # ns) =
     (let absolute = locate ops c (word_of_int (n mod 16384)) None
      in absolute # track_sequence ops (accept c absolute None) ns)"

fun near_highest :: "int \<Rightarrow> int list \<Rightarrow> bool" where
  "near_highest h [] \<longleftrightarrow> True"
| "near_highest h (n # ns) \<longleftrightarrow> h - 8192 \<le> n \<and> n < h + 8192 \<and> near_highest (max h n) ns"

lemma locate_untimed:
  assumes "highest c = Some h" "h - 8192 \<le> n" "n < h + 8192"
  shows "locate ops c (word_of_int (n mod 16384)) None = n"
proof -
  have "uint (word_of_int (n mod 16384) :: u16) = n mod 16384"
    unfolding uint_word_of_int by (simp add: mod_mod_cancel)
  then have "int (unat (word_of_int (n mod 16384) :: u16)) = n mod 16384" by (simp only: uint_nat)
  then show ?thesis
    using assms nearest_sequence_iff [of "word_of_int (n mod 16384)" h n] by (simp add: locate_def del: of_nat_unat)
qed

section \<open>A sample builder\<close>

definition sample_packet :: "u8 list" where
  "sample_packet = sample_header @ sample_data"

definition sample_picture :: "u8 list" where
  "sample_picture = picture sample_ops 80 sample_blocks"

definition sample_builder :: ImageBuilder where
  "sample_builder = push_packet sample_ops builder_new 64 100 sample_packet"

lemma sample_reached: "reach (\<lambda>b. b = builder_new) (builder_step sample_ops) sample_builder"
proof -
  have "reach (\<lambda>b. b = builder_new) (builder_step sample_ops) builder_new" by (rule reach.start) simp
  then show ?thesis unfolding sample_builder_def by (rule reach.extend) (rule builder_step.push)
qed

lemma sample_held: "held sample_builder 64 2 1 = Some sample_picture"
proof -
  have "timestamp clock_default sample_packet = Some 86400002000"
    by (simp add: timestamp_def cds_days_def cds_millis_def cds_micros_def be_field_def sample_packet_def
        sample_header_def DAY_US_def Let_def)
  then have eq: "sample_builder = store_segment sample_ops builder_new 64 13 99 1 sample_picture
      (cds_timestamp_unix_seconds sample_ops sample_packet MeteorM2x) (Some 86400002000) 100"
    using locate_default [of 100 sample_ops "Some 86400002000"]
    by (simp add: sample_builder_def push_packet_def IMAGE_APIDS_def sample_packet_def sample_decodes
        place_segment_def builder_new_def Let_def phase_shift_def first_phase_for_def span_with_def span_too_high_def
        MAX_CHANNEL_PIXELS_def sample_picture_def)
  show ?thesis
    unfolding eq
    by (simp add: store_segment_def Let_def channel_for_def group_for_def builder_new_def scan_group_default_def
        store_in_group_def held_def)
qed

section \<open>Properties\<close>

text \<open>The sequence clock unwraps the 14-bit counters. Packets at any positions, in any order and with
  any gaps, are located exactly as long as every packet lies less than half the modulus from the
  highest position met before it.\<close>

lemma sequence_clock_unwraps:
  assumes "highest c = Some h" "near_highest h ns"
  shows "track_sequence ops c ns = ns"
  using assms
  by (induction ns arbitrary: c h) (auto simp: locate_untimed accept_def Let_def)

theorem sequence_clock_unwraps_witness:
  "track_sequence sample_ops (accept clock_default 16380 None) [16383, 16390, 16385, 24000, 31000, 29000] =
     [16383, 16390, 16385, 24000, 31000, 29000]"
  by (rule sequence_clock_unwraps [of _ 16380]) (simp_all add: accept_def clock_default_def)

text \<open>C21: Every reachable image builder is well formed and its pictures are bounded. A channel has a picture
  exactly when a segment of it is held, only image applications have one, every picture is 1568
  pixels wide and between 8 and 16384 lines high, all pictures have the same height, each has one
  line time per line, and the drop counter does not wrap.\<close>

theorem image_builder_bounded:
  assumes "reach (\<lambda>b. b = builder_new) (builder_step ops) b"
  shows "(\<forall>a. render b a \<noteq> None \<longleftrightarrow> (\<exists>k column. column < 14 \<and> held b a k column \<noteq> None)) \<and>
    (\<forall>a img. render b a = Some img \<longrightarrow> a \<in> set IMAGE_APIDS \<and> image_width img = 1568 \<and>
       8 \<le> image_height img \<and> image_height img \<le> 16384 \<and>
       length (line_timestamps_unix_seconds ops b a) = image_height img) \<and>
    (\<forall>a a' img img'. render b a = Some img \<and> render b a' = Some img' \<longrightarrow> image_height img = image_height img') \<and>
    dropped_scanlines b < 2 ^ 64"
proof (intro conjI)
  have ok: "builder_ok b" using assms by (rule image_builder.reach_inv)
  show "\<forall>a. render b a \<noteq> None \<longleftrightarrow> (\<exists>k column. column < 14 \<and> held b a k column \<noteq> None)"
  proof
    fix a
    show "render b a \<noteq> None \<longleftrightarrow> (\<exists>k column. column < 14 \<and> held b a k column \<noteq> None)"
    proof (cases "map_of (channels b) a")
      case None
      then show ?thesis by (simp add: render_def held_def)
    next
      case (Some ch)
      then have "channel_ok ch" using builder_okD(2) [OF ok] by blast
      then obtain k g rest where g: "groups ch = (k, g) # rest" "group_ok g"
        by (cases "groups ch") (auto simp: channel_ok_def)
      then obtain i where "i < 14" "segments g ! i \<noteq> None" by (fastforce simp: group_ok_def in_set_conv_nth)
      then have "i < 14 \<and> held b a k i \<noteq> None" using Some g(1) by (simp add: held_def)
      then show ?thesis using render_exact [OF ok Some] by blast
    qed
  qed
  show "\<forall>a img. render b a = Some img \<longrightarrow> a \<in> set IMAGE_APIDS \<and> image_width img = 1568 \<and>
       8 \<le> image_height img \<and> image_height img \<le> 16384 \<and>
       length (line_timestamps_unix_seconds ops b a) = image_height img"
  proof (intro allI impI)
    fix a img
    assume r: "render b a = Some img"
    then obtain ch where ch: "map_of (channels b) a = Some ch" by (auto simp: render_def split: option.splits)
    have "length (line_timestamps_unix_seconds ops b a) = image_height img"
      using r ch by (auto simp: render_def line_timestamps_unix_seconds_def Let_def split: option.splits prod.splits)
    moreover have "image_width img = 1568 \<and> 8 \<le> image_height img \<and> image_height img \<le> 16384"
      by (rule render_exact [OF ok ch]) (use r in auto)
    ultimately show "a \<in> set IMAGE_APIDS \<and> image_width img = 1568 \<and> 8 \<le> image_height img \<and> image_height img \<le> 16384 \<and>
       length (line_timestamps_unix_seconds ops b a) = image_height img"
      using builder_okD(2) [OF ok ch] by blast
  qed
  show "\<forall>a a' img img'. render b a = Some img \<and> render b a' = Some img' \<longrightarrow> image_height img = image_height img'"
    by (auto simp: render_def Let_def split: option.splits prod.splits)
  show "dropped_scanlines b < 2 ^ 64" using ok by (simp add: dropped_scanlines_def builder_ok_def)
qed

theorem image_builder_bounded_witness:
  "\<exists>img. render sample_builder 64 = Some img \<and> image_width img = 1568 \<and> 8 \<le> image_height img \<and>
     image_height img \<le> 16384 \<and> render sample_builder 70 = None"
proof -
  note props = image_builder_bounded [OF sample_reached]
  have "\<exists>k column. column < 14 \<and> held sample_builder 64 k column \<noteq> None"
    using sample_held by (intro exI [of _ 2] exI [of _ 1]) simp
  then obtain img where img: "render sample_builder 64 = Some img" using conjunct1 [OF props] by blast
  note shape = conjunct1 [OF conjunct2 [OF props], rule_format]
  have "render sample_builder 70 = None"
    using shape [of 70] by (cases "render sample_builder 70") (auto simp: IMAGE_APIDS_def)
  then show ?thesis using img shape [OF img] by (intro exI [of _ img]) simp
qed





text \<open>A preview is the picture sampled at every n-th pixel of every n-th line: its sides are at most the
  limit asked for, every sample lies inside the picture, and previews exist for all channels.\<close>

lemma preview_samples_picture:
  assumes "reach (\<lambda>b. b = builder_new) (builder_step ops) b" "(a, small) \<in> set (render_previews b max_side)"
  shows "\<exists>img step. render b a = Some img \<and> 0 < step \<and>
    image_width small \<le> max max_side 1 \<and> image_height small \<le> max max_side 1 \<and>
    (\<forall>x < image_width small. \<forall>y < image_height small. x * step < image_width img \<and> y * step < image_height img \<and>
       image_pixel small x y = image_pixel img (x * step) (y * step))"
proof -
  have ok: "builder_ok b" using assms(1) by (rule image_builder.reach_inv)
  obtain ch where ch: "map_of (channels b) a = Some ch"
    using assms(2) builder_okD(1) [OF ok]
    by (auto simp: render_previews_def Let_def om_ok_map_of split: option.splits prod.splits)
  define shift where "shift = phase_shift (first_phase_of (channels b)) (phase ch)"
  obtain lo hi where r: "render b a = Some \<lparr>image_width = 1568, image_height = span_rows lo hi,
      image_pixel = (\<lambda>x y. pixel ch (lo + int (y div 8) + shift) x (y mod 8))\<rparr>"
    and bnd: "bounds b = Some (lo, hi, first_phase_of (channels b))" and rows: "8 \<le> span_rows lo hi"
    by (rule render_exact [OF ok ch, folded shift_def]) blast
  let ?step = "preview_step (span_rows lo hi) max_side"
  have "(a, small) \<in> (\<lambda>(a, ch). (a, preview ch ?step (lo + phase_shift (first_phase_of (channels b)) (phase ch)) (span_rows lo hi))) ` set (channels b)"
    using assms(2) bnd by (simp add: render_previews_def Let_def)
  then have small: "small = preview ch ?step (lo + shift) (span_rows lo hi)"
    using ch builder_okD(1) [OF ok] by (auto simp: shift_def om_ok_map_of [symmetric])
  have "0 < ?step" using preview_step_bounds(1) [of 1568 "span_rows lo hi" max_side] by simp
  moreover have "div_ceil 1568 ?step \<le> max max_side 1" "div_ceil (span_rows lo hi) ?step \<le> max max_side 1"
    using preview_step_bounds(2) [of _ "span_rows lo hi" max_side] rows by simp_all
  ultimately show ?thesis
    using r by (intro exI [of _ "the (render b a)"] exI [of _ ?step])
      (auto simp: small preview_def Let_def div_ceil_mult_less add.assoc add.commute [of _ shift])
qed

theorem preview_samples_picture_witness:
  "\<exists>small. (64, small) \<in> set (render_previews sample_builder 100) \<and> image_width small \<le> 100 \<and> image_height small \<le> 100"
proof -
  have ok: "builder_ok sample_builder" using sample_reached by (rule image_builder.reach_inv)
  obtain ch where ch: "(64, ch) \<in> set (channels sample_builder)"
    using sample_held by (auto simp: held_def split: option.splits dest: map_of_SomeD)
  then have "channels sample_builder \<noteq> []" by auto
  then obtain lo hi where bnd: "bounds sample_builder = Some (lo, hi, first_phase_of (channels sample_builder))"
    using bounds_exact [OF ok] by metis
  obtain small where "(64, small) \<in> set (render_previews sample_builder 100)"
    using ch unfolding render_previews_def bnd option.case prod.case Let_def set_map by force
  moreover from preview_samples_picture [OF sample_reached this]
  have "image_width small \<le> 100 \<and> image_height small \<le> 100" by auto
  ultimately show ?thesis by blast
qed

end
