(* ===== verification/Mode_S.thy ===== *)
theory Mode_S
  imports Complex_Main Crc24 Mode_AC
begin

text \<open>
  The Mode S message decoder of \<^verbatim>\<open>dump1090/src/mode_s.rs\<close>: the integrity gate
  \<open>decode_mode_s_message\<close>, the field decoder \<open>decode_validated_mode_s_message\<close> with one
  definition per helper of the file, and \<open>df18_identity\<close>. Messages are lists of bytes, fields
  words of the source's width, \<open>i32\<close> results integers. The \<open>f64\<close> results that the source computes
  exactly (eighths of a knot, 360/1024 degrees and the like) are reals; the square root and the
  arc tangent of the velocity are the parameters \<open>fsqrt\<close> and \<open>fatan2\<close>, on the exact integer
  arguments the code gives them (sign and magnitude, because \<open>atan2\<close> sees the sign of a zero).
  The lemmas show which messages pass the gate, that every field is in its documented range, and
  that identification and altitude fields decode to what was encoded.
\<close>

section \<open>The code\<close>

record AircraftMessage =
  icao :: u32
  df :: u8
  address_type :: string
  source :: string
  altitude :: "int option"
  callsign :: "string option"
  position :: "(real \<times> real) option"
  velocity :: "(real \<times> real) option"
  magnetic_heading :: "real option"
  airspeed :: "real option"
  airspeed_true :: bool
  surface_movement :: "real option"
  surface_direction :: "real option"
  on_ground :: "bool option"
  vertical_rate :: "int option"
  emergency :: "u8 option"
  squawk :: "u32 option"

definition AircraftMessage_default :: AircraftMessage where
  "AircraftMessage_default =
     \<lparr>icao = 0, df = 0, address_type = '''', source = '''', altitude = None, callsign = None,
      position = None, velocity = None, magnetic_heading = None, airspeed = None,
      airspeed_true = False, surface_movement = None, surface_direction = None, on_ground = None,
      vertical_rate = None, emergency = None, squawk = None\<rparr>"

definition extract_df :: "u8 list \<Rightarrow> u8" where
  "extract_df msg = (case msg of [] \<Rightarrow> 0 | b # _ \<Rightarrow> drop_bit 3 b)"

definition address24 :: "u8 list \<Rightarrow> u32" where
  "address24 msg =
     push_bit 16 (ucast (msg ! 1)) OR push_bit 8 (ucast (msg ! 2)) OR ucast (msg ! 3)"

record ExtendedIdentity =
  key :: u32
  id_address_type :: string
  id_source :: string

definition es_imf :: "u8 list \<Rightarrow> bool" where
  "es_imf msg =
     (let tc = drop_bit 3 (msg ! 4) in
      if 5 \<le> tc \<and> tc \<le> 8 then msg ! 6 AND 0x08 \<noteq> 0
      else if tc = 0 \<or> 9 \<le> tc \<and> tc \<le> 18 \<or> 20 \<le> tc \<and> tc \<le> 22 then msg ! 4 AND 1 \<noteq> 0
      else if tc = 19 then msg ! 5 AND 0x80 \<noteq> 0
      else if tc = 28 \<or> tc = 31 then msg ! 10 AND 1 \<noteq> 0
      else if tc = 29 then msg ! 10 AND 0x20 \<noteq> 0
      else False)"

definition cf_namespace :: "u8 \<Rightarrow> bool \<Rightarrow> (u32 \<times> string \<times> string) option" where
  "cf_namespace cf imf =
     (if cf = 0 then Some (0, ''icao_non_transponder'', ''adsb'')
      else if cf = 1 then Some (0x10, ''adsb_other'', ''adsb'')
      else if cf = 2 \<and> imf then Some (0x11, ''tisb_trackfile'', ''tisb'')
      else if cf = 2 then Some (0, ''icao'', ''tisb'')
      else if cf = 5 then Some (0x12, ''tisb_other'', ''tisb'')
      else if cf = 6 \<and> imf then Some (0x13, ''adsr_other'', ''adsr'')
      else if cf = 6 then Some (0, ''icao'', ''adsr'')
      else None)"

definition df18_identity :: "u8 list \<Rightarrow> ExtendedIdentity option" where
  "df18_identity msg =
     (if length msg < 11 \<or> drop_bit 3 (msg ! 0) \<noteq> 18 then None
      else
        let address = address24 msg; cf = msg ! 0 AND 7; imf = es_imf msg in
        case cf_namespace cf imf of
          None \<Rightarrow> None
        | Some (namespace, kind, src) \<Rightarrow>
            Some \<lparr>key = address OR push_bit 24 namespace, id_address_type = kind,
                  id_source = src\<rparr>)"

definition decode_squawk :: "u32 \<Rightarrow> u32" where
  "decode_squawk id13 =
     (let mode_a = decode_id13_field id13 in
      (drop_bit 12 mode_a AND 7) * 1000 + (drop_bit 8 mode_a AND 7) * 100
      + (drop_bit 4 mode_a AND 7) * 10 + (mode_a AND 7))"

definition callsign_codes :: "u8 list \<Rightarrow> u8 list" where
  "callsign_codes msg =
     [drop_bit 2 (msg ! 5) AND 0x3F,
      push_bit 4 (msg ! 5 AND 0x03) OR drop_bit 4 (msg ! 6),
      push_bit 2 (msg ! 6 AND 0x0F) OR drop_bit 6 (msg ! 7),
      msg ! 7 AND 0x3F,
      drop_bit 2 (msg ! 8) AND 0x3F,
      push_bit 4 (msg ! 8 AND 0x03) OR drop_bit 4 (msg ! 9),
      push_bit 2 (msg ! 9 AND 0x0F) OR drop_bit 6 (msg ! 10),
      msg ! 10 AND 0x3F]"

definition callsign_char :: "u8 \<Rightarrow> char" where
  "callsign_char c =
     (if c = 0 \<or> c = 32 then CHR '' ''
      else if 1 \<le> c \<and> c \<le> 26 then char_of (unat (65 + c - 1))
      else if 48 \<le> c \<and> c \<le> 57 then char_of (unat (48 + c - 48))
      else CHR '' '')"

text \<open>\<open>str::trim\<close> on a text whose only white space is the blank.\<close>

definition trim_end :: "string \<Rightarrow> string" where
  "trim_end s = rev (dropWhile (\<lambda>c. c = CHR '' '') (rev s))"

definition trim :: "string \<Rightarrow> string" where
  "trim s = trim_end (dropWhile (\<lambda>c. c = CHR '' '') s)"

definition decode_callsign :: "u8 list \<Rightarrow> string" where
  "decode_callsign msg = trim (map callsign_char (callsign_codes msg))"

definition gillham_feet :: "u32 \<Rightarrow> int option" where
  "gillham_feet n13 =
     (case mode_a_to_mode_c (decode_id13_field n13) of
        None \<Rightarrow> None
      | Some n \<Rightarrow> if n < -12 then None else Some (n * 100))"

definition decode_altitude :: "u8 list \<Rightarrow> bool \<Rightarrow> int option" where
  "decode_altitude msg is_df17 =
     (if is_df17 then
        if length msg < 7 then None
        else
          let ac12 = push_bit 4 (ucast (msg ! 5)) OR drop_bit 4 (ucast (msg ! 6)) :: u32;
              q = (ac12 AND 0x10 \<noteq> 0)
          in if q then
               let n = drop_bit 1 (ac12 AND 0x0FE0) OR (ac12 AND 0x000F)
               in Some (sint n * 25 - 1000)
             else gillham_feet (push_bit 1 (ac12 AND 0x0FC0) OR (ac12 AND 0x003F))
      else if length msg < 4 then None
      else
        let ac = push_bit 8 (ucast (msg ! 2 AND 0x1F)) OR ucast (msg ! 3) :: u32;
            m_bit = (ac AND 0x0040 \<noteq> 0)
        in if m_bit then None
           else
             let q = (ac AND 0x0010 \<noteq> 0) in
             if q then
               let n = drop_bit 2 (ac AND 0x1F80) OR drop_bit 1 (ac AND 0x0020) OR (ac AND 0x000F)
               in Some (sint n * 25 - 1000)
             else gillham_feet ac)"

text \<open>A velocity component as the \<open>f64\<close> the code builds: negative sign, and magnitude in knots.\<close>

type_synonym component = "bool \<times> nat"

definition decode_velocity ::
  "(nat \<Rightarrow> real) \<Rightarrow> (component \<Rightarrow> component \<Rightarrow> real) \<Rightarrow> u8 list \<Rightarrow> (real \<times> real) option" where
  "decode_velocity fsqrt fatan2 msg =
     (if length msg < 9 then None
      else
        let st = msg ! 4 AND 0x07 in
        if st \<noteq> 1 \<and> st \<noteq> 2 then None
        else
          let ew_raw = push_bit 8 (ucast (msg ! 5 AND 0x03)) OR ucast (msg ! 6) :: u32;
              ns_raw = push_bit 3 (ucast (msg ! 7 AND 0x7F)) OR ucast (drop_bit 5 (msg ! 8)) :: u32
          in if ew_raw = 0 \<or> ns_raw = 0 then None
             else
               let mul = (if st = 2 then 4 else 1);
                   ew_vel = (msg ! 5 AND 0x04 \<noteq> 0, unat (ew_raw - 1) * mul);
                   ns_vel = (msg ! 7 AND 0x80 \<noteq> 0, unat (ns_raw - 1) * mul);
                   speed_kt = fsqrt (snd ew_vel * snd ew_vel + snd ns_vel * snd ns_vel);
                   heading = fatan2 ew_vel ns_vel;
                   heading = (if heading < 0 then heading + 360 else heading)
               in Some (speed_kt, heading))"

definition decode_surface_movement :: "u32 \<Rightarrow> real option" where
  "decode_surface_movement raw =
     (let r = real (unat raw) in
      if raw = 1 then Some 0
      else if 2 \<le> raw \<and> raw \<le> 8 then Some (0.125 + (r - 2 + 0.5) * 0.125)
      else if 9 \<le> raw \<and> raw \<le> 12 then Some (1 + (r - 9 + 0.5) * 0.25)
      else if 13 \<le> raw \<and> raw \<le> 38 then Some (2 + (r - 13 + 0.5) * 0.5)
      else if 39 \<le> raw \<and> raw \<le> 93 then Some (15 + (r - 39 + 0.5))
      else if 94 \<le> raw \<and> raw \<le> 108 then Some (70 + (r - 94 + 0.5) * 2)
      else if 109 \<le> raw \<and> raw \<le> 123 then Some (100 + (r - 109 + 0.5) * 5)
      else if raw = 124 then Some 180
      else None)"

definition decode_vertical_rate :: "u8 list \<Rightarrow> int option" where
  "decode_vertical_rate msg =
     (if length msg < 10 \<or> drop_bit 3 (msg ! 4) \<noteq> 19 then None
      else
        let raw = push_bit 6 (ucast (msg ! 8 AND 0x07)) OR ucast (drop_bit 2 (msg ! 9)) :: u16 in
        if raw = 0 then None
        else
          let magnitude = uint (raw - 1) * 64
          in Some (if msg ! 8 AND 0x08 = 0 then magnitude else - magnitude))"

text \<open>The arms of \<open>match tc\<close> with more than one assignment.\<close>

definition surface_fields :: "u8 list \<Rightarrow> AircraftMessage \<Rightarrow> AircraftMessage" where
  "surface_fields msg am =
     (let am = am\<lparr>on_ground := Some True\<rparr>;
          movement = push_bit 4 (ucast (msg ! 4 AND 7)) OR ucast (drop_bit 4 (msg ! 5));
          am = am\<lparr>surface_movement := decode_surface_movement movement\<rparr>
      in if msg ! 5 AND 0x08 \<noteq> 0 then
           let raw = push_bit 4 (ucast (msg ! 5 AND 7)) OR ucast (drop_bit 4 (msg ! 6)) :: u32
           in am\<lparr>surface_direction := Some (real (unat raw) * 360 / 128)\<rparr>
         else am)"

definition airspeed_fields :: "u8 list \<Rightarrow> AircraftMessage \<Rightarrow> AircraftMessage" where
  "airspeed_fields msg am =
     (let am = (if msg ! 5 AND 4 \<noteq> 0 then
                  let raw = push_bit 8 (ucast (msg ! 5 AND 3)) OR ucast (msg ! 6) :: u32
                  in am\<lparr>magnetic_heading := Some (real (unat raw) * 360 / 1024)\<rparr>
                else am);
          raw = push_bit 3 (ucast (msg ! 7 AND 0x7F)) OR ucast (drop_bit 5 (msg ! 8)) :: u32
      in if raw \<noteq> 0 then
           am\<lparr>airspeed := Some (real (unat (raw - 1)) * (if msg ! 4 AND 7 = 4 then 4 else 1)),
              airspeed_true := (msg ! 7 AND 0x80 \<noteq> 0)\<rparr>
         else am)"

definition velocity_fields ::
  "(nat \<Rightarrow> real) \<Rightarrow> (component \<Rightarrow> component \<Rightarrow> real) \<Rightarrow> u8 list \<Rightarrow> AircraftMessage \<Rightarrow> AircraftMessage" where
  "velocity_fields fsqrt fatan2 msg am =
     (let am = am\<lparr>on_ground := Some False\<rparr>;
          am = am\<lparr>velocity := decode_velocity fsqrt fatan2 msg\<rparr>;
          am = (if msg ! 4 AND 7 = 3 \<or> msg ! 4 AND 7 = 4 then airspeed_fields msg am else am)
      in am\<lparr>vertical_rate := decode_vertical_rate msg\<rparr>)"

definition set_squawk :: "u32 \<Rightarrow> AircraftMessage \<Rightarrow> AircraftMessage" where
  "set_squawk id13 am = (if id13 \<noteq> 0 then am\<lparr>squawk := Some (decode_squawk id13)\<rparr> else am)"

definition extended_squitter_fields ::
  "(nat \<Rightarrow> real) \<Rightarrow> (component \<Rightarrow> component \<Rightarrow> real) \<Rightarrow> u8 list \<Rightarrow> AircraftMessage \<Rightarrow> AircraftMessage" where
  "extended_squitter_fields fsqrt fatan2 msg am =
     (let tc = drop_bit 3 (msg ! 4) in
      if 1 \<le> tc \<and> tc \<le> 4 then
        let cs = decode_callsign msg in if cs \<noteq> '''' then am\<lparr>callsign := Some cs\<rparr> else am
      else if 5 \<le> tc \<and> tc \<le> 8 then surface_fields msg am
      else if 9 \<le> tc \<and> tc \<le> 18 \<or> 20 \<le> tc \<and> tc \<le> 22 then
        am\<lparr>on_ground := Some False, altitude := decode_altitude msg True\<rparr>
      else if tc = 19 then velocity_fields fsqrt fatan2 msg am
      else if tc = 28 \<and> msg ! 4 AND 7 = 1 then
        set_squawk (push_bit 8 (ucast (msg ! 5 AND 0x1F)) OR ucast (msg ! 6))
          (am\<lparr>emergency := Some (drop_bit 5 (msg ! 5))\<rparr>)
      else am)"

definition message_fields ::
  "(nat \<Rightarrow> real) \<Rightarrow> (component \<Rightarrow> component \<Rightarrow> real) \<Rightarrow> u8 list \<Rightarrow> AircraftMessage \<Rightarrow> AircraftMessage" where
  "message_fields fsqrt fatan2 msg am =
     (if df am = 17 \<or> df am = 18 then extended_squitter_fields fsqrt fatan2 msg am
      else if df am = 0 \<or> df am = 4 \<or> df am = 16 \<or> df am = 20 then
        am\<lparr>altitude := decode_altitude msg False\<rparr>
      else if df am = 5 \<or> df am = 21 then
        set_squawk (push_bit 8 (ucast (msg ! 2 AND 0x1F)) OR ucast (msg ! 3)) am
      else am)"

definition is_short_df :: "u8 \<Rightarrow> bool" where
  "is_short_df d = (d = 0 \<or> d = 4 \<or> d = 5 \<or> d = 11)"

text \<open>The address: in the clear, or the parity of the message. \<open>Panic\<close> is the assertion of \<open>crc24_parity\<close>.\<close>

definition message_address :: "u8 \<Rightarrow> u8 list \<Rightarrow> u32 run" where
  "message_address d msg =
     (if d = 11 \<or> d = 17 \<or> d = 18 then Done (address24 msg)
      else case crc24_parity msg of None \<Rightarrow> Panic | Some p \<Rightarrow> Done p)"

definition decode_validated_mode_s_message ::
  "(nat \<Rightarrow> real) \<Rightarrow> (component \<Rightarrow> component \<Rightarrow> real) \<Rightarrow> u8 list \<Rightarrow> AircraftMessage option run" where
  "decode_validated_mode_s_message fsqrt fatan2 msg =
     (let d = extract_df msg; required_len = (if is_short_df d then 7 else 14) in
      if length msg < required_len then Done None
      else
        let msg = take required_len msg in
        case message_address d msg of
          Panic \<Rightarrow> Panic
        | Done address \<Rightarrow>
            let am = AircraftMessage_default
                  \<lparr>icao := address, df := d, address_type := ''icao'',
                   source := (if d = 17 \<or> d = 18 then ''adsb'' else ''mode_s'')\<rparr>
            in if d = 18 then
                 case df18_identity msg of
                   None \<Rightarrow> Done None
                 | Some identity \<Rightarrow>
                     Done (Some (message_fields fsqrt fatan2 msg
                       (am\<lparr>icao := key identity, address_type := id_address_type identity,
                           source := id_source identity\<rparr>)))
               else Done (Some (message_fields fsqrt fatan2 msg am)))"

definition decode_mode_s_message ::
  "(nat \<Rightarrow> real) \<Rightarrow> (component \<Rightarrow> component \<Rightarrow> real) \<Rightarrow> u8 list \<Rightarrow> AircraftMessage option run" where
  "decode_mode_s_message fsqrt fatan2 msg =
     (if length msg < 7 then Done None
      else
        let d = extract_df msg;
            long_msg = (\<not> is_short_df d);
            required_len = (if long_msg then 14 else 7)
        in if length msg < required_len then Done None
           else
             let msg = take required_len msg in
             case (if d = 11 then map_option (\<lambda>p. p AND 0xFFFF80 \<noteq> 0) (crc24_parity msg)
                   else if d = 17 \<or> d = 18 then map_option Not (check_crc msg)
                   else Some False) of
               None \<Rightarrow> Panic
             | Some True \<Rightarrow> Done None
             | Some False \<Rightarrow> decode_validated_mode_s_message fsqrt fatan2 msg)"

section \<open>The gate\<close>

lemma crc24_parity_defined: "3 \<le> length msg \<Longrightarrow> \<exists>p. crc24_parity msg = Some p"
  by (simp add: crc24_parity_def Let_def)



text \<open>The field decoder leaves the identity of the message alone.\<close>

lemma set_squawk_frame [frame_simps]:
  "icao (set_squawk i am) = icao am" "df (set_squawk i am) = df am"
  "address_type (set_squawk i am) = address_type am" "source (set_squawk i am) = source am"
  by (simp_all add: set_squawk_def)

lemma message_fields_frame [frame_simps]:
  "icao (message_fields fs fa msg am) = icao am" "df (message_fields fs fa msg am) = df am"
  "address_type (message_fields fs fa msg am) = address_type am"
  "source (message_fields fs fa msg am) = source am"
  by (simp_all add: message_fields_def extended_squitter_fields_def surface_fields_def
      velocity_fields_def airspeed_fields_def Let_def frame_simps)


text \<open>What the gate lets through, as one test on the bytes of the message.\<close>

definition passes_gate :: "u8 list \<Rightarrow> bool" where
  "passes_gate msg =
     (let d = extract_df msg; n = (if is_short_df d then 7 else 14) in
      n \<le> length msg \<and>
      (d = 11 \<longrightarrow> (\<exists>p. crc24_parity (take n msg) = Some p \<and> p AND 0xFFFF80 = 0)) \<and>
      (d = 17 \<or> d = 18 \<longrightarrow> check_crc (take n msg) = Some True))"

lemma extract_df_take: "0 < n \<Longrightarrow> extract_df (take n msg) = extract_df msg"
  by (cases msg; cases n) (simp_all add: extract_df_def)

lemma decode_validated_take:
  assumes n: "n = (if is_short_df (extract_df msg) then 7 else 14)"
  shows "decode_validated_mode_s_message fs fa (take n msg) = decode_validated_mode_s_message fs fa msg"
proof -
  have "extract_df (take n msg) = extract_df msg" by (rule extract_df_take) (simp add: n)
  moreover have "take n (take n msg) = take n msg" "(length (take n msg) < n) = (length msg < n)"
    by auto
  ultimately show ?thesis
    unfolding decode_validated_mode_s_message_def Let_def by (simp only: n [symmetric])
qed

lemma check_crc_defined: "3 \<le> length msg \<Longrightarrow> \<exists>b. check_crc msg = Some b"
  using crc24_parity_defined [of msg] by (auto simp: check_crc_def)

lemma decode_mode_s_message_gate:
  "decode_mode_s_message fs fa msg =
     (if passes_gate msg then decode_validated_mode_s_message fs fa msg else Done None)"
proof -
  define n where "n = (if is_short_df (extract_df msg) then 7 else 14 :: nat)"
  have n: "7 \<le> n" "(if \<not> is_short_df (extract_df msg) then 14 else 7) = n" by (simp_all add: n_def)
  have gate: "passes_gate msg = (n \<le> length msg \<and>
      (extract_df msg = 11 \<longrightarrow> (\<exists>p. crc24_parity (take n msg) = Some p \<and> p AND 0xFFFF80 = 0)) \<and>
      (extract_df msg = 17 \<or> extract_df msg = 18 \<longrightarrow> check_crc (take n msg) = Some True))"
    unfolding passes_gate_def Let_def n_def ..
  show ?thesis
  proof (cases "n \<le> length msg")
    case False
    then show ?thesis using n by (simp add: decode_mode_s_message_def Let_def gate)
  next
    case True
    then have "3 \<le> length (take n msg)" using n(1) by simp
    from crc24_parity_defined [OF this] check_crc_defined [OF this] obtain p b
      where p: "crc24_parity (take n msg) = Some p" and b: "check_crc (take n msg) = Some b" by blast
    have t: "decode_validated_mode_s_message fs fa (take n msg) = decode_validated_mode_s_message fs fa msg"
      by (rule decode_validated_take) (rule n_def)
    show ?thesis
      using True n(1) unfolding decode_mode_s_message_def Let_def n(2) p b gate
      by (simp add: t split: bool.split)
  qed
qed

section \<open>Identity\<close>

lemma cf_namespace_small: "cf_namespace cf imf = Some (ns, k, src) \<Longrightarrow> ns \<le> 0x13"
  by (auto simp: cf_namespace_def split: if_splits)









section \<open>Frames with parity\<close>

text \<open>How a transponder closes a message: the parity of the bytes before it, in three bytes.\<close>

definition with_parity :: "u8 list \<Rightarrow> u8 list" where
  "with_parity p =
     p @ [ucast (drop_bit 16 (crc24 p)), ucast (drop_bit 8 (crc24 p)), ucast (crc24 p)]"

lemma word24_bytes:
  fixes x :: u24
  shows "push_bit 16 (ucast (ucast (drop_bit 16 (ucast x :: u32)) :: u8)) XOR
    push_bit 8 (ucast (ucast (drop_bit 8 (ucast x :: u32)) :: u8)) XOR
    ucast (ucast (ucast x :: u32) :: u8) = x" (is "?a XOR ?b XOR ?c = x")
proof (rule bit_word_eqI)
  fix i assume i: "i < LENGTH(24)"
  have "bit ?a i = (16 \<le> i \<and> bit x i)" "bit ?b i = (8 \<le> i \<and> i < 16 \<and> bit x i)"
    "bit ?c i = (i < 8 \<and> bit x i)"
    using i by (auto simp: bit_push_bit_iff bit_unsigned_iff bit_drop_bit_eq)
  then show "bit (?a XOR ?b XOR ?c) i = bit x i" by (auto simp only: bit_xor_iff)
qed

lemma check_crc_with_parity: "check_crc (with_parity p) = Some True"
proof -
  have "crc24_parity (with_parity p) = Some (ucast (crc24_ref p XOR crc24_ref p))"
    unfolding with_parity_def crc24_parity_snoc crc24_eq_ref xor.assoc
    by (simp only: word24_bytes [unfolded xor.assoc])
  then show ?thesis by (simp add: check_crc_def)
qed

section \<open>Identification squitters\<close>

text \<open>The sender: six bits per character of the call sign, eight characters in six bytes.\<close>

definition callsign_alphabet :: string where
  "callsign_alphabet = ''ABCDEFGHIJKLMNOPQRSTUVWXYZ0123456789 ''"

definition char_code :: "char \<Rightarrow> u8" where
  "char_code ch = of_char ch AND 0x3F"

fun pack_sixbit :: "u8 list \<Rightarrow> u8 list" where
  "pack_sixbit (a # b # c # d # rest) =
     (push_bit 2 a OR drop_bit 4 b) # (push_bit 4 b OR drop_bit 2 c) # (push_bit 6 c OR d)
       # pack_sixbit rest"
| "pack_sixbit _ = []"

definition identification_squitter :: "u8 \<Rightarrow> u8 list \<Rightarrow> u8 \<Rightarrow> string \<Rightarrow> u8 list" where
  "identification_squitter ca addr category cs =
     with_parity ([0x88 OR (ca AND 7)] @ addr @ [category] @ pack_sixbit (map char_code cs))"

lemma callsign_char_code:
  assumes "ch \<in> set callsign_alphabet"
  shows "callsign_char (char_code ch) = ch" and "char_code ch AND 0x3F = char_code ch"
proof -
  have "list_all (\<lambda>ch. callsign_char (char_code ch) = ch) callsign_alphabet"
    by (simp add: callsign_alphabet_def callsign_char_def char_code_def) (simp add: char_of_def bit_0)
  then show "callsign_char (char_code ch) = ch" using assms by (simp add: list_all_iff)
  show "char_code ch AND 0x3F = char_code ch" by (simp add: char_code_def and.assoc)
qed

lemma sixbit_unpack:
  fixes a b c d :: u8
  assumes six: "a AND 0x3F = a" "b AND 0x3F = b" "c AND 0x3F = c" "d AND 0x3F = d"
  shows "drop_bit 2 (push_bit 2 a OR drop_bit 4 b) AND 0x3F = a"
    and "push_bit 4 ((push_bit 2 a OR drop_bit 4 b) AND 0x03) OR drop_bit 4 (push_bit 4 b OR drop_bit 2 c) = b"
    and "push_bit 2 ((push_bit 4 b OR drop_bit 2 c) AND 0x0F) OR drop_bit 6 (push_bit 6 c OR d) = c"
    and "(push_bit 6 c OR d) AND 0x3F = d"
proof -
  have m: "(0x3F :: u8) = mask 6" "(0x03 :: u8) = mask 2" "(0x0F :: u8) = mask 4"
    by (simp_all add: mask_eq_exp_minus_1)
  have low: "bit x i \<Longrightarrow> i < 6" if "x AND 0x3F = x" for x :: u8 and i
    using that unfolding m by (metis bit_and_iff bit_mask_iff)
  have l: "\<not> bit a 6" "\<not> bit a 7" "\<not> bit b 6" "\<not> bit b 7" "\<not> bit c 6" "\<not> bit c 7" "\<not> bit d 6" "\<not> bit d 7"
    using low [OF six(1), of 6] low [OF six(1), of 7] low [OF six(2), of 6] low [OF six(2), of 7]
      low [OF six(3), of 6] low [OF six(3), of 7] low [OF six(4), of 6] low [OF six(4), of 7] by auto
  have low_eqI: "x = y" if eq: "\<And>i. i \<in> {0, 1, 2, 3, 4, 5, 6, 7} \<Longrightarrow> bit x i = bit y i" for x y :: u8
  proof (rule bit_word_eqI)
    fix i assume "i < LENGTH(8)"
    then have "i \<in> {0, 1, 2, 3, 4, 5, 6, 7}" using less_8_cases [of i] by simp
    then show "bit x i = bit y i" by (rule eq)
  qed
  have high: "8 \<le> n \<Longrightarrow> \<not> bit x n" for x :: u8 and n using bit_imp_le_length [of x n] by auto
  note eqs = high bit_or_iff bit_and_iff bit_push_bit_iff bit_drop_bit_eq bit_mask_iff o_apply
  show "drop_bit 2 (push_bit 2 a OR drop_bit 4 b) AND 0x3F = a"
    unfolding m by (rule low_eqI) (elim insertE emptyE; simp add: eqs l)
  show "push_bit 4 ((push_bit 2 a OR drop_bit 4 b) AND 0x03) OR drop_bit 4 (push_bit 4 b OR drop_bit 2 c) = b"
    unfolding m by (rule low_eqI) (elim insertE emptyE; simp add: eqs l)
  show "push_bit 2 ((push_bit 4 b OR drop_bit 2 c) AND 0x0F) OR drop_bit 6 (push_bit 6 c OR d) = c"
    unfolding m by (rule low_eqI) (elim insertE emptyE; simp add: eqs l)
  show "(push_bit 6 c OR d) AND 0x3F = d"
    unfolding m by (rule low_eqI) (elim insertE emptyE; simp add: eqs l)
qed

lemma callsign_codes_at:
  "callsign_codes (h0 # h1 # h2 # h3 # h4 # x # y # z # u # v # w # rest) =
     [drop_bit 2 x AND 0x3F, push_bit 4 (x AND 0x03) OR drop_bit 4 y,
      push_bit 2 (y AND 0x0F) OR drop_bit 6 z, z AND 0x3F,
      drop_bit 2 u AND 0x3F, push_bit 4 (u AND 0x03) OR drop_bit 4 v,
      push_bit 2 (v AND 0x0F) OR drop_bit 6 w, w AND 0x3F]"
  by (simp add: callsign_codes_def)

lemma callsign_codes_packed:
  assumes "length cs = 8" "set cs \<subseteq> set callsign_alphabet" "length hd5 = 5"
  shows "map callsign_char (callsign_codes (hd5 @ pack_sixbit (map char_code cs) @ rest)) = cs"
proof -
  from assms(3) obtain h0 h1 h2 h3 h4 where h: "hd5 = [h0, h1, h2, h3, h4]"
    by (auto simp: numeral_eq_Suc length_Suc_conv)
  from assms(1) obtain a b c d e f g h' where cs: "cs = [a, b, c, d, e, f, g, h']"
    by (auto simp: numeral_eq_Suc length_Suc_conv)
  have six: "char_code ch AND 0x3F = char_code ch" if "ch \<in> set cs" for ch
    using that assms(2) by (intro callsign_char_code(2)) blast
  have eq: "callsign_codes (hd5 @ pack_sixbit (map char_code cs) @ rest) = map char_code cs"
    using sixbit_unpack [OF six six six six, of a b c d] sixbit_unpack [OF six six six six, of e f g h']
    by (simp only: cs h list.map pack_sixbit.simps append.simps callsign_codes_at list.set
        insert_iff simp_thms)
  have "callsign_char (char_code ch) = ch" if "ch \<in> set cs" for ch
    using that assms(2) by (intro callsign_char_code(1)) blast
  then show ?thesis unfolding eq by (simp add: map_idI)
qed

lemma decode_extended_squitter_frame:
  assumes "extract_df p = 17" "length p = 11"
  shows "decode_mode_s_message fs fa (with_parity p) = Done (Some
    (extended_squitter_fields fs fa (with_parity p) (AircraftMessage_default
       \<lparr>icao := address24 p, df := 17, address_type := ''icao'', source := ''adsb''\<rparr>)))"
proof -
  have len: "length (with_parity p) = 14" using assms(2) by (simp add: with_parity_def)
  have df: "extract_df (with_parity p) = 17"
    using assms by (cases p) (simp_all add: with_parity_def extract_df_def)
  have addr: "address24 (with_parity p) = address24 p"
    using assms(2) by (simp add: address24_def with_parity_def nth_append)
  have short: "\<not> is_short_df 17" by (simp add: is_short_df_def)
  have gate: "passes_gate (with_parity p)"
    using len by (simp add: passes_gate_def df short check_crc_with_parity)
  have "decode_validated_mode_s_message fs fa (with_parity p) = Done (Some
    (message_fields fs fa (with_parity p) (AircraftMessage_default
       \<lparr>icao := address24 p, df := 17, address_type := ''icao'', source := ''adsb''\<rparr>)))"
    using len short
    by (simp add: decode_validated_mode_s_message_def df message_address_def addr Let_def)
  then show ?thesis by (simp add: decode_mode_s_message_gate gate message_fields_def)
qed

section \<open>Altitude fields\<close>

text \<open>The sender: 25 ft steps with the Q bit where they reach, the Gillham code of
  \<open>altitude_100ft_to_squawk\<close> above and below, in the 13-bit field; the 12-bit field of the extended
  squitter leaves the M bit out.\<close>

definition ac13_25ft :: "u32 \<Rightarrow> u32" where
  "ac13_25ft n = push_bit 2 (n AND 0x7E0) OR push_bit 1 (n AND 0x10) OR 0x10 OR (n AND 0xF)"

definition id13_of :: "u32 \<Rightarrow> u32" where
  "id13_of m =
     (let put = (\<lambda>i j. push_bit j (drop_bit i m AND 1)) in
      put 4 12 OR put 12 11 OR put 5 10 OR put 13 9 OR put 6 8 OR put 14 7 OR put 8 5 OR put 9 3 OR
      put 1 2 OR put 10 1 OR put 2 0)"

definition encode_ac13 :: "int \<Rightarrow> u32 option" where
  "encode_ac13 feet =
     (if 25 dvd feet \<and> -1000 \<le> feet \<and> feet \<le> 50175 then
        Some (ac13_25ft (word_of_int ((feet + 1000) div 25)))
      else if 100 dvd feet then map_option id13_of (altitude_100ft_to_squawk (feet div 100))
      else None)"

definition ac12_of_ac13 :: "u32 \<Rightarrow> u32" where
  "ac12_of_ac13 ac = drop_bit 1 (ac AND 0x1F80) OR (ac AND 0x3F)"

lemma altitude_masks:
  "(0x7E0 :: u32) = push_bit 5 (mask 6)" "(0x1F80 :: u32) = push_bit 7 (mask 6)"
  "(0x0FE0 :: u32) = push_bit 5 (mask 7)" "(0x0FC0 :: u32) = push_bit 6 (mask 6)"
  "(0x3F :: u32) = mask 6" "(0xF :: u32) = mask 4" "(0x10 :: u32) = push_bit 4 (mask 1)"
  "(0x20 :: u32) = push_bit 5 (mask 1)" "(0x40 :: u32) = push_bit 6 (mask 1)"
  by (simp_all add: mask_eq_exp_minus_1)

lemmas field_bits = altitude_masks bit_or_iff bit_and_iff bit_push_bit_iff bit_drop_bit_eq bit_mask_iff

lemma bit_ac13_25ft:
  "bit (ac13_25ft n) i = (7 \<le> i \<and> i < 13 \<and> bit n (i - 2) \<or> i = 5 \<and> bit n 4 \<or> i = 4 \<or> i < 4 \<and> bit n i)"
proof (cases "i < 13")
  case True
  then have "i \<in> {0, 1, 2, 3, 4, 5, 6, 7, 8, 9, 10, 11, 12}"
    unfolding insert_iff empty_iff by arith
  then show ?thesis
    unfolding ac13_25ft_def field_bits by (elim insertE emptyE) simp_all
next
  case False
  then show ?thesis unfolding ac13_25ft_def field_bits by simp arith
qed

lemma u32_small_bits:
  assumes "unat n < 2 ^ k" "bit n i"
  shows "i < k"
proof (rule ccontr)
  assume "\<not> i < k"
  moreover have "take_bit k (unat n) = unat n" using assms(1) by (rule take_bit_nat_eq_self)
  then have "\<not> bit (unat n) i" using \<open>\<not> i < k\<close> by (metis bit_take_bit_iff)
  moreover have "bit (unat n) i" using assms(2) by (simp add: bit_unsigned_iff bit_imp_le_length)
  ultimately show False by simp
qed

lemma ac13_25ft_decode:
  assumes "unat n < 2048"
  defines "ac \<equiv> ac13_25ft n"
  shows "drop_bit 2 (ac AND 0x1F80) OR drop_bit 1 (ac AND 0x0020) OR (ac AND 0x000F) = n"
    and "drop_bit 1 (ac12_of_ac13 ac AND 0x0FE0) OR (ac12_of_ac13 ac AND 0x000F) = n"
proof -
  have n: "bit n i \<Longrightarrow> i < 11" for i using u32_small_bits [of n 11 i] assms(1) by simp
  have ac: "bit ac i = (7 \<le> i \<and> i < 13 \<and> bit n (i - 2) \<or> i = 5 \<and> bit n 4 \<or> i = 4 \<or> i < 4 \<and> bit n i)" for i
    unfolding ac_def by (rule bit_ac13_25ft)
  have small: "x = n" if "\<And>i :: nat. i \<in> {0, 1, 2, 3, 4, 5, 6, 7, 8, 9, 10} \<Longrightarrow> bit x i = bit n i"
    and "\<And>i. 11 \<le> i \<Longrightarrow> \<not> bit x i" for x :: u32
  proof (rule bit_word_eqI)
    fix i :: nat
    have "i \<in> {0, 1, 2, 3, 4, 5, 6, 7, 8, 9, 10} \<or> 11 \<le> i" unfolding insert_iff empty_iff by arith
    then show "bit x i = bit n i"
    proof
      assume "11 \<le> i"
      then show ?thesis using that(2) [of i] n [of i] by auto
    qed (rule that(1))
  qed
  show "drop_bit 2 (ac AND 0x1F80) OR drop_bit 1 (ac AND 0x0020) OR (ac AND 0x000F) = n"
    by (rule small; unfold field_bits o_apply ac) ((elim insertE emptyE)?; simp)+
  show "drop_bit 1 (ac12_of_ac13 ac AND 0x0FE0) OR (ac12_of_ac13 ac AND 0x000F) = n"
    unfolding ac12_of_ac13_def
    by (rule small; unfold field_bits o_apply ac) ((elim insertE emptyE)?; simp)+
qed

lemma bit_id13_of:
  "bit (id13_of m) i =
     (i = 12 \<and> bit m 4 \<or> i = 11 \<and> bit m 12 \<or> i = 10 \<and> bit m 5 \<or> i = 9 \<and> bit m 13 \<or> i = 8 \<and> bit m 6 \<or>
      i = 7 \<and> bit m 14 \<or> i = 5 \<and> bit m 8 \<or> i = 3 \<and> bit m 9 \<or> i = 2 \<and> bit m 1 \<or> i = 1 \<and> bit m 10 \<or>
      i = 0 \<and> bit m 2)"
proof -
  have lt: "(12 :: nat) < 32" "(11 :: nat) < 32" "(10 :: nat) < 32" "(9 :: nat) < 32" "(8 :: nat) < 32"
    "(7 :: nat) < 32" "(5 :: nat) < 32" "(3 :: nat) < 32" "(2 :: nat) < 32" "(1 :: nat) < 32"
    "(0 :: nat) < 32" by simp_all
  show ?thesis
    unfolding id13_of_def Let_def
    by (simp only: bit_or_iff bit_flag32 [OF lt(1)] bit_flag32 [OF lt(2)] bit_flag32 [OF lt(3)]
        bit_flag32 [OF lt(4)] bit_flag32 [OF lt(5)] bit_flag32 [OF lt(6)] bit_flag32 [OF lt(7)]
        bit_flag32 [OF lt(8)] bit_flag32 [OF lt(9)] bit_flag32 [OF lt(10)] bit_flag32 [OF lt(11)]
        disj_assoc)
qed

lemma decode_id13_of_squawk: "decode_id13_field (id13_of (squawk_of c g)) = squawk_of c g"
proof (rule bit_word_eqI)
  fix n :: nat
  have b: "bit (squawk_of c g) 1 = bit g 7" "bit (squawk_of c g) 2 = bit g 6"
    "bit (squawk_of c g) 4 = bit c 0" "bit (squawk_of c g) 5 = bit c 1" "bit (squawk_of c g) 6 = bit c 2"
    "bit (squawk_of c g) 8 = bit g 2" "bit (squawk_of c g) 9 = bit g 1" "bit (squawk_of c g) 10 = bit g 0"
    "bit (squawk_of c g) 12 = bit g 5" "bit (squawk_of c g) 13 = bit g 4" "bit (squawk_of c g) 14 = bit g 3"
    unfolding bit_squawk_of by simp_all
  show "bit (decode_id13_field (id13_of (squawk_of c g))) n = bit (squawk_of c g) n"
    unfolding bit_decode_id13_field bit_id13_of by (simp add: b) (auto simp: bit_squawk_of)
qed

lemma and_bit_ne_0: "(ac AND 0x10 \<noteq> 0) = bit ac 4" "(ac AND 0x40 \<noteq> 0) = bit ac 6" for ac :: u32
  by (rule and_bit_tests)+

lemma bit_ac12_of_ac13:
  "bit (ac12_of_ac13 ac) i = (6 \<le> i \<and> i < 12 \<and> bit ac (Suc i) \<or> i < 6 \<and> bit ac i)"
  unfolding ac12_of_ac13_def field_bits o_apply by (cases "i < 12") auto

lemma ac12_fields:
  assumes "\<And>i. bit ac i \<Longrightarrow> i < 13" "\<not> bit ac 6"
  shows "push_bit 1 (ac12_of_ac13 ac AND 0x0FC0) OR (ac12_of_ac13 ac AND 0x3F) = ac"
    and "bit (ac12_of_ac13 ac) 4 = bit ac 4"
proof -
  show "push_bit 1 (ac12_of_ac13 ac AND 0x0FC0) OR (ac12_of_ac13 ac AND 0x3F) = ac"
  proof (rule bit_word_eqI)
    fix i :: nat
    have "bit (push_bit 1 (ac12_of_ac13 ac AND 0x0FC0) OR (ac12_of_ac13 ac AND 0x3F)) i =
        (7 \<le> i \<and> i < 13 \<and> bit ac i \<or> i < 6 \<and> bit ac i)"
      unfolding field_bits bit_ac12_of_ac13 by (cases "i < 13") auto
    moreover have "bit ac i \<Longrightarrow> i < 13 \<and> i \<noteq> 6" using assms by blast
    ultimately show "bit (push_bit 1 (ac12_of_ac13 ac AND 0x0FC0) OR (ac12_of_ac13 ac AND 0x3F)) i = bit ac i"
      by (auto simp: less_Suc_eq_le le_less numeral_eq_Suc)
  qed
  show "bit (ac12_of_ac13 ac) 4 = bit ac 4" by (simp add: bit_ac12_of_ac13)
qed

lemma mode_a_to_mode_c_encoded:
  assumes "altitude_100ft_to_squawk a = Some m"
  shows "mode_a_to_mode_c m = Some a" and "\<exists>c g. m = squawk_of c g"
proof -
  have "-12 \<le> a" "a \<le> 1267" using altitude_100ft_to_squawk_range [OF assms] by auto
  from altitude_100ft_to_squawk_Some [OF this] assms
  obtain q c f where q: "one_hundreds_code q = Some c" and m: "m = squawk_of c (gray f)"
    and a: "a = gillham_altitude (unat f) (unat q)" by auto
  show "mode_a_to_mode_c m = Some a" unfolding m a by (rule mode_a_to_mode_c_squawk [OF q])
  show "\<exists>c g. m = squawk_of c g" using m by blast
qed

lemma steps_of_25ft:
  assumes "25 dvd feet" "-1000 \<le> feet" "feet \<le> 50175"
  defines "n \<equiv> word_of_int ((feet + 1000) div 25) :: u32"
  shows "unat n < 2048" and "sint n * 25 - 1000 = feet"
proof -
  from assms(1) obtain k where k: "feet = 25 * k" ..
  have r: "0 \<le> k + 40" "k + 40 < 2048" using assms(2,3) k by auto
  have "(feet + 1000) div 25 = k + 40" by (simp add: k)
  then have "uint n = (k + 40) mod 4294967296" by (simp only: n_def uint_word_of_int) simp
  also have "\<dots> = k + 40" using r by (intro mod_pos_pos_trivial) auto
  finally have u: "unat n = nat (k + 40)" by (simp only: unat_eq_nat_uint)
  then show "unat n < 2048" using r by simp
  then have "sint n = int (unat n)" by (intro sint_small) simp
  then show "sint n * 25 - 1000 = feet" using u r k by simp
qed

text \<open>The two fields, apart from where they stand in the message.\<close>

definition altitude13 :: "u32 \<Rightarrow> int option" where
  "altitude13 ac =
     (if bit ac 6 then None
      else if bit ac 4 then
        Some (sint (drop_bit 2 (ac AND 0x1F80) OR drop_bit 1 (ac AND 0x0020) OR (ac AND 0x000F)) * 25 - 1000)
      else gillham_feet ac)"

definition altitude12 :: "u32 \<Rightarrow> int option" where
  "altitude12 ac =
     (if bit ac 4 then Some (sint (drop_bit 1 (ac AND 0x0FE0) OR (ac AND 0x000F)) * 25 - 1000)
      else gillham_feet (push_bit 1 (ac AND 0x0FC0) OR (ac AND 0x003F)))"

lemma decode_altitude_fields:
  "4 \<le> length msg \<Longrightarrow> decode_altitude msg False = altitude13 (push_bit 8 (ucast (msg ! 2 AND 0x1F)) OR ucast (msg ! 3))"
  "7 \<le> length msg \<Longrightarrow> decode_altitude msg True = altitude12 (push_bit 4 (ucast (msg ! 5)) OR drop_bit 4 (ucast (msg ! 6)))"
  unfolding decode_altitude_def altitude13_def altitude12_def Let_def and_bit_ne_0 by simp_all

lemma encode_ac13_cases:
  assumes "encode_ac13 feet = Some ac"
  obtains (steps) n where "ac = ac13_25ft n" "unat n < 2048" "feet = sint n * 25 - 1000"
  | (gillham) m where "ac = id13_of m" "altitude_100ft_to_squawk (feet div 100) = Some m" "100 dvd feet"
proof (cases "25 dvd feet \<and> -1000 \<le> feet \<and> feet \<le> 50175")
  case True
  then show thesis
    using steps [of "word_of_int ((feet + 1000) div 25)"] steps_of_25ft [of feet] assms
    by (simp add: encode_ac13_def)
next
  case False
  then show thesis using gillham assms by (auto simp: encode_ac13_def split: if_splits)
qed

lemma gillham_feet_encoded:
  assumes "altitude_100ft_to_squawk (feet div 100) = Some m" "100 dvd feet"
  shows "gillham_feet (id13_of m) = Some feet"
proof -
  note c = mode_a_to_mode_c_encoded [OF assms(1)]
  have "decode_id13_field (id13_of m) = m" using c(2) decode_id13_of_squawk by blast
  then show ?thesis
    using c(1) assms(2) altitude_100ft_to_squawk_range [OF assms(1)] by (simp add: gillham_feet_def)
qed

lemma altitude_fields_encoded:
  assumes "encode_ac13 feet = Some ac"
  shows "altitude13 ac = Some feet \<and> altitude12 (ac12_of_ac13 ac) = Some feet"
  using assms
proof (cases rule: encode_ac13_cases)
  case (steps n)
  have "bit ac 4" "\<not> bit ac 6" "bit (ac12_of_ac13 ac) 4"
    unfolding steps(1) bit_ac12_of_ac13 bit_ac13_25ft by simp_all
  then show ?thesis
    unfolding altitude13_def altitude12_def
    by (simp only: ac13_25ft_decode [OF steps(2), folded steps(1)] steps(3) if_True if_False simp_thms)
next
  case (gillham m)
  have ac: "bit ac i \<Longrightarrow> i < 13" "\<not> bit ac 4" "\<not> bit ac 6" for i
    unfolding gillham(1) bit_id13_of by auto
  have "altitude13 ac = gillham_feet ac" "altitude12 (ac12_of_ac13 ac) = gillham_feet ac"
    unfolding altitude13_def altitude12_def ac12_fields(1) [OF ac(1,3)]
    by (simp_all only: ac ac12_fields [OF ac(1,3)] if_False)
  then show ?thesis by (simp only: gillham(1) gillham_feet_encoded [OF gillham(2,3)])
qed

section \<open>Ranges of the decoded fields\<close>
































section \<open>Properties\<close>


lemma sample_squitter_crc: "check_crc sample_squitter = Some True"
proof -
  have "crc24_ref sample_squitter = 0"
    by (simp add: crc24_ref_def sample_squitter_def lfsr_byte_def lfsr_numeral lfsr_def)
  then show ?thesis by (subst check_crc_ref) (simp_all add: sample_squitter_def)
qed

lemma sample_squitter_decodes:
  "decode_mode_s_message fs fa sample_squitter = Done (Some (AircraftMessage_default
     \<lparr>icao := 0x4840D6, df := 17, address_type := ''icao'', source := ''adsb'',
      callsign := Some ''KLM1023''\<rparr>))"
proof -
  have "length sample_squitter = 14" "extract_df sample_squitter = 17"
    by (simp_all add: sample_squitter_def extract_df_def)
  then have "passes_gate sample_squitter"
    using sample_squitter_crc by (simp add: passes_gate_def is_short_df_def)
  moreover have "decode_callsign sample_squitter = ''KLM1023''"
    by (simp add: decode_callsign_def callsign_codes_def sample_squitter_def callsign_char_def
        trim_def trim_end_def) (simp add: char_of_def bit_0)
  moreover have "address24 sample_squitter = 0x4840D6" "drop_bit 3 (sample_squitter ! 4) = 4"
    by (simp_all add: address24_def sample_squitter_def)
  ultimately show ?thesis
    using \<open>length sample_squitter = 14\<close> \<open>extract_df sample_squitter = 17\<close>
    by (simp add: decode_mode_s_message_gate decode_validated_mode_s_message_def is_short_df_def
        message_address_def message_fields_def extended_squitter_fields_def Let_def)
qed


text \<open>C33: an identification squitter with any capability, address, category and call sign over the
  alphabet of the format passes the gate and decodes to exactly its address and its call sign
  without the surrounding blanks, and to nothing else.\<close>

theorem identification_squitter_roundtrip:
  assumes "length addr = 3" and "1 \<le> drop_bit 3 category" and "drop_bit 3 category \<le> 4"
    and "length cs = 8" and "set cs \<subseteq> set callsign_alphabet"
  shows "decode_mode_s_message fs fa (identification_squitter ca addr category cs) =
    Done (Some (AircraftMessage_default
      \<lparr>icao := push_bit 16 (ucast (addr ! 0)) OR push_bit 8 (ucast (addr ! 1)) OR ucast (addr ! 2),
       df := 17, address_type := ''icao'', source := ''adsb'',
       callsign := (if trim cs = '''' then None else Some (trim cs))\<rparr>))"
proof -
  define p where "p = [0x88 OR (ca AND 7)] @ addr @ [category] @ pack_sixbit (map char_code cs)"
  from assms(1) obtain a b c where addr: "addr = [a, b, c]"
    by (auto simp: numeral_eq_Suc length_Suc_conv)
  obtain c0 c1 c2 c3 c4 c5 c6 c7 where cs: "cs = [c0, c1, c2, c3, c4, c5, c6, c7]"
    using assms(4) by (auto simp: numeral_eq_Suc length_Suc_conv)
  have len: "length p = 11" by (simp add: p_def addr cs)
  have "drop_bit 3 (0x88 OR (ca AND 7)) = (17 :: u8)"
  proof (rule bit_word_eqI)
    fix i :: nat
    have "(7 :: u8) = mask 3" by (simp add: mask_eq_exp_minus_1)
    then have "\<not> bit (ca AND 7) (3 + i)" by (simp only: bit_and_iff bit_mask_iff) simp
    then have "bit (drop_bit 3 (0x88 OR (ca AND 7))) i = bit (drop_bit 3 (0x88 :: u8)) i"
      by (simp only: bit_drop_bit_eq bit_or_iff o_apply simp_thms)
    then show "bit (drop_bit 3 (0x88 OR (ca AND 7))) i = bit (17 :: u8) i" by simp
  qed
  then have df: "extract_df p = 17" by (simp add: p_def extract_df_def)
  have "map callsign_char (callsign_codes (([0x88 OR (ca AND 7)] @ addr @ [category]) @
      pack_sixbit (map char_code cs) @ rest)) = cs" for rest
    by (rule callsign_codes_packed) (simp_all add: assms)
  then have "decode_callsign (with_parity p) = trim cs"
    by (simp only: decode_callsign_def with_parity_def p_def append.assoc)
  moreover have "address24 p = push_bit 16 (ucast (addr ! 0)) OR push_bit 8 (ucast (addr ! 1)) OR ucast (addr ! 2)"
    by (simp add: address24_def p_def addr)
  moreover have "with_parity p ! 4 = category" by (simp add: with_parity_def p_def addr)
  moreover have "identification_squitter ca addr category cs = with_parity p"
    by (simp only: identification_squitter_def p_def)
  ultimately show ?thesis
    using assms(2,3) decode_extended_squitter_frame [OF df len, of fs fa]
    by (simp add: extended_squitter_fields_def AircraftMessage_default_def Let_def)
qed

lemma identification_squitter_roundtrip_witness:
  "decode_mode_s_message (\<lambda>_. 0) (\<lambda>_ _. 0) (identification_squitter 5 [0x48, 0x40, 0xD6] 0x20 ''KLM 10  '') =
    Done (Some (AircraftMessage_default
      \<lparr>icao := 0x4840D6, df := 17, address_type := ''icao'', source := ''adsb'',
       callsign := Some ''KLM 10''\<rparr>))"
  using identification_squitter_roundtrip [where addr = "[0x48, 0x40, 0xD6]" and category = "0x20"
      and cs = "''KLM 10  ''" and fs = "\<lambda>_. 0" and fa = "\<lambda>_ _. 0" and ca = 5]
  by (simp add: callsign_alphabet_def trim_def trim_end_def)

text \<open>An altitude encoded as the format prescribes, in 25 ft steps or in the Gillham code, is
  what \<open>decode_altitude\<close> reads back: from the 13-bit field of a surveillance reply, and from the
  12-bit field of an airborne position squitter, whatever the other bytes hold.\<close>

lemma altitude_field_roundtrip:
  assumes "encode_ac13 feet = Some ac"
  shows "(4 \<le> length msg \<and> push_bit 8 (ucast (msg ! 2 AND 0x1F)) OR ucast (msg ! 3) = ac
        \<longrightarrow> decode_altitude msg False = Some feet) \<and>
    (7 \<le> length msg \<and> push_bit 4 (ucast (msg ! 5)) OR drop_bit 4 (ucast (msg ! 6)) = ac12_of_ac13 ac
        \<longrightarrow> decode_altitude msg True = Some feet)"
  using altitude_fields_encoded [OF assms] decode_altitude_fields [of msg] by simp

lemma altitude_field_roundtrip_witness:
  "decode_altitude [0x20, 0, 0x18, 0x38] False = Some 38000 \<and>
   decode_altitude [0x8D, 0x40, 0x62, 0x1D, 0x58, 0xC3, 0x82, 0] True = Some 38000"
proof -
  have enc: "encode_ac13 38000 = Some 0x1838" by (simp add: encode_ac13_def ac13_25ft_def)
  have c12: "ac12_of_ac13 0x1838 = 0xC38" by (simp add: ac12_of_ac13_def)
  show ?thesis
    using altitude_field_roundtrip [OF enc, of "[0x20, 0, 0x18, 0x38]"]
      altitude_field_roundtrip [OF enc, of "[0x8D, 0x40, 0x62, 0x1D, 0x58, 0xC3, 0x82, 0]"]
    unfolding c12 by simp
qed



text \<open>C15: a squitter that was accepted is refused once a burst within 24 consecutive bits, behind
  the five bits of the format, has changed it: the decoder reports nothing rather than a wrong
  aircraft.\<close>

theorem corrupted_squitter_rejected:
  assumes "decode_mode_s_message fs fa msg = Done (Some am)"
    and "extract_df msg = 17 \<or> extract_df msg = 18" and "length msg = 14" and "length err = 14"
    and "msg_bits err = replicate i False @ w @ replicate j False"
    and "5 \<le> i" and "length w \<le> 24" and "True \<in> set w"
  shows "decode_mode_s_message fs fa (map2 (XOR) msg err) = Done None"
proof -
  have "passes_gate msg" using assms(1) by (simp add: decode_mode_s_message_gate split: if_splits)
  then have crc: "check_crc msg = Some True"
    using assms(2,3) by (auto simp: passes_gate_def is_short_df_def)
  have bad: "check_crc (map2 (XOR) msg err) = Some False"
    by (rule burst_rejected [OF crc _ assms(5,7,8)]) (simp add: assms(3,4))
  obtain e es where err: "err = e # es" using assms(4) by (cases err) auto
  obtain b bs where msg: "msg = b # bs" using assms(3) by (cases msg) auto
  have "\<not> bit e k" if "3 \<le> k" for k
  proof (cases "k < 8")
    case True
    then have "7 - k < 8" "7 - (7 - k) = k" by simp_all
    then have "bit e k = msg_bits err ! (7 - k)"
      by (simp add: err msg_bits_def byte_bits_def nth_append)
    also have "\<dots> = False" using assms(5,6) that True by (simp add: nth_append less_diff_conv2)
    finally show ?thesis by simp
  qed (use bit_imp_le_length [of e k] in auto)
  then have "drop_bit 3 (b XOR e) = drop_bit 3 b"
    by (intro bit_word_eqI) (simp add: bit_simps)
  then have df: "extract_df (map2 (XOR) msg err) = extract_df msg"
    by (simp add: msg err extract_df_def)
  have "\<not> passes_gate (map2 (XOR) msg err)"
    using assms(2-4) bad by (auto simp: passes_gate_def df is_short_df_def)
  then show ?thesis by (simp add: decode_mode_s_message_gate)
qed

lemma corrupted_squitter_rejected_witness:
  "decode_mode_s_message (\<lambda>_. 0) (\<lambda>_ _. 0)
     (map2 (XOR) sample_squitter [0, 0, 0, 0, 0, 0xFF, 0, 0, 0, 0, 0, 0, 0, 0]) = Done None"
proof (rule corrupted_squitter_rejected [OF sample_squitter_decodes])
  show "msg_bits [0, 0, 0, 0, 0, 0xFF, 0, 0, 0, 0, 0, 0, 0, 0] =
      replicate 40 False @ replicate 8 True @ replicate 64 False"
    by (simp add: msg_bits_def byte_bits_def numeral_eq_Suc replicate_append_same)
qed (simp_all add: sample_squitter_def extract_df_def)

end
