(* ===== verification/Uat_Message.thy ===== *)
theory Uat_Message
  imports Float_Real
begin

text \<open>
  The payload decoder of the UAT receiver, \<^verbatim>\<open>uat-decode/src/message.rs\<close>: bit fields of a
  corrected payload (\<open>bits\<close>, \<open>one\<close>) and the ADS-B report \<open>decode_adsb\<close> reads from them. Reports hold
  \<open>i32\<close> values as integers (none can overflow) and \<open>f64\<close> values as reals: \<open>fl\<close> is the rounding of a
  real to the nearest \<open>f64\<close> and \<open>fatan2\<close> is \<open>atan2\<close> in degrees, both parameters, and every \<open>f64\<close>
  operation that can round is wrapped in \<open>fl\<close>. A bit read beyond the payload is \<open>Panic\<close> where the
  length checks do not exclude it. The lemmas show the ranges of all fields and when the decoder
  panics; the receiver theory shows that it is never called so.
\<close>

section \<open>The code\<close>

datatype MessageKind = DownlinkShort | DownlinkLong | Uplink

datatype AirGroundState = Airborne | Supersonic | Ground | Reserved | Invalid

record AdsbReport =
  address_qualifier :: u8
  address :: u32
  callsign :: "string option"
  flight_plan_id :: "string option"
  position :: "(real \<times> real) option"
  pressure_altitude_ft :: "int option"
  geometric_altitude_ft :: "int option"
  north_velocity_kt :: "int option"
  east_velocity_kt :: "int option"
  vertical_velocity_barometric_fpm :: "int option"
  vertical_velocity_geometric_fpm :: "int option"
  ground_speed_kt :: "real option"
  true_track_deg :: "real option"
  magnetic_heading_deg :: "real option"
  true_heading_deg :: "real option"
  air_ground_state :: "AirGroundState option"

text \<open>The loop of \<open>bits\<close> over the positions, counted from one as in the standard.\<close>

definition bits :: "u8 list \<Rightarrow> nat \<Rightarrow> nat \<Rightarrow> u32" where
  "bits bytes first final =
     foldl (\<lambda>result b. push_bit 1 result OR
         ucast (drop_bit (7 - (b - 1) mod 8) (bytes ! ((b - 1) div 8)) AND 1))
       0 [first..<Suc final]"

definition one :: "u8 list \<Rightarrow> nat \<Rightarrow> bool" where
  "one bytes b = (bits bytes b b \<noteq> 0)"

text \<open>The same reads where the payload may be too short: the slice index panics.\<close>

definition in_payload :: "u8 list \<Rightarrow> nat \<Rightarrow> bool" where
  "in_payload bytes final = (final \<le> 8 * length bytes)"

definition rounded :: "(real \<Rightarrow> real) \<Rightarrow> real \<Rightarrow> real \<Rightarrow> real" where
  "rounded fl value digits = fl (round_half_away (fl (value * digits)) / digits)"

definition empty_report :: "u8 list \<Rightarrow> AdsbReport" where
  "empty_report payload =
     \<lparr>address_qualifier = ucast (bits payload 6 8), address = bits payload 9 32,
      callsign = None, flight_plan_id = None, position = None, pressure_altitude_ft = None,
      geometric_altitude_ft = None, north_velocity_kt = None, east_velocity_kt = None,
      vertical_velocity_barometric_fpm = None, vertical_velocity_geometric_fpm = None,
      ground_speed_kt = None, true_track_deg = None, magnetic_heading_deg = None,
      true_heading_deg = None, air_ground_state = None\<rparr>"

definition altitude_part :: "u8 list \<Rightarrow> AdsbReport \<Rightarrow> AdsbReport" where
  "altitude_part payload report =
     (let raw_alt = bits payload 81 92 in
      if raw_alt \<noteq> 0 then
        let altitude = (sint raw_alt - 41) * 25 in
        if one payload 80 then report\<lparr>geometric_altitude_ft := Some altitude\<rparr>
        else report\<lparr>pressure_altitude_ft := Some altitude\<rparr>
      else report)"

definition position_part :: "(real \<Rightarrow> real) \<Rightarrow> u8 list \<Rightarrow> AdsbReport \<Rightarrow> AdsbReport" where
  "position_part fl payload report =
     (let raw_lat = bits payload 33 55; raw_lon = bits payload 56 78; nic = bits payload 93 96 in
      if raw_lat \<noteq> 0 \<or> raw_lon \<noteq> 0 \<or> nic \<noteq> 0 then
        let lat = real (unat raw_lat) * 360 / 16777216;
            lat = (if lat > 90 then lat - 180 else lat);
            lon = real (unat raw_lon) * 360 / 16777216;
            lon = (if lon > 180 then lon - 360 else lon)
        in report\<lparr>position := Some (rounded fl lat 100000, rounded fl lon 100000)\<rparr>
      else report)"

definition air_ground :: "u32 \<Rightarrow> AirGroundState" where
  "air_ground state =
     (if state = 0 then Airborne else if state = 1 then Supersonic else if state = 2 then Ground
      else Reserved)"

definition speed_component :: "u32 \<Rightarrow> bool \<Rightarrow> int \<Rightarrow> int option" where
  "speed_component raw negative scale =
     (if raw \<noteq> 0 then Some ((if negative then -1 else 1) * (sint raw - 1) * scale) else None)"

definition ground_vector ::
  "(real \<Rightarrow> real) \<Rightarrow> (int \<Rightarrow> int \<Rightarrow> real) \<Rightarrow> AdsbReport \<Rightarrow> AdsbReport" where
  "ground_vector fl fatan2 report =
     (case (north_velocity_kt report, east_velocity_kt report) of
        (Some north, Some east) \<Rightarrow>
          let report = report\<lparr>ground_speed_kt :=
                Some (rounded fl (fl (sqrt (of_int (north * north + east * east)))) 10)\<rparr>;
              track = fatan2 east north;
              track = (if track < 0 then fl (track + 360) else track)
          in report\<lparr>true_track_deg := Some (rounded fl track 10)\<rparr>
      | _ \<Rightarrow> report)"

definition vertical_part :: "u8 list \<Rightarrow> AdsbReport \<Rightarrow> AdsbReport" where
  "vertical_part payload report =
     (let vv_source = bits payload 122 122; raw_vv = bits payload 124 132 in
      case speed_component raw_vv (one payload 123) 64 of
        None \<Rightarrow> report
      | Some velocity \<Rightarrow>
          if vv_source = 0 then report\<lparr>vertical_velocity_barometric_fpm := Some velocity\<rparr>
          else report\<lparr>vertical_velocity_geometric_fpm := Some velocity\<rparr>)"

definition airborne_part ::
  "(real \<Rightarrow> real) \<Rightarrow> (int \<Rightarrow> int \<Rightarrow> real) \<Rightarrow> u8 list \<Rightarrow> u32 \<Rightarrow> AdsbReport \<Rightarrow> AdsbReport" where
  "airborne_part fl fatan2 payload state report =
     (let scale = (if state = 1 then 4 else 1);
          report = (case speed_component (bits payload 101 110) (one payload 100) scale of
                      None \<Rightarrow> report | Some v \<Rightarrow> report\<lparr>north_velocity_kt := Some v\<rparr>);
          report = (case speed_component (bits payload 112 121) (one payload 111) scale of
                      None \<Rightarrow> report | Some v \<Rightarrow> report\<lparr>east_velocity_kt := Some v\<rparr>)
      in vertical_part payload (ground_vector fl fatan2 report))"

definition ground_part :: "(real \<Rightarrow> real) \<Rightarrow> u8 list \<Rightarrow> AdsbReport \<Rightarrow> AdsbReport" where
  "ground_part fl payload report =
     (let raw_speed = bits payload 101 110;
          report = (if raw_speed \<noteq> 0 then report\<lparr>ground_speed_kt := Some (real (unat (raw_speed - 1)))\<rparr>
                    else report);
          heading_type = bits payload 111 112;
          angle = rounded fl (real (unat (bits payload 113 121)) * 360 / 512) 10
      in if heading_type = 1 then report\<lparr>true_track_deg := Some angle\<rparr>
         else if heading_type = 2 then report\<lparr>magnetic_heading_deg := Some angle\<rparr>
         else if heading_type = 3 then report\<lparr>true_heading_deg := Some angle\<rparr>
         else report)"

definition motion_part ::
  "(real \<Rightarrow> real) \<Rightarrow> (int \<Rightarrow> int \<Rightarrow> real) \<Rightarrow> u8 list \<Rightarrow> AdsbReport \<Rightarrow> AdsbReport" where
  "motion_part fl fatan2 payload report =
     (let state = bits payload 97 98;
          report = report\<lparr>air_ground_state := Some (air_ground state)\<rparr>
      in if state = 0 \<or> state = 1 then airborne_part fl fatan2 payload state report
         else if state = 2 then ground_part fl payload report
         else report)"

definition alphabet :: string where
  "alphabet = ''0123456789ABCDEFGHIJKLMNOPQRSTUVWXYZ *??''"

definition text_indexes :: "u8 list \<Rightarrow> u32 list" where
  "text_indexes payload =
     (let raw1 = bits payload 137 152; raw2 = bits payload 153 168; raw3 = bits payload 169 184 in
      [(raw1 div 40) mod 40, raw1 mod 40,
       (raw2 div 1600) mod 40, (raw2 div 40) mod 40, raw2 mod 40,
       (raw3 div 1600) mod 40, (raw3 div 40) mod 40, raw3 mod 40])"

text \<open>The loop that pops blanks and stars off the end.\<close>

definition trim_fill :: "string \<Rightarrow> string" where
  "trim_fill text = rev (dropWhile (\<lambda>c. c = CHR '' '' \<or> c = CHR ''*'') (rev text))"

definition is_octal :: "char \<Rightarrow> bool" where
  "is_octal c = (of_char CHR ''0'' \<le> (of_char c :: nat) \<and> of_char c \<le> (of_char CHR ''7'' :: nat))"

definition text_part :: "u8 list \<Rightarrow> AdsbReport \<Rightarrow> AdsbReport run" where
  "text_part payload report =
     (if \<not> in_payload payload 184 then Panic
      else
        let text = trim_fill (map (\<lambda>i. alphabet ! unat i) (text_indexes payload)) in
        if text = '''' then Done report
        else if \<not> in_payload payload 215 then Panic
        else if one payload 215 then Done (report\<lparr>callsign := Some text\<rparr>)
        else if length text = 4 \<and> list_all is_octal text then Done (report\<lparr>flight_plan_id := Some text\<rparr>)
        else Done report)"

definition decode_adsb ::
  "(real \<Rightarrow> real) \<Rightarrow> (int \<Rightarrow> int \<Rightarrow> real) \<Rightarrow> u8 list \<Rightarrow> AdsbReport option run" where
  "decode_adsb fl fatan2 payload =
     (if length payload \<noteq> 18 \<and> length payload \<noteq> 34 then Done None
      else
        let payload_type = bits payload 1 5; report = empty_report payload in
        if payload_type > 10 then Done (Some report)
        else
          let report = altitude_part payload report;
              report = position_part fl payload report;
              report = motion_part fl fatan2 payload report
          in if payload_type = 1 \<or> payload_type = 3 then
               case text_part payload report of Panic \<Rightarrow> Panic | Done r \<Rightarrow> Done (Some r)
             else Done (Some report))"

section \<open>Bit fields\<close>

definition bits_step :: "u8 list \<Rightarrow> u32 \<Rightarrow> nat \<Rightarrow> u32" where
  "bits_step bytes result b =
     push_bit 1 result OR ucast (drop_bit (7 - (b - 1) mod 8) (bytes ! ((b - 1) div 8)) AND 1)"

lemma bits_fold: "bits bytes first final = foldl (bits_step bytes) 0 [first..<Suc final]"
  by (simp add: bits_def bits_step_def [abs_def])

lemma bits_step_bits:
  assumes "\<And>i. bit r i \<Longrightarrow> i < n" "bit (bits_step bytes r b) i"
  shows "i < Suc n"
  using assms by (cases i) (auto simp: bits_step_def bit_simps simp del: push_bit_Suc)

lemma bits_fold_bits:
  "(\<And>i. bit r i \<Longrightarrow> i < n) \<Longrightarrow> bit (foldl (bits_step bytes) r bs) i \<Longrightarrow> i < n + length bs"
proof (induction bs arbitrary: r n)
  case (Cons b bs)
  have "bit (bits_step bytes r b) i \<Longrightarrow> i < Suc n" for i
    using bits_step_bits [OF Cons.prems(1)] by blast
  from Cons.IH [OF this] Cons.prems(2) show ?case by simp
qed simp

lemma bits_less: "unat (bits bytes first final) < 2 ^ (Suc final - first)"
proof (rule bits_bound)
  fix i assume "bit (bits bytes first final) i"
  then show "i < Suc final - first"
    using bits_fold_bits [of 0 0 bytes "[first..<Suc final]" i] by (simp add: bits_fold del: upt_Suc)
qed

lemma bits_sint: "Suc final - first \<le> 31 \<Longrightarrow> sint (bits bytes first final) = int (unat (bits bytes first final))"
proof -
  assume w: "Suc final - first \<le> 31"
  have "unat (bits bytes first final) < 2 ^ (Suc final - first)" by (rule bits_less)
  also have "\<dots> \<le> 2 ^ 31" using w by (intro power_increasing) auto
  finally show ?thesis by (rule sint_small)
qed

text \<open>A narrow field as a natural number.\<close>

lemma bits_value:
  assumes "Suc final - first \<le> 31"
  obtains n where "sint (bits bytes first final) = int n" "n < 2 ^ (Suc final - first)"
    "(bits bytes first final = 0) = (n = 0)"
  using bits_sint [OF assms, of bytes] bits_less [of bytes first final] that [of "unat (bits bytes first final)"]
  by (simp del: of_nat_unat add: unat_eq_zero)

lemma drop_bit_and_1_eq_0: "(drop_bit k w AND 1 = 0) = (\<not> bit w k)" for w :: "'a::len word"
  using bit_iff_odd_drop_bit [of w k] by (simp add: and_one_eq odd_iff_mod_2_eq_one)

text \<open>A field is zero when every bit of it is.\<close>

lemma bits_eq_0:
  "(\<And>b. first \<le> b \<Longrightarrow> b \<le> final \<Longrightarrow> \<not> bit (bytes ! ((b - 1) div 8)) (7 - (b - 1) mod 8)) \<Longrightarrow>
     bits bytes first final = 0"
proof -
  assume z: "\<And>b. first \<le> b \<Longrightarrow> b \<le> final \<Longrightarrow> \<not> bit (bytes ! ((b - 1) div 8)) (7 - (b - 1) mod 8)"
  have "foldl (bits_step bytes) 0 bs = 0" if "set bs \<subseteq> {first..final}" for bs
    using that
  proof (induction bs)
    case (Cons b bs)
    then have "\<not> bit (bytes ! ((b - 1) div 8)) (7 - (b - 1) mod 8)" by (intro z) auto
    then have "drop_bit (7 - (b - 1) mod 8) (bytes ! ((b - 1) div 8)) AND 1 = (0 :: u8)"
      by (simp only: drop_bit_and_1_eq_0 not_False_eq_True)
    then have "bits_step bytes 0 b = 0" by (simp add: bits_step_def)
    with Cons show ?case by simp
  qed simp
  from this [of "[first..<Suc final]"] show ?thesis unfolding bits_fold by (simp add: subset_iff del: upt_Suc)
qed

lemma payload_type_0:
  assumes "drop_bit 3 (payload ! 0) = 0"
  shows "bits payload 1 5 = 0"
proof (rule bits_eq_0)
  fix b :: nat assume b: "1 \<le> b" "b \<le> 5"
  have "bit (drop_bit 3 (payload ! 0)) (7 - (b - 1) - 3) = bit (payload ! 0) (7 - (b - 1))"
    using b by (simp add: bit_drop_bit_eq)
  with b assms show "\<not> bit (payload ! ((b - 1) div 8)) (7 - (b - 1) mod 8)" by simp
qed

section \<open>When the decoder panics\<close>

lemma decode_adsb_panics_iff:
  "decode_adsb fl fatan2 payload = Panic \<longleftrightarrow>
     length payload = 18 \<and> (bits payload 1 5 = 1 \<or> bits payload 1 5 = 3)"
  by (auto simp: decode_adsb_def text_part_def in_payload_def Let_def split: run.splits)

section \<open>Ranges of the report\<close>

definition text_ok :: "string \<Rightarrow> bool" where
  "text_ok s = (s \<noteq> [] \<and> length s \<le> 8 \<and> set s \<subseteq> set alphabet \<and> List.last s \<notin> {CHR '' '', CHR ''*''})"

definition report_in_range :: "AdsbReport \<Rightarrow> bool" where
  "report_in_range r =
     (address_qualifier r < 8 \<and> unat (address r) < 2 ^ 24 \<and>
      pred_option text_ok (callsign r) \<and>
      pred_option (\<lambda>s. length s = 4 \<and> list_all is_octal s) (flight_plan_id r) \<and>
      pred_option (\<lambda>a. -1000 \<le> a \<and> a \<le> 101350) (pressure_altitude_ft r) \<and>
      pred_option (\<lambda>a. -1000 \<le> a \<and> a \<le> 101350) (geometric_altitude_ft r) \<and>
      (pressure_altitude_ft r = None \<or> geometric_altitude_ft r = None) \<and>
      pred_option (\<lambda>v. \<bar>v\<bar> \<le> 4088) (north_velocity_kt r) \<and>
      pred_option (\<lambda>v. \<bar>v\<bar> \<le> 4088) (east_velocity_kt r) \<and>
      pred_option (\<lambda>v. \<bar>v\<bar> \<le> 32640) (vertical_velocity_barometric_fpm r) \<and>
      pred_option (\<lambda>v. \<bar>v\<bar> \<le> 32640) (vertical_velocity_geometric_fpm r))"

lemma empty_report_in_range [inv_intros]: "report_in_range (empty_report payload)"
proof -
  have "unat (bits payload 6 8) < 2 ^ 3" "unat (bits payload 9 32) < 2 ^ 24"
    using bits_less [of payload 6 8] bits_less [of payload 9 32] by simp_all
  moreover from this(1) have "(ucast (bits payload 6 8) :: u8) < 8"
    by (simp add: word_less_nat_alt unsigned_ucast_eq take_bit_nat_eq_self)
  ultimately show ?thesis by (simp add: empty_report_def report_in_range_def)
qed

lemma altitude_part_in_range [inv_intros]:
  assumes "report_in_range r" "pressure_altitude_ft r = None" "geometric_altitude_ft r = None"
  shows "report_in_range (altitude_part payload r)"
proof -
  obtain n where n: "sint (bits payload 81 92) = int n" "n < 2 ^ (Suc 92 - 81)" "(bits payload 81 92 = 0) = (n = 0)"
    by (rule bits_value [of 92 81 payload]) simp_all
  have "-1000 \<le> (int n - 41) * 25" "(int n - 41) * 25 \<le> 101350" if "n \<noteq> 0"
    using that n(2) by simp_all
  then show ?thesis using assms by (auto simp: altitude_part_def Let_def report_in_range_def n(1,3))
qed

lemma position_part_in_range [inv_intros]: "report_in_range r \<Longrightarrow> report_in_range (position_part fl payload r)"
  by (simp add: position_part_def Let_def report_in_range_def)

lemma speed_component_bound:
  assumes "speed_component (bits payload first final) neg scale = Some v" "Suc final - first \<le> 10"
    and "0 \<le> scale"
  shows "\<bar>v\<bar> \<le> (2 ^ (Suc final - first) - 2) * scale"
proof -
  have "Suc final - first \<le> 31" using assms(2) by simp
  then obtain n where n: "sint (bits payload first final) = int n" "n < 2 ^ (Suc final - first)"
    "(bits payload first final = 0) = (n = 0)"
    by (rule bits_value)
  then have v: "0 < n" "v = (if neg then -1 else 1) * (int n - 1) * scale"
    using assms(1) by (auto simp: speed_component_def split: if_splits)
  have abs: "\<bar>v\<bar> = (int n - 1) * scale" using v assms(3) by (simp add: abs_mult)
  have "int n < 2 ^ (Suc final - first)" using n(2) by (metis of_nat_less_iff of_nat_numeral of_nat_power)
  then have "int n - 1 \<le> 2 ^ (Suc final - first) - 2" by linarith
  then show ?thesis unfolding abs using assms(3) by (rule mult_right_mono)
qed

lemma vertical_part_in_range [inv_intros]:
  assumes "report_in_range r"
  shows "report_in_range (vertical_part payload r)"
proof -
  have "pred_option (\<lambda>v. \<bar>v\<bar> \<le> 32640) (speed_component (bits payload 124 132) (one payload 123) 64)"
    using speed_component_bound [of payload 124 132 "one payload 123" 64]
    by (cases "speed_component (bits payload 124 132) (one payload 123) 64") auto
  then show ?thesis
    using assms by (auto simp: vertical_part_def Let_def report_in_range_def split: option.splits)
qed

lemma ground_vector_in_range [inv_intros]: "report_in_range r \<Longrightarrow> report_in_range (ground_vector fl fatan2 r)"
  by (auto simp: ground_vector_def Let_def report_in_range_def split: option.splits)

lemma airborne_part_in_range [inv_intros]:
  assumes "report_in_range r"
  shows "report_in_range (airborne_part fl fatan2 payload state r)"
proof -
  let ?scale = "if state = 1 then 4 else 1 :: int"
  have bound: "\<bar>v\<bar> \<le> 4088" if "speed_component (bits payload first (first + 9)) neg ?scale = Some v"
    for first neg v
    using speed_component_bound [OF that] by (cases "state = 1") simp_all
  define r1 where "r1 = (case speed_component (bits payload 101 110) (one payload 100) ?scale of
    None \<Rightarrow> r | Some v \<Rightarrow> r\<lparr>north_velocity_kt := Some v\<rparr>)"
  define r2 where "r2 = (case speed_component (bits payload 112 121) (one payload 111) ?scale of
    None \<Rightarrow> r1 | Some v \<Rightarrow> r1\<lparr>east_velocity_kt := Some v\<rparr>)"
  have "report_in_range r1"
    using assms bound [of 101 "one payload 100"]
    by (auto simp: r1_def report_in_range_def split: option.splits)
  then have "report_in_range r2"
    using bound [of 112 "one payload 111"] by (auto simp: r2_def report_in_range_def split: option.splits)
  then have "report_in_range (vertical_part payload (ground_vector fl fatan2 r2))"
    by (intro inv_intros)
  then show ?thesis by (simp only: airborne_part_def Let_def r1_def r2_def)
qed

lemma ground_part_in_range [inv_intros]: "report_in_range r \<Longrightarrow> report_in_range (ground_part fl payload r)"
  by (simp add: ground_part_def Let_def report_in_range_def)

lemma motion_part_in_range [inv_intros]:
  assumes "report_in_range r"
  shows "report_in_range (motion_part fl fatan2 payload r)"
proof -
  have "report_in_range (r\<lparr>air_ground_state := s\<rparr>)" for s using assms by (simp add: report_in_range_def)
  then show ?thesis by (simp add: motion_part_def Let_def airborne_part_in_range ground_part_in_range)
qed

lemma trim_fill_prefix: "\<exists>n. trim_fill s = take n s"
proof -
  have "\<exists>n. dropWhile P xs = drop n xs" for P and xs :: string
    by (induction xs) (auto intro: exI [of _ 0], metis drop_Suc_Cons)
  then obtain n where "dropWhile (\<lambda>c. c = CHR '' '' \<or> c = CHR ''*'') (rev s) = drop n (rev s)" by blast
  then show ?thesis by (auto simp: trim_fill_def rev_drop)
qed

lemma text_indexes_less: "i \<in> set (text_indexes payload) \<Longrightarrow> unat i < 40"
proof -
  have m: "unat (x mod 40) < 40" for x :: u32 by (simp add: unat_mod)
  show "i \<in> set (text_indexes payload) \<Longrightarrow> unat i < 40"
    unfolding text_indexes_def Let_def set_simps insert_iff empty_iff by (elim disjE) (simp_all only: m)
qed

lemma text_is_ok:
  defines "text \<equiv> \<lambda>payload. trim_fill (map (\<lambda>i. alphabet ! unat i) (text_indexes payload))"
  assumes "text payload \<noteq> []"
  shows "text_ok (text payload)"
proof -
  let ?cs = "map (\<lambda>i. alphabet ! unat i) (text_indexes payload)"
  obtain n where n: "text payload = take n ?cs" using trim_fill_prefix [of ?cs] by (auto simp: text_def)
  have "length alphabet = 40" by (simp add: alphabet_def)
  then have "set ?cs \<subseteq> set alphabet" using text_indexes_less by (auto intro!: nth_mem)
  moreover have "length ?cs = 8" by (simp add: text_indexes_def Let_def)
  moreover have "List.last (text payload) \<notin> {CHR '' '', CHR ''*''}"
    using assms(2) hd_dropWhile [of "\<lambda>c. c = CHR '' '' \<or> c = CHR ''*''" "rev ?cs"]
    unfolding text_def trim_fill_def last_rev rev_is_Nil_conv by blast
  ultimately show ?thesis
    using assms(2) set_take_subset [of n ?cs] unfolding n text_ok_def by (simp add: min.coboundedI1)
qed

lemma text_part_in_range:
  assumes "report_in_range r" "text_part payload r = Done r'"
  shows "report_in_range r'"
  using assms text_is_ok [of payload]
  by (auto simp: text_part_def Let_def report_in_range_def split: if_splits)

section \<open>Properties\<close>

text \<open>Every report is in range: a 3-bit qualifier and a 24-bit address, altitudes between -1000
  and 101350 feet and at most one of the two kinds, velocity components within 4088 knots, vertical
  rates within 32640 feet per minute, call signs of one to eight characters of the alphabet that do
  not end in fill, and flight plan codes of exactly four octal digits.\<close>

lemma uat_report_in_range:
  assumes "decode_adsb fl fatan2 payload = Done (Some report)"
  shows "report_in_range report"
proof -
  define r where "r = motion_part fl fatan2 payload
    (position_part fl payload (altitude_part payload (empty_report payload)))"
  have "report_in_range (altitude_part payload (empty_report payload))"
    by (rule altitude_part_in_range [OF empty_report_in_range]) (simp_all add: empty_report_def)
  then have r: "report_in_range r" unfolding r_def by (intro motion_part_in_range position_part_in_range)
  show ?thesis
    using assms r text_part_in_range [OF r] empty_report_in_range
    by (auto simp: decode_adsb_def Let_def r_def [symmetric] split: if_splits run.splits)
qed

definition sample_payload :: "u8 list" where
  "sample_payload = [0x12, 0x12, 0x34, 0x56] @ replicate 8 0 @ [0x80] @ replicate 5 0"

lemma bits_Suc: "first \<le> final \<Longrightarrow> bits bytes first final =
    bits_step bytes (if first = final then 0 else bits bytes first (final - 1)) final"
  by (cases final) (auto simp: bits_fold upt_rec_numeral)

lemma uat_report_in_range_witness:
  "\<exists>report. decode_adsb (\<lambda>x. x) (\<lambda>_ _. 0) sample_payload = Done (Some report) \<and> report_in_range report"
proof -
  have "decode_adsb (\<lambda>x. x) (\<lambda>_ _. 0) sample_payload \<noteq> Panic"
    by (simp add: decode_adsb_panics_iff sample_payload_def bits_def upt_rec)
  moreover have "decode_adsb (\<lambda>x. x) (\<lambda>_ _. 0) sample_payload \<noteq> Done None"
    by (simp add: decode_adsb_def sample_payload_def Let_def split: run.splits)
  ultimately obtain report where "decode_adsb (\<lambda>x. x) (\<lambda>_ _. 0) sample_payload = Done (Some report)"
    by (metis run.exhaust option.exhaust)
  with uat_report_in_range [OF this] show ?thesis by blast
qed

lemma position_part_longitude:
  fixes payload :: "u8 list"
  defines "x \<equiv> real (unat (bits payload 56 78)) * 360 / 16777216"
  assumes pos: "position (position_part fl payload r) = Some (lat, lon)" and none: "position r = None"
  shows "0 \<le> x" and "lon = rounded fl x 100000"
proof -
  have "unat (bits payload 56 78) < 2 ^ 23" using bits_less [of payload 56 78] by simp
  then have x: "0 \<le> x" "\<not> x > 180" unfolding x_def by (simp_all del: of_nat_unat)
  then show "0 \<le> x" by simp
  have upd: "position (r\<lparr>position := v\<rparr>) = v" for r v by simp
  have "lon = rounded fl (if x > 180 then x - 360 else x) 100000"
    using pos none unfolding position_part_def Let_def x_def [symmetric]
    by (cases "bits payload 33 55 \<noteq> 0 \<or> bits payload 56 78 \<noteq> 0 \<or> bits payload 93 96 \<noteq> 0")
      (simp_all only: if_True if_False upd option.inject prod.inject option.distinct)
  then show "lon = rounded fl x 100000" using x(2) by (simp only: if_False)
qed

lemma position_frame [frame_simps]:
  "position (altitude_part payload r) = position r"
  "position (motion_part fl fatan2 payload r) = position r"
  by (simp_all add: altitude_part_def motion_part_def airborne_part_def ground_part_def
      vertical_part_def ground_vector_def Let_def split: option.splits)

lemma position_text_part: "text_part payload r = Done r' \<Longrightarrow> position r' = position r"
  by (auto simp: text_part_def Let_def split: if_splits)

lemma decode_adsb_position:
  assumes "decode_adsb fl fatan2 payload = Done (Some report)"
  shows "position report = (if bits payload 1 5 > 10 then None
    else position (position_part fl payload (altitude_part payload (empty_report payload))))"
  using assms
  by (auto simp: decode_adsb_def Let_def frame_simps empty_report_def [THEN arg_cong, of position]
      split: if_splits run.splits dest: position_text_part)

text \<open>C34: no report ever places an aircraft west of Greenwich. The field read as longitude,
  \<open>bits(56, 78)\<close>, has 23 bits and is scaled by 2^24, so its value stays below 180 degrees and the
  branch that subtracts 360 is dead; the field of the standard is one bit longer.\<close>

theorem uat_longitude_never_west:
  assumes "decode_adsb fl fatan2 payload = Done (Some report)" and "position report = Some (lat, lon)"
    and "\<And>x. 0 \<le> x \<Longrightarrow> 0 \<le> fl x"
  shows "0 \<le> lon"
proof -
  define r where "r = altitude_part payload (empty_report payload)"
  have r: "position r = None" by (simp add: r_def frame_simps empty_report_def)
  have "position (position_part fl payload r) = Some (lat, lon)"
    using decode_adsb_position [OF assms(1)] assms(2) by (simp add: r_def split: if_splits)
  note lon = position_part_longitude [OF this r]
  show ?thesis
    unfolding lon(2) rounded_def
    by (intro assms(3) divide_nonneg_nonneg mult_nonneg_nonneg round_half_away_nonneg lon(1)) simp_all
qed

text \<open>A published off-air frame: the aircraft is at 122.08 degrees west, and the top bit of its
  longitude field is set.\<close>

definition published_payload :: "u8 list" where
  "published_payload =
     [0x08, 0xA6, 0x6E, 0xF1, 0x35, 0x3E, 0x2D, 0x52, 0x5F, 0xD4, 0x05, 0x09, 0x11, 0x88, 0x2A, 0xA0,
      0x38, 0x10, 0x1D, 0x06, 0xB8, 0x5D, 0x44, 0x0B, 0xE2, 0xA4, 0xC2, 0xA0, 0x00, 0x05, 0x90, 0x00,
      0x00, 0x00]"

lemma uat_longitude_never_west_witness:
  "\<exists>report lat lon. decode_adsb (\<lambda>x. x) (\<lambda>_ _. 0) published_payload = Done (Some report) \<and>
     position report = Some (lat, lon) \<and> 0 \<le> lon \<and> one published_payload 56"
proof -
  let ?p = published_payload
  have nz: "bits ?p 93 96 \<noteq> 0" and t: "\<not> bits ?p 1 5 > 10" and w: "one ?p 56"
    by (simp_all add: published_payload_def bits_def one_def upt_rec)
  have "decode_adsb (\<lambda>x. x) (\<lambda>_ _. 0) ?p \<noteq> Panic"
    by (simp add: decode_adsb_panics_iff published_payload_def)
  moreover have "decode_adsb (\<lambda>x. x) (\<lambda>_ _. 0) ?p \<noteq> Done None"
    by (simp add: decode_adsb_def published_payload_def Let_def split: run.splits)
  ultimately obtain report where d: "decode_adsb (\<lambda>x. x) (\<lambda>_ _. 0) ?p = Done (Some report)"
    by (metis run.exhaust option.exhaust)
  from decode_adsb_position [OF d] t nz obtain lat lon where pos: "position report = Some (lat, lon)"
    by (simp add: position_part_def Let_def)
  from d pos uat_longitude_never_west [OF d pos] w show ?thesis by auto
qed

end
