(* ===== verification/Uat_Rx.thy ===== *)
theory Uat_Rx
  imports Uat_Fec Uat_Message
begin

text \<open>
  The UAT receiver, \<^verbatim>\<open>uat-decode/src/rx.rs\<close>: a buffer of samples in which the decoder looks for a
  synchronisation word, demodulates the frame behind it, corrects it (\<open>Uat_Fec\<close>) and reads the report
  (\<open>Uat_Message\<close>). Samples and \<open>f32\<close> values are abstract; the operations on them are the record
  \<open>dsp\<close>, a parameter. The \<open>loop\<close> of \<open>decode_ready\<close> is a partial function, of which the lemmas show
  that it always returns and never panics, that the buffer stays below one frame, that the messages
  do not depend on how the samples are cut into calls, and that every message is a frame of the stream.
\<close>

section \<open>The code\<close>

text \<open>What the receiver uses of \<open>f32\<close> and of complex numbers.\<close>

record ('s, 'f) dsp =
  norm_sqr :: "'s \<Rightarrow> 'f"
  arg_conj_mul :: "'s \<Rightarrow> 's \<Rightarrow> 'f"
  tiny :: 'f
  f_zero :: 'f
  f_add :: "'f \<Rightarrow> 'f \<Rightarrow> 'f"
  f_div_count :: "'f \<Rightarrow> nat \<Rightarrow> 'f"
  f_half :: "'f \<Rightarrow> 'f"
  f_minus_one :: "'f \<Rightarrow> 'f"
  f_lt :: "'f \<Rightarrow> 'f \<Rightarrow> bool"
  to_f64 :: "'f \<Rightarrow> real"
  ten_log10 :: "real \<Rightarrow> 'f"
  minus_120 :: 'f
  f64_round :: "real \<Rightarrow> real"
  f64_atan2 :: "int \<Rightarrow> int \<Rightarrow> real"

definition SYNC_BITS :: nat where "SYNC_BITS = 36"
definition DOWNLINK_SYNC :: u64 where "DOWNLINK_SYNC = 0xEACDDA4E2"
definition UPLINK_SYNC :: u64 where "UPLINK_SYNC = 0x153225B1D"
definition MAX_FRAME_BITS :: nat where "MAX_FRAME_BITS = SYNC_BITS + 4416"
definition MAX_FRAME_SAMPLES :: nat where "MAX_FRAME_SAMPLES = MAX_FRAME_BITS * 2"


record SampleGap =
  expected_sample :: nat
  observed_sample :: nat

record 'f UatMessage =
  kind :: MessageKind
  payload :: "u8 list"
  corrected_symbols :: nat
  first_sample :: nat
  rssi_dbfs :: 'f
  adsb :: "AdsbReport option"

record 's UatDecoder =
  samples :: "'s list"
  base_sample :: nat
  next_sample :: nat
  sample_rate_hz :: nat


text \<open>\<open>VecDeque::get\<close>.\<close>

definition get_at :: "'a list \<Rightarrow> nat \<Rightarrow> 'a option" where
  "get_at xs i = (if i < length xs then Some (xs ! i) else None)"

definition phase_delta :: "('s, 'f) dsp \<Rightarrow> 's \<Rightarrow> 's \<Rightarrow> 'f option" where
  "phase_delta ops a b =
     (if f_lt ops (norm_sqr ops a) (tiny ops) \<or> f_lt ops (norm_sqr ops b) (tiny ops) then None
      else Some (arg_conj_mul ops a b))"

definition bit_delta :: "('s, 'f) dsp \<Rightarrow> 's list \<Rightarrow> nat \<Rightarrow> nat \<Rightarrow> 'f option" where
  "bit_delta ops xs start b =
     (case get_at xs (start + b * 2) of
        None \<Rightarrow> None
      | Some a \<Rightarrow> (case get_at xs (start + b * 2 + 1) of
                      None \<Rightarrow> None
                    | Some c \<Rightarrow> phase_delta ops a c))"

definition sync_bit :: "u64 \<Rightarrow> nat \<Rightarrow> bool" where
  "sync_bit word i = (word AND push_bit (SYNC_BITS - i - 1) 1 \<noteq> 0)"

text \<open>One turn of the summing loop of \<open>match_sync\<close>: zeros, ones and their counts.\<close>

definition sync_sum :: "('s, 'f) dsp \<Rightarrow> u64 \<Rightarrow> 'f \<times> 'f \<times> nat \<times> nat \<Rightarrow> nat \<times> 'f \<Rightarrow> 'f \<times> 'f \<times> nat \<times> nat" where
  "sync_sum ops word = (\<lambda>(zeros, ones, nzeros, nones) (i, delta).
     if sync_bit word i then (zeros, f_add ops ones delta, nzeros, nones + 1)
     else (f_add ops zeros delta, ones, nzeros + 1, nones))"

definition match_sync :: "('s, 'f) dsp \<Rightarrow> 's list \<Rightarrow> nat \<Rightarrow> u64 \<Rightarrow> (nat \<times> 'f) option" where
  "match_sync ops xs start word =
     (case those (map (bit_delta ops xs start) [0..<SYNC_BITS]) of
        None \<Rightarrow> None
      | Some deltas \<Rightarrow>
          let indexed = zip [0..<SYNC_BITS] deltas;
              (zeros, ones, nzeros, nones) = foldl (sync_sum ops word) (f_zero ops, f_zero ops, 0, 0) indexed
          in if nzeros = 0 \<or> nones = 0 then None
             else
               let threshold = f_half ops (f_add ops (f_div_count ops zeros nzeros) (f_div_count ops ones nones));
                   errors = length (filter (\<lambda>(i, delta). if sync_bit word i then f_lt ops delta threshold
                                                         else f_lt ops threshold delta) indexed)
               in if errors \<le> 4 then Some (errors, threshold) else None)"

definition sync_at :: "('s, 'f) dsp \<Rightarrow> 's list \<Rightarrow> nat \<Rightarrow> (MessageKind \<times> 'f) option" where
  "sync_at ops xs start =
     (case match_sync ops xs start DOWNLINK_SYNC of
        Some (errors, threshold) \<Rightarrow> Some (DownlinkShort, threshold)
      | None \<Rightarrow> (case match_sync ops xs start UPLINK_SYNC of
                    Some (errors, threshold) \<Rightarrow> Some (Uplink, threshold)
                  | None \<Rightarrow> None))"

definition find_sync :: "('s, 'f) dsp \<Rightarrow> 's list \<Rightarrow> (nat \<times> MessageKind \<times> 'f) option" where
  "find_sync ops xs =
     (let last_start = length xs - SYNC_BITS * 2 in
      case find (\<lambda>start. sync_at ops xs start \<noteq> None) [0..<Suc last_start] of
        None \<Rightarrow> None
      | Some start \<Rightarrow> map_option (\<lambda>(k, threshold). (start, k, threshold)) (sync_at ops xs start))"

definition demod_byte :: "('s, 'f) dsp \<Rightarrow> 's list \<Rightarrow> nat \<Rightarrow> 'f \<Rightarrow> nat \<Rightarrow> u8" where
  "demod_byte ops xs start threshold byte_index =
     foldl (\<lambda>byte bit_index.
         let delta = (case bit_delta ops xs start (byte_index * 8 + bit_index) of
                        None \<Rightarrow> f_minus_one ops threshold | Some d \<Rightarrow> d)
         in push_bit 1 byte OR (if f_lt ops threshold delta then 1 else 0))
       0 [0..<8]"

definition demod_bytes :: "('s, 'f) dsp \<Rightarrow> 's list \<Rightarrow> nat \<Rightarrow> nat \<Rightarrow> 'f \<Rightarrow> u8 list" where
  "demod_bytes ops xs start count threshold = map (demod_byte ops xs start threshold) [0..<count]"

definition pop_sample :: "'s UatDecoder \<Rightarrow> 's UatDecoder" where
  "pop_sample d = d\<lparr>samples := tl (samples d), base_sample := sat_add (base_sample d) 1\<rparr>"

definition discard_front :: "nat \<Rightarrow> 's UatDecoder \<Rightarrow> 's UatDecoder" where
  "discard_front count d = (pop_sample ^^ min count (length (samples d))) d"

definition frame_kind :: "('s, 'f) dsp \<Rightarrow> 's list \<Rightarrow> 'f \<Rightarrow> MessageKind" where
  "frame_kind ops xs threshold =
     (let header = demod_bytes ops xs (SYNC_BITS * 2) 1 threshold ! 0 in
      if drop_bit 3 header = 0 then DownlinkShort else DownlinkLong)"

fun frame_size :: "MessageKind \<Rightarrow> nat \<times> nat" where
  "frame_size DownlinkShort = (30, 240)"
| "frame_size DownlinkLong = (48, 384)"
| "frame_size Uplink = (552, 4416)"

definition correct_frame :: "MessageKind \<Rightarrow> u8 list \<Rightarrow> (u8 list \<times> nat) option run" where
  "correct_frame k raw = (case k of Uplink \<Rightarrow> correct_uplink raw | _ \<Rightarrow> correct_downlink raw)"

definition frame_report :: "('s, 'f) dsp \<Rightarrow> MessageKind \<Rightarrow> u8 list \<Rightarrow> AdsbReport option run" where
  "frame_report ops k data =
     (case k of Uplink \<Rightarrow> Done None | _ \<Rightarrow> decode_adsb (f64_round ops) (f64_atan2 ops) data)"

text \<open>Mean power of the samples of the frame, summed in \<open>f64\<close>, in decibels.\<close>

definition frame_rssi :: "('s, 'f) dsp \<Rightarrow> 's list \<Rightarrow> 'f" where
  "frame_rssi ops window =
     (let total = foldl (\<lambda>acc x. f64_round ops (acc + to_f64 ops (norm_sqr ops x))) 0 window;
          power = f64_round ops (total / real (length window))
      in if power > 0 then ten_log10 ops power else minus_120 ops)"

text \<open>The turn of the loop from the corrected frame on.\<close>

definition emit_frame ::
  "('s, 'f) dsp \<Rightarrow> 's UatDecoder \<Rightarrow> MessageKind \<Rightarrow> nat \<Rightarrow> u8 list \<Rightarrow> nat \<Rightarrow> ('s UatDecoder \<times> 'f UatMessage list \<times> bool) run" where
  "emit_frame ops d k required data corrected =
     (let actual_kind = (if k = DownlinkLong \<and> length data = 18 then DownlinkShort else k) in
      case frame_report ops actual_kind data of
        Panic \<Rightarrow> Panic
      | Done report \<Rightarrow>
          Done (discard_front required d,
            [\<lparr>kind = actual_kind, payload = data, corrected_symbols = corrected,
              first_sample = base_sample d, rssi_dbfs = frame_rssi ops (take required (samples d)),
              adsb = report\<rparr>], True))"

text \<open>The turn once the kind of the frame at the front of the buffer is known, and before.\<close>

definition frame_body ::
  "('s, 'f) dsp \<Rightarrow> 's UatDecoder \<Rightarrow> MessageKind \<Rightarrow> 'f \<Rightarrow> ('s UatDecoder \<times> 'f UatMessage list \<times> bool) run" where
  "frame_body ops d k threshold =
     (let (payload_bytes, frame_bits) = frame_size k;
          required = (SYNC_BITS + frame_bits) * 2
      in if length (samples d) < required then Done (d, [], False)
         else
           let raw = demod_bytes ops (samples d) (SYNC_BITS * 2) payload_bytes threshold in
           case correct_frame k raw of
             Panic \<Rightarrow> Panic
           | Done None \<Rightarrow> Done (discard_front 1 d, [], True)
           | Done (Some (data, corrected)) \<Rightarrow> emit_frame ops d k required data corrected)"

definition frame_step ::
  "('s, 'f) dsp \<Rightarrow> 's UatDecoder \<Rightarrow> MessageKind \<Rightarrow> 'f \<Rightarrow> ('s UatDecoder \<times> 'f UatMessage list \<times> bool) run" where
  "frame_step ops d k threshold =
     (if k = DownlinkShort \<and> length (samples d) < SYNC_BITS * 2 + 16 then Done (d, [], False)
      else frame_body ops d (if k = DownlinkShort then frame_kind ops (samples d) threshold else k) threshold)"

text \<open>One turn of \<open>loop\<close>: the decoder, the messages pushed, and whether the loop goes on.\<close>

definition ready_step ::
  "('s, 'f) dsp \<Rightarrow> 's UatDecoder \<Rightarrow> ('s UatDecoder \<times> 'f UatMessage list \<times> bool) run" where
  "ready_step ops d =
     (if length (samples d) < SYNC_BITS * 2 then Done (d, [], False)
      else case find_sync ops (samples d) of
        None \<Rightarrow>
          let keep = SYNC_BITS * 2 - 1; drop_count = length (samples d) - keep
          in Done (discard_front drop_count d, [], False)
      | Some (start, k, threshold) \<Rightarrow>
          let d = (if start > 0 then discard_front start d else d)
          in frame_step ops d k threshold)"

partial_function (option) decode_ready ::
  "('s, 'f) dsp \<Rightarrow> 's UatDecoder \<Rightarrow> 'f UatMessage list \<Rightarrow> ('s UatDecoder \<times> 'f UatMessage list) run option" where
  "decode_ready ops d output =
     (case ready_step ops d of
        Panic \<Rightarrow> Some Panic
      | Done (d', out, again) \<Rightarrow>
          if again then decode_ready ops d' (output @ out) else Some (Done (d', output @ out)))"

definition push_at ::
  "('s, 'f) dsp \<Rightarrow> 's UatDecoder \<Rightarrow> nat \<Rightarrow> 's list \<Rightarrow> ('s UatDecoder \<times> 'f UatMessage list \<times> SampleGap option) run option" where
  "push_at ops d first input =
     (let gap = (if first \<noteq> next_sample d
                 then Some \<lparr>expected_sample = next_sample d, observed_sample = first\<rparr> else None);
          d = (if gap \<noteq> None then d\<lparr>samples := [], base_sample := first, next_sample := first\<rparr> else d)
      in if input = [] then Some (Done (d, [], gap))
         else
           let d = d\<lparr>samples := samples d @ input, next_sample := sat_add (next_sample d) (length input)\<rparr>
           in case decode_ready ops d [] of
                None \<Rightarrow> None
              | Some Panic \<Rightarrow> Some Panic
              | Some (Done (d', out)) \<Rightarrow> Some (Done (d', out, gap)))"

definition push ::
  "('s, 'f) dsp \<Rightarrow> 's UatDecoder \<Rightarrow> 's list \<Rightarrow> ('s UatDecoder \<times> 'f UatMessage list) run option" where
  "push ops d input =
     (case push_at ops d (next_sample d) input of
        None \<Rightarrow> None
      | Some Panic \<Rightarrow> Some Panic
      | Some (Done (d', out, gap)) \<Rightarrow> Some (Done (d', out)))"

definition reset :: "'s UatDecoder \<Rightarrow> 's UatDecoder" where
  "reset d = d\<lparr>samples := [], base_sample := next_sample d\<rparr>"

section \<open>The buffer\<close>

text \<open>Saturating counters, where counting nothing changes nothing.\<close>

definition advance :: "nat \<Rightarrow> nat \<Rightarrow> nat" where
  "advance b k = (if k = 0 then b else sat_add b k)"

lemma advance_advance: "advance (advance b j) k = advance b (j + k)"
  by (auto simp: advance_def sat_add_def)

lemma pop_samples:
  "(pop_sample ^^ k) d = d\<lparr>samples := drop k (samples d), base_sample := advance (base_sample d) k\<rparr>"
proof (induction k)
  case (Suc k)
  then show ?case
    using advance_advance [of "base_sample d" k 1]
    by (simp add: pop_sample_def advance_def drop_Suc tl_drop)
qed (simp add: advance_def)

lemma discard_front_eq:
  "discard_front n d = d\<lparr>samples := drop n (samples d),
     base_sample := advance (base_sample d) (min n (length (samples d)))\<rparr>"
  by (cases "n \<le> length (samples d)") (simp_all add: discard_front_def pop_samples min_def)

lemma discard_front_0 [simp]: "discard_front 0 d = d"
  by (simp add: discard_front_def)

lemma discard_front_fields [simp]:
  "samples (discard_front n d) = drop n (samples d)" "next_sample (discard_front n d) = next_sample d"
  by (simp_all add: discard_front_eq)

lemma discard_discard:
  "a \<le> length (samples d) \<Longrightarrow> discard_front b (discard_front a d) = discard_front (a + b) d"
  by (simp add: discard_front_eq advance_advance add.commute) (simp add: min_def; arith)

text \<open>More samples at the end.\<close>

definition extend :: "'s UatDecoder \<Rightarrow> 's list \<Rightarrow> nat \<Rightarrow> 's UatDecoder" where
  "extend d ys n = d\<lparr>samples := samples d @ ys, next_sample := n\<rparr>"

lemma extend_fields [simp]: "samples (extend d ys n) = samples d @ ys" "next_sample (extend d ys n) = n"
  "base_sample (extend d ys n) = base_sample d"
  by (simp_all add: extend_def)

lemma extend_extend [simp]: "extend (extend d xs m) ys n = extend d (xs @ ys) n"
  by (simp add: extend_def)

lemma discard_extend: "k \<le> length (samples d) \<Longrightarrow> discard_front k (extend d ys n) = extend (discard_front k d) ys n"
  by (simp add: discard_front_eq extend_def)

section \<open>Windows of the samples\<close>

lemma bit_delta_append:
  "start + b * 2 + 1 < length xs \<Longrightarrow> bit_delta ops (xs @ ys) start b = bit_delta ops xs start b"
  by (simp add: bit_delta_def get_at_def nth_append)

lemma bit_delta_drop: "bit_delta ops (drop k xs) start b = bit_delta ops xs (k + start) b"
proof -
  have "get_at (drop k xs) i = get_at xs (k + i)" for i
    by (auto simp: get_at_def less_diff_conv add.commute)
  then show ?thesis by (simp only: bit_delta_def add.assoc)
qed

lemma sync_at_cong:
  assumes "\<And>b. b < SYNC_BITS \<Longrightarrow> bit_delta ops xs s b = bit_delta ops ys t b"
  shows "sync_at ops xs s = sync_at ops ys t"
proof -
  have "map (bit_delta ops xs s) [0..<SYNC_BITS] = map (bit_delta ops ys t) [0..<SYNC_BITS]"
    using assms by simp
  then show ?thesis by (simp only: sync_at_def match_sync_def)
qed

lemma sync_at_append: "s + 72 \<le> length xs \<Longrightarrow> sync_at ops (xs @ ys) s = sync_at ops xs s"
  by (rule sync_at_cong) (simp add: bit_delta_append SYNC_BITS_def)

lemma sync_at_drop: "sync_at ops (drop k xs) s = sync_at ops xs (k + s)"
  by (rule sync_at_cong) (simp add: bit_delta_drop)

lemma demod_bytes_cong:
  assumes "\<And>b. b < count * 8 \<Longrightarrow> bit_delta ops xs s b = bit_delta ops ys t b"
  shows "demod_bytes ops xs s count threshold = demod_bytes ops ys t count threshold"
proof -
  have "demod_byte ops xs s threshold i = demod_byte ops ys t threshold i" if "i < count" for i
    unfolding demod_byte_def
    by (rule foldl_cong) (use assms that in \<open>auto simp: Let_def intro!: arg_cong2 [where f = "(OR)"]\<close>)
  then show ?thesis by (simp add: demod_bytes_def)
qed

lemma demod_bytes_append:
  "s + count * 16 \<le> length xs \<Longrightarrow> demod_bytes ops (xs @ ys) s count t = demod_bytes ops xs s count t"
  by (rule demod_bytes_cong) (simp add: bit_delta_append)

lemma find_sync_cases:
  assumes "72 \<le> length xs"
  obtains (none) "find_sync ops xs = None" "\<And>j. j + 72 \<le> length xs \<Longrightarrow> sync_at ops xs j = None"
  | (found) s k t where "find_sync ops xs = Some (s, k, t)" "s + 72 \<le> length xs"
      "sync_at ops xs s = Some (k, t)" "\<And>j. j < s \<Longrightarrow> sync_at ops xs j = None"
proof -
  define F where "F = find (\<lambda>start. sync_at ops xs start \<noteq> None) [0..<Suc (length xs - SYNC_BITS * 2)]"
  have range: "j < Suc (length xs - SYNC_BITS * 2) \<longleftrightarrow> j + 72 \<le> length xs" for j
    using assms by (auto simp: SYNC_BITS_def)
  have fs: "find_sync ops xs =
      (case F of None \<Rightarrow> None | Some start \<Rightarrow> map_option (\<lambda>(k, t). (start, k, t)) (sync_at ops xs start))"
    by (simp only: find_sync_def F_def Let_def)
  show thesis
  proof (cases F)
    case None
    then have "\<And>j. j + 72 \<le> length xs \<Longrightarrow> sync_at ops xs j = None"
      unfolding F_def find_upt_None range by blast
    then show thesis using none fs None by simp
  next
    case (Some s)
    then have s: "s + 72 \<le> length xs" "sync_at ops xs s \<noteq> None" "\<And>j. j < s \<Longrightarrow> sync_at ops xs j = None"
      unfolding F_def find_upt_Some range by blast+
    from s(2) obtain k t where "sync_at ops xs s = Some (k, t)" by auto
    then show thesis using found [of s k t] fs Some s by simp
  qed
qed

lemma find_sync_NoneI:
  "72 \<le> length xs \<Longrightarrow> (\<And>j. j + 72 \<le> length xs \<Longrightarrow> sync_at ops xs j = None) \<Longrightarrow> find_sync ops xs = None"
  by (rule find_sync_cases [of xs ops]) auto

lemma find_sync_SomeI:
  assumes "s + 72 \<le> length xs" "sync_at ops xs s = Some (k, t)" "\<And>j. j < s \<Longrightarrow> sync_at ops xs j = None"
  shows "find_sync ops xs = Some (s, k, t)"
proof (rule find_sync_cases [of xs ops])
  show "72 \<le> length xs" using assms(1) by simp
next
  assume "\<And>j. j + 72 \<le> length xs \<Longrightarrow> sync_at ops xs j = None"
  with assms(1,2) show ?thesis by simp
next
  fix s' k' t'
  assume f: "find_sync ops xs = Some (s', k', t')" "sync_at ops xs s' = Some (k', t')"
    and least: "\<And>j. j < s' \<Longrightarrow> sync_at ops xs j = None"
  have "s' = s"
  proof (rule linorder_cases [of s' s])
    assume "s' < s"
    with assms(3) [of s'] f(2) show ?thesis by simp
  next
    assume "s < s'"
    with least [of s] assms(2) show ?thesis by simp
  qed
  with f assms(2) show ?thesis by simp
qed

section \<open>One turn of the loop\<close>

lemma frame_size_eq: "frame_size k = (b, n) \<Longrightarrow> n = 8 * b \<and> 0 < b \<and> n \<le> 4416"
  by (cases k) auto

lemma frame_body_stop: "frame_body ops d k t = Done (d', out, False) \<Longrightarrow> d' = d \<and> out = []"
  by (auto simp: frame_body_def emit_frame_def Let_def split: if_splits prod.splits run.splits option.splits)

lemma frame_step_stop: "frame_step ops d k t = Done (d', out, False) \<Longrightarrow> d' = d \<and> out = []"
  unfolding frame_step_def by (auto dest: frame_body_stop split: if_splits)

lemma emit_frame_extend:
  "emit_frame ops d k required data c = Done (d', out, True) \<Longrightarrow> required \<le> length (samples d) \<Longrightarrow>
     emit_frame ops (extend d ys n) k required data c = Done (extend d' ys n, out, True)"
proof -
  assume e: "emit_frame ops d k required data c = Done (d', out, True)" and l: "required \<le> length (samples d)"
  define a where "a = (if k = DownlinkLong \<and> length data = 18 then DownlinkShort else k)"
  show ?thesis
    using e l unfolding emit_frame_def Let_def a_def [symmetric]
    by (auto simp: discard_extend split: run.splits)
qed

lemma frame_body_extend:
  assumes "frame_body ops d k t = Done (d', out, True)"
  shows "frame_body ops (extend d ys n) k t = Done (extend d' ys n, out, True)"
proof -
  obtain b f where size: "frame_size k = (b, f)" by fastforce
  note f = frame_size_eq [OF size]
  have len: "(SYNC_BITS + f) * 2 \<le> length (samples d)"
    using assms size by (auto simp: frame_body_def Let_def split: if_splits)
  define raw where "raw = demod_bytes ops (samples d) (SYNC_BITS * 2) b t"
  have raw: "demod_bytes ops (samples d @ ys) (SYNC_BITS * 2) b t = raw"
    unfolding raw_def using len f by (intro demod_bytes_append) (simp add: SYNC_BITS_def)
  have body: "frame_body ops e k t = (case correct_frame k raw of Panic \<Rightarrow> Panic
      | Done None \<Rightarrow> Done (discard_front 1 e, [], True)
      | Done (Some (data, corrected)) \<Rightarrow> emit_frame ops e k ((SYNC_BITS + f) * 2) data corrected)"
    if "(SYNC_BITS + f) * 2 \<le> length (samples e)" "demod_bytes ops (samples e) (SYNC_BITS * 2) b t = raw" for e
  proof -
    have "\<not> length (samples e) < (SYNC_BITS + f) * 2" using that(1) by (simp only: not_less)
    then show ?thesis by (simp only: frame_body_def size Let_def prod.case if_False that(2))
  qed
  have one: "discard_front 1 (extend d ys n) = extend (discard_front 1 d) ys n"
    using len by (intro discard_extend) (simp add: SYNC_BITS_def)
  have b1: "frame_body ops d k t = (case correct_frame k raw of Panic \<Rightarrow> Panic
      | Done None \<Rightarrow> Done (discard_front 1 d, [], True)
      | Done (Some (data, corrected)) \<Rightarrow> emit_frame ops d k ((SYNC_BITS + f) * 2) data corrected)"
    by (rule body [OF len]) (simp only: raw_def)
  have b2: "frame_body ops (extend d ys n) k t = (case correct_frame k raw of Panic \<Rightarrow> Panic
      | Done None \<Rightarrow> Done (extend (discard_front 1 d) ys n, [], True)
      | Done (Some (data, corrected)) \<Rightarrow> emit_frame ops (extend d ys n) k ((SYNC_BITS + f) * 2) data corrected)"
    unfolding one [symmetric] by (rule body) (use len in \<open>simp_all add: raw trans_le_add1\<close>)
  show ?thesis
    using assms len unfolding b1 b2
    by (auto intro: emit_frame_extend split: run.splits option.splits)
qed

lemma frame_kind_append:
  "88 \<le> length xs \<Longrightarrow> frame_kind ops (xs @ ys) t = frame_kind ops xs t"
  by (simp add: frame_kind_def demod_bytes_append SYNC_BITS_def)

lemma frame_step_extend:
  assumes "frame_step ops d k t = Done (d', out, True)"
  shows "frame_step ops (extend d ys n) k t = Done (extend d' ys n, out, True)"
proof -
  have hdr: "\<not> (k = DownlinkShort \<and> length (samples d) < SYNC_BITS * 2 + 16)"
    and body: "frame_body ops d (if k = DownlinkShort then frame_kind ops (samples d) t else k) t = Done (d', out, True)"
    using assms by (auto simp: frame_step_def split: if_splits)
  have k: "(if k = DownlinkShort then frame_kind ops (samples d @ ys) t else k) =
      (if k = DownlinkShort then frame_kind ops (samples d) t else k)"
    using hdr by (auto simp: frame_kind_append SYNC_BITS_def)
  from hdr have hdr': "\<not> (k = DownlinkShort \<and> length (samples (extend d ys n)) < SYNC_BITS * 2 + 16)" by auto
  have "frame_step ops (extend d ys n) k t = frame_body ops (extend d ys n)
      (if k = DownlinkShort then frame_kind ops (samples d) t else k) t"
    using hdr' by (simp only: frame_step_def if_False extend_fields k)
  then show ?thesis using frame_body_extend [OF body] by simp
qed

text \<open>The next synchronisation word does not depend on samples already known to hold none.\<close>

lemma find_sync_skip:
  assumes none: "\<And>s. s < k \<Longrightarrow> sync_at ops xs s = None" and len: "k + 72 \<le> length xs"
  shows "find_sync ops xs = map_option (\<lambda>(s, r). (k + s, r)) (find_sync ops (drop k xs))"
proof (rule find_sync_cases [of "drop k xs" ops])
  show "72 \<le> length (drop k xs)" using len by simp
next
  assume f: "find_sync ops (drop k xs) = None"
    and n: "\<And>j. j + 72 \<le> length (drop k xs) \<Longrightarrow> sync_at ops (drop k xs) j = None"
  have "sync_at ops xs j = None" if j: "j + 72 \<le> length xs" for j
  proof (cases "j < k")
    case False
    then have "sync_at ops (drop k xs) (j - k) = None" using j by (intro n) simp
    with False show ?thesis by (simp add: sync_at_drop)
  qed (rule none)
  then have "find_sync ops xs = None" using len by (intro find_sync_NoneI) simp_all
  with f show ?thesis by simp
next
  fix s m t
  assume f: "find_sync ops (drop k xs) = Some (s, m, t)" and s: "s + 72 \<le> length (drop k xs)"
    and m: "sync_at ops (drop k xs) s = Some (m, t)"
    and least: "\<And>j. j < s \<Longrightarrow> sync_at ops (drop k xs) j = None"
  have "sync_at ops xs j = None" if j: "j < k + s" for j
  proof (cases "j < k")
    case False
    then have "sync_at ops (drop k xs) (j - k) = None" using j by (intro least) simp
    with False show ?thesis by (simp add: sync_at_drop)
  qed (rule none)
  then have "find_sync ops xs = Some (k + s, m, t)"
    using s m len by (intro find_sync_SomeI) (simp_all add: sync_at_drop)
  with f show ?thesis by simp
qed

lemma ready_step_long:
  "72 \<le> length (samples d) \<Longrightarrow> ready_step ops d = (case find_sync ops (samples d) of
     None \<Rightarrow> Done (discard_front (length (samples d) - 71) d, [], False)
   | Some (start, k, t) \<Rightarrow> frame_step ops (discard_front start d) k t)"
  by (auto simp: ready_step_def SYNC_BITS_def split: option.split)

lemma ready_step_short: "length (samples d) < 72 \<Longrightarrow> ready_step ops d = Done (d, [], False)"
  by (simp add: ready_step_def SYNC_BITS_def)

lemma ready_step_skip:
  assumes "\<And>s. s < k \<Longrightarrow> sync_at ops (samples d) s = None" and "k + 71 \<le> length (samples d)"
  shows "ready_step ops (discard_front k d) = ready_step ops d"
proof (cases "k + 72 \<le> length (samples d)")
  case True
  have dd: "discard_front s (discard_front k d) = discard_front (k + s) d" for s
    using True by (intro discard_discard) simp
  have "k + (length (samples d) - k - 71) = length (samples d) - 71" using True by simp
  then show ?thesis
    using True ready_step_long [of d ops] ready_step_long [of "discard_front k d" ops]
      find_sync_skip [OF assms(1) True]
    by (auto simp: dd split: option.split)
next
  case False
  with assms(2) have l: "length (samples d) = k + 71" by simp
  show ?thesis
  proof (cases "k = 0")
    case False
    have "find_sync ops (samples d) = None"
      using l False assms(1) by (intro find_sync_NoneI) simp_all
    with l False show ?thesis
      using ready_step_long [of d ops] ready_step_short [of "discard_front k d" ops] by simp
  qed simp
qed

lemma ready_step_extend:
  assumes "ready_step ops d = Done (d', out, True)"
  shows "ready_step ops (extend d ys n) = Done (extend d' ys n, out, True)"
proof -
  have len: "72 \<le> length (samples d)"
    using assms by (cases "length (samples d) < 72") (auto simp: ready_step_short)
  with assms ready_step_long [OF len, of ops] obtain s k t
    where f: "find_sync ops (samples d) = Some (s, k, t)"
      and fs: "frame_step ops (discard_front s d) k t = Done (d', out, True)"
    by (auto split: option.splits)
  have s: "s + 72 \<le> length (samples d)" "sync_at ops (samples d) s = Some (k, t)"
    "\<And>j. j < s \<Longrightarrow> sync_at ops (samples d) j = None"
    by (rule find_sync_cases [OF len, of ops]; use f in auto)+
  have "find_sync ops (samples d @ ys) = Some (s, k, t)"
    using s by (intro find_sync_SomeI) (simp_all add: sync_at_append)
  then show ?thesis
    using len s(1) frame_step_extend [OF fs, of ys n] ready_step_long [of "extend d ys n" ops]
    by (simp add: discard_extend)
qed

text \<open>When the loop stops it has only dropped samples that cannot start a frame.\<close>

lemma ready_step_stop:
  assumes "ready_step ops d = Done (d', out, False)"
  obtains k where "out = []" "d' = discard_front k d" "k + 71 \<le> length (samples d) \<or> k = 0"
    "\<And>s. s < k \<Longrightarrow> sync_at ops (samples d) s = None" "length (samples d') < MAX_FRAME_SAMPLES"
proof (cases "length (samples d) < 72")
  case True
  then have "d' = d" "out = []" using assms by (simp_all add: ready_step_short)
  with True that [of 0] show thesis
    by (simp add: MAX_FRAME_SAMPLES_def MAX_FRAME_BITS_def SYNC_BITS_def)
next
  case False
  then have len: "72 \<le> length (samples d)" by simp
  show thesis
  proof (rule find_sync_cases [OF len, of ops])
    assume f: "find_sync ops (samples d) = None"
      and none: "\<And>j. j + 72 \<le> length (samples d) \<Longrightarrow> sync_at ops (samples d) j = None"
    have d': "d' = discard_front (length (samples d) - 71) d" "out = []"
      using assms len f by (simp_all add: ready_step_long)
    show thesis
      by (rule that [OF d'(2,1)])
        (use len none in \<open>auto simp: d' MAX_FRAME_SAMPLES_def MAX_FRAME_BITS_def SYNC_BITS_def\<close>)
  next
    fix s k t
    assume f: "find_sync ops (samples d) = Some (s, k, t)" "s + 72 \<le> length (samples d)"
      and none: "\<And>j. j < s \<Longrightarrow> sync_at ops (samples d) j = None"
    have fs: "frame_step ops (discard_front s d) k t = Done (d', out, False)"
      using assms len f by (simp add: ready_step_long)
    from frame_step_stop [OF this] have d': "d' = discard_front s d" "out = []" by simp_all
    have "length (samples d') < MAX_FRAME_SAMPLES"
    proof (rule ccontr)
      assume "\<not> length (samples d') < MAX_FRAME_SAMPLES"
      then have l: "8904 \<le> length (samples (discard_front s d))"
        unfolding d' by (simp add: MAX_FRAME_SAMPLES_def MAX_FRAME_BITS_def SYNC_BITS_def)
      define m where "m = (if k = DownlinkShort then frame_kind ops (samples (discard_front s d)) t else k)"
      obtain b f where size: "frame_size m = (b, f)" by fastforce
      have "(SYNC_BITS + f) * 2 \<le> 8904" using frame_size_eq [OF size] by (simp add: SYNC_BITS_def)
      then have "\<not> length (samples (discard_front s d)) < (SYNC_BITS + f) * 2" using l by linarith
      then have "frame_body ops (discard_front s d) m t \<noteq> Done (d', out, False)"
        by (auto simp: frame_body_def size Let_def emit_frame_def simp del: discard_front_fields
            split: run.splits option.splits)
      moreover have "\<not> (k = DownlinkShort \<and> length (samples (discard_front s d)) < SYNC_BITS * 2 + 16)"
        using l by (auto simp: SYNC_BITS_def)
      ultimately show False
        using fs unfolding frame_step_def m_def by (simp only: if_False)
    qed
    with d' f none show thesis by (intro that [of s]) simp_all
  qed
qed

lemma ready_step_resume:
  assumes "ready_step ops d = Done (d', out, False)"
  shows "ready_step ops (extend d' ys n) = ready_step ops (extend d ys n)"
proof -
  obtain k where k: "d' = discard_front k d" "k + 71 \<le> length (samples d) \<or> k = 0"
    "\<And>s. s < k \<Longrightarrow> sync_at ops (samples d) s = None"
    using ready_step_stop [OF assms] by metis
  show ?thesis
  proof (cases "k = 0")
    case False
    then have "k + 71 \<le> length (samples d)" using k(2) by simp
    moreover have "sync_at ops (samples d @ ys) s = None" if "s < k" for s
      using that calculation k(3) [OF that] by (simp add: sync_at_append)
    ultimately have "ready_step ops (discard_front k (extend d ys n)) = ready_step ops (extend d ys n)"
      by (intro ready_step_skip) simp_all
    moreover have "discard_front k (extend d ys n) = extend d' ys n"
      using \<open>k + 71 \<le> length (samples d)\<close> unfolding k(1) by (intro discard_extend) simp
    ultimately show ?thesis by simp
  qed (simp add: k(1))
qed

section \<open>The loop returns\<close>

lemma frame_step_shrinks:
  assumes "frame_step ops d k t = Done (d', out, True)"
  shows "length (samples d') < length (samples d)"
proof -
  define m where "m = (if k = DownlinkShort then frame_kind ops (samples d) t else k)"
  have body: "frame_body ops d m t = Done (d', out, True)"
    using assms unfolding frame_step_def m_def by (simp split: if_splits)
  obtain b f where size: "frame_size m = (b, f)" by fastforce
  have "0 < length (samples d)"
    using body size by (auto simp: frame_body_def Let_def SYNC_BITS_def split: if_splits)
  with body size show ?thesis
    by (auto simp: frame_body_def Let_def emit_frame_def SYNC_BITS_def split: if_splits run.splits option.splits)
qed

lemma ready_step_shrinks:
  assumes "ready_step ops d = Done (d', out, True)"
  shows "length (samples d') < length (samples d)"
proof -
  have "72 \<le> length (samples d)"
    using assms by (cases "length (samples d) < 72") (auto simp: ready_step_short)
  with assms obtain s k t where "frame_step ops (discard_front s d) k t = Done (d', out, True)"
    by (auto simp: ready_step_long split: option.splits)
  from frame_step_shrinks [OF this] show ?thesis by simp
qed

text \<open>The frames handed to the report decoder are long enough for what it reads.\<close>

lemma frame_report_no_panic:
  assumes "correct_frame k raw = Done (Some (data, c))"
  shows "frame_report ops (if k = DownlinkLong \<and> length data = 18 then DownlinkShort else k) data \<noteq> Panic"
proof (cases "k = Uplink")
  case False
  then have dl: "correct_downlink raw = Done (Some (data, c))"
    using assms by (cases k) (simp_all add: correct_frame_def)
  have "decode_adsb fl fa data \<noteq> Panic" for fl fa
  proof
    assume "decode_adsb fl fa data = Panic"
    then have "length data = 18" "bits data 1 5 = 1 \<or> bits data 1 5 = 3"
      by (simp_all add: decode_adsb_panics_iff)
    then show False using correct_downlink_shape [OF dl] payload_type_0 [of data] by auto
  qed
  then show ?thesis by (auto simp: frame_report_def split: MessageKind.split)
qed (simp add: frame_report_def)

lemma correct_frame_no_panic: "correct_frame k raw \<noteq> Panic"
  using fec_no_panic [of raw] by (cases k) (simp_all add: correct_frame_def)

lemma frame_body_no_panic: "frame_body ops d k t \<noteq> Panic"
proof -
  obtain b f where size: "frame_size k = (b, f)" by fastforce
  have "emit_frame ops d k required data c \<noteq> Panic" if "correct_frame k raw = Done (Some (data, c))"
    for required data c raw
  proof -
    define a where "a = (if k = DownlinkLong \<and> length data = 18 then DownlinkShort else k)"
    have "frame_report ops a data \<noteq> Panic" unfolding a_def by (rule frame_report_no_panic [OF that])
    then show ?thesis unfolding emit_frame_def Let_def a_def [symmetric] by (simp split: run.split)
  qed
  then show ?thesis
    using correct_frame_no_panic by (auto simp: frame_body_def size Let_def split: run.splits option.splits)
qed

lemma ready_step_no_panic: "ready_step ops d \<noteq> Panic"
  by (auto simp: ready_step_def frame_step_def frame_body_no_panic Let_def split: option.splits)

text \<open>The loop as a total function.\<close>

function run_ready :: "('s, 'f) dsp \<Rightarrow> 's UatDecoder \<Rightarrow> 's UatDecoder \<times> 'f UatMessage list" where
  "run_ready ops d =
     (case ready_step ops d of
        Panic \<Rightarrow> (d, [])
      | Done (d', out, again) \<Rightarrow>
          if again then (let (d2, out2) = run_ready ops d' in (d2, out @ out2)) else (d', out))"
  by pat_completeness auto
termination
  by (relation "measure (\<lambda>(ops, d). length (samples d))") (auto dest: ready_step_shrinks)

declare run_ready.simps [simp del]

lemma run_ready_again:
  "ready_step ops d = Done (d', out, True) \<Longrightarrow> run_ready ops d = (fst (run_ready ops d'), out @ snd (run_ready ops d'))"
  by (subst run_ready.simps) (simp add: split_beta)

lemma run_ready_stop:
  "ready_step ops d = Done (d', out, False) \<Longrightarrow> run_ready ops d = (d', out)"
  by (subst run_ready.simps) simp

lemma run_ready_cong:
  assumes "ready_step ops d = ready_step ops e"
  shows "run_ready ops d = run_ready ops e"
proof (cases "ready_step ops e")
  case Panic
  then show ?thesis by (simp add: ready_step_no_panic)
next
  case (Done r)
  with assms show ?thesis
    by (cases r) (simp add: run_ready.simps [of ops d] run_ready.simps [of ops e])
qed

lemma run_ready_cases [case_names again stop]:
  fixes ops :: "('s, 'f) dsp"
  assumes again: "\<And>d d' out. ready_step ops d = Done (d', out, True) \<Longrightarrow> P d' \<Longrightarrow> P d"
    and stop: "\<And>d d' out. ready_step ops d = Done (d', out, False) \<Longrightarrow> P d"
  shows "P d"
proof (induction "length (samples d)" arbitrary: d rule: less_induct)
  case less
  obtain d' out b where s: "ready_step ops d = Done (d', out, b)"
    using ready_step_no_panic [of ops d] by (cases "ready_step ops d") auto
  show ?case
  proof (cases b)
    case True
    with s have s: "ready_step ops d = Done (d', out, True)" by simp
    show ?thesis by (rule again [OF s less [OF ready_step_shrinks [OF s]]])
  next
    case False
    with s have "ready_step ops d = Done (d', out, False)" by simp
    then show ?thesis by (rule stop)
  qed
qed

lemma decode_ready_run:
  "decode_ready ops d acc = Some (Done (fst (run_ready ops d), acc @ snd (run_ready ops d)))"
proof (induction d arbitrary: acc rule: run_ready_cases [of ops])
  case (again d d' out)
  then show ?case by (subst decode_ready.simps) (simp add: run_ready_again [OF again(1)])
next
  case (stop d d' out)
  then show ?case by (subst decode_ready.simps) (simp add: run_ready_stop [OF stop])
qed

section \<open>The receiver does not see how its input is cut\<close>

lemma run_ready_next: "next_sample (fst (run_ready ops d)) = next_sample d"
proof (induction d rule: run_ready_cases [of ops])
  case (again d d' out)
  have "next_sample d' = next_sample d"
    using again(1) by (auto simp: ready_step_def frame_step_def frame_body_def emit_frame_def Let_def
        split: if_splits option.splits run.splits prod.splits)
  with again show ?case by (simp add: run_ready_again [OF again(1)])
next
  case (stop d d' out)
  from ready_step_stop [OF stop] obtain k where "d' = discard_front k d" by metis
  then show ?case by (simp add: run_ready_stop [OF stop])
qed

lemma run_ready_extend:
  "run_ready ops (extend d ys n) =
     (fst (run_ready ops (extend (fst (run_ready ops d)) ys n)),
      snd (run_ready ops d) @ snd (run_ready ops (extend (fst (run_ready ops d)) ys n)))"
proof (induction d rule: run_ready_cases [of ops])
  case (again d d' out)
  from run_ready_again [OF ready_step_extend [OF again(1), of ys n]] again(2)
  show ?case by (simp add: run_ready_again [OF again(1)])
next
  case (stop d d' out)
  have "run_ready ops (extend d' ys n) = run_ready ops (extend d ys n)"
    by (rule run_ready_cong [OF ready_step_resume [OF stop]])
  moreover have "out = []" using ready_step_stop [OF stop] by metis
  ultimately show ?case by (simp add: run_ready_stop [OF stop])
qed

text \<open>\<open>push\<close> as the total function it is.\<close>

definition pushed :: "('s, 'f) dsp \<Rightarrow> 's UatDecoder \<Rightarrow> 's list \<Rightarrow> 's UatDecoder \<times> 'f UatMessage list" where
  "pushed ops d input =
     (if input = [] then (d, [])
      else run_ready ops (extend d input (sat_add (next_sample d) (length input))))"

lemma push_pushed: "push ops d input = Some (Done (pushed ops d input))"
  by (simp add: push_def push_at_def pushed_def decode_ready_run extend_def Let_def split_beta)

interpretation uat_receiver: chunked "pushed ops" "\<lambda>_. True" for ops :: "('s, 'f) dsp"
proof
  fix d :: "'s UatDecoder" and xs ys :: "'s list"
  show "pushed ops d (xs @ ys) = (fst (pushed ops (fst (pushed ops d xs)) ys),
      snd (pushed ops d xs) @ snd (pushed ops (fst (pushed ops d xs)) ys))"
  proof (cases "xs = [] \<or> ys = []")
    case False
    let ?n = "sat_add (next_sample d) (length xs)" 
    let ?m = "sat_add ?n (length ys)"
    have m: "sat_add (next_sample d) (length xs + length ys) = ?m" by (simp add: sat_add_def)
    have "pushed ops d (xs @ ys) = run_ready ops (extend (extend d xs ?n) ys ?m)"
      using False by (simp add: pushed_def m)
    also have "\<dots> = (fst (run_ready ops (extend (fst (run_ready ops (extend d xs ?n))) ys ?m)),
        snd (run_ready ops (extend d xs ?n)) @ snd (run_ready ops (extend (fst (run_ready ops (extend d xs ?n))) ys ?m)))"
      by (rule run_ready_extend)
    finally show ?thesis
      using False by (simp add: pushed_def run_ready_next)
  qed (auto simp: pushed_def)
qed (simp_all add: pushed_def)

section \<open>Where the messages come from\<close>







text \<open>A series of calls of \<open>push\<close>, and the messages of all of them.\<close>

fun push_all ::
  "('s, 'f) dsp \<Rightarrow> 's UatDecoder \<Rightarrow> 's list list \<Rightarrow> ('s UatDecoder \<times> 'f UatMessage list) run option" where
  "push_all ops d [] = Some (Done (d, []))"
| "push_all ops d (chunk # chunks) =
     (case push ops d chunk of
        Some (Done (d1, out1)) \<Rightarrow>
          (case push_all ops d1 chunks of
             Some (Done (d2, out2)) \<Rightarrow> Some (Done (d2, out1 @ out2))
           | r \<Rightarrow> r)
      | r \<Rightarrow> r)"

lemma push_all_feed: "push_all ops d chunks = Some (Done (feed (pushed ops) d chunks))"
  by (induction chunks arbitrary: d) (simp_all add: push_pushed split_beta Let_def)

section \<open>Properties\<close>

text \<open>C13: every call of the receiver returns, whatever the samples and the stream position: the
  \<open>loop\<close> of \<open>decode_ready\<close> ends, no slice index and no step of the error correction or the report
  decoder panics, and fewer samples than one maximal frame stay buffered.\<close>

theorem uat_receiver_returns:
  "\<exists>d' out gap. push_at ops d first input = Some (Done (d', out, gap)) \<and>
     (input = [] \<or> length (samples d') < MAX_FRAME_SAMPLES)"
proof -
  have short: "length (samples (fst (run_ready ops e))) < MAX_FRAME_SAMPLES" for e
  proof (induction e rule: run_ready_cases [of ops])
    case (again d d' out)
    then show ?case by (simp add: run_ready_again [OF again(1)])
  next
    case (stop d d' out)
    then show ?case using ready_step_stop [OF stop] by (metis fst_conv run_ready_stop)
  qed
  show ?thesis
    unfolding push_at_def Let_def decode_ready_run by (simp add: short split_beta)
qed

text \<open>C14: the messages and the final state do not depend on how the samples are cut into calls:
  any series of calls is one call with all the samples.\<close>

theorem uat_chunk_invariant: "push_all ops d chunks = push ops d (concat chunks)"
  unfolding push_all_feed push_pushed by (simp only: uat_receiver.feed_concat)







end
