(* ===== verification/Rds_Link.thy ===== *)
theory Rds_Link
  imports Prelude
begin

text \<open>
  The data link of the broadcast text receiver, from \<^verbatim>\<open>ez-gui/src/radio_rds.rs\<close>: the syndrome of the
  26-bit blocks and \<open>BlockSync\<close>, the state machine that finds block boundaries in a bit stream and
  reports groups of four blocks. The lemmas give the code its algebra (the syndrome is linear and is
  the offset of an encoded block), and relate the state machine to the bits received so far.
\<close>

section \<open>The code\<close>

definition OFFSETS :: "u16 list" where "OFFSETS = [0x0FC, 0x198, 0x168, 0x1B4, 0x350]"

definition syndrome_step :: "u32 \<Rightarrow> nat \<Rightarrow> u32" where
  "syndrome_step word b = (if word AND push_bit b 1 \<noteq> 0 then word XOR push_bit (b - 10) 0x5B9 else word)"

definition syndrome :: "u32 \<Rightarrow> u16" where
  "syndrome word = ucast (foldl syndrome_step word (rev [10..<26]))"

record BlockSync =
  shift :: u32
  bits :: nat
  until_block :: nat
  next_block :: nat
  group_words :: "u16 list"
  acquired :: bool
  crc_errors :: nat

definition block_sync_default :: BlockSync where
  "block_sync_default = \<lparr>shift = 0, bits = 0, until_block = 0, next_block = 0, group_words = [0, 0, 0, 0],
     acquired = False, crc_errors = 0\<rparr>"

definition version_b :: "u16 list \<Rightarrow> bool" where
  "version_b g \<longleftrightarrow> g ! 1 AND 0x0800 \<noteq> 0"

definition expected_offset :: "u16 list \<Rightarrow> nat \<Rightarrow> u16" where
  "expected_offset g i = (if i = 2 \<and> version_b g then OFFSETS ! 4 else OFFSETS ! i)"

definition payload_of :: "u32 \<Rightarrow> u16" where
  "payload_of word = ucast (drop_bit 10 word)"

definition repeated_pi_ok :: "u16 list \<Rightarrow> nat \<Rightarrow> u16 \<Rightarrow> bool" where
  "repeated_pi_ok g i payload \<longleftrightarrow> i \<noteq> 2 \<or> \<not> version_b g \<or> payload = g ! 0"

text \<open>The search for a first block, and the end of an expected block.\<close>

definition search_block :: "BlockSync \<Rightarrow> BlockSync \<times> u16 list option" where
  "search_block s =
     (if syndrome (shift s) = OFFSETS ! 0
      then (s\<lparr>group_words := (group_words s)[0 := payload_of (shift s)], next_block := 1, until_block := 26\<rparr>, None)
      else (s, None))"

definition end_of_block :: "BlockSync \<Rightarrow> BlockSync \<times> u16 list option" where
  "end_of_block s =
     (let payload = payload_of (shift s) in
      if syndrome (shift s) = expected_offset (group_words s) (next_block s) \<and>
         repeated_pi_ok (group_words s) (next_block s) payload
      then
        let s = s\<lparr>group_words := (group_words s)[next_block s := payload], next_block := next_block s + 1, until_block := 26\<rparr>
        in if next_block s = 4 then (s\<lparr>next_block := 0, acquired := True\<rparr>, Some (group_words s)) else (s, None)
      else
        let s = (if acquired s then s\<lparr>crc_errors := sat_add (crc_errors s) 1\<rparr> else s)
        in search_block (s\<lparr>next_block := 0, acquired := False\<rparr>))"

definition push_bit_sync :: "BlockSync \<Rightarrow> bool \<Rightarrow> BlockSync \<times> u16 list option" where
  "push_bit_sync s b =
     (let s = s\<lparr>shift := (push_bit 1 (shift s) OR of_bool b) AND 0x03FFFFFF, bits := min (bits s + 1) 26\<rparr> in
      if bits s < 26 then (s, None)
      else if next_block s \<noteq> 0 \<or> acquired s then
        let s = s\<lparr>until_block := until_block s - 1\<rparr> in
        if until_block s \<noteq> 0 then (s, None) else end_of_block s
      else search_block s)"

text \<open>A stream of bits through the synchroniser and the groups it reports.\<close>

fun sync_bits :: "BlockSync \<Rightarrow> bool list \<Rightarrow> BlockSync \<times> u16 list list" where
  "sync_bits s [] = (s, [])"
| "sync_bits s (b # bs) =
     (let (s1, out) = push_bit_sync s b; (s2, rest) = sync_bits s1 bs
      in (s2, (case out of None \<Rightarrow> rest | Some g \<Rightarrow> g # rest)))"

section \<open>The syndrome\<close>

lemma and_push_bit_1: "(w AND push_bit b 1 \<noteq> 0) = bit w b" for w :: u32
proof (cases "b < 32")
  case True
  have "(w AND push_bit b 1 = 0) = (\<not> bit w b)"
  proof
    assume "w AND push_bit b 1 = 0"
    then have "\<not> bit (w AND push_bit b 1) b" by simp
    then show "\<not> bit w b" using True by (simp add: bit_simps)
  next
    assume "\<not> bit w b"
    then show "w AND push_bit b 1 = 0" by (intro bit_word_eqI) (auto simp: bit_simps)
  qed
  then show ?thesis by simp
next
  case False
  then have "push_bit b (1 :: u32) = 0" by (intro bit_word_eqI) (auto simp: bit_simps)
  then show ?thesis using False by (simp only: and_zero_eq) (auto dest: bit_imp_le_length)
qed

lemma syndrome_step_bit: "syndrome_step w b = (if bit w b then w XOR push_bit (b - 10) 0x5B9 else w)"
  by (simp only: syndrome_step_def and_push_bit_1)

lemma xor_four: "(a XOR c) XOR (b XOR c) = a XOR b" for a b c :: "'a::len word"
  by (rule bit_word_eqI) (auto simp: bit_simps)

lemma syndrome_step_xor: "syndrome_step (v XOR w) b = syndrome_step v b XOR syndrome_step w b"
  by (auto simp: syndrome_step_bit bit_xor_iff xor_four ac_simps)

lemma syndrome_fold_xor:
  "foldl syndrome_step (v XOR w) bs = foldl syndrome_step v bs XOR foldl syndrome_step w bs"
  by (induction bs arbitrary: v w) (simp_all add: syndrome_step_xor)

lemma syndrome_xor: "syndrome (v XOR w) = syndrome v XOR syndrome w"
  by (simp only: syndrome_def syndrome_fold_xor ucast_xor)

lemma syndrome_0 [simp]: "syndrome 0 = 0"
  using syndrome_xor [of 0 0] by simp

lemma syndrome_small:
  assumes "\<And>i. bit w i \<Longrightarrow> i < 10"
  shows "syndrome w = ucast w"
proof -
  have "foldl syndrome_step w bs = w" if "\<forall>b \<in> set bs. 10 \<le> b" for bs
    using that
  proof (induction bs)
    case (Cons b bs)
    then have "\<not> bit w b" using assms by fastforce
    then show ?case using Cons by (simp add: syndrome_step_bit)
  qed simp
  then show ?thesis unfolding syndrome_def by (metis atLeastLessThan_iff set_rev set_upt)
qed

text \<open>Two linear functions of words are equal when they agree on the powers of two.\<close>

lemma linear_eq:
  fixes f g :: "'a::len word \<Rightarrow> 'b::len word"
  assumes f: "\<And>a b. f (a XOR b) = f a XOR f b" and g: "\<And>a b. g (a XOR b) = g a XOR g b"
    and basis: "\<And>k. k < LENGTH('a) \<Longrightarrow> f (push_bit k 1) = g (push_bit k 1)"
  shows "f w = g w"
proof -
  have zero: "f 0 = 0" "g 0 = 0" using f [of 0 0] g [of 0 0] by simp_all
  have "f (take_bit n w) = g (take_bit n w)" if "n \<le> LENGTH('a)" for n
    using that
  proof (induction n)
    case (Suc n)
    have "take_bit (Suc n) w = take_bit n w XOR (if bit w n then push_bit n 1 else 0)"
      using Suc.prems by (intro bit_word_eqI) (auto simp: bit_simps less_Suc_eq)
    then show ?case using Suc basis [of n] by (simp add: f g zero)
  qed (simp add: zero)
  from this [of "LENGTH('a)"] show ?thesis by simp
qed

lemma small_bits: "unat w < 2 ^ k \<Longrightarrow> bit w i \<Longrightarrow> i < k" for w :: "'a::len word"
proof -
  assume "unat w < 2 ^ k" and i: "bit w i"
  then have "unat (take_bit k w) = unat w" by (simp add: unsigned_take_bit_eq take_bit_nat_eq_self del: of_nat_unat)
  then have "take_bit k w = w" by (simp only: word_unat_eq_iff)
  then show "i < k" using i by (metis bit_take_bit_iff)
qed

section \<open>The encoder\<close>

text \<open>The check word of a block: a ten-bit shift register fed with the data from the top bit down.\<close>

definition check_step :: "u16 \<Rightarrow> u16 \<Rightarrow> nat \<Rightarrow> u16" where
  "check_step data register b =
     (let shifted = push_bit 1 register AND 0x3FF
      in if bit register 9 \<noteq> bit data b then shifted XOR 0x1B9 else shifted)"

definition check_word :: "u16 \<Rightarrow> u16" where
  "check_word data = foldl (check_step data) 0 (rev [0..<16])"

definition encode_block :: "u16 \<Rightarrow> u16 \<Rightarrow> u32" where
  "encode_block data offset = push_bit 10 (ucast data) XOR ucast (check_word data XOR offset)"

lemma check_step_xor:
  "check_step (c XOR d) (r XOR s) b = check_step c r b XOR check_step d s b"
proof -
  have "push_bit 1 (r XOR s) AND 0x3FF = (push_bit 1 r AND 0x3FF) XOR (push_bit 1 s AND 0x3FF)"
    by (rule bit_word_eqI) (auto simp: bit_simps)
  then show ?thesis
    by (cases "bit r 9"; cases "bit c b"; cases "bit s 9"; cases "bit d b")
      (simp_all add: check_step_def Let_def bit_xor_iff xor_four ac_simps)
qed

lemma check_word_xor: "check_word (c XOR d) = check_word c XOR check_word d"
proof -
  have "foldl (check_step (c XOR d)) (r XOR s) bs = foldl (check_step c) r bs XOR foldl (check_step d) s bs" for r s bs
    by (induction bs arbitrary: r s) (simp_all add: check_step_xor)
  from this [of 0 0] show ?thesis by (simp add: check_word_def)
qed

lemma check_word_bits: "bit (check_word data) i \<Longrightarrow> i < 10"
proof -
  have mask: "i < 10" if "bit (0x3FF :: u16) i" for i
    by (rule small_bits [OF _ that]) simp
  have poly: "i < 10" if "bit (0x1B9 :: u16) i" for i
    by (rule small_bits [OF _ that]) simp
  have "\<forall>i. bit (check_step data r b) i \<longrightarrow> i < 10" for r b
    unfolding check_step_def Let_def using mask poly by (simp add: bit_and_iff bit_xor_iff del: push_bit_Suc) blast
  then have "\<forall>i. bit (foldl (check_step data) r bs) i \<longrightarrow> i < 10" if "\<forall>i. bit r i \<longrightarrow> i < 10" for r bs
    using that by (induction bs arbitrary: r) (simp, simp only: foldl.simps, blast)
  then show "bit (check_word data) i \<Longrightarrow> i < 10" by (metis check_word_def bit_0_eq bot_apply bot_bool_def)
qed

lemma bit_lists:
  "rev [10..<26] = [25, 24, 23, 22, 21, 20, 19, 18, 17, 16, 15, 14, 13, 12, 11, 10]"
  "rev [0..<16] = [15, 14, 13, 12, 11, 10, 9, 8, 7, 6, 5, 4, 3, 2, 1, 0]"
  by (simp_all add: upt_rec)

lemma syndrome_check_word: "syndrome (push_bit 10 (ucast data)) = check_word data"
proof (rule linear_eq [where f = "\<lambda>d. syndrome (push_bit 10 (ucast d))" and g = check_word])
  show "syndrome (push_bit 10 (ucast (c XOR d))) = syndrome (push_bit 10 (ucast c)) XOR syndrome (push_bit 10 (ucast d))"
    for c d :: u16
    by (simp only: ucast_xor push_bit_xor syndrome_xor)
next
  fix k
  assume "k < LENGTH(16)"
  then have "k \<in> set (rev [0..<16])" by simp
  then have "k = 0 \<or> k = 1 \<or> k = 2 \<or> k = 3 \<or> k = 4 \<or> k = 5 \<or> k = 6 \<or> k = 7 \<or> k = 8 \<or> k = 9 \<or> k = 10 \<or>
      k = 11 \<or> k = 12 \<or> k = 13 \<or> k = 14 \<or> k = 15"
    unfolding bit_lists by simp blast
  then show "syndrome (push_bit 10 (ucast (push_bit k 1 :: u16))) = check_word (push_bit k 1)"
    by (elim disjE; hypsubst)
      (simp_all add: bit_lists syndrome_def syndrome_step_bit check_word_def check_step_def Let_def)
qed (rule check_word_xor)

lemma syndrome_encode_block:
  assumes "unat offset < 2 ^ 10"
  shows "syndrome (encode_block data offset) = offset"
proof -
  have "bit (check_word data XOR offset) i \<Longrightarrow> i < 10" for i
    using check_word_bits small_bits [OF assms] by (auto simp: bit_xor_iff)
  then have "syndrome (ucast (check_word data XOR offset)) = check_word data XOR offset"
    by (subst syndrome_small) (auto simp: bit_unsigned_iff intro!: bit_word_eqI)
  then show ?thesis
    unfolding encode_block_def syndrome_xor syndrome_check_word by (simp only: xor_self_cancel)
qed

lemma payload_encode_block:
  assumes "unat offset < 2 ^ 10"
  shows "payload_of (encode_block data offset) = data"
proof (rule bit_word_eqI)
  fix i
  assume "i < LENGTH(16)"
  have "\<not> bit (check_word data XOR offset) (i + 10)"
    using check_word_bits [of data "i + 10"] small_bits [OF assms, of "i + 10"] by (auto simp: bit_xor_iff)
  then show "bit (payload_of (encode_block data offset)) i = bit data i"
    using \<open>i < LENGTH(16)\<close>
    by (simp add: payload_of_def encode_block_def bit_unsigned_iff bit_drop_bit_eq bit_xor_iff bit_push_bit_iff add.commute)
qed

section \<open>Bits and blocks\<close>

definition word26 :: "bool list \<Rightarrow> u32" where
  "word26 bs = foldl (\<lambda>w b. (push_bit 1 w OR of_bool b) AND 0x03FFFFFF) 0 bs"

definition block_bits :: "u32 \<Rightarrow> bool list" where
  "block_bits w = map (bit w) (rev [0..<26])"

lemma word26_snoc: "word26 (bs @ [b]) = (push_bit 1 (word26 bs) OR of_bool b) AND 0x03FFFFFF"
  by (simp add: word26_def)

lemma bit_mask26: "bit (0x03FFFFFF :: u32) i \<longleftrightarrow> i < 26"
proof -
  have "(0x03FFFFFF :: u32) = mask 26" by (simp add: mask_eq_exp_minus_1)
  then show ?thesis by (simp only: bit_mask_iff) auto
qed

lemma bit_word26: "bit (word26 bs) i \<longleftrightarrow> i < 26 \<and> i < length bs \<and> bs ! (length bs - 1 - i)"
proof (induction bs arbitrary: i rule: rev_induct)
  case (snoc b bs)
  have "bit (word26 (bs @ [b])) i \<longleftrightarrow> i < 26 \<and> (if i = 0 then b else bit (word26 bs) (i - 1))"
    unfolding word26_snoc bit_and_iff bit_or_iff bit_mask26 bit_push_bit_iff bit_of_bool_iff
    by (auto dest: bit_imp_le_length)
  then show ?case unfolding snoc.IH by (cases i) (auto simp: nth_append Suc_diff_Suc)
qed (simp add: word26_def)

lemma word26_append: "26 \<le> length ys \<Longrightarrow> word26 (xs @ ys) = word26 ys"
  by (rule bit_word_eqI) (auto simp: bit_word26 nth_append)

lemma length_block_bits [simp]: "length (block_bits w) = 26"
  by (simp add: block_bits_def)

lemma word26_block_bits: "(\<And>i. bit w i \<Longrightarrow> i < 26) \<Longrightarrow> word26 (block_bits w) = w"
proof (rule bit_word_eqI)
  fix n
  assume "\<And>i. bit w i \<Longrightarrow> i < 26"
  then show "bit (word26 (block_bits w)) n = bit w n"
    by (cases "n < 26") (auto simp: bit_word26 block_bits_def rev_nth)
qed

lemma encode_block_bits:
  assumes "unat offset < 2 ^ 10" "bit (encode_block data offset) i"
  shows "i < 26"
proof (rule ccontr)
  assume "\<not> i < 26"
  then have "\<not> bit (check_word data XOR offset) i" "\<not> bit data (i - 10)"
    using check_word_bits [of data i] small_bits [OF assms(1), of i] by (auto simp: bit_xor_iff dest: bit_imp_le_length)
  then show False
    using assms(2) \<open>\<not> i < 26\<close>
    by (auto simp: encode_block_def bit_xor_iff bit_push_bit_iff bit_unsigned_iff)
qed

text \<open>What a group of four blocks is: every block has the offset of its place, and the third block of a
  group of version B repeats the first.\<close>

definition valid_block :: "u16 list \<Rightarrow> nat \<Rightarrow> bool list \<Rightarrow> bool" where
  "valid_block g i bs \<longleftrightarrow> length bs = 26 \<and> syndrome (word26 bs) = expected_offset g i \<and>
     payload_of (word26 bs) = g ! i \<and> repeated_pi_ok g i (g ! i)"

definition valid_group :: "u16 list \<Rightarrow> bool list list \<Rightarrow> bool" where
  "valid_group g blocks \<longleftrightarrow> length g = 4 \<and> length blocks = 4 \<and> (\<forall>i < 4. valid_block g i (blocks ! i))"

text \<open>The groups carried by a stream, in order and without overlap.\<close>

inductive carries :: "bool list \<Rightarrow> u16 list list \<Rightarrow> bool" where
  empty: "carries [] []"
| skip: "carries bs gs \<Longrightarrow> carries (bs @ gap) gs"
| group: "carries bs gs \<Longrightarrow> valid_group g blocks \<Longrightarrow> carries (bs @ concat blocks) (gs @ [g])"

lemma carries_none: "carries bs []"
  using carries.skip [OF carries.empty] by simp

lemma carries_take: "carries (take k bs) gs \<Longrightarrow> k \<le> n \<Longrightarrow> carries (take n bs) gs"
  using carries.skip [of "take k bs" gs "take (n - k) (drop k bs)"] by (simp add: take_add [symmetric])

section \<open>The synchroniser and the bits it has seen\<close>

definition waiting :: "BlockSync \<Rightarrow> bool" where
  "waiting s \<longleftrightarrow> next_block s \<noteq> 0 \<or> acquired s"

definition in_group :: "BlockSync \<Rightarrow> bool list \<Rightarrow> u16 list list \<Rightarrow> bool" where
  "in_group s bs gs \<longleftrightarrow> (\<exists>pre blocks part. bs = pre @ concat blocks @ part \<and> carries pre gs \<and>
     length blocks = next_block s \<and> (\<forall>i < next_block s. valid_block (group_words s) i (blocks ! i)) \<and>
     length part + until_block s = 26)"

definition sync_inv :: "BlockSync \<Rightarrow> bool list \<Rightarrow> u16 list list \<Rightarrow> bool" where
  "sync_inv s bs gs \<longleftrightarrow> shift s = word26 bs \<and> bits s = min 26 (length bs) \<and> length (group_words s) = 4 \<and>
     next_block s < 4 \<and> (waiting s \<longrightarrow> 26 \<le> length bs \<and> 0 < until_block s \<and> in_group s bs gs) \<and>
     (\<not> waiting s \<longrightarrow> carries (take (length bs - 26) bs) gs)"

lemma valid_block_update:
  "i < j \<Longrightarrow> j < length g \<Longrightarrow> valid_block (g[j := p]) i bs \<longleftrightarrow> valid_block g i bs"
  by (auto simp: valid_block_def expected_offset_def repeated_pi_ok_def version_b_def)

lemma search_block_inv:
  assumes "shift s = word26 bs" "bits s = 26" "26 \<le> length bs" "length (group_words s) = 4"
    and "next_block s = 0" "\<not> acquired s" "carries (take (length bs - 26) bs) gs" "search_block s = (s', out)"
  shows "sync_inv s' bs gs \<and> out = None"
proof (cases "syndrome (shift s) = OFFSETS ! 0")
  case True
  let ?g = "(group_words s)[0 := payload_of (shift s)]"
  let ?pre = "take (length bs - 26) bs" and ?block = "drop (length bs - 26) bs"
  have s': "s' = s\<lparr>group_words := ?g, next_block := 1, until_block := 26\<rparr>" "out = None"
    using assms(8) True by (simp_all add: search_block_def)
  have block: "length ?block = 26" "word26 ?block = shift s"
    using assms(1,3) word26_append [of ?block ?pre] by simp_all
  have "valid_block ?g 0 ?block"
    using True assms(4) block by (simp add: valid_block_def expected_offset_def repeated_pi_ok_def)
  then have "in_group s' bs gs"
    unfolding in_group_def using assms(7) s'(1)
    by (intro exI [of _ ?pre] exI [of _ "[?block]"] exI [of _ "[]"]) simp
  then show ?thesis using assms s' by (simp add: sync_inv_def waiting_def)
next
  case False
  then show ?thesis using assms by (auto simp: sync_inv_def waiting_def search_block_def)
qed

lemma end_of_block_inv:
  assumes "shift s = word26 bs" "bits s = 26" "26 \<le> length bs" "length (group_words s) = 4" "next_block s < 4"
    and "waiting s" "until_block s = 0" "in_group s bs gs" "end_of_block s = (s', out)"
  shows "sync_inv s' bs (case out of None \<Rightarrow> gs | Some g \<Rightarrow> gs @ [g])"
proof -
  obtain pre blocks part where split: "bs = pre @ concat blocks @ part" "carries pre gs" "length blocks = next_block s"
      "\<forall>i < next_block s. valid_block (group_words s) i (blocks ! i)" "length part = 26"
    using assms(7,8) by (auto simp: in_group_def)
  let ?j = "next_block s"
  define p where "p = payload_of (shift s)"
  let ?g = "(group_words s)[?j := p]"
  have part: "word26 part = shift s"
    using assms(1) word26_append [of part "pre @ concat blocks"] split(1,5) by simp
  show ?thesis
  proof (cases "syndrome (shift s) = expected_offset (group_words s) ?j \<and> repeated_pi_ok (group_words s) ?j p")
    case True
    have eq: "expected_offset ?g ?j = expected_offset (group_words s) ?j"
      "repeated_pi_ok ?g ?j p = repeated_pi_ok (group_words s) ?j p"
      using assms(4,5) by (auto simp: expected_offset_def repeated_pi_ok_def version_b_def)
    have "valid_block ?g ?j part"
      using True assms(4,5) split(5) part by (simp add: valid_block_def eq p_def [symmetric])
    then have blocks: "\<forall>i < Suc ?j. valid_block ?g i ((blocks @ [part]) ! i)"
      using split(3,4) assms(4,5) by (auto simp: less_Suc_eq nth_append valid_block_update)
    show ?thesis
    proof (cases "?j = 3")
      case last: True
      then have out: "s' = s\<lparr>group_words := ?g, until_block := 26, next_block := 0, acquired := True\<rparr>" "out = Some ?g"
        using True assms(9) by (auto simp: end_of_block_def Let_def p_def)
      have "valid_group ?g (blocks @ [part])"
        using blocks last split(3) assms(4) by (simp add: valid_group_def)
      then have "carries (pre @ concat (blocks @ [part])) (gs @ [?g])" by (rule carries.group [OF split(2)])
      then have "carries bs (gs @ [?g])" by (simp add: split(1))
      then have "in_group s' bs (gs @ [?g])"
        unfolding in_group_def using out(1) by (intro exI [of _ bs] exI [of _ "[]"] exI [of _ "[]"]) simp
      then show ?thesis using out assms by (simp add: sync_inv_def waiting_def)
    next
      case False
      then have out: "s' = s\<lparr>group_words := ?g, next_block := Suc ?j, until_block := 26\<rparr>" "out = None"
        using True assms(9) by (auto simp: end_of_block_def Let_def p_def)
      have "in_group s' bs gs"
        unfolding in_group_def using blocks split out(1)
        by (intro exI [of _ pre] exI [of _ "blocks @ [part]"] exI [of _ "[]"]) simp
      then show ?thesis using out assms False by (simp add: sync_inv_def waiting_def)
    qed
  next
    case False
    let ?s = "(if acquired s then s\<lparr>crc_errors := sat_add (crc_errors s) 1\<rparr> else s)\<lparr>next_block := 0, acquired := False\<rparr>"
    have "search_block ?s = (s', out)"
      using assms(9) unfolding end_of_block_def Let_def p_def [symmetric] by (simp only: if_not_P [OF False])
    moreover have "take (length bs - 26) bs = pre @ concat blocks" using split(1,5) by simp
    then have "carries (take (length bs - 26) bs) gs" using carries.skip [OF split(2)] by simp
    ultimately have "sync_inv s' bs gs \<and> out = None"
      using assms by (intro search_block_inv [where s = ?s]) auto
    then show ?thesis by simp
  qed
qed

lemma push_bit_sync_inv:
  assumes "sync_inv s bs gs" "push_bit_sync s b = (s', out)"
  shows "sync_inv s' (bs @ [b]) (case out of None \<Rightarrow> gs | Some g \<Rightarrow> gs @ [g])"
proof -
  define s1 where "s1 = s\<lparr>shift := (push_bit 1 (shift s) OR of_bool b) AND 0x03FFFFFF, bits := min (bits s + 1) 26\<rparr>"
  have push: "push_bit_sync s b =
      (if bits s1 < 26 then (s1, None)
       else if waiting s1 then
         (if until_block (s1\<lparr>until_block := until_block s1 - 1\<rparr>) \<noteq> 0 then (s1\<lparr>until_block := until_block s1 - 1\<rparr>, None)
          else end_of_block (s1\<lparr>until_block := until_block s1 - 1\<rparr>))
       else search_block s1)"
    unfolding push_bit_sync_def s1_def waiting_def Let_def by (rule refl)
  have shift: "shift s1 = word26 (bs @ [b])"
    using assms(1) unfolding s1_def word26_snoc by (simp add: sync_inv_def)
  have more: "bits s1 = min 26 (length (bs @ [b]))" "length (group_words s1) = 4" "next_block s1 < 4"
    "next_block s1 = next_block s" "acquired s1 = acquired s" "waiting s1 = waiting s" "until_block s1 = until_block s"
    "group_words s1 = group_words s"
    using assms(1) by (simp_all add: s1_def sync_inv_def waiting_def)
  consider (short) "bits s1 < 26" | (wait) "\<not> bits s1 < 26" "waiting s" | (search) "\<not> bits s1 < 26" "\<not> waiting s" by blast
  then show ?thesis
  proof cases
    case short
    then have "s' = s1" "out = None" using assms(2) by (simp_all add: push)
    moreover have "\<not> waiting s" "length bs < 26" using short assms(1) more(1) by (auto simp: sync_inv_def)
    then have "gs = [] \<or> carries [] gs" using assms(1) by (simp add: sync_inv_def)
    then have "carries (take (length (bs @ [b]) - 26) (bs @ [b])) gs"
      using carries_none carries.skip [of "[]" gs] by auto
    ultimately show ?thesis using shift more \<open>\<not> waiting s\<close> by (simp add: sync_inv_def)
  next
    case wait
    let ?s2 = "s1\<lparr>until_block := until_block s1 - 1\<rparr>"
    have inv: "26 \<le> length bs" "0 < until_block s" "in_group s bs gs" using assms(1) wait(2) by (simp_all add: sync_inv_def)
    have "in_group ?s2 (bs @ [b]) gs"
    proof -
      obtain pre blocks part where "bs = pre @ concat blocks @ part" "carries pre gs"
        "length blocks = next_block s" "\<forall>i < next_block s. valid_block (group_words s) i (blocks ! i)"
        "length part + until_block s = 26"
        using inv(3) by (auto simp: in_group_def)
      then show ?thesis
        unfolding in_group_def using inv(2) more
        by (intro exI [of _ pre] exI [of _ blocks] exI [of _ "part @ [b]"]) simp
    qed
    then show ?thesis
      using assms(2) wait more shift inv end_of_block_inv [of ?s2 "bs @ [b]" gs s' out]
      by (cases "until_block s1 - 1 = 0")
        (auto simp: push sync_inv_def waiting_def)
  next
    case search
    then have out: "search_block s1 = (s', out)"
      using assms(2) more(6) by (simp add: push)
    have "carries (take (length bs - 26) (bs @ [b])) gs" using assms(1) search(2) by (simp add: sync_inv_def)
    then have "carries (take (length (bs @ [b]) - 26) (bs @ [b])) gs" by (rule carries_take) simp
    then show ?thesis
      using search_block_inv [OF shift _ _ more(2) _ _ _ out, of gs] search more by (auto simp: waiting_def)
  qed
qed

lemma sync_bits_inv:
  "sync_inv s bs gs \<Longrightarrow> sync_bits s ns = (s', out) \<Longrightarrow> sync_inv s' (bs @ ns) (gs @ out)"
proof (induction ns arbitrary: s bs gs out s')
  case (Cons b ns)
  obtain s1 o1 where p: "push_bit_sync s b = (s1, o1)" by force
  obtain s2 rest where r: "sync_bits s1 ns = (s2, rest)" by force
  note inv = push_bit_sync_inv [OF Cons.prems(1) p]
  show ?case
    using Cons.IH [OF inv r] Cons.prems(2) p r by (auto split: option.splits)
qed simp

lemma sync_inv_start: "sync_inv block_sync_default [] []"
  by (simp add: sync_inv_def block_sync_default_def waiting_def word26_def carries.empty)

lemma sync_inv_carries: "sync_inv s bs gs \<Longrightarrow> carries bs gs"
proof (cases "waiting s")
  case True
  assume "sync_inv s bs gs"
  then obtain pre rest where "bs = pre @ rest" "carries pre gs" using True by (auto simp: sync_inv_def in_group_def)
  then show ?thesis using carries.skip by blast
next
  case False
  assume "sync_inv s bs gs"
  then have "carries (take (length bs - 26) bs) gs" using False by (simp add: sync_inv_def)
  then show ?thesis using carries_take [of _ bs gs "length bs"] by simp
qed

section \<open>Transmitted groups are found\<close>

definition group_bits :: "u16 list \<Rightarrow> bool list" where
  "group_bits g = concat (map (\<lambda>i. block_bits (encode_block (g ! i) (expected_offset g i))) [0..<4])"

text \<open>Groups that can be sent: four words, and in version B the third repeats the first.\<close>

definition proper_group :: "u16 list \<Rightarrow> bool" where
  "proper_group g \<longleftrightarrow> length g = 4 \<and> (version_b g \<longrightarrow> g ! 2 = g ! 0)"

lemma sync_bits_append:
  "sync_bits s (xs @ ys) =
     (fst (sync_bits (fst (sync_bits s xs)) ys), snd (sync_bits s xs) @ snd (sync_bits (fst (sync_bits s xs)) ys))"
  by (induction xs arbitrary: s) (simp_all add: split_beta split: option.splits)

lemma offsets_small: "i < 4 \<Longrightarrow> unat (expected_offset g i) < 2 ^ 10"
proof -
  assume "i < 4"
  then consider "i = 0" | "i = 1" | "i = 2" | "i = 3" by linarith
  then show ?thesis by cases (simp_all add: expected_offset_def OFFSETS_def)
qed

lemma encoded_block_valid:
  assumes "proper_group g" "i < 4"
  shows "valid_block g i (block_bits (encode_block (g ! i) (expected_offset g i)))"
proof -
  note small = offsets_small [OF assms(2), of g]
  have "word26 (block_bits (encode_block (g ! i) (expected_offset g i))) = encode_block (g ! i) (expected_offset g i)"
    by (rule word26_block_bits) (rule encode_block_bits [OF small])
  then show ?thesis
    using assms(1) by (auto simp: valid_block_def syndrome_encode_block [OF small] payload_encode_block [OF small]
        repeated_pi_ok_def proper_group_def)
qed

lemma waiting_run:
  "waiting s \<Longrightarrow> bits s = 26 \<Longrightarrow> length ns < until_block s \<Longrightarrow>
     \<exists>w. sync_bits s ns = (s\<lparr>shift := w, until_block := until_block s - length ns\<rparr>, [])"
proof (induction ns arbitrary: s)
  case Nil
  then show ?case by (intro exI [of _ "shift s"]) simp
next
  case (Cons b ns)
  let ?s = "s\<lparr>shift := (push_bit 1 (shift s) OR of_bool b) AND 0x03FFFFFF, until_block := until_block s - 1\<rparr>"
  have "bits_update (\<lambda>_. 26) s = s" using Cons.prems(2) by (cases s) simp
  then have "push_bit_sync s b = (?s, None)"
    using Cons.prems by (auto simp: push_bit_sync_def waiting_def Let_def)
  moreover obtain w where "sync_bits ?s ns = (?s\<lparr>shift := w, until_block := until_block ?s - length ns\<rparr>, [])"
  proof -
    have "length ns < until_block ?s" "waiting ?s" "bits ?s = 26" using Cons.prems by (auto simp: waiting_def)
    then show thesis using Cons.IH [of ?s] that by blast
  qed
  ultimately show ?case by (intro exI [of _ w]) simp
qed

lemma short_run:
  "\<not> waiting s \<Longrightarrow> bits s + length ns < 26 \<Longrightarrow>
     \<exists>w. sync_bits s ns = (s\<lparr>shift := w, bits := bits s + length ns\<rparr>, [])"
proof (induction ns arbitrary: s)
  case Nil
  then show ?case by (intro exI [of _ "shift s"]) simp
next
  case (Cons b ns)
  let ?s = "s\<lparr>shift := (push_bit 1 (shift s) OR of_bool b) AND 0x03FFFFFF, bits := bits s + 1\<rparr>"
  have "push_bit_sync s b = (?s, None)" using Cons.prems by (simp add: push_bit_sync_def Let_def min_def)
  moreover obtain w where "sync_bits ?s ns = (?s\<lparr>shift := w, bits := bits ?s + length ns\<rparr>, [])"
  proof -
    have "bits ?s + length ns < 26" "\<not> waiting ?s" using Cons.prems by (auto simp: waiting_def)
    then show thesis using Cons.IH [of ?s] that by blast
  qed
  ultimately show ?case by (intro exI [of _ w]) simp
qed

text \<open>A synchroniser that knows the first words of \<open>g\<close> and waits for the next block, or has met nothing.\<close>

definition expects :: "BlockSync \<Rightarrow> bool list \<Rightarrow> u16 list \<Rightarrow> nat \<Rightarrow> bool" where
  "expects s bs g j \<longleftrightarrow> (\<exists>gs. sync_inv s bs gs) \<and> next_block s = j \<and> (\<forall>i < j. group_words s ! i = g ! i) \<and>
     (waiting s \<and> until_block s = 26 \<or> j = 0 \<and> \<not> waiting s \<and> bits s = 0)"

lemma block_met:
  assumes "expects s bs g j" "valid_block g j block" "j < 4" "length g = 4"
  shows "\<exists>s'. sync_bits s block = (s', if j = 3 then [g] else []) \<and> expects s' (bs @ block) g (if j = 3 then 0 else j + 1)"
proof -
  obtain gs where inv: "sync_inv s bs gs" using assms(1) by (auto simp: expects_def)
  have len: "length block = 26" using assms(2) by (simp add: valid_block_def)
  then obtain init b where block: "block = init @ [b]" "length init = 25" by (cases block rule: rev_cases) auto
  obtain s1 o1 where s1: "sync_bits s init = (s1, o1)" by force
  obtain s2 o2 where s2: "push_bit_sync s1 b = (s2, o2)" by force
  have run: "sync_bits s block = (s2, o1 @ (case o2 of None \<Rightarrow> [] | Some h \<Rightarrow> [h]))"
    unfolding block(1) sync_bits_append by (simp add: s1 s2 split: option.split)
  have inv2: "sync_inv s2 (bs @ block) (gs @ o1 @ (case o2 of None \<Rightarrow> [] | Some h \<Rightarrow> [h]))"
    by (rule sync_bits_inv [OF inv run])
  define w where "w = word26 block"
  have w: "(push_bit 1 (shift s1) OR of_bool b) AND 0x03FFFFFF = w"
  proof -
    have "shift s1 = word26 (bs @ init)" using sync_bits_inv [OF inv s1] by (simp add: sync_inv_def)
    then have "(push_bit 1 (shift s1) OR of_bool b) AND 0x03FFFFFF = word26 ((bs @ init) @ [b])"
      by (simp only: word26_snoc)
    also have "\<dots> = w" using word26_append [of block bs] len by (simp add: w_def block(1))
    finally show ?thesis .
  qed
  have valid: "syndrome w = expected_offset g j" "payload_of w = g ! j" "repeated_pi_ok g j (g ! j)"
    using assms(2) by (simp_all add: valid_block_def w_def)
  have gw: "length (group_words s) = 4" using inv by (simp add: sync_inv_def)
  have known: "\<forall>i < j. group_words s ! i = g ! i" "next_block s = j" using assms(1) by (simp_all add: expects_def)
  show ?thesis
  proof (cases "waiting s")
    case True
    then have u: "until_block s = 26" "bits s = 26" using assms(1) inv by (auto simp: expects_def sync_inv_def)
    obtain v where v: "sync_bits s init = (s\<lparr>shift := v, until_block := 1\<rparr>, [])"
      using waiting_run [OF True u(2), of init] block(2) u(1) by auto
    have same: "expected_offset (group_words s) j = expected_offset g j"
      "repeated_pi_ok (group_words s) j (g ! j) = repeated_pi_ok g j (g ! j)"
      using known(1) by (auto simp: expected_offset_def repeated_pi_ok_def version_b_def)
    let ?s = "s\<lparr>shift := w, bits := 26, until_block := 0\<rparr>"
    have "push_bit_sync s1 b = end_of_block ?s"
      using s1 v True u w by (auto simp: push_bit_sync_def waiting_def Let_def)
    then have fin: "end_of_block ?s = (s2, o2)" and o1: "o1 = []" using s1 s2 v by simp_all
    have words: "(group_words s)[j := g ! j] ! i = g ! i" if "i < Suc j" for i
      using that known(1) gw assms(3) by (cases "i = j") auto
    have full: "(group_words s)[j := g ! j] = g" if "j = 3"
      by (rule nth_equalityI) (use that words gw assms(4) in auto)
    have "(s2, o2) = (if j = 3
        then (?s\<lparr>group_words := (group_words s)[j := g ! j], until_block := 26, next_block := 0, acquired := True\<rparr>, Some g)
        else (?s\<lparr>group_words := (group_words s)[j := g ! j], next_block := Suc j, until_block := 26\<rparr>, None))"
      unfolding fin [symmetric] end_of_block_def
      using valid same known(2) full by (auto simp: Let_def)
    then show ?thesis
      using run inv2 o1 words by (cases "j = 3") (auto simp: expects_def waiting_def)
  next
    case False
    then have j: "j = 0" "bits s = 0" using assms(1) by (auto simp: expects_def)
    obtain v where v: "sync_bits s init = (s\<lparr>shift := v, bits := 25\<rparr>, [])"
      using short_run [OF False, of init] block(2) j(2) by auto
    have "push_bit_sync s1 b = search_block (s\<lparr>shift := w, bits := 26\<rparr>)"
      using s1 v False w by (auto simp: push_bit_sync_def waiting_def Let_def)
    also have "\<dots> = (s\<lparr>shift := w, bits := 26, group_words := (group_words s)[0 := g ! 0], next_block := 1, until_block := 26\<rparr>, None)"
      using valid j(1) by (simp add: search_block_def expected_offset_def)
    finally show ?thesis
      using run inv2 s1 s2 v j(1) gw by (auto simp: expects_def waiting_def)
  qed
qed

lemma group_met:
  assumes "expects s bs g 0" "proper_group g"
  shows "\<exists>s'. sync_bits s (group_bits g) = (s', [g]) \<and> expects s' (bs @ group_bits g) h 0"
proof -
  let ?b = "\<lambda>i. block_bits (encode_block (g ! i) (expected_offset g i))"
  have g: "length g = 4" using assms(2) by (simp add: proper_group_def)
  note step = block_met [OF _ encoded_block_valid [OF assms(2)] _ g]
  obtain s1 where s1: "sync_bits s (?b 0) = (s1, [])" "expects s1 (bs @ ?b 0) g 1" using step [OF assms(1)] by auto
  obtain s2 where s2: "sync_bits s1 (?b 1) = (s2, [])" "expects s2 ((bs @ ?b 0) @ ?b 1) g 2" using step [OF s1(2)] by (auto simp: numeral_2_eq_2)
  obtain s3 where s3: "sync_bits s2 (?b 2) = (s3, [])" "expects s3 (((bs @ ?b 0) @ ?b 1) @ ?b 2) g 3"
    using step [OF s2(2)] by auto
  obtain s4 where s4: "sync_bits s3 (?b 3) = (s4, [g])" "expects s4 ((((bs @ ?b 0) @ ?b 1) @ ?b 2) @ ?b 3) g 0"
    using step [OF s3(2)] by auto
  have bits: "group_bits g = ?b 0 @ ?b 1 @ ?b 2 @ ?b 3" by (simp add: group_bits_def numeral_eq_Suc)
  have "sync_bits s (group_bits g) = (s4, [g])" unfolding bits sync_bits_append using s1 s2 s3 s4 by simp
  moreover have "expects s4 (bs @ group_bits g) h 0" using s4(2) unfolding bits by (simp add: expects_def)
  ultimately show ?thesis by blast
qed

lemma groups_met:
  "expects s bs g 0 \<Longrightarrow> \<forall>g \<in> set gs. proper_group g \<Longrightarrow> snd (sync_bits s (concat (map group_bits gs))) = gs"
proof (induction gs arbitrary: s bs g)
  case (Cons h gs)
  have e: "expects s bs h 0" using Cons.prems(1) by (simp add: expects_def)
  obtain s' where s': "sync_bits s (group_bits h) = (s', [h])" "expects s' (bs @ group_bits h) h 0"
    using group_met [OF e] Cons.prems(2) by fastforce
  show ?case using Cons.IH [OF s'(2)] Cons.prems(2) s'(1) by (simp add: sync_bits_append)
qed simp

section \<open>Properties\<close>

text \<open>C19: Reported groups are real. However the bits look, the groups the synchroniser reports are carried by
  them in this order and without overlap: each is four consecutive 26-bit blocks, every block with
  the check word of its place and the payload reported, and with a repeated programme identification
  in a group of version B.\<close>

theorem rds_groups_from_stream:
  "carries bs (snd (sync_bits block_sync_default bs))"
proof -
  obtain s gs where r: "sync_bits block_sync_default bs = (s, gs)" by force
  have "sync_inv s bs gs" using sync_bits_inv [OF sync_inv_start r] by simp
  then show ?thesis using r by (simp add: sync_inv_carries)
qed

text \<open>C36: Transmitted groups are received. Any sequence of groups, encoded block by block with a shift
  register, is reported exactly, from the first bit on.\<close>

theorem rds_groups_received:
  assumes "\<forall>g \<in> set gs. proper_group g"
  shows "snd (sync_bits block_sync_default (concat (map group_bits gs))) = gs"
proof (rule groups_met [OF _ assms])
  show "expects block_sync_default [] [] 0"
    using sync_inv_start by (auto simp: expects_def block_sync_default_def waiting_def)
qed

theorem rds_groups_received_witness:
  "snd (sync_bits block_sync_default (concat (map group_bits [[0x1234, 0x0548, 0, 0x434F], [0x1234, 0x2D51, 0x1234, 0x4142]]))) =
     [[0x1234, 0x0548, 0, 0x434F], [0x1234, 0x2D51, 0x1234, 0x4142]]"
  by (rule rds_groups_received) (simp add: proper_group_def version_b_def numeral_2_eq_2)

end
