(* ===== verification/Rds_Metadata.thy ===== *)
theory Rds_Metadata
  imports Rds_Link
begin

text \<open>
  What the broadcast text receiver of \<^verbatim>\<open>ez-gui/src/radio_rds.rs\<close> tells the user: \<open>Metadata\<close>, which collects
  the station name and the radio text from the segments in the groups, and the snapshot shown. A
  \<open>String\<close> is the list of its code points. The lemmas show that a complete transmission of a name or a
  text is shown exactly, and what a name on the screen implies about the segments received.
\<close>

section \<open>The code\<close>

datatype RdsRegion = Europe | NorthAmerica

fun region_label :: "RdsRegion \<Rightarrow> string" where
  "region_label Europe = ''Europe''"
| "region_label NorthAmerica = ''North America''"

type_synonym code_points = "nat list"

record 'f RdsSnapshot =
  synchronized :: bool
  pi_code :: "u16 option"
  pty :: "u8 option"
  tp :: "bool option"
  ta :: "bool option"
  music :: "bool option"
  program_service :: "code_points option"
  radio_text :: "code_points option"
  valid_groups :: nat
  snapshot_crc_errors :: nat
  region :: RdsRegion
  recent_symbols :: "('f \<times> 'f) list"

definition snapshot_default :: "'f RdsSnapshot" where
  "snapshot_default = \<lparr>synchronized = False, pi_code = None, pty = None, tp = None, ta = None, music = None,
     program_service = None, radio_text = None, valid_groups = 0, snapshot_crc_errors = 0, region = Europe,
     recent_symbols = []\<rparr>"

definition european :: "'f RdsSnapshot \<Rightarrow> u16 option" where
  "european s = (case pi_code s of None \<Rightarrow> None | Some p \<Rightarrow> if region s = Europe then Some p else None)"

definition country_code :: "'f RdsSnapshot \<Rightarrow> u8 option" where
  "country_code s = map_option (\<lambda>p. ucast (drop_bit 12 p)) (european s)"

definition program_coverage :: "'f RdsSnapshot \<Rightarrow> u8 option" where
  "program_coverage s = map_option (\<lambda>p. ucast (drop_bit 8 p AND 15)) (european s)"

definition reference_number :: "'f RdsSnapshot \<Rightarrow> u8 option" where
  "reference_number s = map_option ucast (european s)"

definition PTY_EU :: "string list" where
  "PTY_EU = [''None'', ''News'', ''Current Affairs'', ''Information'', ''Sport'', ''Education'', ''Drama'',
     ''Culture'', ''Science'', ''Varied'', ''Pop Music'', ''Rock Music'', ''Easy Listening'',
     ''Light Classical'', ''Serious Classical'', ''Other Music'', ''Weather'', ''Finance'',
     ''Children's Programmes'', ''Social Affairs'', ''Religion'', ''Phone In'', ''Travel'', ''Leisure'',
     ''Jazz Music'', ''Country Music'', ''National Music'', ''Oldies Music'', ''Folk Music'',
     ''Documentary'', ''Alarm Test'', ''Alarm'']"

definition PTY_NA :: "string list" where
  "PTY_NA = [''None'', ''News'', ''Information'', ''Sports'', ''Talk'', ''Rock'', ''Classic Rock'', ''Adult Hits'',
     ''Soft Rock'', ''Top 40'', ''Country'', ''Oldies'', ''Soft'', ''Nostalgia'', ''Jazz'', ''Classical'',
     ''Rhythm and Blues'', ''Soft Rhythm and Blues'', ''Foreign Language'', ''Religious Music'',
     ''Religious Talk'', ''Personality'', ''Public'', ''College'', ''Spanish Talk'', ''Spanish Music'',
     ''Hip Hop'', ''Unassigned'', ''Unassigned'', ''Weather'', ''Emergency Test'', ''Emergency'']"

definition pty_label :: "'f RdsSnapshot \<Rightarrow> string option" where
  "pty_label s =
     map_option (\<lambda>p. (case region s of Europe \<Rightarrow> PTY_EU | NorthAmerica \<Rightarrow> PTY_NA) ! unat (min p 31)) (pty s)"

record 'f Metadata =
  snapshot :: "'f RdsSnapshot"
  ps :: "u8 list"
  ps_mask :: u8
  rt :: "u8 list"
  rt_mask :: u16
  rt_ab :: "bool option"
  rt_version_b :: bool
  incremental :: bool

definition metadata_default :: "'f Metadata" where
  "metadata_default = \<lparr>snapshot = snapshot_default, ps = replicate 8 0x20, ps_mask = 0, rt = replicate 64 0x20,
     rt_mask = 0, rt_ab = None, rt_version_b = False, incremental = True\<rparr>"

text \<open>\<open>text\<close>: code points, without the spaces at the end. No other white space can result.\<close>

definition glyph :: "u8 \<Rightarrow> nat" where
  "glyph b = (if 0x20 \<le> b \<and> b \<le> 0x7E then unat b else if b \<le> 0x1F then 32 else 0xFFFD)"

definition rds_text :: "u8 list \<Rightarrow> code_points" where
  "rds_text bytes = rev (dropWhile (\<lambda>c. c = 32) (rev (map glyph bytes)))"

definition be_pair :: "u16 \<Rightarrow> u8 list" where
  "be_pair w = [ucast (drop_bit 8 w), ucast w]"

definition write_at :: "nat \<Rightarrow> 'a list \<Rightarrow> 'a list \<Rightarrow> 'a list" where
  "write_at i src xs = take i xs @ src @ drop (i + length src) xs"

definition change_station :: "u16 \<Rightarrow> 'f Metadata \<Rightarrow> 'f Metadata" where
  "change_station p m =
     (if pi_code (snapshot m) \<noteq> Some p then
        metadata_default\<lparr>snapshot := snapshot_default\<lparr>region := region (snapshot m),
          valid_groups := valid_groups (snapshot m), snapshot_crc_errors := snapshot_crc_errors (snapshot m)\<rparr>,
          incremental := incremental m\<rparr>
      else m)"

definition accept_header :: "u16 \<Rightarrow> u16 \<Rightarrow> 'f Metadata \<Rightarrow> 'f Metadata" where
  "accept_header p b m = m\<lparr>snapshot := (snapshot m)\<lparr>pi_code := Some p, pty := Some (ucast (drop_bit 5 b AND 31)),
     tp := Some (b AND 0x0400 \<noteq> 0), valid_groups := sat_add (valid_groups (snapshot m)) 1, synchronized := True\<rparr>\<rparr>"

definition with_bit :: "'a::len word \<Rightarrow> nat \<Rightarrow> 'a word" where
  "with_bit m k = m OR push_bit k 1"

definition clear_ps :: "nat \<Rightarrow> u8 list \<Rightarrow> 'f Metadata \<Rightarrow> 'f Metadata" where
  "clear_ps segment pair m =
     (if ps_mask m AND with_bit 0 segment \<noteq> 0 \<and> take 2 (drop (2 * segment) (ps m)) \<noteq> pair
      then m\<lparr>ps := replicate 8 0x20, ps_mask := 0, snapshot := (snapshot m)\<lparr>program_service := None\<rparr>\<rparr>
      else m)"

definition store_ps :: "nat \<Rightarrow> u8 list \<Rightarrow> 'f Metadata \<Rightarrow> 'f Metadata" where
  "store_ps segment pair m = m\<lparr>ps := write_at (2 * segment) pair (ps m), ps_mask := with_bit (ps_mask m) segment\<rparr>"

definition show_ps :: "'f Metadata \<Rightarrow> 'f Metadata" where
  "show_ps m =
     (if incremental m \<or> ps_mask m = 15
      then m\<lparr>snapshot := (snapshot m)\<lparr>program_service := Some (rds_text (ps m))\<rparr>\<rparr>
      else m)"

definition accept_ps :: "u16 \<Rightarrow> u16 \<Rightarrow> 'f Metadata \<Rightarrow> 'f Metadata" where
  "accept_ps b d m =
     (let m = m\<lparr>snapshot := (snapshot m)\<lparr>ta := Some (b AND 0x10 \<noteq> 0), music := Some (b AND 0x08 \<noteq> 0)\<rparr>\<rparr>;
          segment = unat (b AND 3);
          pair = be_pair d
      in show_ps (store_ps segment pair (clear_ps segment pair m)))"

definition rt_width :: "bool \<Rightarrow> nat" where
  "rt_width vb = (if vb then 2 else 4)"

text \<open>The position of the carriage return in the first \<open>maximum\<close> bytes, or \<open>maximum\<close>.\<close>

definition rt_end :: "u8 list \<Rightarrow> nat \<Rightarrow> nat" where
  "rt_end bytes maximum = length (takeWhile (\<lambda>v. v \<noteq> 0x0D) (take maximum bytes))"

definition required_mask :: "nat \<Rightarrow> nat \<Rightarrow> u16" where
  "required_mask text_end width =
     (let required = (if text_end = width * 16 then 16 else text_end div width + 1)
      in ucast (push_bit required (1 :: u32) - 1))"

definition change_text :: "bool \<Rightarrow> bool \<Rightarrow> 'f Metadata \<Rightarrow> 'f Metadata" where
  "change_text ab vb m =
     (if rt_ab m \<noteq> Some ab \<or> vb \<noteq> rt_version_b m then
        m\<lparr>rt := replicate 64 0x20, rt_mask := 0, snapshot := (snapshot m)\<lparr>radio_text := None\<rparr>,
          rt_ab := Some ab, rt_version_b := vb\<rparr>
      else m)"

definition store_rt :: "bool \<Rightarrow> nat \<Rightarrow> u16 \<Rightarrow> u16 \<Rightarrow> 'f Metadata \<Rightarrow> 'f Metadata" where
  "store_rt vb segment c d m =
     (let width = rt_width vb;
          start = segment * width;
          m = (if \<not> vb then m\<lparr>rt := write_at start (be_pair c) (rt m)\<rparr> else m)
      in m\<lparr>rt := write_at (start + width - 2) (be_pair d) (rt m), rt_mask := with_bit (rt_mask m) segment\<rparr>)"

definition show_rt :: "nat \<Rightarrow> 'f Metadata \<Rightarrow> 'f Metadata" where
  "show_rt width m =
     (let text_end = rt_end (rt m) (width * 16);
          mask = required_mask text_end width
      in if incremental m \<or> rt_mask m AND mask = mask
         then m\<lparr>snapshot := (snapshot m)\<lparr>radio_text := Some (rds_text (take text_end (rt m)))\<rparr>\<rparr>
         else m)"

definition accept_rt :: "u16 \<Rightarrow> u16 \<Rightarrow> u16 \<Rightarrow> 'f Metadata \<Rightarrow> 'f Metadata" where
  "accept_rt b c d m =
     (let ab = (b AND 0x10 \<noteq> 0);
          vb = (b AND 0x0800 \<noteq> 0)
      in show_rt (rt_width vb) (store_rt vb (unat (b AND 15)) c d (change_text ab vb m)))"

definition accept_group :: "u16 list \<Rightarrow> 'f Metadata \<Rightarrow> 'f Metadata" where
  "accept_group words m =
     (let p = words ! 0; b = words ! 1; c = words ! 2; d = words ! 3;
          m = accept_header p b (change_station p m)
      in if drop_bit 12 b = 0 then accept_ps b d m
         else if drop_bit 12 b = 2 then accept_rt b c d m
         else m)"

definition set_incremental :: "bool \<Rightarrow> 'f Metadata \<Rightarrow> 'f Metadata" where
  "set_incremental on m =
     (let m = m\<lparr>incremental := on\<rparr> in
      if on then m
      else
        let m = (if ps_mask m \<noteq> 15 then m\<lparr>snapshot := (snapshot m)\<lparr>program_service := None\<rparr>\<rparr> else m);
            width = rt_width (rt_version_b m);
            mask = required_mask (rt_end (rt m) (width * 16)) width
        in if rt_mask m AND mask \<noteq> mask then m\<lparr>snapshot := (snapshot m)\<lparr>radio_text := None\<rparr>\<rparr> else m)"

definition set_region :: "RdsRegion \<Rightarrow> 'f Metadata \<Rightarrow> 'f Metadata" where
  "set_region r m = m\<lparr>snapshot := (snapshot m)\<lparr>region := r\<rparr>\<rparr>"

section \<open>Buffers and masks\<close>

lemma length_write_at [simp]: "i + length src \<le> length xs \<Longrightarrow> length (write_at i src xs) = length xs"
  by (simp add: write_at_def)

lemma nth_write_at:
  "i + length src \<le> length xs \<Longrightarrow> k < length xs \<Longrightarrow>
     write_at i src xs ! k = (if i \<le> k \<and> k < i + length src then src ! (k - i) else xs ! k)"
  by (auto simp: write_at_def nth_append)

lemma length_be_pair [simp]: "length (be_pair w) = 2"
  by (simp add: be_pair_def)

lemma word_eq_bits: "m = n \<longleftrightarrow> (\<forall>i. bit m i \<longleftrightarrow> bit n i)" for m n :: "'a::len word"
  by (auto intro: bit_word_eqI)

lemma and_3_less: "unat (b AND 3) < 4" for b :: u16
proof -
  have "b AND 3 = take_bit 2 b" by (simp add: take_bit_eq_mask mask_eq_exp_minus_1)
  moreover have "unat (take_bit 2 b) < 2 ^ 2" unfolding unsigned_take_bit_eq by (rule take_bit_nat_less_exp)
  ultimately show ?thesis by simp
qed

lemma and_15_less: "unat (b AND 15) < 16" for b :: u16
proof -
  have "b AND 15 = take_bit 4 b" by (simp add: take_bit_eq_mask mask_eq_exp_minus_1)
  moreover have "unat (take_bit 4 b) < 2 ^ 4" unfolding unsigned_take_bit_eq by (rule take_bit_nat_less_exp)
  ultimately show ?thesis by simp
qed

lemma bit_15: "bit (15 :: u8) i \<longleftrightarrow> i < 4"
proof -
  have "(15 :: u8) = mask 4" by (simp add: mask_eq_exp_minus_1)
  then show ?thesis by (simp only: bit_mask_iff) auto
qed

lemma mask_15: "m = 15 \<longleftrightarrow> (\<forall>i. bit m i \<longleftrightarrow> i < 4)" for m :: u8
  unfolding word_eq_bits bit_15 ..

lemma bit_with_bit [simp]: "bit (with_bit m k) i \<longleftrightarrow> bit m i \<or> i = k \<and> k < LENGTH('a)" for m :: "'a::len word"
  unfolding with_bit_def bit_or_iff bit_push_bit_iff bit_1_iff by auto

lemma and_with_bit: "(m AND with_bit 0 k \<noteq> 0) \<longleftrightarrow> bit m k" for m :: "'a::len word"
proof -
  have "m AND with_bit 0 k = 0 \<longleftrightarrow> (\<forall>i. \<not> bit (m AND with_bit 0 k) i)" unfolding word_eq_bits by simp
  then show ?thesis by (auto simp: bit_and_iff dest: bit_imp_le_length)
qed

lemma rt_width_cases [simp]: "rt_width True = 2" "rt_width False = 4"
  by (simp_all add: rt_width_def)

lemma rt_end_le: "rt_end bytes n \<le> n"
  using length_takeWhile_le [of _ "take n bytes"] by (simp add: rt_end_def le_trans)

text \<open>How many segments a text that ends there fills.\<close>

definition segments_needed :: "nat \<Rightarrow> nat \<Rightarrow> nat" where
  "segments_needed text_end width = (if text_end = width * 16 then 16 else text_end div width + 1)"

lemma segments_needed_bound: "0 < width \<Longrightarrow> text_end \<le> width * 16 \<Longrightarrow> segments_needed text_end width \<le> 16"
  by (auto simp: segments_needed_def Suc_le_eq div_less_iff_less_mult mult.commute)

lemma bit_required_mask:
  assumes "0 < width" "text_end \<le> width * 16"
  shows "bit (required_mask text_end width) i \<longleftrightarrow> i < segments_needed text_end width"
proof -
  let ?n = "segments_needed text_end width"
  have n: "?n \<le> 16" using assms by (rule segments_needed_bound)
  have "push_bit ?n (1 :: u32) - 1 = mask ?n" by (simp add: mask_eq_exp_minus_1 push_bit_of_1)
  then have "required_mask text_end width = ucast (mask ?n :: u32)"
    unfolding required_mask_def segments_needed_def Let_def by simp
  then show ?thesis using n by (auto simp: bit_unsigned_iff bit_mask_iff)
qed

lemma mask_covers:
  assumes "0 < width" "text_end \<le> width * 16"
  shows "m AND required_mask text_end width = required_mask text_end width \<longleftrightarrow>
    (\<forall>i < segments_needed text_end width. bit m i)"
proof -
  have "m AND required_mask text_end width = required_mask text_end width \<longleftrightarrow>
      (\<forall>i. bit (required_mask text_end width) i \<longrightarrow> bit m i)"
    unfolding word_eq_bits bit_and_iff by blast
  then show ?thesis using bit_required_mask [OF assms] by simp
qed

section \<open>The invariant\<close>

definition metadata_ok :: "'f Metadata \<Rightarrow> bool" where
  "metadata_ok m \<longleftrightarrow> length (ps m) = 8 \<and> length (rt m) = 64 \<and> (\<forall>i. bit (ps_mask m) i \<longrightarrow> i < 4) \<and>
     (\<forall>t. program_service (snapshot m) = Some t \<longrightarrow> t = rds_text (ps m) \<and> (incremental m \<or> ps_mask m = 15)) \<and>
     (\<forall>t. radio_text (snapshot m) = Some t \<longrightarrow> length t \<le> 64) \<and>
     (\<forall>p. pty (snapshot m) = Some p \<longrightarrow> p < 32) \<and> valid_groups (snapshot m) < 2 ^ 64"

lemma rds_text_length: "length (rds_text bytes) \<le> length bytes"
  using length_dropWhile_le [of "\<lambda>c. c = 32" "rev (map glyph bytes)"] by (simp add: rds_text_def)

lemma metadata_default_ok [inv_intros]: "metadata_ok metadata_default"
  by (simp add: metadata_ok_def metadata_default_def snapshot_default_def)

lemma change_station_ok [inv_intros]: "metadata_ok m \<Longrightarrow> metadata_ok (change_station p m)"
  by (auto simp: change_station_def metadata_ok_def metadata_default_def snapshot_default_def simp del: replicate_Suc)

lemma and_31_less: "(ucast (b AND 31) :: u8) < 32" for b :: u16
proof -
  have "b AND 31 = take_bit 5 b" by (simp add: take_bit_eq_mask mask_eq_exp_minus_1)
  then have "unat (b AND 31) < 32"
    using take_bit_nat_less_exp [of 5 "unat b"] by (simp add: unsigned_take_bit_eq del: of_nat_unat)
  then have "unat (ucast (b AND 31) :: u8) < 32" by (simp add: unsigned_ucast_eq take_bit_nat_eq_self del: of_nat_unat)
  then show ?thesis by (simp add: word_less_nat_alt)
qed

lemma accept_header_ok [inv_intros]: "metadata_ok m \<Longrightarrow> metadata_ok (accept_header p b m)"
  by (auto simp: accept_header_def metadata_ok_def and_31_less)

lemma clear_ps_ok [inv_intros]: "metadata_ok m \<Longrightarrow> metadata_ok (clear_ps segment pair m)"
  by (auto simp: clear_ps_def metadata_ok_def simp del: replicate_Suc)

text \<open>Storing a segment and showing the name go together: in between, the name shown may be old.\<close>

lemma show_store_ps_ok [inv_intros]:
  assumes "metadata_ok m" "segment < 4" "length pair = 2"
  shows "metadata_ok (show_ps (store_ps segment pair m))"
proof -
  let ?n = "store_ps segment pair m"
  have "ps_mask ?n = 15" if "program_service (snapshot ?n) = Some t" "\<not> incremental ?n" for t
    using that assms(1,2) by (auto simp: store_ps_def metadata_ok_def mask_15)
  then show ?thesis
    using assms by (auto simp: show_ps_def store_ps_def metadata_ok_def)
qed

lemma accept_ps_ok [inv_intros]: "metadata_ok m \<Longrightarrow> metadata_ok (accept_ps b d m)"
  unfolding accept_ps_def Let_def
  by (intro show_store_ps_ok clear_ps_ok and_3_less length_be_pair) (simp add: metadata_ok_def)

lemma change_text_ok [inv_intros]: "metadata_ok m \<Longrightarrow> metadata_ok (change_text ab vb m)"
  by (auto simp: change_text_def metadata_ok_def simp del: replicate_Suc)

lemma store_rt_ok [inv_intros]: "metadata_ok m \<Longrightarrow> segment < 16 \<Longrightarrow> metadata_ok (store_rt vb segment c d m)"
  by (cases vb) (auto simp: store_rt_def metadata_ok_def Let_def)

lemma show_rt_ok [inv_intros]: "metadata_ok m \<Longrightarrow> metadata_ok (show_rt width m)"
  using rds_text_length [of "take (rt_end (rt m) (width * 16)) (rt m)"]
  by (auto simp: show_rt_def metadata_ok_def Let_def)

lemma accept_rt_ok [inv_intros]: "metadata_ok m \<Longrightarrow> metadata_ok (accept_rt b c d m)"
  by (simp add: accept_rt_def Let_def inv_intros and_15_less)

lemma accept_group_ok [inv_intros]: "metadata_ok m \<Longrightarrow> metadata_ok (accept_group words m)"
  by (simp add: accept_group_def Let_def inv_intros)

lemma set_incremental_ok [inv_intros]: "metadata_ok m \<Longrightarrow> metadata_ok (set_incremental on m)"
  by (auto simp: set_incremental_def Let_def metadata_ok_def)

lemma set_region_ok [inv_intros]: "metadata_ok m \<Longrightarrow> metadata_ok (set_region r m)"
  by (simp add: set_region_def metadata_ok_def)

inductive metadata_step :: "'f Metadata \<Rightarrow> 'f Metadata \<Rightarrow> bool" where
  accept: "metadata_step m (accept_group words m)"
| incremental: "metadata_step m (set_incremental on m)"
| region: "metadata_step m (set_region r m)"

interpretation rds_metadata: guarded_system "\<lambda>m. m = metadata_default" metadata_step metadata_ok
  by unfold_locales (auto elim!: metadata_step.cases intro: inv_intros)

section \<open>Segments\<close>

text \<open>Segment \<open>i\<close> of a buffer cut into segments of \<open>w\<close> bytes.\<close>

definition seg_at :: "nat \<Rightarrow> 'a list \<Rightarrow> nat \<Rightarrow> 'a list" where
  "seg_at w xs i = take w (drop (w * i) xs)"

lemma nth_seg_at: "w * i + w \<le> length xs \<Longrightarrow> k < w \<Longrightarrow> seg_at w xs i ! k = xs ! (w * i + k)"
  by (simp add: seg_at_def)

lemma seg_at_write:
  assumes "length src = w" "w * i + w \<le> length xs" "w * j + w \<le> length xs"
  shows "seg_at w (write_at (w * i) src xs) j = (if i = j then src else seg_at w xs j)"
proof (rule nth_equalityI)
  show "length (seg_at w (write_at (w * i) src xs) j) = length (if i = j then src else seg_at w xs j)"
    using assms by (simp add: seg_at_def)
  fix k
  assume "k < length (seg_at w (write_at (w * i) src xs) j)"
  then have k: "k < w" using assms by (simp add: seg_at_def)
  have inside: "w * i \<le> w * j + k \<and> w * j + k < w * i + w \<longleftrightarrow> i = j"
  proof
    assume *: "w * i \<le> w * j + k \<and> w * j + k < w * i + w"
    have "w * i < w * Suc j" using * k by simp
    moreover have "w * j < w * Suc i" using * by simp
    ultimately show "i = j" by (simp only: mult_less_cancel1) simp
  qed (use k in simp)
  have "seg_at w (write_at (w * i) src xs) j ! k = write_at (w * i) src xs ! (w * j + k)"
    using assms k by (intro nth_seg_at) simp_all
  also have "\<dots> = (if i = j then src ! k else xs ! (w * j + k))"
    using assms k inside by (subst nth_write_at) auto
  finally show "seg_at w (write_at (w * i) src xs) j ! k = (if i = j then src else seg_at w xs j) ! k"
    using assms(3) k by (simp add: nth_seg_at)
qed

lemma write_at_join:
  "i + length a + length b \<le> length xs \<Longrightarrow> write_at (i + length a) b (write_at i a xs) = write_at i (a @ b) xs"
  by (simp add: write_at_def ac_simps)

lemma seg_at_agree:
  assumes "0 < w" "\<forall>i < n. seg_at w xs i = seg_at w ys i" "w * n \<le> length xs" "w * n \<le> length ys" "k < w * n"
  shows "xs ! k = ys ! k"
proof -
  have i: "k div w < n" "k mod w < w" using assms(1,5) by (simp_all add: div_less_iff_less_mult mult.commute)
  then have "w * (k div w) + w \<le> w * n" using mult_le_mono2 [of "Suc (k div w)" n w] by simp
  then have "seg_at w xs (k div w) ! (k mod w) = xs ! k" "seg_at w ys (k div w) ! (k mod w) = ys ! k"
    using assms(3,4) i(2) by (simp_all add: nth_seg_at)
  then show ?thesis using assms(2) i(1) by simp
qed

section \<open>Station names\<close>

definition name_segment :: "u16 list \<Rightarrow> nat" where
  "name_segment g = unat (g ! 1 AND 3)"

text \<open>A group of station \<open>p\<close> that carries its segment of \<open>name\<close>.\<close>

definition name_group :: "u16 \<Rightarrow> u8 list \<Rightarrow> u16 list \<Rightarrow> bool" where
  "name_group p name g \<longleftrightarrow> length g = 4 \<and> g ! 0 = p \<and> drop_bit 12 (g ! 1) = 0 \<and>
     be_pair (g ! 3) = seg_at 2 name (name_segment g)"

definition accept_all :: "u16 list list \<Rightarrow> 'f Metadata \<Rightarrow> 'f Metadata" where
  "accept_all gs m = foldl (\<lambda>m g. accept_group g m) m gs"

lemma accept_all_simps [simp]:
  "accept_all [] m = m" "accept_all (g # gs) m = accept_all gs (accept_group g m)"
  "accept_all (gs @ hs) m = accept_all hs (accept_all gs m)"
  by (simp_all add: accept_all_def)

definition name_agrees :: "u8 list \<Rightarrow> 'f Metadata \<Rightarrow> nat set \<Rightarrow> bool" where
  "name_agrees name m S \<longleftrightarrow> (\<forall>i \<in> S. i < 4 \<longrightarrow> bit (ps_mask m) i \<longrightarrow> seg_at 2 (ps m) i = seg_at 2 name i)"

lemma change_station_same [simp]: "pi_code (snapshot m) = Some p \<Longrightarrow> change_station p m = m"
  by (simp add: change_station_def)

lemma accept_header_fields [simp]:
  "ps (accept_header p b m) = ps m" "ps_mask (accept_header p b m) = ps_mask m" "rt (accept_header p b m) = rt m"
  "rt_mask (accept_header p b m) = rt_mask m" "rt_ab (accept_header p b m) = rt_ab m"
  "rt_version_b (accept_header p b m) = rt_version_b m" "pi_code (snapshot (accept_header p b m)) = Some p"
  by (simp_all add: accept_header_def)

lemma name_group_accepted:
  assumes "metadata_ok m" "name_group p name g" "name_agrees name (change_station p m) S"
  defines "m' \<equiv> accept_group g m" and "k \<equiv> name_segment g"
  shows "metadata_ok m'" "pi_code (snapshot m') = Some p" "name_agrees name m' (insert k S)" "bit (ps_mask m') k"
    and "k \<in> S \<Longrightarrow> bit (ps_mask (change_station p m)) j \<Longrightarrow> bit (ps_mask m') j"
    and "ps_mask m' = 15 \<Longrightarrow> program_service (snapshot m') = Some (rds_text (ps m'))"
proof -
  let ?m = "accept_header p (g ! 1) (change_station p m)"
  define n where "n = ?m\<lparr>snapshot := (snapshot ?m)\<lparr>ta := Some (g ! 1 AND 0x10 \<noteq> 0), music := Some (g ! 1 AND 0x08 \<noteq> 0)\<rparr>\<rparr>"
  define pair where "pair = be_pair (g ! 3)"
  have g: "g ! 0 = p" "drop_bit 12 (g ! 1) = 0" "pair = seg_at 2 name k" "length pair = 2"
    using assms(2) length_be_pair [of "g ! 3"] by (simp_all add: name_group_def k_def pair_def)
  have k: "k < 4" by (simp add: k_def name_segment_def and_3_less)
  have m': "m' = show_ps (store_ps k pair (clear_ps k pair n))"
    using g(1,2) by (simp add: m'_def accept_group_def accept_ps_def Let_def n_def k_def name_segment_def pair_def)
  have n: "pi_code (snapshot n) = Some p" "ps n = ps (change_station p m)" "ps_mask n = ps_mask (change_station p m)"
    by (simp_all add: n_def)
  have ok: "metadata_ok (change_station p m)" using assms(1) by (rule change_station_ok)
  then have len: "length (ps n) = 8" "length (ps (clear_ps k pair n)) = 8"
    by (simp_all add: n metadata_ok_def clear_ps_def del: replicate_Suc)
  show "metadata_ok m'" unfolding m'_def by (intro accept_group_ok assms(1))
  have fields: "ps m' = write_at (2 * k) pair (ps (clear_ps k pair n))" "ps_mask m' = with_bit (ps_mask (clear_ps k pair n)) k"
    "pi_code (snapshot m') = Some p"
    using n(1) by (simp_all add: m' show_ps_def store_ps_def clear_ps_def)
  then show "pi_code (snapshot m') = Some p" "bit (ps_mask m') k" using k by simp_all
  have seg: "seg_at 2 (ps m') i = (if i = k then pair else seg_at 2 (ps (clear_ps k pair n)) i)" if "i < 4" for i
    using that k g(4) len(2) seg_at_write [of pair 2 k "ps (clear_ps k pair n)" i] by (auto simp: fields(1))
  have keep: "clear_ps k pair n = n" if "bit (ps_mask n) k \<longrightarrow> seg_at 2 (ps n) k = pair"
    using that by (auto simp: clear_ps_def and_with_bit seg_at_def)
  show "name_agrees name m' (insert k S)"
  proof (cases "bit (ps_mask n) k \<longrightarrow> seg_at 2 (ps n) k = pair")
    case True
    then show ?thesis
      using assms(3) seg g(3) n keep [OF True] by (auto simp: name_agrees_def fields(2))
  next
    case False
    then have "ps_mask (clear_ps k pair n) = 0" by (simp add: clear_ps_def and_with_bit seg_at_def)
    then show ?thesis using seg g(3) by (auto simp: name_agrees_def fields(2))
  qed
  show "bit (ps_mask m') j" if "k \<in> S" "bit (ps_mask (change_station p m)) j"
  proof -
    have "clear_ps k pair n = n" using that(1) assms(3) k n g(3) by (intro keep) (auto simp: name_agrees_def)
    then show ?thesis using that(2) n by (simp add: fields(2))
  qed
  show "program_service (snapshot m') = Some (rds_text (ps m'))" if "ps_mask m' = 15"
    using that by (auto simp: m' show_ps_def split: if_splits)
qed

lemma first_pass:
  "metadata_ok m \<Longrightarrow> \<forall>g \<in> set gs. name_group p name g \<Longrightarrow> gs \<noteq> [] \<Longrightarrow>
   name_agrees name (change_station p m) S \<Longrightarrow>
     metadata_ok (accept_all gs m) \<and> pi_code (snapshot (accept_all gs m)) = Some p \<and>
     name_agrees name (accept_all gs m) (S \<union> name_segment ` set gs)"
proof (induction gs arbitrary: m S)
  case (Cons g gs)
  have g: "name_group p name g" using Cons.prems(2) by simp
  note step = name_group_accepted [OF Cons.prems(1) g Cons.prems(4)]
  show ?case
  proof (cases gs)
    case Nil
    then show ?thesis using step by simp
  next
    case (Cons h hs)
    then show ?thesis
      using Cons.IH [of "accept_group g m" "insert (name_segment g) S"] step Cons.prems(2)
      by (simp add: insert_commute)
  qed
qed simp

lemma second_pass:
  "metadata_ok m \<Longrightarrow> pi_code (snapshot m) = Some p \<Longrightarrow> \<forall>g \<in> set gs. name_group p name g \<Longrightarrow>
   name_agrees name m {0..<4} \<Longrightarrow> gs \<noteq> [] \<Longrightarrow>
     metadata_ok (accept_all gs m) \<and> name_agrees name (accept_all gs m) {0..<4} \<and>
     (\<forall>j. bit (ps_mask m) j \<or> j \<in> name_segment ` set gs \<longrightarrow> bit (ps_mask (accept_all gs m)) j) \<and>
     (ps_mask (accept_all gs m) = 15 \<longrightarrow>
        program_service (snapshot (accept_all gs m)) = Some (rds_text (ps (accept_all gs m))))"
proof (induction gs arbitrary: m)
  case (Cons g gs)
  have g: "name_group p name g" and k: "name_segment g \<in> {0..<4}"
    using Cons.prems(3) by (simp_all add: name_segment_def and_3_less)
  have agree: "name_agrees name (change_station p m) {0..<4}" using Cons.prems(2,4) by simp
  note step = name_group_accepted [OF Cons.prems(1) g agree]
  have same: "insert (name_segment g) {0..<4} = {0..<4}" using k by (rule insert_absorb)
  show ?case
  proof (cases gs)
    case Nil
    then show ?thesis using step k Cons.prems(2) same by auto
  next
    case (Cons h hs)
    then show ?thesis
      using Cons.IH [of "accept_group g m"] step k Cons.prems(2,3) same by auto
  qed
qed simp

lemma name_complete:
  assumes "metadata_ok m" "name_agrees name m {0..<4}" "\<forall>j < 4. bit (ps_mask m) j" "length name = 8"
  shows "ps m = name" and "ps_mask m = 15"
proof -
  show "ps_mask m = 15" using assms(1,3) by (auto simp: mask_15 metadata_ok_def)
  show "ps m = name"
  proof (rule nth_equalityI)
    show "length (ps m) = length name" using assms(1,4) by (simp add: metadata_ok_def)
    then show "ps m ! k = name ! k" if "k < length (ps m)" for k
      using that assms(2-4) by (intro seg_at_agree [of 2 4]) (auto simp: name_agrees_def)
  qed
qed

section \<open>Radio texts\<close>

definition text_segment :: "u16 list \<Rightarrow> nat" where
  "text_segment g = unat (g ! 1 AND 15)"

definition text_bytes :: "u16 list \<Rightarrow> u8 list" where
  "text_bytes g = (if version_b g then be_pair (g ! 3) else be_pair (g ! 2) @ be_pair (g ! 3))"

text \<open>A group of station \<open>p\<close> that carries its segment of the text in the buffer \<open>msg\<close>.\<close>

definition text_group :: "u16 \<Rightarrow> bool \<Rightarrow> bool \<Rightarrow> u8 list \<Rightarrow> u16 list \<Rightarrow> bool" where
  "text_group p ab vb msg g \<longleftrightarrow> length g = 4 \<and> g ! 0 = p \<and> drop_bit 12 (g ! 1) = 2 \<and>
     (g ! 1 AND 0x10 \<noteq> 0) = ab \<and> version_b g = vb \<and> text_bytes g = seg_at (rt_width vb) msg (text_segment g)"

lemma rt_end_props:
  assumes "n \<le> length bytes"
  shows "k < rt_end bytes n \<Longrightarrow> bytes ! k \<noteq> 0x0D" and "rt_end bytes n < n \<Longrightarrow> bytes ! rt_end bytes n = 0x0D"
proof -
  let ?xs = "take n bytes" and ?P = "\<lambda>v. v \<noteq> (0x0D :: u8)"
  have e: "rt_end bytes n = length (takeWhile ?P ?xs)" by (simp add: rt_end_def)
  show "bytes ! k \<noteq> 0x0D" if "k < rt_end bytes n"
  proof -
    have "k < n" using that rt_end_le [of bytes n] by linarith
    moreover have "takeWhile ?P ?xs ! k \<in> set (takeWhile ?P ?xs)" using that unfolding e by (rule nth_mem)
    then have "?P (takeWhile ?P ?xs ! k)" by (blast dest: set_takeWhileD)
    ultimately show ?thesis using that e by (simp add: takeWhile_nth)
  qed
  show "bytes ! rt_end bytes n = 0x0D" if "rt_end bytes n < n"
    using nth_length_takeWhile [of ?P ?xs] that assms by (simp add: e)
qed

lemma rt_endI:
  assumes "n \<le> length bytes" "e \<le> n" "\<And>k. k < e \<Longrightarrow> bytes ! k \<noteq> 0x0D" "e < n \<Longrightarrow> bytes ! e = 0x0D"
  shows "rt_end bytes n = e"
proof (rule linorder_cases [of "rt_end bytes n" e])
  assume "rt_end bytes n < e"
  then show ?thesis using rt_end_props(2) [OF assms(1)] assms(2,3) by force
next
  assume "e < rt_end bytes n"
  then show ?thesis using rt_end_props(1) [OF assms(1)] assms(4) rt_end_le [of bytes n] by force
qed

definition text_agrees :: "u16 \<Rightarrow> bool \<Rightarrow> bool \<Rightarrow> u8 list \<Rightarrow> 'f Metadata \<Rightarrow> nat set \<Rightarrow> bool" where
  "text_agrees p ab vb msg m S \<longleftrightarrow>
     S = {} \<or> pi_code (snapshot m) = Some p \<and> rt_ab m = Some ab \<and> rt_version_b m = vb \<and>
       (\<forall>i \<in> S. bit (rt_mask m) i \<and> seg_at (rt_width vb) (rt m) i = seg_at (rt_width vb) msg i)"

lemma store_rt_fields:
  assumes "segment < 16" "length (rt m) = 64"
  shows "rt (store_rt vb segment c d m) =
      write_at (rt_width vb * segment) (if vb then be_pair d else be_pair c @ be_pair d) (rt m)"
    "rt_mask (store_rt vb segment c d m) = with_bit (rt_mask m) segment"
proof -
  have "write_at (4 * segment + 2) (be_pair d) (write_at (4 * segment) (be_pair c) (rt m)) =
      write_at (4 * segment) (be_pair c @ be_pair d) (rt m)" if "\<not> vb"
    using write_at_join [of "4 * segment" "be_pair c" "be_pair d" "rt m"] assms by simp
  then show "rt (store_rt vb segment c d m) =
      write_at (rt_width vb * segment) (if vb then be_pair d else be_pair c @ be_pair d) (rt m)"
    by (cases vb) (simp_all add: store_rt_def Let_def mult.commute [of segment])
qed (simp add: store_rt_def Let_def)

lemma text_group_accepted:
  assumes "metadata_ok m" "text_group p ab vb msg g" "text_agrees p ab vb msg m S" "S \<subseteq> {0..<16}"
    and "length msg = rt_width vb * 16"
  defines "m' \<equiv> accept_group g m" and "k \<equiv> text_segment g"
  shows "metadata_ok m'" "text_agrees p ab vb msg m' (insert k S)" "insert k S \<subseteq> {0..<16}"
    and "\<forall>i < segments_needed (rt_end (rt m') (rt_width vb * 16)) (rt_width vb). bit (rt_mask m') i \<Longrightarrow>
      radio_text (snapshot m') = Some (rds_text (take (rt_end (rt m') (rt_width vb * 16)) (rt m')))"
proof -
  let ?w = "rt_width vb"
  define n where "n = change_text ab vb (accept_header p (g ! 1) (change_station p m))"
  let ?s = "store_rt vb k (g ! 2) (g ! 3) n"
  have g: "g ! 0 = p" "drop_bit 12 (g ! 1) = 2" "(g ! 1 AND 0x10 \<noteq> 0) = ab" "(g ! 1 AND 0x0800 \<noteq> 0) = vb"
    "text_bytes g = seg_at ?w msg k" "(if vb then be_pair (g ! 3) else be_pair (g ! 2) @ be_pair (g ! 3)) = text_bytes g"
    using assms(2) by (auto simp: text_group_def version_b_def k_def text_bytes_def)
  have k: "k < 16" by (simp add: k_def text_segment_def and_15_less)
  have m': "m' = show_rt ?w ?s"
    using g(1,2) unfolding m'_def accept_group_def accept_rt_def Let_def n_def k_def text_segment_def g(1,3,4) by simp
  have n: "metadata_ok n" unfolding n_def by (intro inv_intros assms(1))
  then have len: "length (rt n) = 64" by (simp add: metadata_ok_def)
  have flags: "rt_ab n = Some ab" "rt_version_b n = vb" "pi_code (snapshot n) = Some p"
    by (auto simp: n_def change_text_def)
  show "metadata_ok m'" unfolding m'_def by (intro accept_group_ok assms(1))
  show sub: "insert k S \<subseteq> {0..<16}" using k assms(4) by simp
  have w: "0 < ?w" "?w * i + ?w \<le> 64" if "i < 16" for i using that by (cases vb; simp)+
  have fields: "rt m' = write_at (?w * k) (text_bytes g) (rt n)" "rt_mask m' = with_bit (rt_mask n) k"
    "rt_ab m' = Some ab" "rt_version_b m' = vb" "pi_code (snapshot m') = Some p"
    using store_rt_fields [OF k len] flags g(6) by (simp_all add: m' show_rt_def Let_def store_rt_def)
  have bytes: "length (text_bytes g) = ?w" using g(4) by (simp add: text_bytes_def version_b_def rt_width_def)
  have old: "bit (rt_mask n) i \<and> seg_at ?w (rt n) i = seg_at ?w msg i" if "i \<in> S" for i
    using assms(3) that by (auto simp: text_agrees_def n_def change_text_def)
  have "bit (rt_mask m') i \<and> seg_at ?w (rt m') i = seg_at ?w msg i" if "i \<in> insert k S" for i
    using old [of i] that k sub w [of i] w [of k] len bytes g(5) seg_at_write [OF bytes, of k "rt n" i]
    by (auto simp: fields(1,2) simp del: insert_subset)
  then show "text_agrees p ab vb msg m' (insert k S)" using fields by (simp add: text_agrees_def)
  have rt': "rt m' = rt ?s" "rt_mask m' = rt_mask ?s" by (simp_all add: m' show_rt_def Let_def)
  show "radio_text (snapshot m') = Some (rds_text (take (rt_end (rt m') (?w * 16)) (rt m')))"
    if "\<forall>i < segments_needed (rt_end (rt m') (?w * 16)) ?w. bit (rt_mask m') i"
  proof -
    have "0 < ?w" using w(1) [of 0] by simp
    then have "rt_mask ?s AND required_mask (rt_end (rt ?s) (?w * 16)) ?w = required_mask (rt_end (rt ?s) (?w * 16)) ?w"
      using that by (simp only: mask_covers [OF _ rt_end_le] rt')
    then show ?thesis unfolding rt' by (simp add: m' show_rt_def Let_def)
  qed
qed

lemma texts_accepted:
  assumes "metadata_ok m" "\<forall>g \<in> set gs. text_group p ab vb msg g" "text_agrees p ab vb msg m S" "S \<subseteq> {0..<16}"
    and "length msg = rt_width vb * 16" "gs \<noteq> []"
  defines "m' \<equiv> accept_all gs m"
  shows "metadata_ok m' \<and> text_agrees p ab vb msg m' (S \<union> text_segment ` set gs) \<and>
    ((\<forall>i < segments_needed (rt_end (rt m') (rt_width vb * 16)) (rt_width vb). bit (rt_mask m') i) \<longrightarrow>
      radio_text (snapshot m') = Some (rds_text (take (rt_end (rt m') (rt_width vb * 16)) (rt m'))))"
  using assms(1-4,6) unfolding m'_def
proof (induction gs arbitrary: m S)
  case (Cons g gs)
  have g: "text_group p ab vb msg g" using Cons.prems(2) by simp
  note step = text_group_accepted [OF Cons.prems(1) g Cons.prems(3,4) assms(5)]
  show ?case
  proof (cases gs)
    case Nil
    then show ?thesis using step by simp
  next
    case (Cons h hs)
    then show ?thesis
      using Cons.IH [of "accept_group g m" "insert (text_segment g) S"] step Cons.prems(2)
      by (simp add: insert_commute)
  qed
qed simp

lemma text_complete:
  assumes "metadata_ok m" "text_agrees p ab vb msg m S" "length msg = rt_width vb * 16"
    and "{0..<segments_needed (rt_end msg (rt_width vb * 16)) (rt_width vb)} \<subseteq> S"
  shows "rt_end (rt m) (rt_width vb * 16) = rt_end msg (rt_width vb * 16)"
    and "take (rt_end msg (rt_width vb * 16)) (rt m) = take (rt_end msg (rt_width vb * 16)) msg"
    and "\<forall>i < segments_needed (rt_end msg (rt_width vb * 16)) (rt_width vb). bit (rt_mask m) i"
proof -
  let ?w = "rt_width vb"
  let ?e = "rt_end msg (?w * 16)"
  let ?n = "segments_needed ?e ?w"
  have w: "0 < ?w" "?w * 16 \<le> 64" by (cases vb; simp)+
  have n: "0 < ?n" "?n \<le> 16"
    using segments_needed_bound [OF w(1) rt_end_le] by (simp_all add: segments_needed_def)
  have e: "?e < ?w * ?n \<or> ?e = ?w * 16 \<and> ?n = 16"
    using w(1) dividend_less_times_div [of ?w ?e] by (auto simp: segments_needed_def)
  have S: "S \<noteq> {}" using assms(4) n(1) by fastforce
  have len: "length (rt m) = 64" using assms(1) by (simp add: metadata_ok_def)
  have cover: "?w * ?n \<le> ?w * 16" using n(2) by simp
  have same: "rt m ! k = msg ! k" if "k < ?w * ?n" for k
    using that assms(2-4) S w n cover len
    by (intro seg_at_agree [of ?w ?n]) (auto simp: text_agrees_def)
  show "\<forall>i < ?n. bit (rt_mask m) i" using assms(2,4) S by (auto simp: text_agrees_def)
  show "rt_end (rt m) (?w * 16) = ?e"
  proof (rule rt_endI)
    show "?w * 16 \<le> length (rt m)" using w(2) len by simp
    show "?e \<le> ?w * 16" by (rule rt_end_le)
    show "rt m ! k \<noteq> 0x0D" if "k < ?e" for k
      using that e same [of k] rt_end_props(1) [of "?w * 16" msg k] assms(3) by auto
    show "rt m ! ?e = 0x0D" if "?e < ?w * 16"
      using that e same [of ?e] rt_end_props(2) [of "?w * 16" msg] assms(3) by auto
  qed
  show "take ?e (rt m) = take ?e msg"
  proof (rule nth_equalityI)
    show "length (take ?e (rt m)) = length (take ?e msg)" using rt_end_le [of msg "?w * 16"] len w(2) assms(3) by simp
    show "take ?e (rt m) ! k = take ?e msg ! k" if "k < length (take ?e (rt m))" for k
      using that e same [of k] by auto
  qed
qed

section \<open>Properties\<close>

lemma upto_4: "{0..<4 :: nat} = {0, 1, 2, 3}"
  by auto

text \<open>A name on the screen is what was received. In every reachable state the buffers have their
  fixed sizes, the programme type is one of the 32, and the station name shown is the text of the
  name buffer; when incomplete names are switched off, it is shown only while all four segments of
  that buffer have been received.\<close>

lemma rds_name_invariant:
  assumes "reach (\<lambda>m. m = metadata_default) metadata_step m"
  shows "length (ps m) = 8 \<and> length (rt m) = 64 \<and> (\<forall>p. pty (snapshot m) = Some p \<longrightarrow> p < 32) \<and>
    (\<forall>t. program_service (snapshot m) = Some t \<longrightarrow> t = rds_text (ps m) \<and> (incremental m \<or> ps_mask m = 15))"
  using rds_metadata.reach_inv [OF assms] by (simp add: metadata_ok_def)

theorem rds_name_invariant_witness:
  "program_service (snapshot (accept_group [0x1234, 0x0540, 0, 0x454D] (metadata_default :: nat Metadata))) =
     Some (rds_text (ps (accept_group [0x1234, 0x0540, 0, 0x454D] (metadata_default :: nat Metadata))))"
proof -
  let ?m = "accept_group [0x1234, 0x0540, 0, 0x454D] (metadata_default :: nat Metadata)"
  have "reach (\<lambda>m. m = metadata_default) metadata_step (metadata_default :: nat Metadata)" by (rule reach.start) (rule refl)
  then have "reach (\<lambda>m. m = metadata_default) metadata_step ?m" by (rule reach.extend) (rule metadata_step.accept)
  from rds_name_invariant [OF this] have "\<forall>t. program_service (snapshot ?m) = Some t \<longrightarrow> t = rds_text (ps ?m)" by blast
  moreover have "program_service (snapshot ?m) \<noteq> None"
    by (simp add: accept_group_def accept_header_def accept_ps_def show_ps_def store_ps_def clear_ps_def
        change_station_def metadata_default_def Let_def del: replicate_Suc)
  ultimately show ?thesis by auto
qed

text \<open>C20: A station name is received from any state. When the four segments of a name have been sent twice
  over, in whatever order and with whatever repetitions, the name is shown exactly, whether or not
  incomplete names are shown and whatever station was received before.\<close>

theorem rds_name_received:
  assumes "metadata_ok m" "length name = 8" "\<forall>g \<in> set (gs @ hs). name_group p name g"
    and "{0..<4} \<subseteq> name_segment ` set gs" "{0..<4} \<subseteq> name_segment ` set hs"
  shows "program_service (snapshot (accept_all (gs @ hs) m)) = Some (rds_text name)"
proof -
  let ?m = "accept_all gs m"
  have "gs \<noteq> []" "hs \<noteq> []" using assms(4,5) by auto
  have "name_agrees name (change_station p m) {}" by (simp add: name_agrees_def)
  from first_pass [OF assms(1) _ \<open>gs \<noteq> []\<close> this] assms(3)
  have m: "metadata_ok ?m" "pi_code (snapshot ?m) = Some p" "name_agrees name ?m (name_segment ` set gs)" by auto
  then have "name_agrees name ?m {0..<4}" using assms(4) by (auto simp: name_agrees_def)
  from second_pass [OF m(1,2) _ this \<open>hs \<noteq> []\<close>] assms(3)
  have m': "metadata_ok (accept_all hs ?m)" "name_agrees name (accept_all hs ?m) {0..<4}"
      "\<forall>j < 4. bit (ps_mask (accept_all hs ?m)) j"
      "ps_mask (accept_all hs ?m) = 15 \<longrightarrow>
        program_service (snapshot (accept_all hs ?m)) = Some (rds_text (ps (accept_all hs ?m)))"
    using assms(5) by auto
  then show ?thesis using name_complete [OF m'(1-3) assms(2)] by simp
qed

theorem rds_name_received_witness:
  "program_service (snapshot (accept_all
     ([[0x1234, 0x0542, 0, 0x2052], [0x1234, 0x0540, 0, 0x454D], [0x1234, 0x0543, 0, 0x2031], [0x1234, 0x0541, 0, 0x5452]] @
      [[0x1234, 0x0540, 0, 0x454D], [0x1234, 0x0541, 0, 0x5452], [0x1234, 0x0542, 0, 0x2052], [0x1234, 0x0543, 0, 0x2031]])
     (metadata_default :: nat Metadata))) = Some (rds_text [0x45, 0x4D, 0x54, 0x52, 0x20, 0x52, 0x20, 0x31])"
proof (rule rds_name_received [OF metadata_default_ok])
  show "\<forall>g \<in> set ([[0x1234, 0x0542, 0, 0x2052], [0x1234, 0x0540, 0, 0x454D], [0x1234, 0x0543, 0, 0x2031], [0x1234, 0x0541, 0, 0x5452]] @
      [[0x1234, 0x0540, 0, 0x454D], [0x1234, 0x0541, 0, 0x5452], [0x1234, 0x0542, 0, 0x2052], [0x1234, 0x0543, 0, 0x2031]]).
      name_group 0x1234 [0x45, 0x4D, 0x54, 0x52, 0x20, 0x52, 0x20, 0x31] g"
    by (simp add: name_group_def name_segment_def be_pair_def seg_at_def)
qed (simp_all add: name_segment_def upto_4)

text \<open>C37: A radio text is received from any state. When every segment that a text fills, up to its
  carriage return or the end of the buffer, has been sent, in whatever order, the text is shown
  exactly up to its end, in both versions of the groups and whatever text was shown before.\<close>

theorem rds_text_received:
  assumes "metadata_ok m" "length msg = rt_width vb * 16" "gs \<noteq> []" "\<forall>g \<in> set gs. text_group p ab vb msg g"
    and "{0..<segments_needed (rt_end msg (rt_width vb * 16)) (rt_width vb)} \<subseteq> text_segment ` set gs"
  shows "radio_text (snapshot (accept_all gs m)) = Some (rds_text (take (rt_end msg (rt_width vb * 16)) msg))"
proof -
  have "text_agrees p ab vb msg m {}" by (simp add: text_agrees_def)
  from texts_accepted [OF assms(1,4) this _ assms(2,3)]
  have m': "metadata_ok (accept_all gs m)" "text_agrees p ab vb msg (accept_all gs m) (text_segment ` set gs)"
      "(\<forall>i < segments_needed (rt_end (rt (accept_all gs m)) (rt_width vb * 16)) (rt_width vb). bit (rt_mask (accept_all gs m)) i)
        \<longrightarrow> radio_text (snapshot (accept_all gs m)) =
          Some (rds_text (take (rt_end (rt (accept_all gs m)) (rt_width vb * 16)) (rt (accept_all gs m))))"
    by simp_all
  then show ?thesis using text_complete [OF m'(1,2) assms(2,5)] by simp
qed

theorem rds_text_received_witness:
  "radio_text (snapshot (accept_all [[0x1234, 0x2551, 0x4C4C, 0x4F0D], [0x1234, 0x2550, 0x2041, 0x4245]]
     (metadata_default :: nat Metadata))) = Some [32, 65, 66, 69, 76, 76, 79]"
proof -
  let ?msg = "0x20 # 0x41 # 0x42 # 0x45 # 0x4C # 0x4C # 0x4F # 0x0D # replicate 56 (0x20 :: u8)"
  let ?gs = "[[0x1234, 0x2551, 0x4C4C, 0x4F0D], [0x1234, 0x2550, 0x2041, 0x4245]] :: u16 list list"
  have e: "rt_end ?msg 64 = 7" by (simp add: rt_end_def del: replicate_Suc)
  have "radio_text (snapshot (accept_all ?gs (metadata_default :: nat Metadata))) =
      Some (rds_text (take (rt_end ?msg (rt_width False * 16)) ?msg))"
  proof (rule rds_text_received [OF metadata_default_ok, where p = "0x1234" and ab = True])
    show "\<forall>g \<in> set ?gs. text_group 0x1234 True False ?msg g"
      by (simp add: text_group_def text_segment_def text_bytes_def version_b_def be_pair_def seg_at_def del: replicate_Suc)
    show "{0..<segments_needed (rt_end ?msg (rt_width False * 16)) (rt_width False)} \<subseteq> text_segment ` set ?gs"
      by (auto simp: e segments_needed_def text_segment_def)
  qed simp_all
  then show ?thesis by (simp add: e rds_text_def glyph_def del: replicate_Suc)
qed

end
