(* ===== verification/Channelizer.thy ===== *)
theory Channelizer
  imports Capture Complex_Main
begin

text \<open>
  The channelizer, \<^verbatim>\<open>ez-daemon/src/channelizer.rs\<close>, with the sample blocks of \<^verbatim>\<open>ez-daemon/src/bus.rs\<close>:
  an oscillator moves a channel to zero, a multistage filter thins the samples, and the clock of every
  output block says where its first sample was taken. The arithmetic of \<open>f64\<close>, \<open>f32\<close> and complex
  numbers is the parameter \<open>F\<close>; positions, phases of the filter bank, rates and clocks are exact
  naturals (the source keeps the bank phase in \<open>f64\<close> as a fraction whose denominator is a power of two,
  so it is exact there as well). The lemmas show that the outputs do not depend on how the input is cut
  into blocks, and that the output clock never hides a gap.
\<close>

section \<open>Parameters\<close>

record ('f, 'k, 'c) flops =
  f_add :: "'f \<Rightarrow> 'f \<Rightarrow> 'f"
  f_sub :: "'f \<Rightarrow> 'f \<Rightarrow> 'f"
  f_mul :: "'f \<Rightarrow> 'f \<Rightarrow> 'f"
  f_div :: "'f \<Rightarrow> 'f \<Rightarrow> 'f"
  f_sin :: "'f \<Rightarrow> 'f"
  f_cos :: "'f \<Rightarrow> 'f"
  f_abs :: "'f \<Rightarrow> 'f"
  f_fract_euclid :: "'f \<Rightarrow> 'f"
  f_less :: "'f \<Rightarrow> 'f \<Rightarrow> bool"
  f_le :: "'f \<Rightarrow> 'f \<Rightarrow> bool"
  f_finite :: "'f \<Rightarrow> bool"
  f_truncate :: "'f \<Rightarrow> nat"
  f_const :: "rat \<Rightarrow> 'f"
  f_pi :: 'f
  f_of_int :: "int \<Rightarrow> 'f"
  f_integer :: "'f \<Rightarrow> int option"
  narrow :: "'f \<Rightarrow> 'k"
  widen :: "'k \<Rightarrow> 'f"
  k_add :: "'k \<Rightarrow> 'k \<Rightarrow> 'k"
  k_sub :: "'k \<Rightarrow> 'k \<Rightarrow> 'k"
  k_mul :: "'k \<Rightarrow> 'k \<Rightarrow> 'k"
  c_zero :: 'c
  c_add :: "'c \<Rightarrow> 'c \<Rightarrow> 'c"
  c_scale :: "'c \<Rightarrow> 'k \<Rightarrow> 'c"
  c_rotate :: "'c \<Rightarrow> 'k \<Rightarrow> 'c"

text \<open>\<open>f_integer x\<close> is \<open>x as i128\<close> when \<open>x.fract() == 0\<close>; \<open>f_truncate x\<close> is \<open>x as u32\<close>; \<open>f_fract_euclid x\<close> is \<open>x.rem_euclid(1.0)\<close>; \<open>c_rotate s p\<close>
  is \<open>s * Complex32::from_polar(1.0, p)\<close>.\<close>

abbreviation f_nat :: "('f, 'k, 'c) flops \<Rightarrow> nat \<Rightarrow> 'f" where
  "f_nat F n \<equiv> f_of_int F (int n)"

definition f_neg :: "('f, 'k, 'c) flops \<Rightarrow> 'f \<Rightarrow> 'f" where
  "f_neg F x = f_mul F (f_const F (- 1)) x"

definition f_tau :: "('f, 'k, 'c) flops \<Rightarrow> 'f" where
  "f_tau F = f_mul F (f_const F 2) (f_pi F)"

section \<open>Sample blocks\<close>

record 'c sample_block =
  product_session :: nat
  capture :: "capture_clock option"
  observed_at :: "nat option"
  start_sample :: nat
  sample_rate_hz :: nat
  center_freq_hz :: nat
  samples :: "'c list"

definition block_clock :: "'c sample_block \<Rightarrow> capture_clock" where
  "block_clock b = (case capture b of Some c \<Rightarrow> c | None \<Rightarrow> clock_new 0 (start_sample b) (sample_rate_hz b) None)"

text \<open>\<open>SampleContinuity\<close>: where a consumer expects the next block of its queue.\<close>

type_synonym continuity = "(nat \<times> capture_clock \<times> nat \<times> nat) option"

definition same_clock :: "capture_clock \<Rightarrow> capture_clock \<Rightarrow> bool" where
  "same_clock previous clock \<longleftrightarrow> epoch previous = epoch clock \<and>
     source_sample_index previous = source_sample_index clock \<and>
     source_sample_rate_hz previous = source_sample_rate_hz clock \<and>
     sample_stride previous = sample_stride clock \<and> origin_unix_ns previous = origin_unix_ns clock"

definition next_position :: "'c sample_block \<Rightarrow> continuity" where
  "next_position b =
     (let clock = block_clock b in
      do {
        sample \<leftarrow> chk_u64 (start_sample b + length (samples b));
        clock' \<leftarrow> offset_samples clock (length (samples b));
        if 0 < source_sample_rate_hz clock \<and> 0 < sample_stride clock
        then Some (sample, clock', sample_rate_hz b, center_freq_hz b) else None })"

definition continuity_observe :: "continuity \<Rightarrow> 'c sample_block \<Rightarrow> continuity \<times> bool" where
  "continuity_observe next b =
     (let clock = block_clock b;
          contiguous = (\<not> discontinuous clock \<and>
            (case next of None \<Rightarrow> False
             | Some (sample, previous, rate, center) \<Rightarrow>
                 sample = start_sample b \<and> rate = sample_rate_hz b \<and> center = center_freq_hz b \<and> same_clock previous clock))
      in (next_position b, contiguous))"

section \<open>The oscillator\<close>

record 'f nco =
  phase :: 'f
  phase_increment :: 'f
  offset_hz :: 'f

definition nco_new :: "('f, 'k, 'c) flops \<Rightarrow> 'f \<Rightarrow> 'f \<Rightarrow> 'f nco" where
  "nco_new F freq_offset rate =
     \<lparr>phase = f_const F 0,
      phase_increment = f_div F (f_mul F (f_mul F (f_const F (- 2)) (f_pi F)) freq_offset) rate,
      offset_hz = freq_offset\<rparr>"

definition nco_seek :: "('f, 'k, 'c) flops \<Rightarrow> nat \<Rightarrow> 'f \<Rightarrow> 'f nco \<Rightarrow> 'f nco" where
  "nco_seek F sample_index source_rate n =
     (let cycles = (case (f_integer F (offset_hz n), f_integer F source_rate) of
            (Some offset, Some rate) \<Rightarrow>
              if f_less F (f_const F 0) source_rate
              then f_div F (f_of_int F ((- offset * int sample_index) mod rate)) (f_of_int F rate)
              else f_fract_euclid F (f_mul F (f_div F (f_neg F (offset_hz n)) source_rate) (f_nat F sample_index))
          | _ \<Rightarrow> f_fract_euclid F (f_mul F (f_div F (f_neg F (offset_hz n)) source_rate) (f_nat F sample_index)));
          p = f_mul F cycles (f_tau F)
      in n\<lparr>phase := (if f_less F (f_pi F) p then f_sub F p (f_tau F) else p)\<rparr>)"

definition nco_advance :: "('f, 'k, 'c) flops \<Rightarrow> 'f nco \<Rightarrow> 'f nco" where
  "nco_advance F n =
     (let p = f_add F (phase n) (phase_increment n)
      in n\<lparr>phase := (if f_less F (f_pi F) p then f_sub F p (f_tau F)
                     else if f_less F p (f_neg F (f_pi F)) then f_add F p (f_tau F) else p)\<rparr>)"

fun nco_mix :: "('f, 'k, 'c) flops \<Rightarrow> 'f nco \<Rightarrow> 'c list \<Rightarrow> 'f nco \<times> 'c list" where
  "nco_mix F n [] = (n, [])"
| "nco_mix F n (s # xs) =
     (let (n', out) = nco_mix F (nco_advance F n) xs
      in (n', c_rotate F s (narrow F (phase n)) # out))"

section \<open>The filters\<close>

definition HALF_BAND_TAPS :: nat where "HALF_BAND_TAPS = 63"
definition FILTER_PHASES :: nat where "FILTER_PHASES = 256"
definition TAPS_PER_RATIO :: nat where "TAPS_PER_RATIO = 100"

definition f_sum :: "('f, 'k, 'c) flops \<Rightarrow> 'f list \<Rightarrow> 'f" where
  "f_sum F xs = foldl (f_add F) (f_const F 0) xs"

definition blackman_harris :: "('f, 'k, 'c) flops \<Rightarrow> 'f \<Rightarrow> 'f" where
  "blackman_harris F position =
     (let angle = f_mul F (f_tau F) position
      in f_sub F
           (f_add F
             (f_sub F (f_const F (35875 / 100000)) (f_mul F (f_const F (48829 / 100000)) (f_cos F angle)))
             (f_mul F (f_const F (14128 / 100000)) (f_cos F (f_mul F (f_const F 2) angle))))
           (f_mul F (f_const F (1168 / 100000)) (f_cos F (f_mul F (f_const F 3) angle))))"

definition lowpass_tap :: "('f, 'k, 'c) flops \<Rightarrow> nat \<Rightarrow> 'f \<Rightarrow> 'f \<Rightarrow> nat \<Rightarrow> 'f" where
  "lowpass_tap F num_taps cutoff ph n =
     (let middle = f_div F (f_nat F (num_taps - 1)) (f_const F 2);
          x = f_sub F (f_sub F (f_nat F n) middle) ph;
          sinc = (if f_less F (f_abs F x) (f_const F (1 / 10 ^ 12)) then cutoff
                  else f_div F (f_sin F (f_mul F (f_mul F (f_pi F) cutoff) x)) (f_mul F (f_pi F) x))
      in f_mul F sinc (blackman_harris F (f_div F (f_nat F n) (f_nat F (num_taps - 1)))))"

definition design_lowpass :: "('f, 'k, 'c) flops \<Rightarrow> nat \<Rightarrow> 'f \<Rightarrow> 'f \<Rightarrow> 'k list" where
  "design_lowpass F num_taps cutoff ph =
     (let taps = map (lowpass_tap F num_taps cutoff ph) [0..<num_taps];
          gain = f_sum F taps
      in map (\<lambda>tap. narrow F (f_div F tap gain)) taps)"

record ('k, 'c) half_band =
  paired :: "'k list"
  hb_center :: 'k
  hb_history :: "'c list"
  hb_write :: nat
  hb_emit :: bool

definition half_band_new :: "('f, 'k, 'c) flops \<Rightarrow> ('k, 'c) half_band" where
  "half_band_new F =
     (let taps = map (\<lambda>(n, tap). if odd n \<and> n \<noteq> HALF_BAND_TAPS div 2 then narrow F (f_const F 0) else tap)
            (enumerate 0 (design_lowpass F HALF_BAND_TAPS (f_const F (1 / 2)) (f_const F 0)));
          gain = f_sum F (map (widen F) taps)
      in \<lparr>paired = map (\<lambda>n. narrow F (f_div F (widen F (taps ! (2 * n))) gain)) [0..<16],
          hb_center = narrow F (f_div F (widen F (taps ! (HALF_BAND_TAPS div 2))) gain),
          hb_history = replicate (2 * HALF_BAND_TAPS) (c_zero F), hb_write = 0, hb_emit = True\<rparr>)"

definition half_band_reset :: "('f, 'k, 'c) flops \<Rightarrow> ('k, 'c) half_band \<Rightarrow> ('k, 'c) half_band" where
  "half_band_reset F h =
     h\<lparr>hb_history := replicate (length (hb_history h)) (c_zero F), hb_write := 0, hb_emit := True\<rparr>"

definition half_band_output :: "('f, 'k, 'c) flops \<Rightarrow> ('k, 'c) half_band \<Rightarrow> 'c" where
  "half_band_output F h =
     (let window = take HALF_BAND_TAPS (drop (hb_write h) (hb_history h))
      in foldl (\<lambda>out (n, tap). c_add F out (c_scale F (c_add F (window ! (2 * n)) (window ! (HALF_BAND_TAPS - 1 - 2 * n))) tap))
           (c_scale F (window ! (HALF_BAND_TAPS div 2)) (hb_center h)) (enumerate 0 (paired h)))"

definition half_band_push :: "('f, 'k, 'c) flops \<Rightarrow> ('k, 'c) half_band \<Rightarrow> 'c \<Rightarrow> ('k, 'c) half_band \<times> 'c option" where
  "half_band_push F h s =
     (let h' = h\<lparr>hb_history := (hb_history h)[hb_write h := s, hb_write h + HALF_BAND_TAPS := s],
                 hb_write := (hb_write h + 1) mod HALF_BAND_TAPS, hb_emit := \<not> hb_emit h\<rparr>
      in if \<not> hb_emit h then (h', None) else (h', Some (half_band_output F h')))"

record ('k, 'c) phase_filter =
  banks :: "'k list list"
  pf_history :: "'c list"
  pf_write :: nat
  pf_len :: nat

text \<open>\<open>PhaseFilter::new\<close> for the ratio \<open>decimation / stage_factor\<close>.\<close>

definition phase_filter_len :: "nat \<Rightarrow> nat \<Rightarrow> nat" where
  "phase_filter_len decim factor =
     (let n = (TAPS_PER_RATIO * decim + factor - 1) div factor in if even n then n + 1 else n)"

definition phase_filter_new :: "('f, 'k, 'c) flops \<Rightarrow> nat \<Rightarrow> nat \<Rightarrow> nat \<Rightarrow> ('k, 'c) phase_filter" where
  "phase_filter_new F decim factor phases =
     (let len = phase_filter_len decim factor;
          ratio = f_div F (f_nat F decim) (f_nat F factor)
      in \<lparr>banks = map (\<lambda>n. design_lowpass F len (f_div F (f_const F (9 / 10)) ratio)
                            (f_div F (f_nat F n) (f_nat F (max phases 1)))) [0..<phases + 1],
          pf_history = replicate (2 * len) (c_zero F), pf_write = 0, pf_len = len\<rparr>)"

definition phase_filter_reset :: "('f, 'k, 'c) flops \<Rightarrow> ('k, 'c) phase_filter \<Rightarrow> ('k, 'c) phase_filter" where
  "phase_filter_reset F p = p\<lparr>pf_history := replicate (length (pf_history p)) (c_zero F), pf_write := 0\<rparr>"

definition phase_filter_push :: "('k, 'c) phase_filter \<Rightarrow> 'c \<Rightarrow> ('k, 'c) phase_filter" where
  "phase_filter_push p s =
     p\<lparr>pf_history := (pf_history p)[pf_write p := s, pf_write p + pf_len p := s],
       pf_write := (pf_write p + 1) mod pf_len p\<rparr>"

definition c_sum :: "('f, 'k, 'c) flops \<Rightarrow> 'c list \<Rightarrow> 'c" where
  "c_sum F xs = foldl (c_add F) (c_zero F) xs"

text \<open>The output at the phase \<open>ph / factor\<close>: one bank, or two banks blended.\<close>

definition phase_filter_output :: "('f, 'k, 'c) flops \<Rightarrow> ('k, 'c) phase_filter \<Rightarrow> nat \<Rightarrow> nat \<Rightarrow> 'c" where
  "phase_filter_output F p ph factor =
     (let coordinate = ph * (length (banks p) - 1);
          bank = coordinate div factor;
          blend = narrow F (f_div F (f_nat F (coordinate mod factor)) (f_nat F factor));
          window = take (pf_len p) (drop (pf_write p) (pf_history p))
      in if coordinate mod factor = 0
         then c_sum F (map2 (c_scale F) window (banks p ! bank))
         else c_sum F (map (\<lambda>(x, a, b). c_scale F x (k_add F a (k_mul F (k_sub F b a) blend)))
                (zip window (zip (banks p ! bank) (banks p ! (bank + 1))))))"

section \<open>The decimator\<close>

record ('k, 'c) fir_decimator =
  decimation :: nat
  skip :: nat
  stages :: "('k, 'c) half_band list"
  stage_factor :: nat
  output_phase :: nat
  final_filter :: "('k, 'c) phase_filter option"

text \<open>\<open>ilog2\<close> of a positive number.\<close>

fun ilog2 :: "nat \<Rightarrow> nat" where
  "ilog2 n = (if n < 2 then 0 else ilog2 (n div 2) + 1)"

declare ilog2.simps [simp del]

definition fir_decimator_new :: "('f, 'k, 'c) flops \<Rightarrow> nat \<Rightarrow> ('k, 'c) fir_decimator" where
  "fir_decimator_new F d =
     (if d = 1 then
        \<lparr>decimation = d, skip = 0, stages = [], stage_factor = 1, output_phase = 0, final_filter = None\<rparr>
      else
        let n = (if d < 8 then 0 else ilog2 (d div 4));
            factor = 2 ^ n;
            phases = (if n = 0 then 0 else FILTER_PHASES)
        in \<lparr>decimation = d, skip = 0, stages = replicate n (half_band_new F), stage_factor = factor,
            output_phase = 0, final_filter = Some (phase_filter_new F d factor phases)\<rparr>)"

definition decimator_reset :: "('f, 'k, 'c) flops \<Rightarrow> nat \<Rightarrow> ('k, 'c) fir_decimator \<Rightarrow> ('k, 'c) fir_decimator" where
  "decimator_reset F first_offset d =
     d\<lparr>skip := first_offset, output_phase := first_offset mod stage_factor d,
       stages := map (half_band_reset F) (stages d),
       final_filter := map_option (phase_filter_reset F) (final_filter d)\<rparr>"

fun run_stages :: "('f, 'k, 'c) flops \<Rightarrow> ('k, 'c) half_band list \<Rightarrow> 'c \<Rightarrow> ('k, 'c) half_band list \<times> 'c option" where
  "run_stages F [] s = ([], Some s)"
| "run_stages F (h # hs) s =
     (case half_band_push F h s of
        (h', None) \<Rightarrow> (h' # hs, None)
      | (h', Some v) \<Rightarrow> (let (hs', out) = run_stages F hs v in (h' # hs', out)))"

text \<open>One input sample, at position \<open>n\<close> of the call; \<open>nxt\<close> is the position of the next output.\<close>

definition decimate_step ::
    "('f, 'k, 'c) flops \<Rightarrow> ('k, 'c) fir_decimator \<Rightarrow> ('k, 'c) phase_filter \<Rightarrow> nat \<Rightarrow> nat \<Rightarrow> 'c \<Rightarrow>
     ('k, 'c) fir_decimator \<times> ('k, 'c) phase_filter \<times> nat \<times> 'c list" where
  "decimate_step F d p n nxt s =
     (let (hs, v) = run_stages F (stages d) s;
          d = d\<lparr>stages := hs\<rparr>;
          p = (case v of None \<Rightarrow> p | Some s \<Rightarrow> phase_filter_push p s)
      in if n = nxt
         then (d\<lparr>output_phase := (output_phase d + decimation d mod stage_factor d) mod stage_factor d\<rparr>, p,
               nxt + decimation d, [phase_filter_output F p (output_phase d) (stage_factor d)])
         else (d, p, nxt, []))"

fun decimate_loop ::
    "('f, 'k, 'c) flops \<Rightarrow> ('k, 'c) fir_decimator \<Rightarrow> ('k, 'c) phase_filter \<Rightarrow> nat \<Rightarrow> nat \<Rightarrow> 'c list \<Rightarrow>
     ('k, 'c) fir_decimator \<times> ('k, 'c) phase_filter \<times> nat \<times> 'c list" where
  "decimate_loop F d p n nxt [] = (d, p, nxt, [])"
| "decimate_loop F d p n nxt (s # xs) =
     (let (d, p, nxt, out) = decimate_step F d p n nxt s;
          (d, p, nxt, rest) = decimate_loop F d p (n + 1) nxt xs
      in (d, p, nxt, out @ rest))"

definition decimator_process ::
    "('f, 'k, 'c) flops \<Rightarrow> ('k, 'c) fir_decimator \<Rightarrow> 'c list \<Rightarrow> ('k, 'c) fir_decimator \<times> 'c list" where
  "decimator_process F d input =
     (case final_filter d of
        None \<Rightarrow> (d, input)
      | Some p \<Rightarrow>
          (let (d, p, nxt, out) = decimate_loop F d p 0 (skip d) input
           in (d\<lparr>final_filter := Some p, skip := nxt - length input\<rparr>, out)))"

section \<open>Virtual channels\<close>

text \<open>\<open>new_capture_epoch\<close>: a counter of the process, passed along as the next epoch.\<close>

definition new_capture_epoch :: "nat \<Rightarrow> nat \<times> nat" where
  "new_capture_epoch next = (next, next + 1)"

record input_end =
  ie_sample :: nat
  ie_clock :: capture_clock
  ie_rate_hz :: nat
  ie_center_hz :: nat

record ('f, 'k, 'c) virtual_channel =
  vc_id :: nat
  vc_center_freq_hz :: nat
  output_rate_hz :: nat
  vc_nco :: "'f nco"
  decimator :: "('k, 'c) fir_decimator"
  last_input :: "input_end option"
  output_epoch :: nat
  pending_discontinuity :: bool

definition tune_offset :: "('f, 'k, 'c) flops \<Rightarrow> nat \<Rightarrow> nat \<Rightarrow> 'f" where
  "tune_offset F center wideband = f_sub F (f_nat F center) (f_nat F wideband)"

definition virtual_channel_new ::
    "('f, 'k, 'c) flops \<Rightarrow> nat \<Rightarrow> nat \<Rightarrow> nat \<Rightarrow> nat \<Rightarrow> nat \<Rightarrow> nat \<Rightarrow> ('f, 'k, 'c) virtual_channel \<times> nat" where
  "virtual_channel_new F ep i wideband_center wideband_rate center decim =
     (let (e, ep) = new_capture_epoch ep
      in (\<lparr>vc_id = i, vc_center_freq_hz = center, output_rate_hz = wideband_rate div decim,
           vc_nco = nco_new F (tune_offset F center wideband_center) (f_nat F wideband_rate),
           decimator = fir_decimator_new F decim, last_input = None, output_epoch = e,
           pending_discontinuity = True\<rparr>, ep))"

definition exact_sample_rate_hz :: "('f, 'k, 'c) flops \<Rightarrow> capture_clock \<Rightarrow> 'f" where
  "exact_sample_rate_hz F c = f_div F (f_nat F (source_sample_rate_hz c)) (f_nat F (max (sample_stride c) 1))"

definition continues_input :: "('f, 'k, 'c) virtual_channel \<Rightarrow> 'c sample_block \<Rightarrow> bool" where
  "continues_input ch b \<longleftrightarrow> \<not> discontinuous (block_clock b) \<and>
     (case last_input ch of None \<Rightarrow> False
      | Some e \<Rightarrow> ie_sample e = start_sample b \<and> ie_rate_hz e = sample_rate_hz b \<and>
          ie_center_hz e = center_freq_hz b \<and> same_clock (ie_clock e) (block_clock b))"

definition vc_restart ::
    "('f, 'k, 'c) flops \<Rightarrow> 'c sample_block \<Rightarrow> ('f, 'k, 'c) virtual_channel \<Rightarrow> nat \<Rightarrow> ('f, 'k, 'c) virtual_channel \<times> nat" where
  "vc_restart F b ch ep =
     (let clock = block_clock b;
          (e, ep) = new_capture_epoch ep;
          d = decimation (decimator ch);
          first_offset = (d - start_sample b mod d) mod d
      in (ch\<lparr>output_epoch := e, pending_discontinuity := True,
             decimator := decimator_reset F first_offset (decimator ch),
             vc_nco := nco_seek F (source_sample_index clock) (f_nat F (source_sample_rate_hz clock))
               (nco_new F (tune_offset F (vc_center_freq_hz ch) (center_freq_hz b)) (exact_sample_rate_hz F clock))\<rparr>, ep))"

definition input_end_of :: "'c sample_block \<Rightarrow> capture_clock \<Rightarrow> input_end" where
  "input_end_of b end_clock =
     \<lparr>ie_sample = start_sample b + length (samples b), ie_clock = end_clock, ie_rate_hz = sample_rate_hz b,
      ie_center_hz = center_freq_hz b\<rparr>"

definition chk_u32 :: "nat \<Rightarrow> nat option" where
  "chk_u32 n = (if n < 2 ^ 32 then Some n else None)"

text \<open>The output block of \<open>decimated\<close> samples, the first of them taken \<open>first_offset\<close> into the input; \<open>None\<close>
  when its clock does not fit.\<close>

definition vc_publish ::
    "'c sample_block \<Rightarrow> nat \<Rightarrow> 'c list \<Rightarrow> ('f, 'k, 'c) virtual_channel \<Rightarrow>
     (('f, 'k, 'c) virtual_channel \<times> 'c sample_block) option" where
  "vc_publish b first_offset decimated ch =
     (let d = decimation (decimator ch) in
      do {
        output_clock \<leftarrow> offset_samples (block_clock b) first_offset;
        stride \<leftarrow> chk_u32 (sample_stride output_clock * d);
        let output_clock = output_clock\<lparr>epoch := output_epoch ch, sample_stride := stride,
              discontinuous := pending_discontinuity ch\<rparr>;
        let rate = sample_rate_hz b div d;
        Some (ch\<lparr>pending_discontinuity := False, output_rate_hz := rate\<rparr>,
          \<lparr>product_session = product_session b, capture = Some output_clock, observed_at = observed_at b,
           start_sample = (start_sample b + first_offset) div d, sample_rate_hz = rate,
           center_freq_hz = vc_center_freq_hz ch, samples = decimated\<rparr>) })"

definition vc_process ::
    "('f, 'k, 'c) flops \<Rightarrow> 'c sample_block \<Rightarrow> ('f, 'k, 'c) virtual_channel \<Rightarrow> nat \<Rightarrow>
     ('f, 'k, 'c) virtual_channel \<times> nat \<times> 'c sample_block option" where
  "vc_process F b ch ep =
     (let clock = block_clock b in
      if source_sample_rate_hz clock = 0 \<or> sample_stride clock = 0 \<or> sample_rate_hz b = 0
      then (ch\<lparr>pending_discontinuity := True, last_input := None\<rparr>, ep, None)
      else
        let (ch, ep) = (if continues_input ch b then (ch, ep) else vc_restart F b ch ep);
            first_offset = skip (decimator ch);
            (n, mixed) = nco_mix F (vc_nco ch) (samples b);
            (d, decimated) = decimator_process F (decimator ch) mixed;
            ch = ch\<lparr>vc_nco := n, decimator := d\<rparr>
        in case offset_samples clock (length (samples b)) of
             None \<Rightarrow> (ch, ep, None)
           | Some end_clock \<Rightarrow>
               (let ch = ch\<lparr>last_input := Some (input_end_of b end_clock)\<rparr>
                in if decimated = [] then (ch, ep, None)
                   else case vc_publish b first_offset decimated ch of
                          None \<Rightarrow> (ch, ep, None)
                        | Some (ch, out) \<Rightarrow> (ch, ep, Some out)))"

text \<open>What \<open>Channelizer::retune\<close> does to a channel, and what \<open>Channelizer::retune_channel\<close> does.\<close>

definition vc_follow :: "('f, 'k, 'c) flops \<Rightarrow> nat \<Rightarrow> nat \<Rightarrow> ('f, 'k, 'c) virtual_channel \<Rightarrow> ('f, 'k, 'c) virtual_channel" where
  "vc_follow F wideband_center wideband_rate ch =
     ch\<lparr>vc_nco := nco_new F (tune_offset F (vc_center_freq_hz ch) wideband_center) (f_nat F wideband_rate),
        last_input := None, pending_discontinuity := True\<rparr>"

definition vc_tune ::
    "('f, 'k, 'c) flops \<Rightarrow> nat \<Rightarrow> nat \<Rightarrow> nat \<Rightarrow> nat \<Rightarrow> ('f, 'k, 'c) virtual_channel \<Rightarrow> ('f, 'k, 'c) virtual_channel" where
  "vc_tune F wideband_center wideband_rate center decim ch =
     ch\<lparr>vc_center_freq_hz := center, output_rate_hz := wideband_rate div decim,
        vc_nco := nco_new F (tune_offset F center wideband_center) (f_nat F wideband_rate),
        decimator := fir_decimator_new F decim, last_input := None, pending_discontinuity := True\<rparr>"

section \<open>The registry\<close>

datatype channelizer_error =
  ZeroOutputRate | OutsideSpan nat | UnknownVirtual nat | ZeroWidebandRate | VirtualActive

record ('f, 'k, 'c) channelizer =
  wideband_center_hz :: nat
  wideband_rate_hz :: nat
  taps :: "('f, 'k, 'c) virtual_channel list"
  next_tap_id :: nat

definition channelizer_new :: "nat \<Rightarrow> nat \<Rightarrow> ('f, 'k, 'c) channelizer" where
  "channelizer_new center rate = \<lparr>wideband_center_hz = center, wideband_rate_hz = rate, taps = [], next_tap_id = 0\<rparr>"

definition outside_span :: "('f, 'k, 'c) flops \<Rightarrow> ('f, 'k, 'c) channelizer \<Rightarrow> nat \<Rightarrow> bool" where
  "outside_span F cz center \<longleftrightarrow>
     f_less F (f_div F (f_nat F (wideband_rate_hz cz)) (f_const F 2))
       (f_abs F (tune_offset F center (wideband_center_hz cz)))"

definition tap_decimation :: "('f, 'k, 'c) channelizer \<Rightarrow> nat \<Rightarrow> nat" where
  "tap_decimation cz min_rate = max (wideband_rate_hz cz div min_rate) 1"

definition add_tap ::
    "('f, 'k, 'c) flops \<Rightarrow> nat \<Rightarrow> nat \<Rightarrow> ('f, 'k, 'c) channelizer \<Rightarrow> nat \<Rightarrow>
     ('f, 'k, 'c) channelizer \<times> nat \<times> (channelizer_error + nat)" where
  "add_tap F center min_rate cz ep =
     (if min_rate = 0 then (cz, ep, Inl ZeroOutputRate)
      else if outside_span F cz center then (cz, ep, Inl (OutsideSpan center))
      else
        let i = next_tap_id cz;
            (ch, ep) = virtual_channel_new F ep i (wideband_center_hz cz) (wideband_rate_hz cz) center (tap_decimation cz min_rate)
        in (cz\<lparr>next_tap_id := i + 1, taps := taps cz @ [ch]\<rparr>, ep, Inr i))"

definition remove_tap :: "nat \<Rightarrow> ('f, 'k, 'c) channelizer \<Rightarrow> ('f, 'k, 'c) channelizer" where
  "remove_tap i cz = cz\<lparr>taps := filter (\<lambda>c. vc_id c \<noteq> i) (taps cz)\<rparr>"

definition find_tap :: "nat \<Rightarrow> ('f, 'k, 'c) channelizer \<Rightarrow> ('f, 'k, 'c) virtual_channel option" where
  "find_tap i cz = find (\<lambda>c. vc_id c = i) (taps cz)"

text \<open>\<open>iter_mut().find(..)\<close>: the first match is changed.\<close>

fun update_first :: "('a \<Rightarrow> bool) \<Rightarrow> ('a \<Rightarrow> 'a) \<Rightarrow> 'a list \<Rightarrow> 'a list" where
  "update_first P f [] = []"
| "update_first P f (x # xs) = (if P x then f x # xs else x # update_first P f xs)"

definition retune_tap ::
    "('f, 'k, 'c) flops \<Rightarrow> nat \<Rightarrow> nat \<Rightarrow> nat \<Rightarrow> ('f, 'k, 'c) channelizer \<Rightarrow> channelizer_error + ('f, 'k, 'c) channelizer" where
  "retune_tap F i center min_rate cz =
     (if min_rate = 0 then Inl ZeroOutputRate
      else if outside_span F cz center then Inl (OutsideSpan center)
      else if find_tap i cz = None then Inl (UnknownVirtual i)
      else Inr (cz\<lparr>taps := update_first (\<lambda>c. vc_id c = i)
             (vc_tune F (wideband_center_hz cz) (wideband_rate_hz cz) center (tap_decimation cz min_rate)) (taps cz)\<rparr>))"

definition set_wideband_rate :: "nat \<Rightarrow> ('f, 'k, 'c) channelizer \<Rightarrow> channelizer_error + ('f, 'k, 'c) channelizer" where
  "set_wideband_rate hz cz =
     (if hz = 0 then Inl ZeroWidebandRate
      else if taps cz \<noteq> [] then Inl VirtualActive
      else Inr (cz\<lparr>wideband_rate_hz := hz\<rparr>))"

definition channel_output_rate_hz :: "('f, 'k, 'c) channelizer \<Rightarrow> nat \<Rightarrow> nat option" where
  "channel_output_rate_hz cz i = map_option output_rate_hz (find_tap i cz)"

definition channel_center_hz :: "('f, 'k, 'c) channelizer \<Rightarrow> nat \<Rightarrow> nat option" where
  "channel_center_hz cz i = map_option vc_center_freq_hz (find_tap i cz)"

definition retune_wideband :: "('f, 'k, 'c) flops \<Rightarrow> nat \<Rightarrow> ('f, 'k, 'c) channelizer \<Rightarrow> ('f, 'k, 'c) channelizer" where
  "retune_wideband F center cz =
     cz\<lparr>wideband_center_hz := center, taps := map (vc_follow F center (wideband_rate_hz cz)) (taps cz)\<rparr>"

text \<open>One wideband block through every channel; the result pairs the tap with the block it publishes.\<close>

fun tick_taps ::
    "('f, 'k, 'c) flops \<Rightarrow> 'c sample_block \<Rightarrow> ('f, 'k, 'c) virtual_channel list \<Rightarrow> nat \<Rightarrow>
     ('f, 'k, 'c) virtual_channel list \<times> nat \<times> (nat \<times> 'c sample_block) list" where
  "tick_taps F b [] ep = ([], ep, [])"
| "tick_taps F b (ch # chs) ep =
     (let (ch', ep, out) = vc_process F b ch ep;
          (chs', ep, outs) = tick_taps F b chs ep
      in (ch' # chs', ep, (case out of None \<Rightarrow> outs | Some o' \<Rightarrow> (vc_id ch, o') # outs)))"

definition channelizer_tick ::
    "('f, 'k, 'c) flops \<Rightarrow> 'c sample_block \<Rightarrow> ('f, 'k, 'c) channelizer \<Rightarrow> nat \<Rightarrow>
     ('f, 'k, 'c) channelizer \<times> nat \<times> (nat \<times> 'c sample_block) list" where
  "channelizer_tick F b cz ep =
     (let (chs, ep, outs) = tick_taps F b (taps cz) ep in (cz\<lparr>taps := chs\<rparr>, ep, outs))"

section \<open>The decimator does not see calls\<close>

definition decimator_ok :: "('k, 'c) fir_decimator \<Rightarrow> bool" where
  "decimator_ok d \<longleftrightarrow> 0 < decimation d \<and> skip d < decimation d \<and> (final_filter d = None \<longrightarrow> decimation d = 1)"

lemma decimate_step_fields:
  "decimate_step F d p n nxt s = (d', p', nxt', out) \<Longrightarrow>
     decimation d' = decimation d \<and> skip d' = skip d \<and> stage_factor d' = stage_factor d \<and>
     (if n = nxt then nxt' = nxt + decimation d \<and> length out = 1 else nxt' = nxt \<and> out = [])"
  by (auto simp: decimate_step_def Let_def split: prod.splits if_splits)

lemma decimate_loop_fields:
  "decimate_loop F d p n nxt xs = (d', p', nxt', out) \<Longrightarrow> n \<le> nxt \<Longrightarrow> 0 < decimation d \<Longrightarrow>
     decimation d' = decimation d \<and> stage_factor d' = stage_factor d \<and> nxt' = nxt + decimation d * length out \<and>
     n + length xs \<le> nxt' \<and> (out \<noteq> [] \<longrightarrow> nxt' < n + length xs + decimation d)"
proof (induction xs arbitrary: d p n nxt d' p' nxt' out)
  case (Cons s xs)
  obtain d1 p1 nxt1 out1 where s1: "decimate_step F d p n nxt s = (d1, p1, nxt1, out1)"
    by (metis prod_cases4)
  obtain d2 p2 nxt2 out2 where s2: "decimate_loop F d1 p1 (n + 1) nxt1 xs = (d2, p2, nxt2, out2)"
    by (metis prod_cases4)
  note f = decimate_step_fields [OF s1]
  have "n + 1 \<le> nxt1" "0 < decimation d1" using f Cons.prems by (auto split: if_splits)
  note ih = Cons.IH [OF s2 this]
  have r: "d' = d2" "p' = p2" "nxt' = nxt2" "out = out1 @ out2" using Cons.prems(1) s1 s2 by auto
  show ?case
    using ih f Cons.prems(3) unfolding r by (cases "out2 = []") (auto split: if_splits simp: algebra_simps)
qed simp

lemma decimate_loop_shift:
  "decimate_loop F d p (n + k) (nxt + k) xs =
     (let (d', p', nxt', out) = decimate_loop F d p n nxt xs in (d', p', nxt' + k, out))"
proof (induction xs arbitrary: d p n nxt)
  case (Cons s xs)
  have step: "decimate_step F d p (n + k) (nxt + k) s =
      (let (d', p', nxt', out) = decimate_step F d p n nxt s in (d', p', nxt' + k, out))"
    by (auto simp: decimate_step_def Let_def split: prod.splits)
  show ?case using Cons.IH [where n = "n + 1"] by (simp add: step split: prod.splits) 
qed simp

lemma decimate_loop_append:
  "decimate_loop F d p n nxt (xs @ ys) =
     (let (d, p, nxt, out) = decimate_loop F d p n nxt xs;
          (d, p, nxt, rest) = decimate_loop F d p (n + length xs) nxt ys
      in (d, p, nxt, out @ rest))"
  by (induction xs arbitrary: d p n nxt) (simp_all split: prod.splits)

lemma decimate_loop_frame:
  "decimate_loop F (d\<lparr>final_filter := f, skip := k\<rparr>) p n nxt xs =
     (let (d', p', nxt', out) = decimate_loop F d p n nxt xs in (d'\<lparr>final_filter := f, skip := k\<rparr>, p', nxt', out))"
proof (induction xs arbitrary: d p n nxt)
  case (Cons s xs)
  have step: "decimate_step F (d\<lparr>final_filter := f, skip := k\<rparr>) p n nxt s =
      (let (d', p', nxt', out) = decimate_step F d p n nxt s in (d'\<lparr>final_filter := f, skip := k\<rparr>, p', nxt', out))"
    by (cases d) (auto simp: decimate_step_def Let_def split: prod.splits)
  show ?case using Cons.IH by (simp add: step split: prod.splits)
qed simp

lemma decimator_process_ok:
  assumes "decimator_ok d" "decimator_process F d xs = (d', out)"
  shows "decimator_ok d' \<and> decimation d' = decimation d \<and>
    skip d + decimation d * length out = length xs + skip d'"
proof (cases "final_filter d")
  case None
  then show ?thesis using assms by (auto simp: decimator_process_def decimator_ok_def)
next
  case (Some p)
  obtain d1 p1 nxt1 where l: "decimate_loop F d p 0 (skip d) xs = (d1, p1, nxt1, out)"
    and d': "d' = d1\<lparr>final_filter := Some p1, skip := nxt1 - length xs\<rparr>"
    using assms(2) Some by (auto simp: decimator_process_def split: prod.splits)
  have "0 < decimation d" "skip d < decimation d" using assms(1) by (simp_all add: decimator_ok_def)
  with decimate_loop_fields [OF l] show ?thesis by (cases "out = []") (auto simp: decimator_ok_def d')
qed

lemma decimator_process_join:
  assumes "decimator_ok d"
  shows "decimator_process F d (xs @ ys) =
    (fst (decimator_process F (fst (decimator_process F d xs)) ys),
     snd (decimator_process F d xs) @ snd (decimator_process F (fst (decimator_process F d xs)) ys))"
proof (cases "final_filter d")
  case None
  then show ?thesis by (simp add: decimator_process_def)
next
  case (Some p)
  obtain d1 p1 nxt1 out1 where l1: "decimate_loop F d p 0 (skip d) xs = (d1, p1, nxt1, out1)" by (metis prod_cases4)
  obtain d2 p2 nxt2 out2 where l2: "decimate_loop F d1 p1 (length xs) nxt1 ys = (d2, p2, nxt2, out2)" by (metis prod_cases4)
  have "length xs \<le> nxt1" using decimate_loop_fields [OF l1] assms by (simp add: decimator_ok_def)
  then have "decimate_loop F d1 p1 (0 + length xs) ((nxt1 - length xs) + length xs) ys = (d2, p2, nxt2, out2)" using l2 by simp
  then obtain nxt3 where l3: "decimate_loop F d1 p1 0 (nxt1 - length xs) ys = (d2, p2, nxt3, out2)" "nxt2 = nxt3 + length xs"
    unfolding decimate_loop_shift by (auto split: prod.splits)
  have "decimator_process F d (xs @ ys) = (d2\<lparr>final_filter := Some p2, skip := nxt3 - length ys\<rparr>, out1 @ out2)"
    using Some l1 l2 l3(2) by (simp add: decimator_process_def decimate_loop_append)
  moreover have "decimator_process F d xs = (d1\<lparr>final_filter := Some p1, skip := nxt1 - length xs\<rparr>, out1)"
    using Some l1 by (simp add: decimator_process_def)
  moreover have "decimator_process F (d1\<lparr>final_filter := Some p1, skip := nxt1 - length xs\<rparr>) ys =
      (d2\<lparr>final_filter := Some p2, skip := nxt3 - length ys\<rparr>, out2)"
    using l3(1) by (simp add: decimator_process_def decimate_loop_frame)
  ultimately show ?thesis by simp
qed

interpretation fir_decimator: chunked "decimator_process F" decimator_ok
proof unfold_locales
  fix d :: "('b, 'c) fir_decimator" and xs ys :: "'c list"
  assume ok: "decimator_ok d"
  show "decimator_ok (fst (decimator_process F d xs))"
    using decimator_process_ok [OF ok, of F xs] by (metis fst_conv prod.exhaust_sel)
  show "decimator_process F d [] = (d, [])"
    by (cases "final_filter d") (simp_all add: decimator_process_def)
  show "decimator_process F d (xs @ ys) =
    (fst (decimator_process F (fst (decimator_process F d xs)) ys),
     snd (decimator_process F d xs) @ snd (decimator_process F (fst (decimator_process F d xs)) ys))"
    by (rule decimator_process_join [OF ok])
qed

lemma decimator_new_ok [inv_intros]: "0 < d \<Longrightarrow> decimator_ok (fir_decimator_new F d)"
  by (simp add: fir_decimator_new_def decimator_ok_def Let_def)

lemma decimation_new [simp]: "decimation (fir_decimator_new F d) = d"
  by (simp add: fir_decimator_new_def Let_def)

lemma decimator_reset_ok [inv_intros]:
  "decimator_ok d \<Longrightarrow> k < decimation d \<Longrightarrow> decimator_ok (decimator_reset F k d)"
  by (auto simp: decimator_reset_def decimator_ok_def)

lemma decimator_reset_fields [simp]:
  "decimation (decimator_reset F k d) = decimation d" "skip (decimator_reset F k d) = k"
  by (simp_all add: decimator_reset_def)

lemma length_nco_mix [simp]: "nco_mix F n xs = (n', ys) \<Longrightarrow> length ys = length xs"
  by (induction xs arbitrary: n n' ys) (auto split: prod.splits)

text \<open>The distance to the next multiple of \<open>d\<close>.\<close>

lemma next_multiple:
  fixes d s :: nat
  assumes "0 < d"
  shows "d dvd s + (d - s mod d) mod d" "(d - s mod d) mod d < d"
proof -
  have eq: "s + (d - s mod d) mod d = d * (s div d) + (s mod d + (d - s mod d) mod d)"
    using mult_div_mod_eq [of d s] by linarith
  have dv: "d dvd s mod d + (d - s mod d) mod d"
    using mod_less_divisor [OF assms, of s] by (cases "s mod d = 0") (simp_all add: mod_less)
  show "d dvd s + (d - s mod d) mod d" by (subst eq) (intro dvd_add dvd_triv_left dv)
  show "(d - s mod d) mod d < d" using assms by simp
qed

section \<open>Output blocks of a channel\<close>

text \<open>Blocks whose positions and clocks stay below \<open>2 ^ 64\<close>.\<close>

definition block_fits :: "'c sample_block \<Rightarrow> bool" where
  "block_fits b \<longleftrightarrow> start_sample b + length (samples b) < 2 ^ 64 \<and>
     source_sample_index (block_clock b) + length (samples b) * sample_stride (block_clock b) < 2 ^ 64"

text \<open>Where the output stream stands when its input has reached \<open>e\<close>: the next output is \<open>skip\<close> samples
  ahead.\<close>

definition expects_output :: "('f, 'k, 'c) virtual_channel \<Rightarrow> input_end \<Rightarrow> continuity \<Rightarrow> bool" where
  "expects_output ch e consumer \<longleftrightarrow>
     (let d = decimation (decimator ch); k = skip (decimator ch); c = ie_clock e; i = source_sample_index c + k * sample_stride c
      in i < 2 ^ 64 \<longrightarrow> (ie_sample e + k) div d < 2 ^ 64 \<longrightarrow>
         (\<exists>c'. consumer = Some ((ie_sample e + k) div d, c', ie_rate_hz e div d, vc_center_freq_hz ch) \<and>
            epoch c' = output_epoch ch \<and> source_sample_index c' = i \<and>
            source_sample_rate_hz c' = source_sample_rate_hz c \<and> sample_stride c' = sample_stride c * d \<and>
            origin_unix_ns c' = origin_unix_ns c))"

text \<open>A channel, the next epoch of the process, and the state and last epoch of a consumer of its output.\<close>

record ('f, 'k, 'c) watched =
  w_channel :: "('f, 'k, 'c) virtual_channel"
  w_epoch :: nat
  w_consumer :: continuity
  w_shown :: nat

definition watched_ok :: "('f, 'k, 'c) watched \<Rightarrow> bool" where
  "watched_ok w \<longleftrightarrow>
     (let ch = w_channel w; d = decimation (decimator ch) in
      decimator_ok (decimator ch) \<and> output_epoch ch < w_epoch w \<and> w_shown w < w_epoch w \<and>
      (case last_input ch of None \<Rightarrow> pending_discontinuity ch
       | Some e \<Rightarrow>
           d dvd ie_sample e + skip (decimator ch) \<and>
           (if pending_discontinuity ch then w_shown w < output_epoch ch
            else output_epoch ch = w_shown w \<and> sample_stride (ie_clock e) * d < 2 ^ 32 \<and> expects_output ch e (w_consumer w))))"

definition follows_input :: "('f, 'k, 'c) virtual_channel \<Rightarrow> 'c sample_block \<Rightarrow> nat \<Rightarrow> ('f, 'k, 'c) virtual_channel \<Rightarrow> 'c list \<Rightarrow> bool" where
  "follows_input ch b k ch' out \<longleftrightarrow>
     (let d = decimation (decimator ch) in
      decimator_ok (decimator ch') \<and> decimation (decimator ch') = d \<and> vc_center_freq_hz ch' = vc_center_freq_hz ch \<and>
      d dvd start_sample b + k \<and> k < d \<and> k + d * length out = length (samples b) + skip (decimator ch') \<and>
      last_input ch' = Some (input_end_of b ((block_clock b)\<lparr>source_sample_index :=
        source_sample_index (block_clock b) + length (samples b) * sample_stride (block_clock b)\<rparr>)))"

lemma vc_restart_fields:
  assumes "vc_restart F b ch ep = (ch1, ep1)" "decimator_ok (decimator ch)"
  shows "decimator_ok (decimator ch1) \<and> decimation (decimator ch1) = decimation (decimator ch) \<and>
    vc_center_freq_hz ch1 = vc_center_freq_hz ch \<and> output_epoch ch1 = ep \<and> ep1 = ep + 1 \<and> pending_discontinuity ch1 \<and>
    decimation (decimator ch) dvd start_sample b + skip (decimator ch1)"
proof -
  have d: "0 < decimation (decimator ch)" using assms(2) by (simp add: decimator_ok_def)
  show ?thesis
    using assms next_multiple [OF d, of "start_sample b"]
    by (auto simp: vc_restart_def Let_def new_capture_epoch_def intro: decimator_reset_ok)
qed

text \<open>Publishing the output of a call.\<close>

lemma offset_samples_if:
  "offset_samples c n = (if source_sample_index c + n * sample_stride c < 2 ^ 64
     then Some (c\<lparr>source_sample_index := source_sample_index c + n * sample_stride c\<rparr>) else None)"
  by (auto simp: offset_samples_def chk_u64_def)

lemma vc_publish_None:
  "vc_publish b k out ch = None \<longleftrightarrow>
     \<not> source_sample_index (block_clock b) + k * sample_stride (block_clock b) < 2 ^ 64 \<or>
     \<not> sample_stride (block_clock b) * decimation (decimator ch) < 2 ^ 32"
  by (simp add: vc_publish_def Let_def offset_samples_if chk_u32_def)

lemma vc_publish_Some:
  assumes "vc_publish b k out ch = Some (ch', o')"
  shows "ch' = ch\<lparr>pending_discontinuity := False, output_rate_hz := sample_rate_hz b div decimation (decimator ch)\<rparr> \<and>
    block_clock o' = (block_clock b)\<lparr>source_sample_index := source_sample_index (block_clock b) + k * sample_stride (block_clock b),
      epoch := output_epoch ch, sample_stride := sample_stride (block_clock b) * decimation (decimator ch),
      discontinuous := pending_discontinuity ch\<rparr> \<and>
    start_sample o' = (start_sample b + k) div decimation (decimator ch) \<and>
    sample_rate_hz o' = sample_rate_hz b div decimation (decimator ch) \<and>
    center_freq_hz o' = vc_center_freq_hz ch \<and> samples o' = out \<and>
    sample_stride (block_clock b) * decimation (decimator ch) < 2 ^ 32"
  using assms
  by (auto simp: vc_publish_def Let_def offset_samples_if chk_u32_def block_clock_def split: if_splits)

text \<open>The state after the check for a gap: either a new epoch has begun that no consumer has seen, or the
  output goes on.\<close>

definition goes_on :: "('f, 'k, 'c) watched \<Rightarrow> 'c sample_block \<Rightarrow> ('f, 'k, 'c) virtual_channel \<Rightarrow> bool" where
  "goes_on w b ch \<longleftrightarrow> \<not> pending_discontinuity ch \<and> output_epoch ch = w_shown w \<and>
     sample_stride (block_clock b) * decimation (decimator ch) < 2 ^ 32 \<and>
     (\<exists>e. ie_sample e = start_sample b \<and> ie_rate_hz e = sample_rate_hz b \<and> same_clock (ie_clock e) (block_clock b) \<and>
       expects_output ch e (w_consumer w))"

lemma gap_checked:
  assumes "watched_ok w"
    and "(if continues_input (w_channel w) b then (w_channel w, w_epoch w) else vc_restart F b (w_channel w) (w_epoch w)) = (ch, ep)"
  shows "decimator_ok (decimator ch) \<and> decimation (decimator ch) = decimation (decimator (w_channel w)) \<and>
    decimation (decimator ch) dvd start_sample b + skip (decimator ch) \<and> output_epoch ch < ep \<and> w_shown w < ep \<and>
    (pending_discontinuity ch \<and> w_shown w < output_epoch ch \<or> goes_on w b ch) \<and>
    (\<not> continues_input (w_channel w) b \<longrightarrow> pending_discontinuity ch)"
proof (cases "continues_input (w_channel w) b")
  case True
  then obtain e where "last_input (w_channel w) = Some e" "ie_sample e = start_sample b" "ie_rate_hz e = sample_rate_hz b"
      "same_clock (ie_clock e) (block_clock b)"
    by (auto simp: continues_input_def split: option.splits)
  then show ?thesis
    using assms True by (auto simp: watched_ok_def Let_def goes_on_def same_clock_def split: if_splits)
next
  case False
  then show ?thesis
    using assms(1) vc_restart_fields [of F b "w_channel w" "w_epoch w" ch ep] assms(2)
    by (auto simp: watched_ok_def Let_def)
qed

lemma mult_add_div: "0 < d \<Longrightarrow> d dvd p \<Longrightarrow> (p + d * n) div d = p div d + n" for p d n :: nat
  by (auto elim!: dvdE)

text \<open>What a consumer expects after an output block is where the next output will be.\<close>

lemma expects_after_output:
  assumes "0 < d" "d dvd start_sample b + k" "k + d * length out = length (samples b) + k'"
    and "0 < source_sample_rate_hz (block_clock b)" "0 < sample_stride (block_clock b)"
    and o: "block_clock o' = (block_clock b)\<lparr>source_sample_index := source_sample_index (block_clock b) + k * sample_stride (block_clock b),
        epoch := ep, sample_stride := sample_stride (block_clock b) * d, discontinuous := pd\<rparr>"
      "start_sample o' = (start_sample b + k) div d" "sample_rate_hz o' = sample_rate_hz b div d"
      "center_freq_hz o' = vc_center_freq_hz ch" "samples o' = out"
    and ch: "decimation (decimator ch) = d" "skip (decimator ch) = k'" "output_epoch ch = ep"
  shows "expects_output ch (input_end_of b ((block_clock b)\<lparr>source_sample_index :=
    source_sample_index (block_clock b) + length (samples b) * sample_stride (block_clock b)\<rparr>)) (next_position o')"
proof -
  let ?c = "block_clock b" and ?len = "length (samples b)"
  have pos: "start_sample b + ?len + k' = start_sample b + k + d * length out" using assms(3) by linarith
  then have start: "(start_sample b + ?len + k') div d = start_sample o' + length out"
    using mult_add_div [OF assms(1,2)] by (simp only: pos o(2))
  have "(?len + k') * sample_stride ?c = (k + d * length out) * sample_stride ?c" using assms(3) by simp
  then have index: "source_sample_index ?c + ?len * sample_stride ?c + k' * sample_stride ?c =
      source_sample_index ?c + k * sample_stride ?c + length out * (sample_stride ?c * d)"
    by (simp add: algebra_simps)
  show ?thesis
    unfolding expects_output_def Let_def input_end_of_def using assms(1,4,5) start index
    by (simp add: ch o next_position_def chk_u64_def offset_samples_if)
qed

lemma expects_without_output:
  assumes "expects_output ch e consumer" "ie_sample e = start_sample b" "ie_rate_hz e = sample_rate_hz b"
    and "same_clock (ie_clock e) (block_clock b)" "skip (decimator ch) = length (samples b) + k'"
    and ch: "decimation (decimator ch') = decimation (decimator ch)" "skip (decimator ch') = k'"
      "output_epoch ch' = output_epoch ch" "vc_center_freq_hz ch' = vc_center_freq_hz ch"
  shows "expects_output ch' (input_end_of b ((block_clock b)\<lparr>source_sample_index :=
    source_sample_index (block_clock b) + length (samples b) * sample_stride (block_clock b)\<rparr>)) consumer"
  using assms(1-4)
  by (auto simp: expects_output_def Let_def input_end_of_def same_clock_def assms(5) ch algebra_simps)

text \<open>An output block that goes on is what the consumer expects.\<close>

lemma output_expected:
  assumes "goes_on w b ch" "block_fits b" "skip (decimator ch) < length (samples b)"
    and o: "block_clock o' = (block_clock b)\<lparr>source_sample_index := source_sample_index (block_clock b) +
          skip (decimator ch) * sample_stride (block_clock b),
        epoch := output_epoch ch, sample_stride := sample_stride (block_clock b) * decimation (decimator ch), discontinuous := False\<rparr>"
      "start_sample o' = (start_sample b + skip (decimator ch)) div decimation (decimator ch)"
      "sample_rate_hz o' = sample_rate_hz b div decimation (decimator ch)" "center_freq_hz o' = vc_center_freq_hz ch"
  shows "snd (continuity_observe (w_consumer w) o')"
proof -
  let ?k = "skip (decimator ch)" and ?d = "decimation (decimator ch)" and ?c = "block_clock b"
  obtain e where e: "ie_sample e = start_sample b" "ie_rate_hz e = sample_rate_hz b" "same_clock (ie_clock e) ?c"
      "expects_output ch e (w_consumer w)"
    using assms(1) by (auto simp: goes_on_def)
  have "?k * sample_stride ?c \<le> length (samples b) * sample_stride ?c" using assms(3) by (intro mult_le_mono1) simp
  then have "source_sample_index ?c + ?k * sample_stride ?c < 2 ^ 64" using assms(2) unfolding block_fits_def by linarith
  moreover have "(start_sample b + ?k) div ?d < 2 ^ 64"
    using div_le_dividend [of "start_sample b + ?k" ?d] assms(2,3) unfolding block_fits_def by linarith
  ultimately show ?thesis
    using e by (auto simp: expects_output_def Let_def same_clock_def continuity_observe_def o)
qed

text \<open>What an output block promises: its gap mark is the truth and set after every gap of the input, its epoch is fresh after a gap, and its
  samples are exactly those of the input whose position is a multiple of the decimation.\<close>

definition honest_output :: "('f, 'k, 'c) watched \<Rightarrow> 'c sample_block \<Rightarrow> 'c sample_block \<Rightarrow> bool" where
  "honest_output w b o' \<longleftrightarrow>
     (let d = decimation (decimator (w_channel w)) in
      snd (continuity_observe (w_consumer w) o') = (\<not> discontinuous (block_clock o')) \<and>
      (\<not> continues_input (w_channel w) b \<longrightarrow> discontinuous (block_clock o')) \<and>
      (if discontinuous (block_clock o') then w_shown w < epoch (block_clock o') else epoch (block_clock o') = w_shown w) \<and>
      start_sample b \<le> start_sample o' * d \<and> start_sample o' * d < start_sample b + d \<and>
      start_sample b + length (samples b) \<le> (start_sample o' + length (samples o')) * d \<and>
      (start_sample o' + length (samples o')) * d < start_sample b + length (samples b) + d \<and>
      source_sample_index (block_clock o') =
        source_sample_index (block_clock b) + (start_sample o' * d - start_sample b) * sample_stride (block_clock b))"

definition after_call ::
    "('f, 'k, 'c) virtual_channel \<times> nat \<times> 'c sample_block option \<Rightarrow> ('f, 'k, 'c) watched \<Rightarrow> ('f, 'k, 'c) watched" where
  "after_call r w =
     (case r of
        (ch, ep, None) \<Rightarrow> w\<lparr>w_channel := ch, w_epoch := ep\<rparr>
      | (ch, ep, Some o') \<Rightarrow> w\<lparr>w_channel := ch, w_epoch := ep, w_consumer := fst (continuity_observe (w_consumer w) o'),
          w_shown := epoch (block_clock o')\<rparr>)"

lemma output_grid:
  fixes d s k n len k' :: nat
  assumes "0 < d" "d dvd s + k" "k < d" "k + d * n = len + k'" "k' < d"
  shows "s \<le> (s + k) div d * d" "(s + k) div d * d < s + d" "(s + k) div d * d - s = k"
    "s + len \<le> ((s + k) div d + n) * d" "((s + k) div d + n) * d < s + len + d"
proof -
  have e: "(s + k) div d * d = s + k" using assms(2) by simp
  have "((s + k) div d + n) * d = s + k + d * n" unfolding add_mult_distrib e by (simp add: mult.commute)
  then have e2: "((s + k) div d + n) * d = s + len + k'" using assms(4) by linarith
  show "s \<le> (s + k) div d * d" "(s + k) div d * d < s + d" "(s + k) div d * d - s = k"
    "s + len \<le> ((s + k) div d + n) * d" "((s + k) div d + n) * d < s + len + d"
    unfolding e e2 using assms(3,5) by simp_all
qed

lemma vc_process_watched:
  assumes "watched_ok w" "block_fits b" "vc_process F b (w_channel w) (w_epoch w) = (ch', ep', out)"
  shows "watched_ok (after_call (ch', ep', out) w) \<and> (\<forall>o'. out = Some o' \<longrightarrow> honest_output w b o')"
proof (cases "source_sample_rate_hz (block_clock b) = 0 \<or> sample_stride (block_clock b) = 0 \<or> sample_rate_hz b = 0")
  case True
  then show ?thesis
    using assms(1,3) by (auto simp: vc_process_def watched_ok_def after_call_def Let_def split: prod.splits)
next
  case False
  obtain ch ep where c: "(if continues_input (w_channel w) b then (w_channel w, w_epoch w)
      else vc_restart F b (w_channel w) (w_epoch w)) = (ch, ep)" by force
  note gap = gap_checked [OF assms(1) c]
  obtain n mixed where m: "nco_mix F (vc_nco ch) (samples b) = (n, mixed)" by force
  obtain d' decimated where dp: "decimator_process F (decimator ch) mixed = (d', decimated)" by force
  have len: "length mixed = length (samples b)" using m by simp
  let ?d = "decimation (decimator ch)" and ?k = "skip (decimator ch)" and ?c = "block_clock b"
  note p = decimator_process_ok [OF conjunct1 [OF gap] dp, unfolded len]
  have d: "0 < ?d" "?k < ?d" "skip d' < ?d" using gap p by (simp_all add: decimator_ok_def)
  define e where "e = input_end_of b (?c\<lparr>source_sample_index := source_sample_index ?c + length (samples b) * sample_stride ?c\<rparr>)"
  define ch1 where "ch1 = ch\<lparr>vc_nco := n, decimator := d', last_input := Some e\<rparr>"
  have fits: "offset_samples ?c (length (samples b)) =
      Some (?c\<lparr>source_sample_index := source_sample_index ?c + length (samples b) * sample_stride ?c\<rparr>)"
    using assms(2) unfolding block_fits_def by (simp add: offset_samples_if)
  have call: "vc_process F b (w_channel w) (w_epoch w) =
      (if decimated = [] then (ch1, ep, None)
       else case vc_publish b ?k decimated ch1 of None \<Rightarrow> (ch1, ep, None) | Some (ch, o') \<Rightarrow> (ch, ep, Some o'))"
    unfolding ch1_def e_def using False c m dp fits by (simp add: vc_process_def Let_def)
  have e': "ie_sample e = start_sample b + length (samples b)" "ie_clock e = ?c\<lparr>source_sample_index :=
      source_sample_index ?c + length (samples b) * sample_stride ?c\<rparr>"
    by (simp_all add: e_def input_end_of_def)
  have dvd: "?d dvd ie_sample e + skip d'"
  proof -
    have "ie_sample e + skip d' = start_sample b + ?k + ?d * length decimated" using p e'(1) by linarith
    moreover have "?d dvd start_sample b + ?k + ?d * length decimated" using gap by (metis dvd_add dvd_triv_left)
    ultimately show ?thesis by (simp only:)
  qed
  have ok1: "watched_ok (w\<lparr>w_channel := ch1, w_epoch := ep\<rparr>)"
    if "decimated = [] \<or> pending_discontinuity ch"
  proof (cases "pending_discontinuity ch")
    case True
    then show ?thesis using gap p dvd by (auto simp: watched_ok_def Let_def ch1_def goes_on_def)
  next
    case False
    then have g: "goes_on w b ch" and nil: "decimated = []" using gap that by auto
    obtain e0 where "ie_sample e0 = start_sample b" "ie_rate_hz e0 = sample_rate_hz b" "same_clock (ie_clock e0) ?c"
        "expects_output ch e0 (w_consumer w)"
      using g by (auto simp: goes_on_def)
    then have "expects_output ch1 e (w_consumer w)"
      unfolding e_def using p nil by (intro expects_without_output) (simp_all add: ch1_def)
    then show ?thesis using gap p dvd False g by (auto simp: watched_ok_def Let_def ch1_def goes_on_def e')
  qed
  have stride: "sample_stride ?c * ?d < 2 ^ 32" if "\<not> pending_discontinuity ch"
    using gap that by (auto simp: goes_on_def)
  consider (none) "decimated = []" | (dropped) "decimated \<noteq> []" "vc_publish b ?k decimated ch1 = None"
    | (some) ch2 o' where "decimated \<noteq> []" "vc_publish b ?k decimated ch1 = Some (ch2, o')" by fastforce
  then show ?thesis
  proof cases
    case none
    then show ?thesis using ok1 call assms(3) by (simp add: after_call_def)
  next
    case dropped
    have "?k < length (samples b)" using p d dropped(1) by (cases decimated) auto
    then have "?k * sample_stride ?c \<le> length (samples b) * sample_stride ?c" by (intro mult_le_mono1) simp
    then have "source_sample_index ?c + ?k * sample_stride ?c < 2 ^ 64" using assms(2) unfolding block_fits_def by linarith
    then have "pending_discontinuity ch" using dropped(2) stride p by (auto simp: vc_publish_None ch1_def)
    then show ?thesis using ok1 call assms(3) dropped by (simp add: after_call_def)
  next
    case some
    note o' = vc_publish_Some [OF some(2)]
    have k: "?k < length (samples b)" using p d some(1) by (cases decimated) auto
    have ch1: "decimation d' = ?d" "output_epoch ch1 = output_epoch ch" "vc_center_freq_hz ch1 = vc_center_freq_hz ch"
        "pending_discontinuity ch1 = pending_discontinuity ch" "decimator ch1 = d'" "last_input ch1 = Some e"
      using p by (simp_all add: ch1_def)
    have seen: "snd (continuity_observe (w_consumer w) o') = (\<not> pending_discontinuity ch)"
    proof (cases "pending_discontinuity ch")
      case True
      then show ?thesis using o' by (simp add: continuity_observe_def ch1)
    next
      case False
      then have "goes_on w b ch" using gap by auto
      then show ?thesis using output_expected [OF _ assms(2) k, where o' = o'] o' False by (simp add: ch1)
    qed
    have honest: "honest_output w b o'"
      unfolding honest_output_def Let_def
      using seen o' gap output_grid [OF d(1) conjunct1 [OF conjunct2 [OF conjunct2 [OF gap]]] d(2) _ d(3), of "length decimated" "length (samples b)"] p
      by (auto simp: ch1 goes_on_def)
    have ch2: "ch2 = ch1\<lparr>pending_discontinuity := False, output_rate_hz := sample_rate_hz b div ?d\<rparr>" using o' ch1(1,5) by simp
    have "expects_output ch2 e (next_position o')"
      unfolding e_def
      by (rule expects_after_output [OF d(1) conjunct1 [OF conjunct2 [OF conjunct2 [OF gap]]], where k' = "skip d'" and
            out = decimated and ep = "output_epoch ch" and pd = "pending_discontinuity ch"])
        (use False gap p d o' in \<open>simp_all add: ch1 ch2\<close>)
    then have "watched_ok (after_call (ch2, ep, Some o') w)"
      using gap p dvd o' e' by (auto simp: watched_ok_def Let_def after_call_def ch2 ch1 continuity_observe_def)
    then show ?thesis using honest call assms(3) some by simp
  qed
qed

text \<open>A new channel, and what can happen to it: a wideband block arrives (and the consumer sees the output),
  the capture or the channel is retuned, or other parts of the process take epochs.\<close>

definition watched_start :: "('f, 'k, 'c) flops \<Rightarrow> ('f, 'k, 'c) watched \<Rightarrow> bool" where
  "watched_start F w \<longleftrightarrow> w_consumer w = None \<and> w_shown w = 0 \<and>
     (\<exists>ep i wc wr c d. 0 < ep \<and> 0 < d \<and> virtual_channel_new F ep i wc wr c d = (w_channel w, w_epoch w))"

inductive watched_step :: "('f, 'k, 'c) flops \<Rightarrow> ('f, 'k, 'c) watched \<Rightarrow> ('f, 'k, 'c) watched \<Rightarrow> bool" for F where
  block: "block_fits b \<Longrightarrow> watched_step F w (after_call (vc_process F b (w_channel w) (w_epoch w)) w)"
| follow: "watched_step F w (w\<lparr>w_channel := vc_follow F wc wr (w_channel w)\<rparr>)"
| tune: "0 < d \<Longrightarrow> watched_step F w (w\<lparr>w_channel := vc_tune F wc wr c d (w_channel w)\<rparr>)"
| epochs: "w_epoch w \<le> ep \<Longrightarrow> watched_step F w (w\<lparr>w_epoch := ep\<rparr>)"

lemma watched_start_ok: "watched_start F w \<Longrightarrow> watched_ok w"
  unfolding watched_start_def virtual_channel_new_def new_capture_epoch_def Let_def prod.case prod.inject
  by (elim conjE exE, drule sym, drule sym) (simp add: watched_ok_def Let_def decimator_new_ok)

lemma after_call_ok: "watched_ok w \<Longrightarrow> block_fits b \<Longrightarrow> watched_ok (after_call (vc_process F b (w_channel w) (w_epoch w)) w)"
  using vc_process_watched [of w b F] by (metis prod_cases3)

lemma retunes_ok:
  assumes "watched_ok w"
  shows "watched_ok (w\<lparr>w_channel := vc_follow F wc wr (w_channel w)\<rparr>)"
    and "0 < d \<Longrightarrow> watched_ok (w\<lparr>w_channel := vc_tune F wc wr c d (w_channel w)\<rparr>)"
    and "w_epoch w \<le> ep \<Longrightarrow> watched_ok (w\<lparr>w_epoch := ep\<rparr>)"
  using assms
  by (auto simp: watched_ok_def vc_follow_def vc_tune_def Let_def intro: decimator_new_ok split: option.splits if_splits)

lemma watched_step_ok: "watched_ok w \<Longrightarrow> watched_step F w w' \<Longrightarrow> watched_ok w'"
  by (erule watched_step.cases) (simp_all only: after_call_ok retunes_ok)

interpretation watched_channel: guarded_system "watched_start F" "watched_step F" watched_ok
  by unfold_locales (rule watched_start_ok, assumption, rule watched_step_ok)

section \<open>Properties\<close>

text \<open>C31: The thinning filter does not see how its input is cut into calls: any two partitions of a stream
  into calls give the same outputs and leave the same state, and the outputs are taken at the
  positions \<open>skip\<close>, \<open>skip + d\<close>, \<open>skip + 2 d\<close> and so on: after \<open>n\<close> inputs their number is exactly
  the number of such positions below \<open>n\<close>.\<close>

theorem decimator_chunk_invariant:
  assumes "decimator_ok d" "concat chunks = concat chunks'"
  shows "feed (decimator_process F) d chunks = feed (decimator_process F) d chunks' \<and>
    length (snd (feed (decimator_process F) d chunks)) =
      card {k. skip d + k * decimation d < length (concat chunks)}"
proof
  show "feed (decimator_process F) d chunks = feed (decimator_process F) d chunks'"
    by (rule fir_decimator.feed_partition [OF assms])
  let ?xs = "concat chunks"
  obtain d' out where p: "decimator_process F d ?xs = (d', out)" by force
  note ok = decimator_process_ok [OF assms(1) p]
  have d: "0 < decimation d" "skip d < decimation d" using assms(1) by (simp_all add: decimator_ok_def)
  have d': "skip d' < decimation d" using ok by (simp add: decimator_ok_def)
  have "skip d + k * decimation d < length ?xs \<longleftrightarrow> k < length out" for k
  proof
    assume "k < length out"
    then have "decimation d * (k + 1) \<le> decimation d * length out" by (intro mult_le_mono2) simp
    then show "skip d + k * decimation d < length ?xs" using ok d' by (simp add: algebra_simps)
  next
    assume l: "skip d + k * decimation d < length ?xs"
    show "k < length out"
    proof (rule ccontr)
      assume "\<not> k < length out"
      then have "decimation d * length out \<le> k * decimation d" by (simp only: mult.commute [of k] not_less mult_le_mono2)
      then show False using l ok by linarith
    qed
  qed
  then have "card {k. skip d + k * decimation d < length ?xs} = length out" by simp
  then show "length (snd (feed (decimator_process F) d chunks)) = card {k. skip d + k * decimation d < length ?xs}"
    using fir_decimator.feed_concat [OF assms(1), of F chunks] p by simp
qed

text \<open>Arithmetic for concrete examples, over the integers.\<close>

definition plain_ops :: "(int, int, int) flops" where
  "plain_ops = \<lparr>f_add = (+), f_sub = (-), f_mul = (*), f_div = (div), f_sin = id, f_cos = id, f_abs = abs,
     f_fract_euclid = (\<lambda>_. 0), f_less = (<), f_le = (\<le>), f_finite = (\<lambda>_. True), f_truncate = nat, f_const = floor, f_pi = 3, f_of_int = id, f_integer = Some,
     narrow = id, widen = id, k_add = (+), k_sub = (-), k_mul = (*), c_zero = 0, c_add = (+), c_scale = (*),
     c_rotate = (\<lambda>s p. s)\<rparr>"

theorem decimator_chunk_invariant_witness:
  "feed (decimator_process plain_ops) (fir_decimator_new plain_ops 3) [[5, 6], [], [7, 8, 9]] =
     feed (decimator_process plain_ops) (fir_decimator_new plain_ops 3) [[5, 6, 7, 8], [9 :: int]]"
proof -
  have "decimator_ok (fir_decimator_new plain_ops 3 :: (int, int) fir_decimator)" by (rule decimator_new_ok) simp
  from conjunct1 [OF decimator_chunk_invariant [OF this, of "[[5, 6], [], [7, 8, 9]]" "[[5, 6, 7, 8], [9]]" plain_ops]]
  show ?thesis by simp
qed

text \<open>C4: No gap is hidden downstream. Whatever blocks have arrived, with whatever gaps, and however the
  capture and the channel were retuned, the next output block carries exactly the samples whose input
  position is a multiple of the decimation, with the acquisition index of its first sample; it is
  marked as discontinuous exactly when a consumer that follows positions and clocks finds it does not
  continue the previous output, always so after a gap of the input; and a marked block begins an epoch
  that no earlier output had.\<close>

theorem channel_output_honest:
  assumes "reach (watched_start F) (watched_step F) w" "block_fits b"
    and "vc_process F b (w_channel w) (w_epoch w) = (ch', ep', Some o')"
  shows "honest_output w b o'"
  using vc_process_watched [OF watched_channel.reach_inv [OF assms(1)] assms(2,3)] by simp

definition example_block :: "int sample_block" where
  "example_block = \<lparr>product_session = 0, capture = None, observed_at = None, start_sample = 7, sample_rate_hz = 1000,
     center_freq_hz = 500, samples = [4, 5, 6]\<rparr>"

definition example_watched :: "(int, int, int) watched" where
  "example_watched = (let (ch, ep) = virtual_channel_new plain_ops 1 0 500 1000 600 1
     in \<lparr>w_channel = ch, w_epoch = ep, w_consumer = None, w_shown = 0\<rparr>)"

theorem channel_output_honest_witness:
  "\<exists>o'. snd (snd (vc_process plain_ops example_block (w_channel example_watched) (w_epoch example_watched))) = Some o' \<and>
     honest_output example_watched example_block o' \<and> samples o' = [4, 5, 6]"
proof -
  obtain ch' ep' o' where p: "vc_process plain_ops example_block (w_channel example_watched) (w_epoch example_watched) = (ch', ep', Some o')"
    and s: "samples o' = [4, 5, 6]"
    by (auto simp: vc_process_def Let_def example_block_def example_watched_def virtual_channel_new_def new_capture_epoch_def
        block_clock_def clock_new_def continues_input_def vc_restart_def plain_ops_def fir_decimator_new_def decimator_reset_def
        nco_seek_def nco_new_def nco_advance_def decimator_process_def vc_publish_def offset_samples_if chk_u32_def input_end_of_def)
  have "watched_start plain_ops example_watched"
    unfolding watched_start_def
    by (intro conjI exI [of _ 1] exI [of _ 0] exI [of _ 500] exI [of _ 1000] exI [of _ 600])
      (simp_all add: example_watched_def virtual_channel_new_def new_capture_epoch_def)
  then have "reach (watched_start plain_ops) (watched_step plain_ops) example_watched" by (rule reach.start)
  from channel_output_honest [OF this _ p] s p show ?thesis
    by (auto simp: block_fits_def example_block_def block_clock_def clock_new_def)
qed

end
