(* ===== verification/Daemon_State.thy ===== *)
theory Daemon_State
  imports Channelizer Messages "HOL-Library.AList"
begin

text \<open>
  The control plane of the daemon, \<^verbatim>\<open>ez-daemon/src/state.rs\<close>, with the registry of recordings of
  \<^verbatim>\<open>ez-daemon/src/recording.rs\<close>: the table of channels, their taps in the channelizer, geometry changes
  of the hardware that may outlive their deadline, and recordings. A hash map is an association list
  with distinct keys. What the ingestion thread answers (receipts, replies, the status it publishes) is
  an argument of the operations, the record \<open>hardware\<close>. Operations that change the geometry run under
  one lock in the source and are one step here, as are those under the lock of the recordings; the
  samples that flow meanwhile are steps of their own. Threads, broadcasts and files are left out.
\<close>

section \<open>Audio parameters\<close>

definition resolved_audio :: "('f, 'k, 'c) flops \<Rightarrow> channel_spec \<Rightarrow> audio_parameters" where
  "resolved_audio F spec =
     (case cs_audio spec of
        Some p \<Rightarrow> p
      | None \<Rightarrow>
          (let mode = (case cs_demod_mode spec of Some m \<Rightarrow> m | None \<Rightarrow> Raw);
               p = audio_parameters_for_mode mode;
               fraction = f_const F (if mode = Usb \<or> mode = Lsb then 44 / 100 else 8 / 10)
           in p\<lparr>rf_bandwidth_hz := min (rf_bandwidth_hz p)
                  (f_truncate F (f_mul F fraction (f_nat F (cs_channel_sample_rate_hz spec)))),
                output_sample_rate_hz := 0\<rparr>))"

definition MAX_TAPS :: nat where "MAX_TAPS = 32769"

definition rate_in_range :: "('f, 'k, 'c) flops \<Rightarrow> 'f \<Rightarrow> bool" where
  "rate_in_range F rate \<longleftrightarrow> f_finite F rate \<and> f_le F (f_const F 100) rate \<and> f_le F rate (f_const F 20000000)"

datatype audio_error = ChannelRate | OutputRate | SsbExtent | CwBandwidth | Passband | FilterStorage

text \<open>\<open>RfSelector::validate\<close> of \<^verbatim>\<open>audio_rf.rs\<close>; \<open>f_ceiling\<close> is the parameter for \<open>ceil() as usize\<close>.\<close>

definition rf_selector_validate ::
    "('f, 'k, 'c) flops \<Rightarrow> ('f \<Rightarrow> nat) \<Rightarrow> 'f \<Rightarrow> nat \<Rightarrow> audio_error + nat" where
  "rf_selector_validate F f_ceiling rate bandwidth =
     (if \<not> rate_in_range F rate \<or> bandwidth = 0 \<or> f_less F (f_mul F (f_const F (8 / 10)) rate) (f_nat F bandwidth)
      then Inl Passband
      else
        let n = f_ceiling (f_div F (f_mul F (f_const F 80) rate) (f_nat F bandwidth));
            filter_taps = (if even n then n + 1 else n)
        in if MAX_TAPS < filter_taps then Inl FilterStorage else Inr filter_taps)"

definition validate_parameters ::
    "('f, 'k, 'c) flops \<Rightarrow> ('f \<Rightarrow> nat) \<Rightarrow> demod_mode \<Rightarrow> audio_parameters \<Rightarrow> 'f \<Rightarrow> audio_error option" where
  "validate_parameters F f_ceiling mode p rate =
     (if \<not> rate_in_range F rate then Some ChannelRate
      else if output_sample_rate_hz p \<noteq> 0 \<and> \<not> (8000 \<le> output_sample_rate_hz p \<and> output_sample_rate_hz p \<le> 384000)
      then Some OutputRate
      else if mode = Lsb \<or> mode = Usb then
        (if rf_bandwidth_hz p = 0 \<or> f_less F (f_mul F (f_const F (44 / 100)) rate) (f_nat F (rf_bandwidth_hz p))
         then Some SsbExtent else None)
      else if mode = Cw then
        (if rf_bandwidth_hz p = 0 \<or> f_less F (f_mul F (f_const F (8 / 10)) rate) (f_nat F (rf_bandwidth_hz p))
         then Some CwBandwidth else None)
      else if mode \<noteq> Raw \<or> rf_bandwidth_hz p \<noteq> 0 then
        (case rf_selector_validate F f_ceiling rate (rf_bandwidth_hz p) of Inl e \<Rightarrow> Some e | Inr _ \<Rightarrow> None)
      else None)"

section \<open>The state\<close>

record telemetry =
  tl_rate_hz :: nat
  tl_profile :: meteor_profile
  tl_center_hz :: nat

datatype 'f pipeline =
    SpectrumPipe
  | AudioPipe demod_mode audio_parameters
  | PacketPipe "('f \<times> 'f) option"
  | TelemetryPipe telemetry

record 'f active_channel =
  ac_spec :: channel_spec
  ac_internal :: "nat option"
  ac_pipeline :: "'f pipeline"

datatype geometry_change = FrequencyChange nat | SampleRateChange nat

datatype recording_format = Cf32 | RawU8

record active_recording =
  re_alive :: bool
  re_error :: "string option"
  re_center_hz :: nat
  re_format :: recording_format

record ('f, 'k, 'c) daemon =
  cz :: "('f, 'k, 'c) channelizer"
  epochs :: nat
  pending_change :: "geometry_change option"
  channels :: "(channel_id \<times> 'f active_channel) list"
  next_client_channel :: nat
  recordings :: "(channel_id \<times> active_recording) list"
  receiver_position :: "('f \<times> 'f) option"

definition daemon_new :: "nat \<Rightarrow> nat \<Rightarrow> nat \<Rightarrow> ('f, 'k, 'c) daemon" where
  "daemon_new ep center rate =
     \<lparr>cz = channelizer_new center rate, epochs = ep, pending_change = None, channels = [],
      next_client_channel = unat CLIENT_CHANNEL_START, recordings = [], receiver_position = None\<rparr>"

datatype ingest_reply = Acknowledged | StillApplying nat | Refused

record hardware =
  receipt_outcome :: "nat \<Rightarrow> bool option"
  status_at_reconcile :: hardware_status
  status_at_prepare :: hardware_status
  hw_reply :: ingest_reply
  status_at_reply :: hardware_status

text \<open>\<open>receipt_outcome\<close> is the result of a pending command: unknown, applied, or rejected.\<close>

datatype daemon_error =
    GeometryPending | RateWithVirtualChannels | ZeroHardwareRate | Disconnected | GeometryFailed
  | CommandStillApplying | CommandRefused | ZeroRate | ActiveDecoders
  | ZeroBandwidth | AdsbRate | ZeroWideband | ExceedsWideband | AdsbClock | AudioInvalid audio_error | AudioUnsupported
  | ProfileRequired | ProfileBandwidth | ProfileSampling configuration_error | ProfileUnsupported | OutsideWideband
  | ChannelizerRefused channelizer_error | DifferentKind | ChannelLimit | UnknownChannel | WrongKind | IsRecording
  | NotRecording | AlreadyRecording | RecordingIo | RecordingFailed | NoLongerLive | NamespaceExhausted | BadPosition

type_synonym 'r outcome = "daemon_error + 'r"

section \<open>Client channels\<close>

definition channel_exists :: "channel_id \<Rightarrow> ('f, 'k, 'c) daemon \<Rightarrow> bool" where
  "channel_exists i s \<longleftrightarrow> map_of (channels s) i \<noteq> None"

definition client_channels_at :: "nat \<Rightarrow> client_channels" where
  "client_channels_at base = \<lparr>cc_spectrum = of_nat base, cc_audio = of_nat (base + 1), cc_adsb = of_nat (base + 2),
     cc_lrpt = of_nat (base + 3)\<rparr>"

function allocate_client_channels :: "('f, 'k, 'c) daemon \<Rightarrow> ('f, 'k, 'c) daemon \<times> client_channels outcome" where
  "allocate_client_channels s =
     (let base = next_client_channel s in
      if 2 ^ 32 \<le> base + 4 then (s, Inl NamespaceExhausted)
      else
        let s = s\<lparr>next_client_channel := base + 4\<rparr>; allocated = client_channels_at base
        in if \<forall>i \<in> set (client_channels_ids allocated). \<not> channel_exists i s then (s, Inr allocated)
           else allocate_client_channels s)"
  by auto
termination
  by (relation "measure (\<lambda>s. 2 ^ 32 - next_client_channel s)") (auto simp: Let_def)

declare allocate_client_channels.simps [simp del]

section \<open>Geometry\<close>

definition has_virtual_channels :: "('f, 'k, 'c) daemon \<Rightarrow> bool" where
  "has_virtual_channels s \<longleftrightarrow> (\<exists>a \<in> snd ` set (channels s). ac_internal a \<noteq> None)"

definition set_rate :: "nat \<Rightarrow> ('f, 'k, 'c) daemon \<Rightarrow> ('f, 'k, 'c) daemon \<times> unit outcome" where
  "set_rate hz s =
     (case set_wideband_rate hz (cz s) of
        Inl e \<Rightarrow> (s, Inl (ChannelizerRefused e))
      | Inr c \<Rightarrow> (s\<lparr>cz := c\<rparr>, Inr ()))"

definition reconcile_pending ::
    "('f, 'k, 'c) flops \<Rightarrow> hardware \<Rightarrow> ('f, 'k, 'c) daemon \<Rightarrow> ('f, 'k, 'c) daemon \<times> unit outcome" where
  "reconcile_pending F hw s =
     (case pending_change s of
        None \<Rightarrow> (s, Inr ())
      | Some pending \<Rightarrow>
          (case receipt_outcome hw (case pending of FrequencyChange r \<Rightarrow> r | SampleRateChange r \<Rightarrow> r) of
             None \<Rightarrow> (s, Inl GeometryPending)
           | Some applied \<Rightarrow>
               (let status = status_at_reconcile hw in
                if (case pending of SampleRateChange _ \<Rightarrow> has_virtual_channels s | _ \<Rightarrow> False)
                then (s, Inl RateWithVirtualChannels)
                else if hs_sample_rate_hz status = 0 then (s, Inl ZeroHardwareRate)
                else
                  let s = s\<lparr>pending_change := None\<rparr>;
                      (s, r) = (case pending of
                          FrequencyChange _ \<Rightarrow> (s\<lparr>cz := retune_wideband F (hs_frequency_hz status) (cz s)\<rparr>, Inr ())
                        | SampleRateChange _ \<Rightarrow> set_rate (hs_sample_rate_hz status) s)
                  in case r of
                       Inl e \<Rightarrow> (s, Inl e)
                     | Inr _ \<Rightarrow> if \<not> applied \<and> \<not> hs_connected status then (s, Inl GeometryFailed) else (s, Inr ()))))"

definition prepare_geometry ::
    "('f, 'k, 'c) flops \<Rightarrow> hardware \<Rightarrow> ('f, 'k, 'c) daemon \<Rightarrow> ('f, 'k, 'c) daemon \<times> unit outcome" where
  "prepare_geometry F hw s =
     (let (s, r) = reconcile_pending F hw s in
      case r of
        Inl e \<Rightarrow> (s, Inl e)
      | Inr _ \<Rightarrow>
          if \<not> hs_connected (status_at_prepare hw) then (s, Inl Disconnected)
          else if hs_sample_rate_hz (status_at_prepare hw) = 0 then (s, Inl ZeroHardwareRate)
          else (s, Inr ()))"

definition set_frequency ::
    "('f, 'k, 'c) flops \<Rightarrow> hardware \<Rightarrow> ('f, 'k, 'c) daemon \<Rightarrow> ('f, 'k, 'c) daemon \<times> unit outcome" where
  "set_frequency F hw s =
     (let (s, r) = prepare_geometry F hw s in
      case r of
        Inl e \<Rightarrow> (s, Inl e)
      | Inr _ \<Rightarrow>
          (case hw_reply hw of
             Acknowledged \<Rightarrow>
               (let s = s\<lparr>cz := retune_wideband F (hs_frequency_hz (status_at_reply hw)) (cz s)\<rparr>
                in (s, if hs_connected (status_at_reply hw) then Inr () else Inl Disconnected))
           | StillApplying receipt \<Rightarrow> (s\<lparr>pending_change := Some (FrequencyChange receipt)\<rparr>, Inl CommandStillApplying)
           | Refused \<Rightarrow>
               (let s = s\<lparr>cz := retune_wideband F (hs_frequency_hz (status_at_reply hw)) (cz s)\<rparr>
                in (s, if hs_connected (status_at_reply hw) then Inl CommandRefused else Inl Disconnected))))"

definition set_sample_rate ::
    "('f, 'k, 'c) flops \<Rightarrow> hardware \<Rightarrow> nat \<Rightarrow> ('f, 'k, 'c) daemon \<Rightarrow> ('f, 'k, 'c) daemon \<times> unit outcome" where
  "set_sample_rate F hw hz s =
     (let (s, r) = prepare_geometry F hw s in
      case r of
        Inl e \<Rightarrow> (s, Inl e)
      | Inr _ \<Rightarrow>
          if hz = 0 then (s, Inl ZeroRate)
          else if has_virtual_channels s then (s, Inl ActiveDecoders)
          else
            let previous = wideband_rate_hz (cz s); status = status_at_reply hw in
            case hw_reply hw of
              Acknowledged \<Rightarrow>
                if hs_sample_rate_hz status = 0 then (s, Inl ZeroHardwareRate)
                else
                  (let (s, r) = set_rate (hs_sample_rate_hz status) s in
                   case r of
                     Inl e \<Rightarrow> (s, Inl e)
                   | Inr _ \<Rightarrow> (s, if hs_connected status then Inr () else Inl Disconnected))
            | StillApplying receipt \<Rightarrow> (s\<lparr>pending_change := Some (SampleRateChange receipt)\<rparr>, Inl CommandStillApplying)
            | Refused \<Rightarrow>
                (let (s, r) = (if hs_sample_rate_hz status \<noteq> 0 \<and> hs_sample_rate_hz status \<noteq> previous
                      then set_rate (hs_sample_rate_hz status) s else (s, Inr ()))
                 in case r of
                      Inl e \<Rightarrow> (s, Inl e)
                    | Inr _ \<Rightarrow> (s, Inl (if hs_connected status then CommandRefused else Disconnected))))"

section \<open>Validation\<close>

text \<open>\<open>checked_abs\<close>, \<open>saturating_add\<close> and \<open>as i64\<close> on 64-bit integers.\<close>

definition I64_MAX :: int where "I64_MAX = 2 ^ 63 - 1"

definition sat_i64 :: "int \<Rightarrow> int" where "sat_i64 i = max (- (2 ^ 63)) (min I64_MAX i)"

definition abs_or_max :: "int \<Rightarrow> int" where "abs_or_max i = (if i = - (2 ^ 63) then I64_MAX else \<bar>i\<bar>)"

definition as_i64 :: "nat \<Rightarrow> int" where
  "as_i64 n = (if n < 2 ^ 63 then int n else int n - 2 ^ 64)"

definition decimated_rate :: "('f, 'k, 'c) flops \<Rightarrow> nat \<Rightarrow> nat \<Rightarrow> 'f" where
  "decimated_rate F wideband_rate rate = f_div F (f_nat F wideband_rate) (f_nat F (max (wideband_rate div rate) 1))"

definition validate_kind ::
    "('f, 'k, 'c) flops \<Rightarrow> ('f \<Rightarrow> nat) \<Rightarrow> nat \<Rightarrow> channel_spec \<Rightarrow> daemon_error option" where
  "validate_kind F f_ceiling wideband_rate spec =
     (let rate = cs_channel_sample_rate_hz spec in
      if cs_kind spec = KAdsbPackets \<and> wideband_rate \<noteq> rate * (wideband_rate div rate) then Some AdsbClock
      else case (if cs_kind spec = KAudio
                 then map_option AudioInvalid (validate_parameters F f_ceiling
                   (case cs_demod_mode spec of Some m \<Rightarrow> m | None \<Rightarrow> Raw) (resolved_audio F spec) (decimated_rate F wideband_rate rate))
                 else if cs_audio spec \<noteq> None then Some AudioUnsupported else None) of
             Some e \<Rightarrow> Some e
           | None \<Rightarrow>
               if cs_kind spec = KLrptTelemetry then
                 (case cs_meteor_profile spec of
                    None \<Rightarrow> Some ProfileRequired
                  | Some p \<Rightarrow>
                      if rate < occupied_bandwidth_hz p then Some ProfileBandwidth
                      else (case validate_mission_sampling (wideband_rate div max (wideband_rate div rate) 1) p of
                              Inl e \<Rightarrow> Some (ProfileSampling e) | Inr _ \<Rightarrow> None))
               else if cs_meteor_profile spec \<noteq> None then Some ProfileUnsupported else None)"

definition validate_spec ::
    "('f, 'k, 'c) flops \<Rightarrow> ('f \<Rightarrow> nat) \<Rightarrow> channel_spec \<Rightarrow> ('f, 'k, 'c) daemon \<Rightarrow> daemon_error option" where
  "validate_spec F f_ceiling spec s =
     (let rate = cs_channel_sample_rate_hz spec; wideband_rate = wideband_rate_hz (cz s) in
      if rate = 0 then Some ZeroBandwidth
      else if cs_kind spec = KAdsbPackets \<and> rate \<noteq> 2400000 then Some AdsbRate
      else if wideband_rate = 0 then Some ZeroWideband
      else if wideband_rate < rate then Some ExceedsWideband
      else case validate_kind F f_ceiling wideband_rate spec of
             Some e \<Rightarrow> Some e
           | None \<Rightarrow>
               if int wideband_rate div 2 < sat_i64 (abs_or_max (cs_center_offset_hz spec) + int rate div 2)
               then Some OutsideWideband else None)"

section \<open>Channels\<close>

definition MAX_CHANNELS :: nat where "MAX_CHANNELS = 32"

text \<open>\<open>add_virtual_channel\<close>: the tap is tuned to the capture's centre plus the offset.\<close>

definition absolute_center :: "nat \<Rightarrow> int \<Rightarrow> nat" where
  "absolute_center center offset = nat (max (sat_i64 (as_i64 center + offset)) 0)"

definition add_virtual_channel ::
    "('f, 'k, 'c) flops \<Rightarrow> channel_spec \<Rightarrow> ('f, 'k, 'c) daemon \<Rightarrow> ('f, 'k, 'c) daemon \<times> nat outcome" where
  "add_virtual_channel F spec s =
     (let (c, ep, r) = add_tap F (absolute_center (wideband_center_hz (cz s)) (cs_center_offset_hz spec))
            (cs_channel_sample_rate_hz spec) (cz s) (epochs s)
      in (s\<lparr>cz := c, epochs := ep\<rparr>, case r of Inl e \<Rightarrow> Inl (ChannelizerRefused e) | Inr i \<Rightarrow> Inr i))"

definition drop_tap :: "nat option \<Rightarrow> ('f, 'k, 'c) daemon \<Rightarrow> ('f, 'k, 'c) daemon" where
  "drop_tap i s = (case i of None \<Rightarrow> s | Some i \<Rightarrow> s\<lparr>cz := remove_tap i (cz s)\<rparr>)"

text \<open>The pipeline on top of a new tap \<open>i\<close>; an error is the one of its constructor.\<close>

definition pipeline_on_tap ::
    "('f, 'k, 'c) flops \<Rightarrow> channel_spec \<Rightarrow> nat \<Rightarrow> ('f, 'k, 'c) daemon \<Rightarrow> 'f pipeline outcome" where
  "pipeline_on_tap F spec i s =
     (case cs_kind spec of
        KSpectrum \<Rightarrow> Inr SpectrumPipe
      | KAudio \<Rightarrow> Inr (AudioPipe (case cs_demod_mode spec of Some m \<Rightarrow> m | None \<Rightarrow> Raw) (resolved_audio F spec))
      | KAdsbPackets \<Rightarrow>
          if cs_channel_sample_rate_hz spec \<noteq> 2400000 then Inl AdsbRate else Inr (PacketPipe (receiver_position s))
      | KLrptTelemetry \<Rightarrow>
          (let rate = (case channel_output_rate_hz (cz s) i of Some r \<Rightarrow> r | None \<Rightarrow> cs_channel_sample_rate_hz spec);
               profile = the (cs_meteor_profile spec)
           in case validate_mission_sampling rate profile of
                Inl e \<Rightarrow> Inl (ProfileSampling e)
              | Inr _ \<Rightarrow> Inr (TelemetryPipe
                  \<lparr>tl_rate_hz = rate, tl_profile = profile, tl_center_hz = the (channel_center_hz (cz s) i)\<rparr>)))"

definition create_channel ::
    "('f, 'k, 'c) flops \<Rightarrow> channel_spec \<Rightarrow> ('f, 'k, 'c) daemon \<Rightarrow> ('f, 'k, 'c) daemon \<times> 'f active_channel outcome" where
  "create_channel F spec s =
     (if cs_kind spec = KSpectrum
      then (s, Inr \<lparr>ac_spec = spec, ac_internal = None, ac_pipeline = SpectrumPipe\<rparr>)
      else
        let (s, r) = add_virtual_channel F spec s in
        case r of
          Inl e \<Rightarrow> (s, Inl e)
        | Inr i \<Rightarrow>
            (case pipeline_on_tap F spec i s of
               Inl e \<Rightarrow> (drop_tap (Some i) s, Inl e)
             | Inr p \<Rightarrow> (s, Inr \<lparr>ac_spec = spec, ac_internal = Some i, ac_pipeline = p\<rparr>)))"

text \<open>The first look of \<open>subscribe\<close> at the table: an answer, or \<open>None\<close> when a channel is to be created.
  An answer is the subscription to the pipeline found.\<close>

definition subscribe_existing_or_full :: "channel_spec \<Rightarrow> ('f, 'k, 'c) daemon \<Rightarrow> ('f pipeline \<times> bool) outcome option" where
  "subscribe_existing_or_full spec s =
     (case map_of (channels s) (cs_id spec) of
        Some existing \<Rightarrow>
          Some (if cs_kind (ac_spec existing) \<noteq> cs_kind spec \<or> cs_meteor_profile (ac_spec existing) \<noteq> cs_meteor_profile spec
                then Inl DifferentKind else Inr (ac_pipeline existing, False))
      | None \<Rightarrow> if MAX_CHANNELS \<le> length (channels s) then Some (Inl ChannelLimit) else None)"

text \<open>The insertion at the end of \<open>subscribe\<close>, with the checks against concurrent subscribers.\<close>

definition install_channel ::
    "channel_id \<Rightarrow> 'f active_channel \<Rightarrow> ('f, 'k, 'c) daemon \<Rightarrow> ('f, 'k, 'c) daemon \<times> ('f pipeline \<times> bool) outcome" where
  "install_channel i active s =
     (case map_of (channels s) i of
        Some existing \<Rightarrow>
          (drop_tap (ac_internal active) s,
           if cs_kind (ac_spec existing) \<noteq> cs_kind (ac_spec active) \<or>
              cs_meteor_profile (ac_spec existing) \<noteq> cs_meteor_profile (ac_spec active)
           then Inl DifferentKind else Inr (ac_pipeline existing, False))
      | None \<Rightarrow>
          (let s = s\<lparr>channels := AList.update i active (channels s)\<rparr> in
           if MAX_CHANNELS < length (channels s)
           then (drop_tap (ac_internal active) (s\<lparr>channels := AList.delete i (channels s)\<rparr>), Inl ChannelLimit)
           else (s, Inr (ac_pipeline active, True))))"

definition subscribe ::
    "('f, 'k, 'c) flops \<Rightarrow> ('f \<Rightarrow> nat) \<Rightarrow> hardware \<Rightarrow> channel_spec \<Rightarrow> ('f, 'k, 'c) daemon \<Rightarrow>
     ('f, 'k, 'c) daemon \<times> ('f pipeline \<times> bool) outcome" where
  "subscribe F f_ceiling hw spec s =
     (case subscribe_existing_or_full spec s of
        Some answer \<Rightarrow> (s, answer)
      | None \<Rightarrow>
          (let (s, r) = prepare_geometry F hw s in
           case r of
             Inl e \<Rightarrow> (s, Inl e)
           | Inr _ \<Rightarrow>
               (case subscribe_existing_or_full spec s of
                  Some answer \<Rightarrow> (s, answer)
                | None \<Rightarrow>
                    (case validate_spec F f_ceiling spec s of
                       Some e \<Rightarrow> (s, Inl e)
                     | None \<Rightarrow>
                         (let spec = (if cs_kind spec = KAudio then spec\<lparr>cs_audio := Some (resolved_audio F spec)\<rparr> else spec);
                              (s, r) = create_channel F spec s
                          in case r of
                               Inl e \<Rightarrow> (s, Inl e)
                             | Inr active \<Rightarrow> install_channel (cs_id spec) active s)))))"

definition subscribe_existing :: "channel_id \<Rightarrow> pipeline_kind \<Rightarrow> ('f, 'k, 'c) daemon \<Rightarrow> 'f pipeline outcome" where
  "subscribe_existing i kind s =
     (case map_of (channels s) i of
        None \<Rightarrow> Inl UnknownChannel
      | Some existing \<Rightarrow> if cs_kind (ac_spec existing) \<noteq> kind then Inl WrongKind else Inr (ac_pipeline existing))"

definition position_ok :: "('f, 'k, 'c) flops \<Rightarrow> 'f \<times> 'f \<Rightarrow> bool" where
  "position_ok F p \<longleftrightarrow> (case p of (lat, lon) \<Rightarrow> f_finite F lat \<and> f_finite F lon \<and>
     f_le F (f_const F (- 90)) lat \<and> f_le F lat (f_const F 90) \<and>
     f_le F (f_const F (- 180)) lon \<and> f_le F lon (f_const F 180))"

definition set_pipeline_position :: "('f \<times> 'f) option \<Rightarrow> 'f active_channel \<Rightarrow> 'f active_channel" where
  "set_pipeline_position position a =
     (case ac_pipeline a of PacketPipe _ \<Rightarrow> a\<lparr>ac_pipeline := PacketPipe position\<rparr> | _ \<Rightarrow> a)"

definition set_receiver_position ::
    "('f, 'k, 'c) flops \<Rightarrow> ('f \<times> 'f) option \<Rightarrow> ('f, 'k, 'c) daemon \<Rightarrow> ('f, 'k, 'c) daemon \<times> unit outcome" where
  "set_receiver_position F position s =
     (if (case position of None \<Rightarrow> False | Some p \<Rightarrow> \<not> position_ok F p) then (s, Inl BadPosition)
      else (s\<lparr>receiver_position := position,
              channels := map (\<lambda>(i, a). (i, set_pipeline_position position a)) (channels s)\<rparr>, Inr ()))"

text \<open>\<open>get_mut\<close> and an assignment.\<close>

definition put_channel :: "channel_id \<Rightarrow> 'f active_channel \<Rightarrow> ('f, 'k, 'c) daemon \<Rightarrow> ('f, 'k, 'c) daemon" where
  "put_channel i a s = s\<lparr>channels := AList.update i a (channels s)\<rparr>"

definition configure_audio ::
    "('f, 'k, 'c) flops \<Rightarrow> ('f \<Rightarrow> nat) \<Rightarrow> hardware \<Rightarrow> channel_id \<Rightarrow> demod_mode \<Rightarrow> audio_parameters option \<Rightarrow>
     ('f, 'k, 'c) daemon \<Rightarrow> ('f, 'k, 'c) daemon \<times> unit outcome" where
  "configure_audio F f_ceiling hw i mode parameters s =
     (let (s, r) = prepare_geometry F hw s in
      case r of
        Inl e \<Rightarrow> (s, Inl e)
      | Inr _ \<Rightarrow>
          (case map_of (channels s) i of
             None \<Rightarrow> (s, Inl UnknownChannel)
           | Some active \<Rightarrow>
               (case ac_pipeline active of
                  AudioPipe _ _ \<Rightarrow>
                    (let previous = resolved_audio F (ac_spec active);
                         proposed = (ac_spec active)\<lparr>cs_demod_mode := Some mode, cs_audio := parameters\<rparr>;
                         applied = resolved_audio F proposed;
                         applied = (if parameters = None
                           then applied\<lparr>output_sample_rate_hz := output_sample_rate_hz previous\<rparr> else applied);
                         proposed = proposed\<lparr>cs_audio := Some applied\<rparr>
                     in case validate_spec F f_ceiling proposed s of
                          Some e \<Rightarrow> (s, Inl e)
                        | None \<Rightarrow>
                            (put_channel i (active\<lparr>ac_spec := proposed, ac_pipeline := AudioPipe mode applied\<rparr>) s, Inr ()))
                | _ \<Rightarrow> (s, Inl WrongKind))))"

definition set_demod_mode ::
    "('f, 'k, 'c) flops \<Rightarrow> ('f \<Rightarrow> nat) \<Rightarrow> hardware \<Rightarrow> channel_id \<Rightarrow> demod_mode \<Rightarrow> ('f, 'k, 'c) daemon \<Rightarrow>
     ('f, 'k, 'c) daemon \<times> unit outcome" where
  "set_demod_mode F f_ceiling hw i mode s = configure_audio F f_ceiling hw i mode None s"

text \<open>\<open>TelemetryPipeline::retune\<close>, as far as its configuration goes.\<close>

definition telemetry_retune :: "nat \<Rightarrow> nat \<Rightarrow> telemetry \<Rightarrow> configuration_error + telemetry" where
  "telemetry_retune rate center t =
     (case validate_mission_sampling rate (tl_profile t) of
        Inl e \<Rightarrow> Inl e
      | Inr _ \<Rightarrow> Inr (t\<lparr>tl_rate_hz := rate, tl_center_hz := center\<rparr>))"

text \<open>The tap and the pipeline of a channel follow a new specification.\<close>

definition retune_active ::
    "('f, 'k, 'c) flops \<Rightarrow> channel_spec \<Rightarrow> 'f active_channel \<Rightarrow> ('f, 'k, 'c) daemon \<Rightarrow>
     ('f, 'k, 'c) daemon \<times> 'f pipeline outcome" where
  "retune_active F proposed active s =
     (let (s, r) = (case ac_internal active of
          None \<Rightarrow> (s, Inr (ac_pipeline active))
        | Some internal \<Rightarrow>
            (let center = absolute_center (wideband_center_hz (cz s)) (cs_center_offset_hz proposed) in
             case retune_tap F internal center (cs_channel_sample_rate_hz proposed) (cz s) of
               Inl e \<Rightarrow> (s, Inl (ChannelizerRefused e))
             | Inr c \<Rightarrow>
                 (s\<lparr>cz := c\<rparr>,
                  case ac_pipeline active of
                    TelemetryPipe t \<Rightarrow>
                      (case telemetry_retune (the (channel_output_rate_hz c internal)) center t of
                         Inl e \<Rightarrow> Inl (ProfileSampling e) | Inr t \<Rightarrow> Inr (TelemetryPipe t))
                  | p \<Rightarrow> Inr p)))
      in (s, case r of
               Inr (AudioPipe _ _) \<Rightarrow>
                 Inr (AudioPipe (case cs_demod_mode proposed of Some m \<Rightarrow> m | None \<Rightarrow> Raw) (resolved_audio F proposed))
             | r \<Rightarrow> r))"

definition is_audio_pipe :: "'f pipeline \<Rightarrow> bool" where
  "is_audio_pipe p \<longleftrightarrow> (case p of AudioPipe _ _ \<Rightarrow> True | _ \<Rightarrow> False)"

definition retune_configured ::
    "('f, 'k, 'c) flops \<Rightarrow> ('f \<Rightarrow> nat) \<Rightarrow> hardware \<Rightarrow> channel_id \<Rightarrow> int \<Rightarrow> nat \<Rightarrow> (demod_mode \<times> audio_parameters) option \<Rightarrow>
     ('f, 'k, 'c) daemon \<Rightarrow> ('f, 'k, 'c) daemon \<times> unit outcome" where
  "retune_configured F f_ceiling hw i offset rate audio s =
     (let (s, r) = prepare_geometry F hw s in
      case r of
        Inl e \<Rightarrow> (s, Inl e)
      | Inr _ \<Rightarrow>
          (case map_of (channels s) i of
             None \<Rightarrow> (s, Inl UnknownChannel)
           | Some active \<Rightarrow>
               (let proposed = (ac_spec active)\<lparr>cs_center_offset_hz := offset, cs_channel_sample_rate_hz := rate\<rparr> in
                if audio \<noteq> None \<and> \<not> is_audio_pipe (ac_pipeline active) then (s, Inl AudioUnsupported)
                else
                  let proposed = (case audio of None \<Rightarrow> proposed
                        | Some (mode, parameters) \<Rightarrow> proposed\<lparr>cs_demod_mode := Some mode, cs_audio := Some parameters\<rparr>)
                  in case validate_spec F f_ceiling proposed s of
                       Some e \<Rightarrow> (s, Inl e)
                     | None \<Rightarrow>
                         (let (s, r) = retune_active F proposed active s in
                          case r of
                            Inl e \<Rightarrow> (s, Inl e)
                          | Inr p \<Rightarrow> (put_channel i (active\<lparr>ac_spec := proposed, ac_pipeline := p\<rparr>) s, Inr ())))))"

definition retune_channel ::
    "('f, 'k, 'c) flops \<Rightarrow> ('f \<Rightarrow> nat) \<Rightarrow> hardware \<Rightarrow> channel_id \<Rightarrow> int \<Rightarrow> nat \<Rightarrow> ('f, 'k, 'c) daemon \<Rightarrow>
     ('f, 'k, 'c) daemon \<times> unit outcome" where
  "retune_channel F f_ceiling hw i offset rate s = retune_configured F f_ceiling hw i offset rate None s"

section \<open>Recordings\<close>

definition is_recording :: "channel_id \<Rightarrow> ('f, 'k, 'c) daemon \<Rightarrow> bool" where
  "is_recording i s \<longleftrightarrow> (case map_of (recordings s) i of None \<Rightarrow> False | Some r \<Rightarrow> re_alive r)"

text \<open>\<open>RecordingManager::start_recording\<close>; \<open>io_ok\<close> says whether its files could be created.\<close>

definition manager_start ::
    "bool \<Rightarrow> channel_id \<Rightarrow> recording_format \<Rightarrow> nat \<Rightarrow> ('f, 'k, 'c) daemon \<Rightarrow> ('f, 'k, 'c) daemon \<times> active_recording outcome" where
  "manager_start io_ok i format center s =
     (if is_recording i s then (s, Inl AlreadyRecording)
      else
        let s = s\<lparr>recordings := AList.delete i (recordings s)\<rparr> in
        if \<not> io_ok then (s, Inl RecordingIo)
        else
          let r = \<lparr>re_alive = True, re_error = None, re_center_hz = center, re_format = format\<rparr>
          in (s\<lparr>recordings := AList.update i r (recordings s)\<rparr>, Inr r))"

definition start_recording ::
    "bool \<Rightarrow> channel_id \<Rightarrow> recording_format \<Rightarrow> ('f, 'k, 'c) daemon \<Rightarrow> ('f, 'k, 'c) daemon \<times> active_recording outcome" where
  "start_recording io_ok i format s =
     (case map_of (channels s) i of
        None \<Rightarrow> (s, Inl UnknownChannel)
      | Some active \<Rightarrow>
          (case ac_internal active of
             Some internal \<Rightarrow>
               if find_tap internal (cz s) = None then (s, Inl NoLongerLive)
               else manager_start io_ok i format
                 (absolute_center (wideband_center_hz (cz s)) (cs_center_offset_hz (ac_spec active))) s
           | None \<Rightarrow> manager_start io_ok i format (wideband_center_hz (cz s)) s))"

text \<open>Stopping joins the writer; \<open>failure\<close> is the error it left, kept with the entry when there is one.\<close>

definition stop_recording ::
    "string option \<Rightarrow> channel_id \<Rightarrow> ('f, 'k, 'c) daemon \<Rightarrow> ('f, 'k, 'c) daemon \<times> active_recording outcome" where
  "stop_recording failure i s =
     (case map_of (recordings s) i of
        None \<Rightarrow> (s, Inl NotRecording)
      | Some r \<Rightarrow>
          (let r = r\<lparr>re_alive := False, re_error := (if re_error r = None then failure else re_error r)\<rparr>;
               s = s\<lparr>recordings := AList.delete i (recordings s)\<rparr>
           in if re_error r \<noteq> None
              then (s\<lparr>recordings := AList.update i r (recordings s)\<rparr>, Inl RecordingFailed)
              else (s, Inr r)))"

definition forget_finished :: "channel_id \<Rightarrow> ('f, 'k, 'c) daemon \<Rightarrow> ('f, 'k, 'c) daemon" where
  "forget_finished i s =
     (case map_of (recordings s) i of
        Some r \<Rightarrow> if re_alive r then s else s\<lparr>recordings := AList.delete i (recordings s)\<rparr>
      | None \<Rightarrow> s)"

definition remove_channel :: "channel_id \<Rightarrow> ('f, 'k, 'c) daemon \<Rightarrow> ('f, 'k, 'c) daemon \<times> unit outcome" where
  "remove_channel i s =
     (if is_recording i s then (s, Inl IsRecording)
      else case map_of (channels s) i of
             None \<Rightarrow> (s, Inl UnknownChannel)
           | Some active \<Rightarrow>
               (drop_tap (ac_internal active) (forget_finished i (s\<lparr>channels := AList.delete i (channels s)\<rparr>)), Inr ()))"

definition release_client_channels :: "client_channels \<Rightarrow> ('f, 'k, 'c) daemon \<Rightarrow> ('f, 'k, 'c) daemon" where
  "release_client_channels c s =
     foldl (\<lambda>s i. if channel_exists i s then fst (remove_channel i s) else s) s (client_channels_ids c)"

section \<open>Taps\<close>

lemma decimation_loop: "decimate_loop F d p n nxt xs = (d', p', nxt', out) \<Longrightarrow> decimation d' = decimation d"
proof (induction xs arbitrary: d p n nxt d' p' nxt' out)
  case (Cons s xs)
  obtain d1 p1 nxt1 out1 where s1: "decimate_step F d p n nxt s = (d1, p1, nxt1, out1)" by (metis prod_cases4)
  obtain d2 p2 nxt2 out2 where s2: "decimate_loop F d1 p1 (n + 1) nxt1 xs = (d2, p2, nxt2, out2)" by (metis prod_cases4)
  show ?case using Cons.IH [OF s2] decimate_step_fields [OF s1] Cons.prems s1 s2 by simp
qed simp

lemma decimation_process [simp]: "decimation (fst (decimator_process F d xs)) = decimation d"
  by (auto simp: decimator_process_def dest: decimation_loop split: option.splits prod.splits)

lemma vc_process_frame:
  "vc_id (fst (vc_process F b ch ep)) = vc_id ch"
  "decimation (decimator (fst (vc_process F b ch ep))) = decimation (decimator ch)"
  "vc_center_freq_hz (fst (vc_process F b ch ep)) = vc_center_freq_hz ch"
proof -
  have r: "vc_id (fst (vc_restart F b ch ep)) = vc_id ch"
    "decimation (decimator (fst (vc_restart F b ch ep))) = decimation (decimator ch)"
    "vc_center_freq_hz (fst (vc_restart F b ch ep)) = vc_center_freq_hz ch"
    by (simp_all add: vc_restart_def Let_def new_capture_epoch_def)
  have d: "decimation d' = decimation d" if "decimator_process F d xs = (d', out)" for d d' xs out
    using that decimation_process [of F d xs] by simp
  have p: "vc_id ch2 = vc_id ch1 \<and> decimator ch2 = decimator ch1 \<and> vc_center_freq_hz ch2 = vc_center_freq_hz ch1"
    if "vc_publish b k out ch1 = Some (ch2, o')" for k out ch1 ch2 o'
    using vc_publish_Some [OF that] by simp
  obtain ch1 ep1 where c: "(if continues_input ch b then (ch, ep) else vc_restart F b ch ep) = (ch1, ep1)" by force
  then have c1: "vc_id ch1 = vc_id ch" "decimation (decimator ch1) = decimation (decimator ch)"
    "vc_center_freq_hz ch1 = vc_center_freq_hz ch"
    using r by (metis fst_conv)+
  show "vc_id (fst (vc_process F b ch ep)) = vc_id ch"
    "decimation (decimator (fst (vc_process F b ch ep))) = decimation (decimator ch)"
    "vc_center_freq_hz (fst (vc_process F b ch ep)) = vc_center_freq_hz ch"
    unfolding vc_process_def Let_def c using c1
    by (auto split: prod.splits option.splits dest!: p d)
qed

lemma tick_taps_frame:
  "map vc_id (fst (tick_taps F b chs ep)) = map vc_id chs \<and>
   map (decimation \<circ> decimator) (fst (tick_taps F b chs ep)) = map (decimation \<circ> decimator) chs \<and>
   map vc_center_freq_hz (fst (tick_taps F b chs ep)) = map vc_center_freq_hz chs"
proof (induction chs arbitrary: ep)
  case (Cons ch chs)
  obtain ch' ep' out where v: "vc_process F b ch ep = (ch', ep', out)" by (metis prod_cases3)
  obtain chs' ep2 outs where t: "tick_taps F b chs ep' = (chs', ep2, outs)" by (metis prod_cases3)
  show ?case using Cons [of ep'] v t vc_process_frame [of F b ch ep] by simp
qed simp

lemma find_tap_Nil [simp]: "taps c = [] \<Longrightarrow> find_tap t c = None"
  by (simp add: find_tap_def)

lemma find_append: "find P (xs @ ys) = (case find P xs of Some x \<Rightarrow> Some x | None \<Rightarrow> find P ys)"
  by (induction xs) simp_all

lemma find_filter_ids:
  "find (\<lambda>c. vc_id c = t) (filter (\<lambda>c. vc_id c \<noteq> i) xs) = (if t = i then None else find (\<lambda>c. vc_id c = t) xs)"
  by (induction xs) auto

lemma find_tap_remove [simp]: "find_tap t (remove_tap i c) = (if t = i then None else find_tap t c)"
  by (simp add: find_tap_def remove_tap_def find_filter_ids)

lemma find_map_ids:
  "map vc_id ys = map vc_id xs \<Longrightarrow> map (decimation \<circ> decimator) ys = map (decimation \<circ> decimator) xs \<Longrightarrow>
     map_option (decimation \<circ> decimator) (find (\<lambda>c. vc_id c = t) ys) = map_option (decimation \<circ> decimator) (find (\<lambda>c. vc_id c = t) xs)"
proof (induction xs arbitrary: ys)
  case (Cons x xs)
  then show ?case by (cases ys) auto
qed simp

text \<open>The decimation of a tap, the only thing of it the control plane relies on.\<close>

definition tap_rate :: "('f, 'k, 'c) channelizer \<Rightarrow> nat \<Rightarrow> nat option" where
  "tap_rate c t = map_option (decimation \<circ> decimator) (find_tap t c)"

lemma tap_rate_None: "tap_rate c t = None \<longleftrightarrow> find_tap t c = None"
  by (simp add: tap_rate_def)

lemma tap_rate_same:
  "map vc_id (taps c') = map vc_id (taps c) \<Longrightarrow>
     map (decimation \<circ> decimator) (taps c') = map (decimation \<circ> decimator) (taps c) \<Longrightarrow> tap_rate c' = tap_rate c"
  unfolding tap_rate_def find_tap_def by (rule ext, rule find_map_ids)

lemma tap_rate_remove [simp]: "tap_rate (remove_tap i c) = (tap_rate c)(i := None)"
  by (rule ext) (simp add: tap_rate_def)

lemma remove_tap_fields [simp]:
  "wideband_rate_hz (remove_tap i c) = wideband_rate_hz c" "next_tap_id (remove_tap i c) = next_tap_id c"
  "wideband_center_hz (remove_tap i c) = wideband_center_hz c"
  by (simp_all add: remove_tap_def)

lemma ids_remove_tap: "map vc_id (taps (remove_tap i c)) = filter (\<lambda>t. t \<noteq> i) (map vc_id (taps c))"
  by (simp add: remove_tap_def filter_map comp_def)

lemma retune_wideband_fields [simp]:
  "wideband_rate_hz (retune_wideband F f c) = wideband_rate_hz c" "next_tap_id (retune_wideband F f c) = next_tap_id c"
  "map vc_id (taps (retune_wideband F f c)) = map vc_id (taps c)" "tap_rate (retune_wideband F f c) = tap_rate c"
proof -
  show ids: "map vc_id (taps (retune_wideband F f c)) = map vc_id (taps c)" by (simp add: retune_wideband_def vc_follow_def)
  show "tap_rate (retune_wideband F f c) = tap_rate c"
    by (rule tap_rate_same [OF ids]) (simp add: retune_wideband_def vc_follow_def)
qed (simp_all add: retune_wideband_def)

lemma channelizer_tick_fields:
  assumes "channelizer_tick F b c ep = (c', ep', outs)"
  shows "wideband_rate_hz c' = wideband_rate_hz c" "next_tap_id c' = next_tap_id c" "map vc_id (taps c') = map vc_id (taps c)"
    "tap_rate c' = tap_rate c" "wideband_center_hz c' = wideband_center_hz c"
    "map vc_center_freq_hz (taps c') = map vc_center_freq_hz (taps c)"
proof -
  have c': "c' = c\<lparr>taps := fst (tick_taps F b (taps c) ep)\<rparr>"
    using assms by (auto simp: channelizer_tick_def split: prod.splits)
  show "wideband_rate_hz c' = wideband_rate_hz c" "next_tap_id c' = next_tap_id c"
    "wideband_center_hz c' = wideband_center_hz c" "map vc_center_freq_hz (taps c') = map vc_center_freq_hz (taps c)"
    using tick_taps_frame [of F b "taps c" ep] by (simp_all add: c')
  show ids: "map vc_id (taps c') = map vc_id (taps c)" using tick_taps_frame [of F b "taps c" ep] by (simp add: c')
  show "tap_rate c' = tap_rate c" by (rule tap_rate_same [OF ids]) (use tick_taps_frame [of F b "taps c" ep] in \<open>simp add: c'\<close>)
qed

lemma add_tap_fields:
  assumes "add_tap F f r c ep = (c', ep', res)"
  shows "wideband_rate_hz c' = wideband_rate_hz c" "wideband_center_hz c' = wideband_center_hz c"
    and "res = Inl e \<Longrightarrow> c' = c"
    and "res = Inr t \<Longrightarrow> t = next_tap_id c \<and> next_tap_id c' = t + 1 \<and> map vc_id (taps c') = map vc_id (taps c) @ [t] \<and>
      (tap_rate c t = None \<longrightarrow> tap_rate c' = (tap_rate c)(t \<mapsto> tap_decimation c r) \<and>
        channel_output_rate_hz c' t = Some (wideband_rate_hz c div tap_decimation c r) \<and> channel_center_hz c' t = Some f)"
  using assms
  by (auto simp: add_tap_def Let_def virtual_channel_new_def new_capture_epoch_def tap_rate_def find_tap_def find_append
      channel_output_rate_hz_def channel_center_hz_def fun_eq_iff split: if_splits option.splits)

lemma update_first_ids: "(\<And>x. vc_id (f x) = vc_id x) \<Longrightarrow> map vc_id (update_first P f xs) = map vc_id xs"
  by (induction xs) auto

lemma find_update_first:
  "(\<And>x. vc_id (f x) = vc_id x) \<Longrightarrow> find (\<lambda>c. vc_id c = t) (update_first (\<lambda>c. vc_id c = i) f xs) =
     (if t = i then map_option f (find (\<lambda>c. vc_id c = i) xs) else find (\<lambda>c. vc_id c = t) xs)"
  by (induction xs) auto

lemma retune_tap_fields:
  assumes "retune_tap F t f r c = Inr c'"
  shows "wideband_rate_hz c' = wideband_rate_hz c" "next_tap_id c' = next_tap_id c" "map vc_id (taps c') = map vc_id (taps c)"
    and "tap_rate c' = (tap_rate c)(t \<mapsto> tap_decimation c r)" "tap_rate c t \<noteq> None"
    and "channel_output_rate_hz c' t = Some (wideband_rate_hz c div tap_decimation c r)"
  using assms
  by (auto simp: retune_tap_def vc_tune_def tap_rate_def find_tap_def find_update_first update_first_ids
      channel_output_rate_hz_def fun_eq_iff split: if_splits)

lemma set_wideband_rate_Inr:
  "set_wideband_rate hz c = Inr c' \<Longrightarrow> taps c = [] \<and> 0 < hz \<and> c' = c\<lparr>wideband_rate_hz := hz\<rparr>"
  by (auto simp: set_wideband_rate_def split: if_splits)

lemma tap_rate_ids: "tap_rate c t \<noteq> None \<longleftrightarrow> t \<in> set (map vc_id (taps c))"
  by (auto simp: tap_rate_def find_tap_def find_None_iff)

section \<open>The invariant\<close>

text \<open>The pipeline of a channel runs the mode, parameters, profile and rate of its specification.\<close>

definition pipeline_matches :: "('f, 'k, 'c) flops \<Rightarrow> nat \<Rightarrow> channel_spec \<Rightarrow> 'f pipeline \<Rightarrow> bool" where
  "pipeline_matches F wideband_rate spec p \<longleftrightarrow>
     (case cs_kind spec of
        KSpectrum \<Rightarrow> p = SpectrumPipe
      | KAudio \<Rightarrow> p = AudioPipe (case cs_demod_mode spec of Some m \<Rightarrow> m | None \<Rightarrow> Raw) (resolved_audio F spec)
      | KAdsbPackets \<Rightarrow> (\<exists>position. p = PacketPipe position) \<and> cs_channel_sample_rate_hz spec = 2400000 \<and>
          wideband_rate = 2400000 * (wideband_rate div 2400000)
      | KLrptTelemetry \<Rightarrow> (\<exists>t. p = TelemetryPipe t \<and> cs_meteor_profile spec = Some (tl_profile t) \<and>
          tl_rate_hz t = wideband_rate div max (wideband_rate div cs_channel_sample_rate_hz spec) 1 \<and>
          symbol_rate_hz (tl_profile t) * 4 \<le> tl_rate_hz t))"

definition channel_ok :: "('f, 'k, 'c) flops \<Rightarrow> ('f, 'k, 'c) channelizer \<Rightarrow> channel_id \<Rightarrow> 'f active_channel \<Rightarrow> bool" where
  "channel_ok F c i a \<longleftrightarrow> cs_id (ac_spec a) = i \<and>
     (case ac_internal a of
        None \<Rightarrow> cs_kind (ac_spec a) = KSpectrum \<and> ac_pipeline a = SpectrumPipe
      | Some t \<Rightarrow> cs_kind (ac_spec a) \<noteq> KSpectrum \<and> pipeline_matches F (wideband_rate_hz c) (ac_spec a) (ac_pipeline a) \<and>
          tap_rate c t = Some (tap_decimation c (cs_channel_sample_rate_hz (ac_spec a))) \<and>
          0 < cs_channel_sample_rate_hz (ac_spec a) \<and> cs_channel_sample_rate_hz (ac_spec a) \<le> wideband_rate_hz c)"

definition taps_ok :: "('f, 'k, 'c) channelizer \<Rightarrow> (channel_id \<rightharpoonup> 'f active_channel) \<Rightarrow> bool" where
  "taps_ok c m \<longleftrightarrow> distinct (map vc_id (taps c)) \<and> (\<forall>t. tap_rate c t \<noteq> None \<longrightarrow> t < next_tap_id c) \<and>
     (\<forall>t. tap_rate c t \<noteq> None \<longrightarrow> (\<exists>i a. m i = Some a \<and> ac_internal a = Some t)) \<and>
     (\<forall>i j a b t. m i = Some a \<longrightarrow> m j = Some b \<longrightarrow> ac_internal a = Some t \<longrightarrow> ac_internal b = Some t \<longrightarrow> i = j)"

definition daemon_ok :: "('f, 'k, 'c) flops \<Rightarrow> ('f, 'k, 'c) daemon \<Rightarrow> bool" where
  "daemon_ok F s \<longleftrightarrow> distinct (map fst (channels s)) \<and> length (channels s) \<le> MAX_CHANNELS \<and>
     distinct (map fst (recordings s)) \<and> dom (map_of (recordings s)) \<subseteq> dom (map_of (channels s)) \<and>
     taps_ok (cz s) (map_of (channels s)) \<and> (\<forall>i a. map_of (channels s) i = Some a \<longrightarrow> channel_ok F (cz s) i a) \<and>
     unat CLIENT_CHANNEL_START \<le> next_client_channel s \<and> next_client_channel s < 2 ^ 32"

lemma virtual_iff: "distinct (map fst (channels s)) \<Longrightarrow>
    has_virtual_channels s \<longleftrightarrow> (\<exists>i a. map_of (channels s) i = Some a \<and> ac_internal a \<noteq> None)"
  by (force simp: has_virtual_channels_def)

lemma no_virtual_no_taps:
  assumes "daemon_ok F s" "\<not> has_virtual_channels s" shows "taps (cz s) = []"
proof (rule ccontr)
  assume "taps (cz s) \<noteq> []"
  then have "tap_rate (cz s) (vc_id (hd (taps (cz s)))) \<noteq> None" by (simp only: tap_rate_ids) simp
  then show False using assms virtual_iff by (metis daemon_ok_def option.discI taps_ok_def)
qed

lemma channels_without_taps:
  assumes "daemon_ok F s" "taps (cz s) = []" shows "\<forall>i a. map_of (channels s) i = Some a \<longrightarrow> ac_internal a = None"
  using assms by (force simp: daemon_ok_def channel_ok_def tap_rate_def split: option.splits)

text \<open>Operations that leave what the control plane relies on alone.\<close>

lemma channel_ok_frame:
  "tap_rate c' = tap_rate c \<Longrightarrow> wideband_rate_hz c' = wideband_rate_hz c \<Longrightarrow> channel_ok F c' i a = channel_ok F c i a"
  by (cases "ac_internal a") (simp_all add: channel_ok_def tap_decimation_def)

lemma daemon_ok_frame:
  assumes "daemon_ok F s" "map vc_id (taps (cz s')) = map vc_id (taps (cz s))" "tap_rate (cz s') = tap_rate (cz s)"
    and "wideband_rate_hz (cz s') = wideband_rate_hz (cz s)" "next_tap_id (cz s) \<le> next_tap_id (cz s')"
    and "channels s' = channels s" "recordings s' = recordings s" "next_client_channel s' = next_client_channel s"
  shows "daemon_ok F s'"
proof -
  have "\<forall>t. tap_rate (cz s) t \<noteq> None \<longrightarrow> t < next_tap_id (cz s')" using assms(1,5) by (force simp: daemon_ok_def taps_ok_def)
  then show ?thesis
    using assms(1) unfolding daemon_ok_def taps_ok_def assms(2-4,6-8) channel_ok_frame [OF assms(3,4)] by blast
qed

lemma set_rate_ok:
  assumes "daemon_ok F s" "set_rate hz s = (s', r)"
  shows "daemon_ok F s' \<and> channels s' = channels s \<and> recordings s' = recordings s \<and>
    (r = Inr () \<longrightarrow> wideband_rate_hz (cz s') = hz) \<and> (\<forall>e. r = Inl e \<longrightarrow> s' = s) \<and> (taps (cz s) = [] \<longrightarrow> 0 < hz \<longrightarrow> r = Inr ())"
proof (cases "set_wideband_rate hz (cz s)")
  case (Inl e)
  then show ?thesis using assms by (auto simp: set_rate_def set_wideband_rate_def split: if_splits)
next
  case (Inr c)
  note c = set_wideband_rate_Inr [OF Inr]
  have "\<forall>i a. map_of (channels s) i = Some a \<longrightarrow> ac_internal a = None" using channels_without_taps assms(1) c by blast
  then have "daemon_ok F (s\<lparr>cz := c\<rparr>)"
    using assms(1) c by (auto simp: daemon_ok_def channel_ok_def taps_ok_def tap_rate_def find_tap_def split: option.splits)
  then show ?thesis using assms(2) Inr c by (auto simp: set_rate_def)
qed

lemma reconcile_ok:
  assumes "daemon_ok F s" "reconcile_pending F hw s = (s', r)"
  shows "daemon_ok F s' \<and> channels s' = channels s \<and> recordings s' = recordings s"
proof -
  have frame: "daemon_ok F (s\<lparr>pending_change := None, cz := retune_wideband F f (cz s)\<rparr>)" for f
    by (rule daemon_ok_frame [OF assms(1)]) simp_all
  have "daemon_ok F (s\<lparr>pending_change := None\<rparr>)" by (rule daemon_ok_frame [OF assms(1)]) simp_all
  note rate = set_rate_ok [OF this]
  show ?thesis
    using assms frame
    by (auto simp: reconcile_pending_def Let_def split: option.splits geometry_change.splits if_splits prod.splits sum.splits
        dest!: rate)
qed

lemma prepare_ok:
  assumes "daemon_ok F s" "prepare_geometry F hw s = (s', r)"
  shows "daemon_ok F s' \<and> channels s' = channels s \<and> recordings s' = recordings s"
  using assms(2) reconcile_ok [OF assms(1)]
  by (auto simp: prepare_geometry_def split: prod.splits sum.splits if_splits)

lemma set_frequency_ok [inv_intros]:
  assumes "daemon_ok F s" shows "daemon_ok F (fst (set_frequency F hw s))"
proof -
  obtain s1 r where p: "prepare_geometry F hw s = (s1, r)" by force
  note ok = prepare_ok [OF assms p]
  have "daemon_ok F (s1\<lparr>cz := retune_wideband F f (cz s1)\<rparr>)" "daemon_ok F (s1\<lparr>pending_change := g\<rparr>)" for f g
    using daemon_ok_frame [OF conjunct1 [OF ok]] by simp_all
  then show ?thesis
    using p ok by (auto simp: set_frequency_def Let_def split: sum.splits ingest_reply.splits)
qed

lemma set_sample_rate_ok [inv_intros]:
  assumes "daemon_ok F s" shows "daemon_ok F (fst (set_sample_rate F hw hz s))"
proof -
  obtain s1 r where p: "prepare_geometry F hw s = (s1, r)" by force
  note ok = prepare_ok [OF assms p]
  have g: "daemon_ok F (s1\<lparr>pending_change := g\<rparr>)" for g
    using daemon_ok_frame [OF conjunct1 [OF ok]] by simp
  have rate: "daemon_ok F s2" if "set_rate h s1 = (s2, q)" for h s2 q
    using set_rate_ok [OF conjunct1 [OF ok] that] by simp
  show ?thesis
    using p ok g by (auto simp: set_sample_rate_def Let_def split: sum.splits ingest_reply.splits if_splits prod.splits dest: rate)
qed

lemma daemon_ok_epochs [simp]: "daemon_ok F (s\<lparr>epochs := ep\<rparr>) = daemon_ok F s"
  by (simp add: daemon_ok_def)

text \<open>What validation guarantees.\<close>

lemma validate_spec_None:
  assumes "validate_spec F f_ceiling spec s = None"
  shows "0 < cs_channel_sample_rate_hz spec" "cs_channel_sample_rate_hz spec \<le> wideband_rate_hz (cz s)"
    and "cs_kind spec = KAdsbPackets \<Longrightarrow> cs_channel_sample_rate_hz spec = 2400000 \<and>
      wideband_rate_hz (cz s) = 2400000 * (wideband_rate_hz (cz s) div 2400000)"
    and "cs_kind spec = KLrptTelemetry \<Longrightarrow> \<exists>p. cs_meteor_profile spec = Some p \<and>
      symbol_rate_hz p * 4 \<le> wideband_rate_hz (cz s) div max (wideband_rate_hz (cz s) div cs_channel_sample_rate_hz spec) 1"
  using assms
  by (auto simp: validate_spec_def validate_kind_def Let_def validate_mission_sampling_def split: if_splits option.splits)

lemma resolved_audio_fixed [simp]: "resolved_audio F (spec\<lparr>cs_audio := Some p\<rparr>) = p"
  by (simp add: resolved_audio_def)

lemma fresh_tap: "daemon_ok F s \<Longrightarrow> tap_rate (cz s) (next_tap_id (cz s)) = None"
  by (force simp: daemon_ok_def taps_ok_def)

text \<open>A specification that passed validation, with its audio parameters filled in or not.\<close>

definition valid_for :: "('f, 'k, 'c) flops \<Rightarrow> channel_spec \<Rightarrow> nat \<Rightarrow> bool" where
  "valid_for F spec wr \<longleftrightarrow> 0 < cs_channel_sample_rate_hz spec \<and> cs_channel_sample_rate_hz spec \<le> wr \<and>
     (cs_kind spec = KAdsbPackets \<longrightarrow> cs_channel_sample_rate_hz spec = 2400000 \<and> wr = 2400000 * (wr div 2400000)) \<and>
     (cs_kind spec = KLrptTelemetry \<longrightarrow> (\<exists>p. cs_meteor_profile spec = Some p \<and>
        symbol_rate_hz p * 4 \<le> wr div max (wr div cs_channel_sample_rate_hz spec) 1))"

lemma valid_forI: "validate_spec F f_ceiling spec s = None \<Longrightarrow> valid_for F spec (wideband_rate_hz (cz s))"
  using validate_spec_None unfolding valid_for_def by blast

lemma created_channel:
  assumes "daemon_ok F s" "valid_for F spec (wideband_rate_hz (cz s))" "create_channel F spec s = (s', r)"
  shows "channels s' = channels s \<and> recordings s' = recordings s \<and> next_client_channel s' = next_client_channel s \<and>
    wideband_rate_hz (cz s') = wideband_rate_hz (cz s) \<and>
    (case r of
       Inl e \<Rightarrow> daemon_ok F s'
     | Inr a \<Rightarrow> ac_spec a = spec \<and>
         (case ac_internal a of
            None \<Rightarrow> s' = s \<and> cs_kind spec = KSpectrum \<and> ac_pipeline a = SpectrumPipe
          | Some t \<Rightarrow> t = next_tap_id (cz s) \<and> next_tap_id (cz s') = t + 1 \<and> cs_kind spec \<noteq> KSpectrum \<and>
              map vc_id (taps (cz s')) = map vc_id (taps (cz s)) @ [t] \<and>
              tap_rate (cz s') = (tap_rate (cz s))(t \<mapsto> tap_decimation (cz s) (cs_channel_sample_rate_hz spec)) \<and>
              pipeline_matches F (wideband_rate_hz (cz s)) spec (ac_pipeline a)))"
proof (cases "cs_kind spec = KSpectrum")
  case True
  then show ?thesis using assms(3) by (auto simp: create_channel_def)
next
  case False
  obtain c ep res where t: "add_tap F (absolute_center (wideband_center_hz (cz s)) (cs_center_offset_hz spec))
      (cs_channel_sample_rate_hz spec) (cz s) (epochs s) = (c, ep, res)" by (metis prod_cases3)
  note f = add_tap_fields [OF t]
  let ?s = "s\<lparr>cz := c, epochs := ep\<rparr>"
  show ?thesis
  proof (cases res)
    case (Inl e)
    then have "c = cz s" using f(3) by simp
    then show ?thesis
      using assms(1,3) False t Inl by (auto simp: create_channel_def add_virtual_channel_def)
  next
    case (Inr i)
    have i: "i = next_tap_id (cz s)" "next_tap_id c = i + 1" "map vc_id (taps c) = map vc_id (taps (cz s)) @ [i]"
      "tap_rate c = (tap_rate (cz s))(i \<mapsto> tap_decimation (cz s) (cs_channel_sample_rate_hz spec))"
      "channel_output_rate_hz c i = Some (wideband_rate_hz (cz s) div tap_decimation (cz s) (cs_channel_sample_rate_hz spec))"
      using f(4) [OF Inr] fresh_tap [OF assms(1)] by auto
    have av: "add_virtual_channel F spec s = (?s, Inr i)" using t Inr by (simp add: add_virtual_channel_def)
    have sr: "valid_for F spec (wideband_rate_hz (cz s))" by (rule assms(2))
    show ?thesis
    proof (cases "pipeline_on_tap F spec i ?s")
      case (Inl e)
      have "map vc_id (taps (remove_tap i c)) = map vc_id (taps (cz s))"
      proof -
        have "i \<notin> set (map vc_id (taps (cz s)))" using fresh_tap [OF assms(1)] i(1) by (metis tap_rate_ids)
        then have "filter (\<lambda>t. t \<noteq> i) (map vc_id (taps (cz s))) = map vc_id (taps (cz s))" by (intro filter_True) metis
        then show ?thesis by (simp only: ids_remove_tap i(3) filter_append) simp
      qed
      moreover have "tap_rate (remove_tap i c) = tap_rate (cz s)" using fresh_tap [OF assms(1)] i(1,4) by auto
      ultimately have "daemon_ok F (s\<lparr>epochs := ep, cz := remove_tap i c\<rparr>)"
        by (intro daemon_ok_frame [OF assms(1)]) (simp_all add: f i)
      then show ?thesis using assms(3) False av Inl f by (auto simp: create_channel_def drop_tap_def)
    next
      case (Inr p)
      have "pipeline_matches F (wideband_rate_hz (cz s)) spec p"
        using Inr False sr i(5)
        by (auto simp: pipeline_on_tap_def pipeline_matches_def valid_for_def Let_def validate_mission_sampling_def tap_decimation_def
            split: pipeline_kind.splits if_splits)
      then show ?thesis using assms(3) False av Inr f i by (auto simp: create_channel_def)
    qed
  qed
qed

lemma taps_ok_plain:
  assumes "taps_ok c m" "m k = None" "ac_internal a = None"
  shows "taps_ok c (m(k \<mapsto> a))"
  unfolding taps_ok_def
proof (intro conjI)
  show "\<forall>t. tap_rate c t \<noteq> None \<longrightarrow> (\<exists>i b. (m(k \<mapsto> a)) i = Some b \<and> ac_internal b = Some t)"
  proof (intro allI impI)
    fix t
    assume "tap_rate c t \<noteq> None"
    then obtain i b where "m i = Some b" "ac_internal b = Some t" using assms(1) by (auto simp: taps_ok_def)
    then show "\<exists>i b. (m(k \<mapsto> a)) i = Some b \<and> ac_internal b = Some t"
      using assms(2) by (intro exI [of _ i] exI [of _ b]) auto
  qed
qed (use assms in \<open>auto simp: taps_ok_def split: if_splits\<close>)

lemma install_ok:
  assumes "daemon_ok F s" "valid_for F spec (wideband_rate_hz (cz s))" "create_channel F spec s = (s1, Inr a)"
    and "subscribe_existing_or_full spec s = None" "install_channel (cs_id spec) a s1 = (s2, r)"
  shows "daemon_ok F s2 \<and> r = Inr (ac_pipeline a, True) \<and> channels s2 = AList.update (cs_id spec) a (channels s)"
proof -
  note c = created_channel [OF assms(1-3)]
  have fresh: "map_of (channels s) (cs_id spec) = None" "length (channels s) < MAX_CHANNELS"
    using assms(4) by (auto simp: subscribe_existing_or_full_def split: option.splits if_splits)
  have upd: "AList.update (cs_id spec) a (channels s) = channels s @ [(cs_id spec, a)]"
  proof -
    have "AList.update k v xs = xs @ [(k, v)]" if "map_of xs k = None" for k and v :: "'a active_channel" and xs
      using that by (induction xs) (auto split: if_splits)
    then show ?thesis using fresh(1) .
  qed
  have s2: "s2 = s1\<lparr>channels := AList.update (cs_id spec) a (channels s)\<rparr>" "r = Inr (ac_pipeline a, True)"
    using assms(5) c fresh by (auto simp: install_channel_def upd Let_def)
  have keys: "distinct (map fst (channels s2))" "length (channels s2) \<le> MAX_CHANNELS"
    using assms(1) fresh s2(1) by (auto simp: daemon_ok_def upd map_of_eq_None_iff)
  have table: "map_of (channels s2) = (map_of (channels s))(cs_id spec \<mapsto> a)" by (simp add: s2(1) update_conv')
  have old: "channel_ok F (cz s1) i b" if "map_of (channels s) i = Some b" for i b
  proof -
    have b: "channel_ok F (cz s) i b" using assms(1) that by (simp add: daemon_ok_def)
    have "tap_rate (cz s1) t = tap_rate (cz s) t" if "tap_rate (cz s) t \<noteq> None" for t
      using c that fresh_tap [OF assms(1)] by (auto split: option.splits)
    then show ?thesis using b c by (auto simp: channel_ok_def tap_decimation_def split: option.splits)
  qed
  have new: "channel_ok F (cz s1) (cs_id spec) a"
    using c assms(2) by (auto simp: channel_ok_def tap_decimation_def valid_for_def split: option.splits)
  have "taps_ok (cz s1) (map_of (channels s2))"
  proof (cases "ac_internal a")
    case None
    then have "s1 = s" using c by simp
    then show ?thesis using taps_ok_plain [where m = "map_of (channels s)" and k = "cs_id spec" and a = a and c = "cz s"] fresh(1) None assms(1) by (simp add: table daemon_ok_def)
  next
    case (Some t)
    have t: "t = next_tap_id (cz s)" "next_tap_id (cz s1) = t + 1" "map vc_id (taps (cz s1)) = map vc_id (taps (cz s)) @ [t]"
      "tap_rate (cz s1) = (tap_rate (cz s))(t \<mapsto> tap_decimation (cz s) (cs_channel_sample_rate_hz spec))"
      using c Some by auto
    have unused: "ac_internal b \<noteq> Some t" if "map_of (channels s) i = Some b" for i b
      using assms(1) that fresh_tap [OF assms(1)] t(1) by (auto simp: daemon_ok_def channel_ok_def split: option.splits)
    have nt: "t \<notin> set (map vc_id (taps (cz s)))" using fresh_tap [OF assms(1)] t(1) by (metis tap_rate_ids)
    have "distinct (map vc_id (taps (cz s1)))" using assms(1) nt unfolding t(3) by (auto simp: daemon_ok_def taps_ok_def)
    moreover have "\<forall>u. tap_rate (cz s1) u \<noteq> None \<longrightarrow> u < next_tap_id (cz s1)"
      using assms(1) t by (auto simp: daemon_ok_def taps_ok_def less_Suc_eq)
    moreover have "\<forall>u. tap_rate (cz s1) u \<noteq> None \<longrightarrow> (\<exists>i b. map_of (channels s2) i = Some b \<and> ac_internal b = Some u)"
    proof (intro allI impI)
      fix u
      assume u: "tap_rate (cz s1) u \<noteq> None"
      show "\<exists>i b. map_of (channels s2) i = Some b \<and> ac_internal b = Some u"
      proof (cases "u = t")
        case True
        then show ?thesis using Some table by (intro exI [of _ "cs_id spec"] exI [of _ a]) simp
      next
        case False
        then have "tap_rate (cz s) u \<noteq> None" using u t(4) by simp
        then obtain i b where "map_of (channels s) i = Some b" "ac_internal b = Some u"
          using assms(1) by (auto simp: daemon_ok_def taps_ok_def)
        then show ?thesis using table fresh(1) by (intro exI [of _ i] exI [of _ b]) auto
      qed
    qed
    moreover have "\<forall>i j b b' u. map_of (channels s2) i = Some b \<longrightarrow> map_of (channels s2) j = Some b' \<longrightarrow>
        ac_internal b = Some u \<longrightarrow> ac_internal b' = Some u \<longrightarrow> i = j"
      using assms(1) unused Some unfolding table daemon_ok_def taps_ok_def by (auto split: if_splits)
    ultimately show ?thesis unfolding taps_ok_def by blast
  qed
  moreover have "\<forall>i b. map_of (channels s2) i = Some b \<longrightarrow> channel_ok F (cz s2) i b"
    using old new by (auto simp: s2(1) update_conv' split: if_splits)
  moreover have "dom (map_of (recordings s2)) \<subseteq> dom (map_of (channels s2))"
    using assms(1) c unfolding table by (auto simp: daemon_ok_def s2(1))
  ultimately have "daemon_ok F s2"
    using assms(1) keys c unfolding daemon_ok_def by (simp add: s2(1))
  then show ?thesis using s2 by simp
qed

lemma put_channel_ok:
  assumes "daemon_ok F s" "map_of (channels s) i = Some a" "ac_internal b = ac_internal a"
    and c: "map vc_id (taps c) = map vc_id (taps (cz s))" "next_tap_id c = next_tap_id (cz s)"
      "wideband_rate_hz c = wideband_rate_hz (cz s)" "\<And>u. ac_internal a \<noteq> Some u \<Longrightarrow> tap_rate c u = tap_rate (cz s) u"
    and "channel_ok F c i b"
  shows "daemon_ok F (put_channel i b (s\<lparr>cz := c\<rparr>))"
proof -
  let ?m = "map_of (channels s)" and ?s = "put_channel i b (s\<lparr>cz := c\<rparr>)"
  have keys: "map fst (AList.update i b (channels s)) = map fst (channels s)"
    using assms(2) by (simp add: update_keys) (metis domI dom_map_of_conv_image_fst)
  then have len: "length (AList.update i b (channels s)) = length (channels s)" by (metis length_map)
  have table: "map_of (channels ?s) = ?m(i \<mapsto> b)" by (simp add: put_channel_def update_conv')
  have live: "tap_rate c u \<noteq> None \<longleftrightarrow> tap_rate (cz s) u \<noteq> None" for u by (simp only: tap_rate_ids c(1))
  have taps: "taps_ok c (?m(i \<mapsto> b))"
    unfolding taps_ok_def
  proof (intro conjI)
    show "distinct (map vc_id (taps c))" using assms(1) by (simp only: c(1)) (simp add: daemon_ok_def taps_ok_def)
    show "\<forall>t. tap_rate c t \<noteq> None \<longrightarrow> t < next_tap_id c" using assms(1) unfolding live c(2) daemon_ok_def taps_ok_def by blast
    show "\<forall>t. tap_rate c t \<noteq> None \<longrightarrow> (\<exists>j a'. (?m(i \<mapsto> b)) j = Some a' \<and> ac_internal a' = Some t)"
    proof (intro allI impI)
      fix t
      assume "tap_rate c t \<noteq> None"
      then obtain j a' where "?m j = Some a'" "ac_internal a' = Some t"
        using assms(1) unfolding live daemon_ok_def taps_ok_def by blast
      then show "\<exists>j a'. (?m(i \<mapsto> b)) j = Some a' \<and> ac_internal a' = Some t"
        using assms(2,3) by (intro exI [of _ j] exI [of _ "if j = i then b else a'"]) auto
    qed
    have inj: "\<forall>j k a' b' t. ?m j = Some a' \<longrightarrow> ?m k = Some b' \<longrightarrow> ac_internal a' = Some t \<longrightarrow> ac_internal b' = Some t \<longrightarrow> j = k"
      using assms(1) by (simp add: daemon_ok_def taps_ok_def)
    show "\<forall>j k a' b' t. (?m(i \<mapsto> b)) j = Some a' \<longrightarrow> (?m(i \<mapsto> b)) k = Some b' \<longrightarrow> ac_internal a' = Some t \<longrightarrow> ac_internal b' = Some t \<longrightarrow> j = k"
      using inj assms(2,3) by (metis fun_upd_apply option.inject)
  qed
  have other: "channel_ok F c j a'" if "j \<noteq> i" "?m j = Some a'" for j a'
  proof -
    have "channel_ok F (cz s) j a'" using assms(1) that(2) by (simp add: daemon_ok_def)
    moreover have "tap_rate c t = tap_rate (cz s) t" if "ac_internal a' = Some t" for t
      using assms(1,2) that \<open>?m j = Some a'\<close> \<open>j \<noteq> i\<close> c(4) unfolding daemon_ok_def taps_ok_def by metis
    ultimately show ?thesis by (auto simp: channel_ok_def tap_decimation_def c(3) split: option.splits)
  qed
  have "dom (map_of (recordings s)) \<subseteq> dom (?m(i \<mapsto> b))" using assms(1) by (auto simp: daemon_ok_def)
  moreover have "\<forall>j a'. (?m(i \<mapsto> b)) j = Some a' \<longrightarrow> channel_ok F c j a'" using other assms(8) by auto
  ultimately show ?thesis
    using assms(1) taps keys len unfolding daemon_ok_def table by (simp add: put_channel_def)
qed

lemma subscribe_ok [inv_intros]:
  assumes "daemon_ok F s"
  shows "daemon_ok F (fst (subscribe F f_ceiling hw spec s))"
proof (cases "subscribe_existing_or_full spec s")
  case None
  obtain s1 r where p: "prepare_geometry F hw s = (s1, r)" by force
  note ok = prepare_ok [OF assms p]
  let ?spec = "if cs_kind spec = KAudio then spec\<lparr>cs_audio := Some (resolved_audio F spec)\<rparr> else spec"
  have same: "subscribe_existing_or_full ?spec s1 = subscribe_existing_or_full spec s1" "cs_id ?spec = cs_id spec"
    by (simp_all add: subscribe_existing_or_full_def split: option.split)
  show ?thesis
  proof (cases "(\<exists>e. r = Inl e) \<or> subscribe_existing_or_full spec s1 \<noteq> None \<or> validate_spec F f_ceiling spec s1 \<noteq> None")
    case True
    then show ?thesis using None p ok by (auto simp: subscribe_def split: sum.splits option.splits)
  next
    case False
    then have v: "validate_spec F f_ceiling spec s1 = None" "subscribe_existing_or_full spec s1 = None" and r: "r = Inr ()"
      by (cases r; auto)+
    have valid: "valid_for F ?spec (wideband_rate_hz (cz s1))" using valid_forI [OF v(1)] by (simp add: valid_for_def)
    obtain s2 q where c: "create_channel F ?spec s1 = (s2, q)" by force
    have sub: "fst (subscribe F f_ceiling hw spec s) = (case q of Inl e \<Rightarrow> s2 | Inr a \<Rightarrow> fst (install_channel (cs_id spec) a s2))"
      using None p r v c same(2) by (auto simp: subscribe_def Let_def split: sum.splits)
    show ?thesis
    proof (cases q)
      case (Inl e)
      then show ?thesis using sub created_channel [OF conjunct1 [OF ok] valid c] by simp
    next
      case (Inr a)
      obtain s3 q3 where i: "install_channel (cs_id ?spec) a s2 = (s3, q3)" by force
      show ?thesis
        using sub Inr i same install_ok [OF conjunct1 [OF ok] valid c [unfolded Inr] _ i] v(2) by simp
    qed
  qed
qed (use assms in \<open>simp add: subscribe_def\<close>)

lemma valid_channel_ok:
  assumes "channel_ok F c i a" "ac_internal a = Some t" "wideband_rate_hz c' = wideband_rate_hz c"
    and "valid_for F spec (wideband_rate_hz c)" "cs_id spec = cs_id (ac_spec a)" "cs_kind spec = cs_kind (ac_spec a)"
    and "tap_rate c' t = Some (tap_decimation c (cs_channel_sample_rate_hz spec))"
    and "pipeline_matches F (wideband_rate_hz c) spec p"
  shows "channel_ok F c' i (a\<lparr>ac_spec := spec, ac_pipeline := p\<rparr>)"
  using assms by (auto simp: channel_ok_def valid_for_def tap_decimation_def)

lemma configure_audio_ok [inv_intros]:
  assumes "daemon_ok F s"
  shows "daemon_ok F (fst (configure_audio F f_ceiling hw i mode parameters s))"
proof -
  obtain s1 r where p: "prepare_geometry F hw s = (s1, r)" by force
  note ok = prepare_ok [OF assms p]
  let ?next = "\<lambda>active. (let previous = resolved_audio F (ac_spec active);
      proposed = (ac_spec active)\<lparr>cs_demod_mode := Some mode, cs_audio := parameters\<rparr>; applied = resolved_audio F proposed;
      applied = (if parameters = None then applied\<lparr>output_sample_rate_hz := output_sample_rate_hz previous\<rparr> else applied)
    in applied)"
  let ?spec = "\<lambda>active. (ac_spec active)\<lparr>cs_demod_mode := Some mode, cs_audio := Some (?next active)\<rparr>"
  have "daemon_ok F (put_channel i (active\<lparr>ac_spec := ?spec active, ac_pipeline := AudioPipe mode (?next active)\<rparr>) s1)"
    if a: "map_of (channels s1) i = Some active" "ac_pipeline active = AudioPipe m q" "validate_spec F f_ceiling (?spec active) s1 = None"
    for active m q
  proof -
    have ch: "channel_ok F (cz s1) i active" using ok a(1) by (simp add: daemon_ok_def)
    obtain t where t: "ac_internal active = Some t" using ch a(2) by (auto simp: channel_ok_def split: option.splits)
    have kind: "cs_kind (ac_spec active) = KAudio"
      using ch t a(2) by (auto simp: channel_ok_def pipeline_matches_def split: pipeline_kind.splits)
    have "channel_ok F (cz s1) i (active\<lparr>ac_spec := ?spec active, ac_pipeline := AudioPipe mode (?next active)\<rparr>)"
    proof (rule valid_channel_ok [OF ch t _ valid_forI [OF a(3)]])
      show "tap_rate (cz s1) t = Some (tap_decimation (cz s1) (cs_channel_sample_rate_hz (?spec active)))"
        using ch t by (simp add: channel_ok_def)
      show "pipeline_matches F (wideband_rate_hz (cz s1)) (?spec active) (AudioPipe mode (?next active))"
        using kind by (simp add: pipeline_matches_def)
    qed simp_all
    then show ?thesis
      using put_channel_ok [OF conjunct1 [OF ok] a(1), of _ "cz s1"] by simp
  qed
  then show ?thesis
    using p ok by (auto simp: configure_audio_def Let_def split: sum.splits option.splits pipeline.splits)
qed

text \<open>Retuning cannot fail half way: once the tap is retuned, the pipeline accepts its rate.\<close>

lemma retune_active_cases:
  assumes ok: "daemon_ok F s" and a: "map_of (channels s) i = Some active"
    and valid: "valid_for F spec (wideband_rate_hz (cz s))"
    and spec: "cs_id spec = cs_id (ac_spec active)" "cs_kind spec = cs_kind (ac_spec active)"
      "cs_meteor_profile spec = cs_meteor_profile (ac_spec active)"
    and r: "retune_active F spec active s = (s', r)"
  shows "(\<exists>e. r = Inl e) \<and> s' = s \<or>
    (\<exists>p. r = Inr p \<and> daemon_ok F (put_channel i (active\<lparr>ac_spec := spec, ac_pipeline := p\<rparr>) s'))"
proof -
  have ch: "channel_ok F (cz s) i active" using ok a by (simp add: daemon_ok_def)
  show ?thesis
  proof (cases "ac_internal active")
    case None
    then have sp: "cs_kind (ac_spec active) = KSpectrum" "ac_pipeline active = SpectrumPipe" using ch by (simp_all add: channel_ok_def)
    then have "s' = s" "r = Inr SpectrumPipe" using r None by (auto simp: retune_active_def)
    moreover have "channel_ok F (cz s) i (active\<lparr>ac_spec := spec, ac_pipeline := SpectrumPipe\<rparr>)"
      using ch None sp spec by (simp add: channel_ok_def)
    ultimately show ?thesis using put_channel_ok [OF ok a, of _ "cz s"] by simp
  next
    case (Some t)
    let ?center = "absolute_center (wideband_center_hz (cz s)) (cs_center_offset_hz spec)"
    show ?thesis
    proof (cases "retune_tap F t ?center (cs_channel_sample_rate_hz spec) (cz s)")
      case (Inl e)
      then show ?thesis using r Some by (auto simp: retune_active_def Let_def)
    next
      case (Inr c)
      note f = retune_tap_fields [OF Inr]
      have pm: "pipeline_matches F (wideband_rate_hz (cz s)) (ac_spec active) (ac_pipeline active)" "cs_kind spec \<noteq> KSpectrum"
        using ch Some spec by (simp_all add: channel_ok_def)
      obtain p where p: "r = Inr p" "s' = s\<lparr>cz := c\<rparr>" "pipeline_matches F (wideband_rate_hz (cz s)) spec p"
      proof (cases "cs_kind spec")
        case KSpectrum
        then show thesis using pm by simp
      next
        case KAudio
        then obtain m q where "ac_pipeline active = AudioPipe m q" using pm spec by (auto simp: pipeline_matches_def)
        then show thesis using that r Some Inr KAudio by (auto simp: retune_active_def Let_def pipeline_matches_def)
      next
        case KAdsbPackets
        then obtain q where "ac_pipeline active = PacketPipe q" using pm spec by (auto simp: pipeline_matches_def)
        then show thesis using that r Some Inr KAdsbPackets valid
          by (auto simp: retune_active_def Let_def pipeline_matches_def valid_for_def)
      next
        case KLrptTelemetry
        then obtain q where q: "ac_pipeline active = TelemetryPipe q" "cs_meteor_profile spec = Some (tl_profile q)"
          using pm spec by (auto simp: pipeline_matches_def)
        then show thesis using that r Some Inr KLrptTelemetry valid f(6)
          by (auto simp: retune_active_def Let_def pipeline_matches_def valid_for_def telemetry_retune_def
              validate_mission_sampling_def tap_decimation_def)
      qed
      have "tap_rate c t = Some (tap_decimation (cz s) (cs_channel_sample_rate_hz spec))" using f(4) by simp
      then have "channel_ok F c i (active\<lparr>ac_spec := spec, ac_pipeline := p\<rparr>)"
        using valid_channel_ok [OF ch Some f(1) valid spec(1,2) _ p(3)] by simp
      then show ?thesis
        using put_channel_ok [OF ok a, of _ c] f(1-4) Some p(1,2) by simp
    qed
  qed
qed

lemma retune_configured_ok [inv_intros]:
  assumes "daemon_ok F s"
  shows "daemon_ok F (fst (retune_configured F f_ceiling hw i offset rate audio s))"
proof -
  obtain s1 r where p: "prepare_geometry F hw s = (s1, r)" by force
  note ok = prepare_ok [OF assms p]
  let ?spec = "\<lambda>active. let proposed = (ac_spec active)\<lparr>cs_center_offset_hz := offset, cs_channel_sample_rate_hz := rate\<rparr>
    in (case audio of None \<Rightarrow> proposed
        | Some (mode, parameters) \<Rightarrow> proposed\<lparr>cs_demod_mode := Some mode, cs_audio := Some parameters\<rparr>)"
  have retuned: "daemon_ok F (case q of Inl e \<Rightarrow> s2 | Inr p \<Rightarrow> put_channel i (active\<lparr>ac_spec := ?spec active, ac_pipeline := p\<rparr>) s2)"
    if "map_of (channels s1) i = Some active" "validate_spec F f_ceiling (?spec active) s1 = None"
      "retune_active F (?spec active) active s1 = (s2, q)" for active s2 q
  proof -
    have "cs_id (?spec active) = cs_id (ac_spec active)" "cs_kind (?spec active) = cs_kind (ac_spec active)"
      "cs_meteor_profile (?spec active) = cs_meteor_profile (ac_spec active)"
      by (simp_all add: Let_def split: option.split)
    from retune_active_cases [OF conjunct1 [OF ok] that(1) valid_forI [OF that(2)] this that(3)] ok
    show ?thesis by auto
  qed
  show ?thesis
  proof (cases "r = Inr () \<and> map_of (channels s1) i \<noteq> None")
    case False
    then show ?thesis using p ok by (cases r) (auto simp: retune_configured_def)
  next
    case True
    then obtain active where a: "map_of (channels s1) i = Some active" and r: "r = Inr ()" by auto
    obtain s2 q where q: "retune_active F (?spec active) active s1 = (s2, q)" by force
    have "fst (retune_configured F f_ceiling hw i offset rate audio s) =
        (if audio \<noteq> None \<and> \<not> is_audio_pipe (ac_pipeline active) \<or> validate_spec F f_ceiling (?spec active) s1 \<noteq> None then s1
         else case q of Inl e \<Rightarrow> s2 | Inr p \<Rightarrow> put_channel i (active\<lparr>ac_spec := ?spec active, ac_pipeline := p\<rparr>) s2)"
      using p r a q by (auto simp: retune_configured_def Let_def split: sum.splits option.splits)
    then show ?thesis using ok retuned [OF a _ q] by auto
  qed
qed

lemma set_receiver_position_ok [inv_intros]:
  assumes "daemon_ok F s" shows "daemon_ok F (fst (set_receiver_position F position s))"
proof -
  let ?f = "\<lambda>(i, a). (i, set_pipeline_position position a)"
  have table: "map_of (map ?f xs) i = map_option (set_pipeline_position position) (map_of xs i)"
    for xs :: "(channel_id \<times> 'a active_channel) list" and i
    by (induction xs) auto
  have int: "ac_internal (set_pipeline_position position a) = ac_internal a" "ac_spec (set_pipeline_position position a) = ac_spec a" for a :: "'a active_channel"
    by (simp_all add: set_pipeline_position_def split: pipeline.split)
  have ch: "channel_ok F c i (set_pipeline_position position a)" if "channel_ok F c i a" for c i a
    using that unfolding channel_ok_def int
    by (auto simp: set_pipeline_position_def pipeline_matches_def split: option.splits pipeline.splits pipeline_kind.splits)
  have fst: "fst \<circ> ?f = fst" by auto
  have "taps_ok (cz s) (map_of (map ?f (channels s)))"
    using assms int unfolding daemon_ok_def taps_ok_def table by (auto simp: option.map_comp) (metis+)
  moreover have "\<forall>i a. map_of (map ?f (channels s)) i = Some a \<longrightarrow> channel_ok F (cz s) i a"
    using assms ch unfolding table by (auto simp: daemon_ok_def)
  moreover have "dom (map_of (recordings s)) \<subseteq> dom (map_of (map ?f (channels s)))"
  proof -
    have "dom (map_of (map ?f (channels s))) = dom (map_of (channels s))" unfolding dom_def table by simp
    then show ?thesis using assms by (simp only: daemon_ok_def)
  qed
  ultimately have "daemon_ok F (s\<lparr>receiver_position := position, channels := map ?f (channels s)\<rparr>)"
    using assms unfolding daemon_ok_def by (simp add: fst)
  then show ?thesis using assms by (simp add: set_receiver_position_def)
qed

text \<open>Changes of the table of recordings alone.\<close>

lemma recordings_ok:
  assumes "daemon_ok F s" "distinct (map fst rs)" "dom (map_of rs) \<subseteq> dom (map_of (channels s))"
  shows "daemon_ok F (s\<lparr>recordings := rs\<rparr>)"
  using assms by (simp add: daemon_ok_def)

lemma delete_recording_ok: "daemon_ok F s \<Longrightarrow> daemon_ok F (s\<lparr>recordings := AList.delete i (recordings s)\<rparr>)"
  by (rule recordings_ok) (auto simp: daemon_ok_def delete_conv' distinct_delete)

lemma update_recording_ok:
  "daemon_ok F s \<Longrightarrow> map_of (channels s) i \<noteq> None \<Longrightarrow> daemon_ok F (s\<lparr>recordings := AList.update i r (recordings s)\<rparr>)"
  by (rule recordings_ok) (auto simp: daemon_ok_def update_conv' distinct_update split: if_splits)

lemma manager_start_ok:
  assumes "daemon_ok F s" "map_of (channels s) i \<noteq> None"
  shows "daemon_ok F (fst (manager_start io_ok i format center s))"
  using assms update_recording_ok [OF delete_recording_ok, of F s i i] delete_recording_ok
  by (auto simp: manager_start_def Let_def)

lemma start_recording_ok [inv_intros]: "daemon_ok F s \<Longrightarrow> daemon_ok F (fst (start_recording io_ok i format s))"
  by (auto simp: start_recording_def intro!: manager_start_ok split: option.split)

lemma stop_recording_ok [inv_intros]:
  assumes "daemon_ok F s" shows "daemon_ok F (fst (stop_recording failure i s))"
proof (cases "map_of (recordings s) i")
  case (Some r)
  then have "i \<in> dom (map_of (recordings s))" by (rule domI)
  moreover have "dom (map_of (recordings s)) \<subseteq> dom (map_of (channels s))" using assms by (simp add: daemon_ok_def)
  ultimately have "map_of (channels s) i \<noteq> None" by blast
  then show ?thesis
    using assms Some update_recording_ok [OF delete_recording_ok, of F s i i] delete_recording_ok
    by (auto simp: stop_recording_def Let_def)
qed (use assms in \<open>simp add: stop_recording_def\<close>)

lemma delete_keys: "map fst (AList.delete i xs) = filter (\<lambda>k. k \<noteq> i) (map fst xs)"
  by (induction xs) auto

lemma removed_fields:
  "cz (forget_finished i s) = cz s" "channels (forget_finished i s) = channels s"
  "next_client_channel (forget_finished i s) = next_client_channel s"
  "\<not> is_recording i s \<Longrightarrow> recordings (forget_finished i s) = AList.delete i (recordings s)"
  by (auto simp: forget_finished_def is_recording_def map_of_eq_None_iff delete_idem split: option.splits)

lemma remove_channel_ok [inv_intros]:
  assumes "daemon_ok F s" shows "daemon_ok F (fst (remove_channel i s))"
proof (cases "is_recording i s \<or> map_of (channels s) i = None")
  case True
  then show ?thesis using assms by (auto simp: remove_channel_def split: option.splits)
next
  case False
  then obtain a where a: "map_of (channels s) i = Some a" and rec: "\<not> is_recording i s" by auto
  let ?m = "map_of (channels s)" and ?s = "fst (remove_channel i s)"
  have ch: "channel_ok F (cz s) i a" using assms a by (simp add: daemon_ok_def)
  have table: "channels ?s = AList.delete i (channels s)" "recordings ?s = AList.delete i (recordings s)"
    "next_client_channel ?s = next_client_channel s"
    "cz ?s = (case ac_internal a of None \<Rightarrow> cz s | Some t \<Rightarrow> remove_tap t (cz s))"
    using a rec removed_fields [of i "s\<lparr>channels := AList.delete i (channels s)\<rparr>"]
    by (auto simp: remove_channel_def drop_tap_def is_recording_def split: option.splits)
  have inj: "\<forall>j k a' b' t. ?m j = Some a' \<longrightarrow> ?m k = Some b' \<longrightarrow> ac_internal a' = Some t \<longrightarrow> ac_internal b' = Some t \<longrightarrow> j = k"
    using assms by (simp add: daemon_ok_def taps_ok_def)
  have rate: "tap_rate (cz ?s) u = (if ac_internal a = Some u then None else tap_rate (cz s) u)" for u
    using table(4) by (auto split: option.splits)
  have fields: "wideband_rate_hz (cz ?s) = wideband_rate_hz (cz s)" "next_tap_id (cz ?s) = next_tap_id (cz s)"
    using table(4) by (auto split: option.splits)
  have "taps_ok (cz ?s) (?m(i := None))"
    unfolding taps_ok_def
  proof (intro conjI)
    show "distinct (map vc_id (taps (cz ?s)))"
      using assms table(4) by (auto simp: daemon_ok_def taps_ok_def ids_remove_tap split: option.splits)
    show "\<forall>t. tap_rate (cz ?s) t \<noteq> None \<longrightarrow> t < next_tap_id (cz ?s)"
      using assms unfolding rate fields daemon_ok_def taps_ok_def by auto
    show "\<forall>t. tap_rate (cz ?s) t \<noteq> None \<longrightarrow> (\<exists>j b. (?m(i := None)) j = Some b \<and> ac_internal b = Some t)"
    proof (intro allI impI)
      fix t
      assume "tap_rate (cz ?s) t \<noteq> None"
      then have t: "tap_rate (cz s) t \<noteq> None" "ac_internal a \<noteq> Some t" by (auto simp: rate split: if_splits)
      then obtain j b where "?m j = Some b" "ac_internal b = Some t" using assms by (auto simp: daemon_ok_def taps_ok_def)
      then show "\<exists>j b. (?m(i := None)) j = Some b \<and> ac_internal b = Some t"
        using t a by (intro exI [of _ j] exI [of _ b]) auto
    qed
    show "\<forall>j k a' b' t. (?m(i := None)) j = Some a' \<longrightarrow> (?m(i := None)) k = Some b' \<longrightarrow> ac_internal a' = Some t \<longrightarrow> ac_internal b' = Some t \<longrightarrow> j = k"
      using inj by (metis fun_upd_apply option.distinct(1))
  qed
  moreover have "\<forall>j b. (?m(i := None)) j = Some b \<longrightarrow> channel_ok F (cz ?s) j b"
  proof (intro allI impI)
    fix j b
    assume "(?m(i := None)) j = Some b"
    then have j: "j \<noteq> i" "?m j = Some b" by (auto split: if_splits)
    then have "channel_ok F (cz s) j b" using assms by (simp add: daemon_ok_def)
    moreover have "tap_rate (cz ?s) t = tap_rate (cz s) t" if "ac_internal b = Some t" for t
      using inj a j that unfolding rate by (metis)
    ultimately show "channel_ok F (cz ?s) j b" by (auto simp: channel_ok_def tap_decimation_def fields split: option.splits)
  qed
  moreover have "distinct (map fst (channels ?s))" "length (channels ?s) \<le> MAX_CHANNELS" "distinct (map fst (recordings ?s))"
    using assms distinct_delete [of "channels s" i] distinct_delete [of "recordings s" i] length_delete_le [of i "channels s"]
    unfolding table daemon_ok_def by simp_all
  moreover have "dom (map_of (recordings ?s)) \<subseteq> dom (?m(i := None))"
    using assms unfolding table by (auto simp: daemon_ok_def delete_conv')
  ultimately show ?thesis
    using assms unfolding daemon_ok_def by (simp add: table delete_conv' fields)
qed

lemma release_ok [inv_intros]:
  assumes "daemon_ok F s" shows "daemon_ok F (release_client_channels c s)"
proof -
  have "daemon_ok F (foldl (\<lambda>s i. if channel_exists i s then fst (remove_channel i s) else s) s is)" if "daemon_ok F s" for s "is"
    using that by (induction "is" arbitrary: s) (simp_all add: remove_channel_ok)
  then show ?thesis using assms by (simp add: release_client_channels_def)
qed

lemma tick_ok [inv_intros]:
  assumes "daemon_ok F s" "channelizer_tick F b (cz s) (epochs s) = (c, ep, outs)"
  shows "daemon_ok F (s\<lparr>cz := c, epochs := ep\<rparr>)"
  by (rule daemon_ok_frame [OF assms(1)]) (simp_all add: channelizer_tick_fields [OF assms(2)])

lemma allocated:
  assumes "unat CLIENT_CHANNEL_START \<le> next_client_channel s" "next_client_channel s < 2 ^ 32"
    and "allocate_client_channels s = (s', r)"
  shows "s' = s\<lparr>next_client_channel := next_client_channel s'\<rparr> \<and> next_client_channel s \<le> next_client_channel s' \<and>
    next_client_channel s' < 2 ^ 32 \<and>
    (\<forall>c. r = Inr c \<longrightarrow> next_client_channel s + 4 \<le> next_client_channel s' \<and> c = client_channels_at (next_client_channel s' - 4) \<and>
      (\<forall>i \<in> set (client_channels_ids c). \<not> channel_exists i s))"
  using assms
proof (induction s arbitrary: s' r rule: allocate_client_channels.induct)
  case (1 s)
  let ?base = "next_client_channel s" and ?s = "s\<lparr>next_client_channel := next_client_channel s + 4\<rparr>"
  have ex: "channel_exists i ?s = channel_exists i s" for i by (simp add: channel_exists_def)
  consider (full) "2 ^ 32 \<le> ?base + 4" | (found) "?base + 4 < 2 ^ 32" "\<forall>i \<in> set (client_channels_ids (client_channels_at ?base)). \<not> channel_exists i s"
    | (again) "?base + 4 < 2 ^ 32" "\<not> (\<forall>i \<in> set (client_channels_ids (client_channels_at ?base)). \<not> channel_exists i s)"
    by linarith
  then show ?case
  proof cases
    case full
    then show ?thesis using "1.prems" by (subst (asm) allocate_client_channels.simps) (auto simp: Let_def)
  next
    case found
    then have "s' = ?s" "r = Inr (client_channels_at ?base)"
      using "1.prems"(3) by (subst (asm) allocate_client_channels.simps, simp add: Let_def ex)+
    then show ?thesis using found by simp
  next
    case again
    then have r: "allocate_client_channels ?s = (s', r)"
      using "1.prems"(3) by (subst (asm) allocate_client_channels.simps) (auto simp: Let_def ex split: if_splits)
    have "unat CLIENT_CHANNEL_START \<le> next_client_channel ?s" "next_client_channel ?s < 2 ^ 32"
      using "1.prems"(1) again(1) by simp_all
    from "1.IH" [OF refl _ refl refl _ this r] again
    show ?thesis by (auto simp: ex)
  qed
qed

lemma client_ids_at:
  assumes "n + 4 \<le> 2 ^ 32" "i \<in> set (client_channels_ids (client_channels_at n))"
  shows "n \<le> unat i \<and> unat i < n + 4"
proof -
  have un: "n \<le> unat (of_nat (n + k) :: u32) \<and> unat (of_nat (n + k) :: u32) < n + 4" if "k < 4" for k
  proof -
    have "n + k < 2 ^ LENGTH(32)" using that assms(1) by simp
    then have "unat (of_nat (n + k) :: u32) = n + k" by (simp only: unsigned_of_nat take_bit_nat_eq_self of_nat_id)
    then show ?thesis using that by (simp only:) simp
  qed
  have "i = of_nat (n + 0) \<or> i = of_nat (n + 1) \<or> i = of_nat (n + 2) \<or> i = of_nat (n + 3)"
    using assms(2) by (simp only: client_channels_ids_def client_channels_at_def client_channels.simps list.set insert_iff
        empty_iff add_0_right simp_thms)
  then show ?thesis by (elim disjE; hypsubst; intro un; simp)
qed

lemma allocate_ok [inv_intros]: "daemon_ok F s \<Longrightarrow> daemon_ok F (fst (allocate_client_channels s))"
proof -
  assume ok: "daemon_ok F s"
  obtain s' r where a: "allocate_client_channels s = (s', r)" by force
  have "unat CLIENT_CHANNEL_START \<le> next_client_channel s" "next_client_channel s < 2 ^ 32" using ok by (simp_all add: daemon_ok_def)
  note al = allocated [OF this a]
  then have "s' = s\<lparr>next_client_channel := next_client_channel s'\<rparr>" by blast
  moreover have "daemon_ok F (s\<lparr>next_client_channel := n\<rparr>)" if "next_client_channel s \<le> n" "n < 2 ^ 32" for n
    using ok that by (simp add: daemon_ok_def)
  ultimately show ?thesis using al a by (metis fst_conv)
qed

section \<open>The running daemon\<close>

inductive daemon_step ::
    "('f, 'k, 'c) flops \<Rightarrow> ('f \<Rightarrow> nat) \<Rightarrow> ('f, 'k, 'c) daemon \<Rightarrow> ('f, 'k, 'c) daemon \<Rightarrow> bool" for F f_ceiling where
  allocate: "daemon_step F f_ceiling s (fst (allocate_client_channels s))"
| frequency: "daemon_step F f_ceiling s (fst (set_frequency F hw s))"
| rate: "daemon_step F f_ceiling s (fst (set_sample_rate F hw hz s))"
| position: "daemon_step F f_ceiling s (fst (set_receiver_position F p s))"
| subscribe: "daemon_step F f_ceiling s (fst (subscribe F f_ceiling hw spec s))"
| configure: "daemon_step F f_ceiling s (fst (configure_audio F f_ceiling hw i mode parameters s))"
| retune: "daemon_step F f_ceiling s (fst (retune_configured F f_ceiling hw i offset hz audio s))"
| remove: "daemon_step F f_ceiling s (fst (remove_channel i s))"
| release: "daemon_step F f_ceiling s (release_client_channels c s)"
| recording: "daemon_step F f_ceiling s (fst (start_recording io_ok i format s))"
| stop: "daemon_step F f_ceiling s (fst (stop_recording failure i s))"
| ended: "map_of (recordings s) i = Some r \<Longrightarrow>
    daemon_step F f_ceiling s (s\<lparr>recordings := AList.update i (r\<lparr>re_alive := False, re_error := e\<rparr>) (recordings s)\<rparr>)"
| tick: "channelizer_tick F b (cz s) (epochs s) = (c, ep, outs) \<Longrightarrow> daemon_step F f_ceiling s (s\<lparr>cz := c, epochs := ep\<rparr>)"

definition daemon_start :: "('f, 'k, 'c) daemon \<Rightarrow> bool" where
  "daemon_start s \<longleftrightarrow> (\<exists>ep center rate. s = daemon_new ep center rate)"

lemma daemon_start_ok: "daemon_start s \<Longrightarrow> daemon_ok F s"
  by (auto simp: daemon_start_def daemon_new_def daemon_ok_def taps_ok_def channelizer_new_def tap_rate_def
      CLIENT_CHANNEL_START_def MAX_CHANNELS_def)

lemma ended_ok:
  assumes "daemon_ok F s" "map_of (recordings s) i = Some r"
  shows "daemon_ok F (s\<lparr>recordings := AList.update i r' (recordings s)\<rparr>)"
proof (rule update_recording_ok [OF assms(1)])
  have "i \<in> dom (map_of (recordings s))" using assms(2) by (rule domI)
  moreover have "dom (map_of (recordings s)) \<subseteq> dom (map_of (channels s))" using assms(1) by (simp add: daemon_ok_def)
  ultimately show "map_of (channels s) i \<noteq> None" by blast
qed

interpretation daemon: guarded_system daemon_start "daemon_step F f_ceiling" "daemon_ok F"
proof unfold_locales
  fix s s' :: "('a, 'b, 'c) daemon"
  show "daemon_ok F s \<Longrightarrow> daemon_step F f_ceiling s s' \<Longrightarrow> daemon_ok F s'"
    by (erule daemon_step.cases) (simp_all only: inv_intros ended_ok)
qed (rule daemon_start_ok)

text \<open>The counter of client channels only grows.\<close>

lemma next_client_simps [simp]:
  "next_client_channel (drop_tap t s) = next_client_channel s"
  "next_client_channel (fst (set_rate hz s)) = next_client_channel s"
  by (simp_all add: drop_tap_def set_rate_def split: option.split sum.split)

lemma next_client_set_rate: "set_rate hz s = (s', r) \<Longrightarrow> next_client_channel s' = next_client_channel s"
  by (auto simp: set_rate_def split: sum.splits)

lemma next_client_prepare: "prepare_geometry F hw s = (s', r) \<Longrightarrow> next_client_channel s' = next_client_channel s"
  by (auto simp: prepare_geometry_def reconcile_pending_def Let_def dest: next_client_set_rate
      split: option.splits geometry_change.splits if_splits prod.splits sum.splits)

lemma next_client_create: "create_channel F spec s = (s', r) \<Longrightarrow> next_client_channel s' = next_client_channel s"
  by (auto simp: create_channel_def add_virtual_channel_def Let_def split: if_splits prod.splits sum.splits)

lemma next_client_install: "next_client_channel (fst (install_channel i a s)) = next_client_channel s"
  by (auto simp: install_channel_def Let_def split: option.splits if_splits)

lemma next_client_retune_active: "retune_active F spec a s = (s', r) \<Longrightarrow> next_client_channel s' = next_client_channel s"
  by (auto simp: retune_active_def Let_def split: option.splits sum.splits pipeline.splits)

lemma next_client_put [simp]: "next_client_channel (put_channel i a s) = next_client_channel s"
  by (simp add: put_channel_def)

lemma next_client_remove: "next_client_channel (fst (remove_channel i s)) = next_client_channel s"
  by (simp add: remove_channel_def removed_fields split: option.split)

lemma next_client_subscribe: "next_client_channel (fst (subscribe F f_ceiling hw spec s)) = next_client_channel s"
  by (auto simp: subscribe_def Let_def next_client_install dest!: next_client_prepare next_client_create
      split: option.split sum.split prod.split)

lemma next_client_geometry:
  "next_client_channel (fst (set_frequency F hw s)) = next_client_channel s"
  "next_client_channel (fst (set_sample_rate F hw hz s)) = next_client_channel s"
  "next_client_channel (fst (configure_audio F f_ceiling hw i mode parameters s)) = next_client_channel s"
  "next_client_channel (fst (retune_configured F f_ceiling hw i offset rate audio s)) = next_client_channel s"
  by (auto simp: set_frequency_def set_sample_rate_def configure_audio_def retune_configured_def Let_def
      dest!: next_client_prepare next_client_set_rate next_client_retune_active
      split: sum.split ingest_reply.split if_splits prod.split option.split pipeline.split)

lemma next_client_rest:
  "next_client_channel (fst (set_receiver_position F p s)) = next_client_channel s"
  "next_client_channel (fst (start_recording io_ok i format s)) = next_client_channel s"
  "next_client_channel (fst (stop_recording failure i s)) = next_client_channel s"
  "next_client_channel (release_client_channels c s) = next_client_channel s"
proof -
  have "next_client_channel (foldl (\<lambda>s i. if channel_exists i s then fst (remove_channel i s) else s) s is) = next_client_channel s" for s "is"
    by (induction "is" arbitrary: s) (simp_all add: next_client_remove)
  then show "next_client_channel (release_client_channels c s) = next_client_channel s" by (simp add: release_client_channels_def)
qed (auto simp: set_receiver_position_def start_recording_def manager_start_def stop_recording_def Let_def split: option.split)

lemma next_client_mono: "daemon_ok F s \<Longrightarrow> daemon_step F f_ceiling s s' \<Longrightarrow> next_client_channel s \<le> next_client_channel s'"
proof (erule daemon_step.cases)
  fix t :: "('a, 'b, 'c) daemon"
  assume "daemon_ok F s" "s = t" "s' = fst (allocate_client_channels t)"
  then show "next_client_channel s \<le> next_client_channel s'"
    using allocated [of t s' "snd (allocate_client_channels t)"] by (simp add: daemon_ok_def)
qed (simp_all only: next_client_remove next_client_subscribe next_client_geometry next_client_rest, simp_all)

section \<open>Examples\<close>

definition example_status :: "nat \<Rightarrow> hardware_status" where
  "example_status hz = \<lparr>hs_connected = True, hs_source_kind = ''synthetic'', hs_frequency_hz = hz, hs_sample_rate_hz = 2400000,
     hs_gain_db = 0, hs_requested_gain_db = None, hs_gain_mode = None, hs_error = None\<rparr>"

definition example_hw :: "nat \<Rightarrow> ingest_reply \<Rightarrow> hardware" where
  "example_hw hz r = \<lparr>receipt_outcome = (\<lambda>_. None), status_at_reconcile = example_status hz,
     status_at_prepare = example_status hz, hw_reply = r, status_at_reply = example_status hz\<rparr>"

definition example_adsb :: channel_spec where
  "example_adsb = \<lparr>cs_meteor_profile = None, cs_id = 7, cs_center_offset_hz = 0, cs_channel_sample_rate_hz = 2400000,
     cs_audio = None, cs_kind = KAdsbPackets, cs_demod_mode = None\<rparr>"

definition example_daemon :: "(int, int, int) daemon" where
  "example_daemon = fst (subscribe plain_ops nat (example_hw 100000000 Acknowledged) example_adsb (daemon_new 1 100000000 2400000))"

lemma example_daemon_reachable: "reach daemon_start (daemon_step plain_ops nat) example_daemon"
proof -
  have "reach daemon_start (daemon_step plain_ops nat) (daemon_new 1 100000000 2400000 :: (int, int, int) daemon)"
    by (rule reach.start) (auto simp: daemon_start_def)
  then show ?thesis unfolding example_daemon_def by (rule reach.extend) (rule daemon_step.subscribe)
qed

lemmas example_defs = example_status_def example_hw_def example_adsb_def subscribe_def subscribe_existing_or_full_def
  prepare_geometry_def reconcile_pending_def daemon_new_def channelizer_new_def MAX_CHANNELS_def validate_spec_def
  validate_kind_def abs_or_max_def sat_i64_def I64_MAX_def as_i64_def absolute_center_def create_channel_def
  add_virtual_channel_def add_tap_def outside_span_def tune_offset_def plain_ops_def virtual_channel_new_def
  new_capture_epoch_def pipeline_on_tap_def install_channel_def tap_decimation_def

lemma example_daemon_channel:
  "\<exists>a. map_of (channels example_daemon) 7 = Some a \<and> ac_internal a = Some 0 \<and> ac_spec a = example_adsb \<and> ac_pipeline a = PacketPipe None"
  "channel_center_hz (cz example_daemon) 0 = Some 100000000"
  "pending_change example_daemon = None" "wideband_center_hz (cz example_daemon) = 100000000"
  "wideband_rate_hz (cz example_daemon) = 2400000" "recordings example_daemon = []"
  unfolding example_daemon_def example_defs
  by (simp_all add: channel_center_hz_def find_tap_def)

section \<open>Properties\<close>

lemma live_taps:
  assumes "daemon_ok F s"
  shows "set (map vc_id (taps (cz s))) = {t. \<exists>i a. map_of (channels s) i = Some a \<and> ac_internal a = Some t}"
proof (intro set_eqI iffI)
  fix t
  assume "t \<in> set (map vc_id (taps (cz s)))"
  then have "tap_rate (cz s) t \<noteq> None" by (simp only: tap_rate_ids)
  then show "t \<in> {t. \<exists>i a. map_of (channels s) i = Some a \<and> ac_internal a = Some t}"
    using assms unfolding daemon_ok_def taps_ok_def by blast
next
  fix t
  assume "t \<in> {t. \<exists>i a. map_of (channels s) i = Some a \<and> ac_internal a = Some t}"
  then obtain i a where a: "map_of (channels s) i = Some a" "ac_internal a = Some t" by blast
  then have "channel_ok F (cz s) i a" using assms by (simp add: daemon_ok_def)
  then have "tap_rate (cz s) t \<noteq> None" using a(2) by (simp add: channel_ok_def)
  then show "t \<in> set (map vc_id (taps (cz s)))" by (simp only: tap_rate_ids)
qed

text \<open>C2: No tap leaks and no channel loses its tap. In every state the daemon reaches, by any sequence of
  requests, failed ones included, hardware answers and sample blocks, it has at most 32 channels, the
  virtual taps that run are exactly those of the channels in the table, one each, and every recording
  belongs to a channel of the table.\<close>

theorem daemon_table_and_taps:
  assumes "reach daemon_start (daemon_step F f_ceiling) s"
  shows "length (channels s) \<le> 32 \<and> distinct (map fst (channels s)) \<and> distinct (map vc_id (taps (cz s))) \<and>
    set (map vc_id (taps (cz s))) = {t. \<exists>i a. map_of (channels s) i = Some a \<and> ac_internal a = Some t} \<and>
    (\<forall>i j a b t. map_of (channels s) i = Some a \<longrightarrow> map_of (channels s) j = Some b \<longrightarrow> ac_internal a = Some t \<longrightarrow>
      ac_internal b = Some t \<longrightarrow> i = j) \<and>
    dom (map_of (recordings s)) \<subseteq> dom (map_of (channels s))"
proof -
  note ok = daemon.reach_inv [OF assms]
  have t: "taps_ok (cz s) (map_of (channels s))" using ok by (simp only: daemon_ok_def)
  note facts = ok [unfolded daemon_ok_def MAX_CHANNELS_def] t [unfolded taps_ok_def] live_taps [OF ok]
  show ?thesis by (insert facts, elim conjE, intro conjI; assumption)
qed

theorem daemon_table_and_taps_witness:
  "set (map vc_id (taps (cz example_daemon))) =
     {t. \<exists>i a. map_of (channels example_daemon) i = Some a \<and> ac_internal a = Some t} \<and> 0 \<in> set (map vc_id (taps (cz example_daemon)))"
proof -
  note inv = daemon_table_and_taps [OF example_daemon_reachable]
  have eq: "set (map vc_id (taps (cz example_daemon))) =
     {t. \<exists>i a. map_of (channels example_daemon) i = Some a \<and> ac_internal a = Some t}" using inv by blast
  obtain a where "map_of (channels example_daemon) 7 = Some a" "ac_internal a = Some 0" using example_daemon_channel(1) by blast
  then have "0 \<in> set (map vc_id (taps (cz example_daemon)))" unfolding eq by blast
  then show ?thesis using eq by simp
qed



text \<open>While the outcome of a hardware geometry change is unknown, nothing that depends on the geometry
  happens: retunings, reconfigurations and the creation of channels are refused, and leave the state as
  it is.\<close>

definition receipt_of :: "geometry_change \<Rightarrow> nat" where
  "receipt_of g = (case g of FrequencyChange r \<Rightarrow> r | SampleRateChange r \<Rightarrow> r)"

lemma geometry_paused:
  assumes "pending_change s = Some g" "receipt_outcome hw (receipt_of g) = None"
  shows "set_frequency F hw s = (s, Inl GeometryPending) \<and> set_sample_rate F hw hz s = (s, Inl GeometryPending) \<and>
    configure_audio F f_ceiling hw i mode parameters s = (s, Inl GeometryPending) \<and>
    retune_configured F f_ceiling hw i offset rate audio s = (s, Inl GeometryPending) \<and>
    fst (subscribe F f_ceiling hw spec s) = s \<and>
    (map_of (channels s) (cs_id spec) = None \<longrightarrow> (\<exists>e. snd (subscribe F f_ceiling hw spec s) = Inl e))"
proof -
  have "prepare_geometry F hw s = (s, Inl GeometryPending)"
    using assms by (simp add: prepare_geometry_def reconcile_pending_def receipt_of_def)
  then show ?thesis
    by (auto simp: set_frequency_def set_sample_rate_def configure_audio_def retune_configured_def subscribe_def
        subscribe_existing_or_full_def split: option.split)
qed

theorem geometry_paused_witness:
  "set_sample_rate plain_ops (example_hw 0 Refused) 1 (example_daemon\<lparr>pending_change := Some (FrequencyChange 3)\<rparr>) =
     (example_daemon\<lparr>pending_change := Some (FrequencyChange 3)\<rparr>, Inl GeometryPending)"
proof -
  have "pending_change (example_daemon\<lparr>pending_change := Some (FrequencyChange 3)\<rparr>) = Some (FrequencyChange 3)"
    "receipt_outcome (example_hw 0 Refused) (receipt_of (FrequencyChange 3)) = None"
    by (simp_all add: example_hw_def)
  from geometry_paused [OF this, of plain_ops 1] show ?thesis by simp
qed

text \<open>C7: A request that fails has no effect: a refused retuning or reconfiguration leaves the whole state, a
  refused subscription the table of channels and the running taps, even when the failure comes after
  the tap was created or retuned.\<close>

theorem failed_requests_change_nothing:
  assumes "reach daemon_start (daemon_step F f_ceiling) s" "pending_change s = None"
  shows "(\<forall>e. snd (configure_audio F f_ceiling hw i mode parameters s) = Inl e \<longrightarrow>
      fst (configure_audio F f_ceiling hw i mode parameters s) = s) \<and>
    (\<forall>e. snd (retune_configured F f_ceiling hw i offset rate audio s) = Inl e \<longrightarrow>
      fst (retune_configured F f_ceiling hw i offset rate audio s) = s) \<and>
    (\<forall>e. snd (subscribe F f_ceiling hw spec s) = Inl e \<longrightarrow>
      channels (fst (subscribe F f_ceiling hw spec s)) = channels s \<and>
      set (map vc_id (taps (cz (fst (subscribe F f_ceiling hw spec s))))) = set (map vc_id (taps (cz s))))"
proof (intro conjI allI impI)
  note ok = daemon.reach_inv [OF assms(1)]
  have "fst (prepare_geometry F hw s) = s" using assms(2) by (simp add: prepare_geometry_def reconcile_pending_def)
  then obtain r where p: "prepare_geometry F hw s = (s, r)" by (metis prod.collapse)
  show "fst (configure_audio F f_ceiling hw i mode parameters s) = s"
    if "snd (configure_audio F f_ceiling hw i mode parameters s) = Inl e" for e
    using that p by (auto simp: configure_audio_def Let_def split: sum.splits option.splits pipeline.splits)
  show "fst (retune_configured F f_ceiling hw i offset rate audio s) = s"
    if f: "snd (retune_configured F f_ceiling hw i offset rate audio s) = Inl e" for e
  proof -
    have same: "s' = s" if "map_of (channels s) i = Some active" "validate_spec F f_ceiling sp s = None"
      "cs_id sp = cs_id (ac_spec active)" "cs_kind sp = cs_kind (ac_spec active)"
      "cs_meteor_profile sp = cs_meteor_profile (ac_spec active)"
      "retune_active F sp active s = (s', Inl e)" for active sp s' e
      using retune_active_cases [OF ok that(1) valid_forI [OF that(2)] that(3-6)] by simp
    show ?thesis
      using f p by (auto simp: retune_configured_def Let_def intro: same split: sum.splits option.splits if_splits prod.splits)
  qed
  fix e
  assume e: "snd (subscribe F f_ceiling hw spec s) = Inl e"
  let ?s = "fst (subscribe F f_ceiling hw spec s)"
  let ?spec = "if cs_kind spec = KAudio then spec\<lparr>cs_audio := Some (resolved_audio F spec)\<rparr> else spec"
  have ok': "daemon_ok F ?s" by (rule subscribe_ok [OF ok])
  show "channels ?s = channels s"
  proof (cases "r = Inr () \<and> subscribe_existing_or_full spec s = None \<and> validate_spec F f_ceiling spec s = None")
    case False
    then show ?thesis using p by (cases r) (auto simp: subscribe_def split: option.splits)
  next
    case True
    then have valid: "valid_for F ?spec (wideband_rate_hz (cz s))"
      using valid_forI [of F f_ceiling spec s] by (simp add: valid_for_def)
    obtain s2 q where c: "create_channel F ?spec s = (s2, q)" by force
    have "subscribe_existing_or_full ?spec s = subscribe_existing_or_full spec s"
      by (simp add: subscribe_existing_or_full_def split: option.split)
    then have id: "cs_id ?spec = cs_id spec" "subscribe_existing_or_full ?spec s = None" using True by simp_all
    show ?thesis
    proof (cases q)
      case (Inl e')
      then show ?thesis using p True c id(1) created_channel [OF ok valid c] by (simp add: subscribe_def Let_def)
    next
      case (Inr a)
      obtain s3 q3 where i: "install_channel (cs_id ?spec) a s2 = (s3, q3)" by force
      have "q3 = Inr (ac_pipeline a, True)" using install_ok [OF ok valid c [unfolded Inr] id(2) i] by simp
      then show ?thesis using e p True c id(1) Inr i by (simp add: subscribe_def Let_def)
    qed
  qed
  then show "set (map vc_id (taps (cz ?s))) = set (map vc_id (taps (cz s)))"
    by (simp only: live_taps [OF ok] live_taps [OF ok'])
qed

theorem failed_requests_change_nothing_witness:
  "snd (retune_configured plain_ops nat (example_hw 100000000 Acknowledged) 7 5 2400000 None example_daemon) = Inl OutsideWideband \<and>
   fst (retune_configured plain_ops nat (example_hw 100000000 Acknowledged) 7 5 2400000 None example_daemon) = example_daemon"
proof -
  obtain a where a: "map_of (channels example_daemon) 7 = Some a" "ac_spec a = example_adsb" using example_daemon_channel(1) by blast
  have r: "snd (retune_configured plain_ops nat (example_hw 100000000 Acknowledged) 7 5 2400000 None example_daemon) = Inl OutsideWideband"
    using a example_daemon_channel(3,5)
    by (simp add: retune_configured_def prepare_geometry_def reconcile_pending_def example_hw_def example_status_def
        validate_spec_def validate_kind_def example_adsb_def abs_or_max_def sat_i64_def I64_MAX_def)
  from failed_requests_change_nothing [OF example_daemon_reachable example_daemon_channel(3)] r show ?thesis by blast
qed

text \<open>C29: The channelizer follows the hardware. After a change of the sample rate that the hardware
  acknowledged, and after one it refused while staying connected, the channelizer runs at the rate the
  hardware reports, and no channel runs at another; when the outcome stays open, the change is kept
  pending and the channelizer is left alone.\<close>

theorem sample_rate_followed:
  assumes "reach daemon_start (daemon_step F f_ceiling) s" "pending_change s = None" "set_sample_rate F hw hz s = (s', r)"
  shows "(r = Inr () \<longrightarrow> wideband_rate_hz (cz s') = hs_sample_rate_hz (status_at_reply hw) \<and> taps (cz s') = []) \<and>
    (r = Inl CommandRefused \<longrightarrow> hs_sample_rate_hz (status_at_reply hw) \<noteq> 0 \<longrightarrow>
      wideband_rate_hz (cz s') = hs_sample_rate_hz (status_at_reply hw)) \<and>
    (r = Inl CommandStillApplying \<longrightarrow> pending_change s' \<noteq> None \<and> cz s' = cz s) \<and> channels s' = channels s"
proof -
  note ok = daemon.reach_inv [OF assms(1)]
  have "fst (prepare_geometry F hw s) = s" using assms(2) by (simp add: prepare_geometry_def reconcile_pending_def)
  then obtain q where p: "prepare_geometry F hw s = (s, q)" by (metis prod.collapse)
  have q: "q = Inr () \<or> q = Inl Disconnected \<or> q = Inl ZeroHardwareRate"
    using p assms(2) by (auto simp: prepare_geometry_def reconcile_pending_def split: if_splits)
  show ?thesis
  proof (cases "q = Inr () \<and> hz \<noteq> 0 \<and> \<not> has_virtual_channels s")
    case False
    then consider "q \<noteq> Inr ()" | "q = Inr ()" "hz = 0" | "q = Inr ()" "hz \<noteq> 0" "has_virtual_channels s" by blast
    then have "s' = s \<and> (r = Inl Disconnected \<or> r = Inl ZeroHardwareRate \<or> r = Inl ZeroRate \<or> r = Inl ActiveDecoders)"
    proof cases
      case 1
      then show ?thesis using assms(3) p q by (auto simp: set_sample_rate_def)
    qed (use assms(3) p in \<open>simp_all add: set_sample_rate_def\<close>)
    then show ?thesis by auto
  next
    case True
    then have empty: "taps (cz s) = []" using no_virtual_no_taps [OF ok] by simp
    have rate: "set_rate h s = (s\<lparr>cz := (cz s)\<lparr>wideband_rate_hz := h\<rparr>\<rparr>, Inr ())" if "h \<noteq> 0" for h
      using that empty by (simp add: set_rate_def set_wideband_rate_def)
    show ?thesis
      using assms(3) p True empty
      by (cases "hw_reply hw") (auto simp: set_sample_rate_def Let_def rate split: if_splits)
  qed
qed

theorem sample_rate_followed_witness:
  "wideband_rate_hz (cz (fst (set_sample_rate plain_ops (example_hw 0 Acknowledged) 2400000
     (daemon_new 1 100000000 1000000 :: (int, int, int) daemon)))) = 2400000"
proof -
  let ?s = "daemon_new 1 100000000 1000000 :: (int, int, int) daemon"
  obtain s' r where r: "set_sample_rate plain_ops (example_hw 0 Acknowledged) 2400000 ?s = (s', r)" by force
  have "reach daemon_start (daemon_step plain_ops nat) ?s" by (rule reach.start) (auto simp: daemon_start_def)
  moreover have "pending_change ?s = None" by (simp add: daemon_new_def)
  moreover have "r = Inr ()"
    using r by (auto simp: set_sample_rate_def prepare_geometry_def reconcile_pending_def daemon_new_def example_hw_def
        example_status_def has_virtual_channels_def set_rate_def set_wideband_rate_def channelizer_new_def)
  ultimately show ?thesis
    using sample_rate_followed [OF _ _ r] r by (simp add: example_hw_def example_status_def)
qed

text \<open>C28: Private channel identifiers are never handed out twice. The four identifiers a connection gets lie in
  the upper half, no channel has them, and they differ from all those of later allocations, whatever
  happens in between.\<close>

theorem client_channels_unique:
  assumes "reach daemon_start (daemon_step F f_ceiling) s" "allocate_client_channels s = (s1, Inr c1)"
    and "reach (\<lambda>x. x = s1) (daemon_step F f_ceiling) s2" "allocate_client_channels s2 = (s3, Inr c2)"
  shows "set (client_channels_ids c1) \<inter> set (client_channels_ids c2) = {} \<and>
    (\<forall>i \<in> set (client_channels_ids c1). CLIENT_CHANNEL_START \<le> i \<and> \<not> channel_exists i s)"
proof -
  note ok = daemon.reach_inv [OF assms(1)]
  have ok1: "daemon_ok F s1" using allocate_ok [OF ok] assms(2) by simp
  have later: "daemon_ok F t \<and> next_client_channel s1 \<le> next_client_channel t" if "reach (\<lambda>x. x = s1) (daemon_step F f_ceiling) t" for t
    using that
  proof (induction rule: reach.induct)
    case (extend t t')
    have ok: "daemon_ok F t" and le: "next_client_channel s1 \<le> next_client_channel t" using extend.IH by auto
    show ?case
      using daemon.step_inv [OF ok extend.hyps(2)] le next_client_mono [OF ok extend.hyps(2)] by (blast intro: le_trans)
  qed (use ok1 in simp)
  have bounds: "unat CLIENT_CHANNEL_START \<le> next_client_channel x \<and> next_client_channel x < 2 ^ 32" if "daemon_ok F x" for x
    using that by (simp only: daemon_ok_def)
  note a1 = allocated [OF conjunct1 [OF bounds [OF ok]] conjunct2 [OF bounds [OF ok]] assms(2)]
  note l2 = later [OF assms(3)]
  note b2 = bounds [OF conjunct1 [OF l2]]
  note a2 = allocated [OF conjunct1 [OF b2] conjunct2 [OF b2] assms(4)]
  have c1: "c1 = client_channels_at (next_client_channel s1 - 4)" "next_client_channel s + 4 \<le> next_client_channel s1"
    "next_client_channel s1 < 2 ^ 32" using a1 by auto
  have c2: "c2 = client_channels_at (next_client_channel s3 - 4)" "next_client_channel s2 + 4 \<le> next_client_channel s3"
    "next_client_channel s3 < 2 ^ 32" using a2 by auto
  have i1: "next_client_channel s \<le> unat i \<and> unat i < next_client_channel s1" if "i \<in> set (client_channels_ids c1)" for i
    using client_ids_at [of "next_client_channel s1 - 4" i] that c1 by (simp del: One_nat_def) linarith
  have i2: "next_client_channel s2 \<le> unat i" if "i \<in> set (client_channels_ids c2)" for i
    using client_ids_at [of "next_client_channel s3 - 4" i] that c2 by (simp del: One_nat_def) linarith
  have "set (client_channels_ids c1) \<inter> set (client_channels_ids c2) = {}" using i1 i2 l2 by fastforce
  moreover have "CLIENT_CHANNEL_START \<le> i" if "i \<in> set (client_channels_ids c1)" for i
    using i1 [OF that] bounds [OF ok] by (simp only: word_le_nat_alt) linarith
  ultimately show ?thesis using a1 by blast
qed

lemma example_allocate:
  "allocate_client_channels (daemon_new 1 0 0 :: (int, int, int) daemon) =
     ((daemon_new 1 0 0)\<lparr>next_client_channel := 0x80000004\<rparr>, Inr (client_channels_at 0x80000000))"
  "allocate_client_channels ((daemon_new 1 0 0 :: (int, int, int) daemon)\<lparr>next_client_channel := 0x80000004\<rparr>) =
     ((daemon_new 1 0 0)\<lparr>next_client_channel := 0x80000008\<rparr>, Inr (client_channels_at 0x80000004))"
  by (subst allocate_client_channels.simps, simp add: daemon_new_def channel_exists_def Let_def CLIENT_CHANNEL_START_def)+

theorem client_channels_unique_witness:
  "set (client_channels_ids (client_channels_at 0x80000000)) \<inter> set (client_channels_ids (client_channels_at 0x80000004)) = {}"
proof -
  have "reach daemon_start (daemon_step plain_ops nat) (daemon_new 1 0 0 :: (int, int, int) daemon)"
    by (rule reach.start) (auto simp: daemon_start_def)
  note first = client_channels_unique [OF this example_allocate(1)]
  have "reach (\<lambda>x. x = (daemon_new 1 0 0)\<lparr>next_client_channel := 0x80000004\<rparr>) (daemon_step plain_ops nat)
      ((daemon_new 1 0 0 :: (int, int, int) daemon)\<lparr>next_client_channel := 0x80000004\<rparr>)"
    by (rule reach.start) (rule refl)
  from first [OF this example_allocate(2)] show ?thesis by blast
qed

text \<open>A recording started after the hardware was retuned is labelled with a frequency its samples do not
  have. The tap of a channel stays at the absolute frequency it was tuned to, the offset in the
  channel's specification is the one from the centre of that time, and the label is this old offset
  from the new centre.\<close>

lemma recording_label_after_retune:
  assumes "map_of (channels s) i = Some a" "ac_internal a = Some t" "channel_center_hz (cz s) t = Some f"
    and "pending_change s = None" "set_frequency F hw s = (s1, Inr ())" "start_recording True i format s1 = (s2, Inr r)"
  shows "channel_center_hz (cz s2) t = Some f \<and>
    re_center_hz r = absolute_center (hs_frequency_hz (status_at_reply hw)) (cs_center_offset_hz (ac_spec a))"
proof -
  let ?c = "retune_wideband F (hs_frequency_hz (status_at_reply hw)) (cz s)"
  have s1: "s1 = s\<lparr>cz := ?c\<rparr>"
    using assms(4,5)
    by (auto simp: set_frequency_def prepare_geometry_def reconcile_pending_def Let_def split: if_splits ingest_reply.splits)
  have map: "find (\<lambda>c. vc_id c = t) (map (vc_follow F wc wr) xs) = map_option (vc_follow F wc wr) (find (\<lambda>c. vc_id c = t) xs)" for wc wr xs
    by (induction xs) (simp_all add: vc_follow_def)
  have "channel_center_hz ?c t = channel_center_hz (cz s) t"
    by (simp add: channel_center_hz_def find_tap_def retune_wideband_def map option.map_comp comp_def vc_follow_def)
  then have f: "channel_center_hz ?c t = Some f" using assms(3) by simp
  have "start_recording True i format s1 = manager_start True i format
      (absolute_center (hs_frequency_hz (status_at_reply hw)) (cs_center_offset_hz (ac_spec a))) s1"
    using assms(1,2) f by (auto simp: start_recording_def s1 retune_wideband_def channel_center_hz_def)
  then show ?thesis using assms(6) f by (auto simp: manager_start_def Let_def s1 split: if_splits)
qed

theorem recording_label_after_retune_witness:
  "channel_center_hz (cz (fst (set_frequency plain_ops (example_hw 101000000 Acknowledged) example_daemon))) 0 = Some 100000000 \<and>
   (\<exists>r. snd (start_recording True 7 Cf32 (fst (set_frequency plain_ops (example_hw 101000000 Acknowledged) example_daemon))) = Inr r \<and>
      re_center_hz r = 101000000)"
proof -
  obtain a where a: "map_of (channels example_daemon) 7 = Some a" "ac_internal a = Some 0" "ac_spec a = example_adsb"
    using example_daemon_channel(1) by blast
  let ?hw = "example_hw 101000000 Acknowledged"
  obtain s1 where s1: "set_frequency plain_ops ?hw example_daemon = (s1, Inr ())"
      "s1 = example_daemon\<lparr>cz := retune_wideband plain_ops 101000000 (cz example_daemon)\<rparr>"
    using example_daemon_channel(3)
    by (auto simp: set_frequency_def prepare_geometry_def reconcile_pending_def example_hw_def example_status_def)
  have "find_tap 0 (cz s1) \<noteq> None"
    using example_daemon_channel(2) tap_rate_None [of "cz s1" 0] tap_rate_None [of "cz example_daemon" 0]
    by (auto simp: s1(2) channel_center_hz_def)
  then obtain s2 r where r: "start_recording True 7 Cf32 s1 = (s2, Inr r)"
    using a s1(2) example_daemon_channel(6)
    by (auto simp: start_recording_def manager_start_def is_recording_def Let_def)
  have "cz s2 = cz s1" using r by (auto simp: start_recording_def manager_start_def Let_def split: option.splits if_splits)
  with recording_label_after_retune [OF a(1,2) example_daemon_channel(2,3) s1(1) r] s1(1) r a(3) show ?thesis
    by (simp add: example_hw_def example_status_def example_adsb_def absolute_center_def as_i64_def sat_i64_def I64_MAX_def)
qed

end
