(* ===== verification/Broadcast.thy ===== *)
theory Broadcast
  imports Prelude "HOL-Library.Sublist"
begin

text \<open>
  The fan-out of the daemon, \<^verbatim>\<open>ez-daemon/src/broadcast.rs\<close>: publishers offer every value to the bounded queue
  of each subscriber without ever blocking, while subscribers come, take values and go. Each operation
  on a queue, a counter or the list of subscribers is one atomic step, and the steps of any number of
  publishers and subscribers interleave in every order; a publisher works through the list of
  subscribers it has loaded once. A queue lives as long as somebody holds its subscriber, so sending
  finds it full but never disconnected.
\<close>

section \<open>Queues and subscribers\<close>

datatype overflow_policy = DropOldest | DropIncoming

text \<open>The queue itself is the bounded channel of the crossbeam library, a parameter \<open>Q\<close>: what creates a
  queue, sends and receives without waiting, and what a queue holds and has room for. \<open>bounded_fifo\<close> is
  what the library documents: at most the capacity, first in, first out, refusing only when full or empty.\<close>

record ('q, 'a) queue_ops =
  queue_new :: "nat \<Rightarrow> 'q"
  try_send :: "'a \<Rightarrow> 'q \<Rightarrow> 'q option"
  try_recv :: "'q \<Rightarrow> ('q \<times> 'a) option"
  contents :: "'q \<Rightarrow> 'a list"
  room :: "'q \<Rightarrow> nat"

definition bounded_fifo :: "('q, 'a) queue_ops \<Rightarrow> bool" where
  "bounded_fifo Q \<longleftrightarrow>
     (\<forall>n. 0 < n \<longrightarrow> contents Q (queue_new Q n) = [] \<and> room Q (queue_new Q n) = n) \<and>
     (\<forall>v q. case try_send Q v q of
        None \<Rightarrow> room Q q \<le> length (contents Q q)
      | Some q' \<Rightarrow> length (contents Q q) < room Q q \<and> contents Q q' = contents Q q @ [v] \<and> room Q q' = room Q q) \<and>
     (\<forall>q. case try_recv Q q of
        None \<Rightarrow> contents Q q = []
      | Some (q', v) \<Rightarrow> contents Q q = v # contents Q q' \<and> room Q q' = room Q q)"

record 'q channel =
  queue :: 'q
  policy :: overflow_policy
  dropped :: nat

abbreviation items :: "('q, 'a) queue_ops \<Rightarrow> 'q channel \<Rightarrow> 'a list" where
  "items Q c \<equiv> contents Q (queue c)"

abbreviation capacity :: "('q, 'a) queue_ops \<Rightarrow> 'q channel \<Rightarrow> nat" where
  "capacity Q c \<equiv> room Q (queue c)"

record 'q broadcaster =
  chan :: "nat \<Rightarrow> 'q channel"
  subscribers :: "nat list"
  next_id :: nat

definition broadcaster_new :: "('q, 'a) queue_ops \<Rightarrow> 'q broadcaster" where
  "broadcaster_new Q = \<lparr>chan = (\<lambda>_. \<lparr>queue = queue_new Q 1, policy = DropOldest, dropped = 0\<rparr>),
     subscribers = [], next_id = 0\<rparr>"

definition bus_subscribe ::
    "('q, 'a) queue_ops \<Rightarrow> nat \<Rightarrow> overflow_policy \<Rightarrow> 'q broadcaster \<Rightarrow> 'q broadcaster \<times> nat" where
  "bus_subscribe Q c p b =
     (let i = next_id b
      in (b\<lparr>chan := (chan b)(i := \<lparr>queue = queue_new Q (max c 1), policy = p, dropped = 0\<rparr>),
            subscribers := subscribers b @ [i], next_id := i + 1\<rparr>, i))"

definition unsubscribe :: "nat \<Rightarrow> 'q broadcaster \<Rightarrow> 'q broadcaster" where
  "unsubscribe i b = b\<lparr>subscribers := filter (\<lambda>j. j \<noteq> i) (subscribers b)\<rparr>"

definition set_chan :: "nat \<Rightarrow> 'q channel \<Rightarrow> 'q broadcaster \<Rightarrow> 'q broadcaster" where
  "set_chan i c b = b\<lparr>chan := (chan b)(i := c)\<rparr>"

definition set_queue :: "nat \<Rightarrow> 'q \<Rightarrow> 'q broadcaster \<Rightarrow> 'q broadcaster" where
  "set_queue i q b = set_chan i ((chan b i)\<lparr>queue := q\<rparr>) b"

section \<open>Publishing\<close>

text \<open>Where a publisher stands with the first subscriber of those it still has to serve: it sends the
  value; it has found the queue full and takes out the oldest; it sends again, having evicted \<open>e\<close>
  values; it adds the losses to the counter.\<close>

datatype stage = Sending | Evicting | Retrying nat | Counting nat

record 'a publisher =
  value_of :: 'a
  todo :: "nat list"
  stage :: stage

definition publisher_new :: "'a \<Rightarrow> 'q broadcaster \<Rightarrow> 'a publisher" where
  "publisher_new v b = \<lparr>value_of = v, todo = subscribers b, stage = Sending\<rparr>"

definition publish_at ::
    "('q, 'a) queue_ops \<Rightarrow> nat \<Rightarrow> nat list \<Rightarrow> 'a publisher \<Rightarrow> 'q broadcaster \<Rightarrow> 'a publisher \<times> 'q broadcaster" where
  "publish_at Q i rest p b =
     (case stage p of
        Sending \<Rightarrow>
          (case try_send Q (value_of p) (queue (chan b i)) of
             Some q \<Rightarrow> (p\<lparr>todo := rest\<rparr>, set_queue i q b)
           | None \<Rightarrow>
               (case policy (chan b i) of
                  DropOldest \<Rightarrow> (p\<lparr>stage := Evicting\<rparr>, b)
                | DropIncoming \<Rightarrow> (p\<lparr>stage := Counting 1\<rparr>, b)))
      | Evicting \<Rightarrow>
          (case try_recv Q (queue (chan b i)) of
             Some (q, _) \<Rightarrow> (p\<lparr>stage := Retrying 1\<rparr>, set_queue i q b)
           | None \<Rightarrow> (p\<lparr>stage := Retrying 0\<rparr>, b))
      | Retrying evicted \<Rightarrow>
          (case try_send Q (value_of p) (queue (chan b i)) of
             Some q \<Rightarrow> (p\<lparr>stage := Counting evicted\<rparr>, set_queue i q b)
           | None \<Rightarrow> (p\<lparr>stage := Counting (evicted + 1)\<rparr>, b))
      | Counting n \<Rightarrow>
          (p\<lparr>todo := rest, stage := Sending\<rparr>, set_chan i ((chan b i)\<lparr>dropped := dropped (chan b i) + n\<rparr>) b))"

definition publish_step ::
    "('q, 'a) queue_ops \<Rightarrow> 'a publisher \<Rightarrow> 'q broadcaster \<Rightarrow> 'a publisher \<times> 'q broadcaster" where
  "publish_step Q p b = (case todo p of [] \<Rightarrow> (p, b) | i # rest \<Rightarrow> publish_at Q i rest p b)"

section \<open>All interleavings\<close>

text \<open>The daemon's bus with the publications under way. Two lists per subscriber are kept to state the
  properties: the values offered to it, and those its handle has received.\<close>

record ('q, 'a) net =
  bus :: "'q broadcaster"
  publishers :: "'a publisher list"
  offered :: "nat \<Rightarrow> 'a list"
  received :: "nat \<Rightarrow> 'a list"

definition net_start :: "('q, 'a) queue_ops \<Rightarrow> ('q, 'a) net \<Rightarrow> bool" where
  "net_start Q s \<longleftrightarrow> s = \<lparr>bus = broadcaster_new Q, publishers = [], offered = (\<lambda>_. []), received = (\<lambda>_. [])\<rparr>"

text \<open>With \<open>single\<close>, a publication starts only when none is under way, as with one producer thread.\<close>

inductive net_step :: "('q, 'a) queue_ops \<Rightarrow> bool \<Rightarrow> ('q, 'a) net \<Rightarrow> ('q, 'a) net \<Rightarrow> bool" for Q single where
  subscribe_step: "bus_subscribe Q c p (bus s) = (b', i) \<Longrightarrow> net_step Q single s (s\<lparr>bus := b'\<rparr>)"
| drop_step: "i \<in> set (subscribers (bus s)) \<Longrightarrow> net_step Q single s (s\<lparr>bus := unsubscribe i (bus s)\<rparr>)"
| recv_step: "i \<in> set (subscribers (bus s)) \<Longrightarrow> try_recv Q (queue (chan (bus s) i)) = Some (q, v) \<Longrightarrow>
    net_step Q single s (s\<lparr>bus := set_queue i q (bus s), received := (received s)(i := received s i @ [v])\<rparr>)"
| load_step: "single \<longrightarrow> publishers s = [] \<Longrightarrow>
    net_step Q single s (s\<lparr>publishers := publishers s @ [publisher_new v (bus s)],
      offered := (\<lambda>i. if i \<in> set (subscribers (bus s)) then offered s i @ [v] else offered s i)\<rparr>)"
| publish_step: "publishers s = ps @ p # qs \<Longrightarrow> publish_step Q p (bus s) = (p', b') \<Longrightarrow>
    net_step Q single s (s\<lparr>bus := b', publishers := ps @ p' # qs\<rparr>)"
| return_step: "publishers s = ps @ p # qs \<Longrightarrow> todo p = [] \<Longrightarrow> net_step Q single s (s\<lparr>publishers := ps @ qs\<rparr>)"

section \<open>Accounting\<close>

fun stage_owes :: "stage \<Rightarrow> nat" where
  "stage_owes Sending = 1"
| "stage_owes Evicting = 1"
| "stage_owes (Retrying e) = 1 + e"
| "stage_owes (Counting n) = n"

definition owes :: "nat \<Rightarrow> 'a publisher \<Rightarrow> nat" where
  "owes i p = (case todo p of [] \<Rightarrow> 0 | j # rest \<Rightarrow> (if i = j then stage_owes (stage p) else 0) + count_list rest i)"

text \<open>Between subscribers a publisher is about to send.\<close>

definition publisher_ok :: "'q broadcaster \<Rightarrow> 'a publisher \<Rightarrow> bool" where
  "publisher_ok b p \<longleftrightarrow> distinct (todo p) \<and> (\<forall>i \<in> set (todo p). i < next_id b) \<and>
     (case todo p of [] \<Rightarrow> stage p = Sending
      | i # _ \<Rightarrow> stage p = Sending \<or> stage p = Counting 1 \<or> policy (chan b i) = DropOldest)"

definition net_ok :: "('q, 'a) queue_ops \<Rightarrow> ('q, 'a) net \<Rightarrow> bool" where
  "net_ok Q s \<longleftrightarrow>
     distinct (subscribers (bus s)) \<and> (\<forall>i \<in> set (subscribers (bus s)). i < next_id (bus s)) \<and>
     (\<forall>p \<in> set (publishers s). publisher_ok (bus s) p) \<and>
     (\<forall>i \<ge> next_id (bus s). offered s i = [] \<and> received s i = []) \<and>
     (\<forall>i < next_id (bus s). 0 < capacity Q (chan (bus s) i) \<and> length (items Q (chan (bus s) i)) \<le> capacity Q (chan (bus s) i) \<and>
        length (offered s i) = length (received s i) + length (items Q (chan (bus s) i)) + dropped (chan (bus s) i) +
          (\<Sum>p \<leftarrow> publishers s. owes i p))"

lemma set_chan_fields [simp]:
  "subscribers (set_chan i c b) = subscribers b" "next_id (set_chan i c b) = next_id b"
  "chan (set_chan i c b) = (chan b)(i := c)"
  "subscribers (set_queue i q b) = subscribers b" "next_id (set_queue i q b) = next_id b"
  "chan (set_queue i q b) = (chan b)(i := (chan b i)\<lparr>queue := q\<rparr>)"
  by (simp_all add: set_chan_def set_queue_def)

lemma fifo_new: "bounded_fifo Q \<Longrightarrow> 0 < n \<Longrightarrow> contents Q (queue_new Q n) = [] \<and> room Q (queue_new Q n) = n"
  by (simp add: bounded_fifo_def)

lemma fifo_send: "bounded_fifo Q \<Longrightarrow> (case try_send Q v q of
      None \<Rightarrow> room Q q \<le> length (contents Q q)
    | Some q' \<Rightarrow> length (contents Q q) < room Q q \<and> contents Q q' = contents Q q @ [v] \<and> room Q q' = room Q q)"
  unfolding bounded_fifo_def by (elim conjE) (erule spec2)

lemma fifo_recv: "bounded_fifo Q \<Longrightarrow> (case try_recv Q q of
      None \<Rightarrow> contents Q q = [] | Some (q', v) \<Rightarrow> contents Q q = v # contents Q q' \<and> room Q q' = room Q q)"
  unfolding bounded_fifo_def by (elim conjE) (erule spec)

lemma fifo_sent: "bounded_fifo Q \<Longrightarrow> try_send Q v q = Some q' \<Longrightarrow>
    length (contents Q q) < room Q q \<and> contents Q q' = contents Q q @ [v] \<and> room Q q' = room Q q"
  using fifo_send [where Q = Q and v = v and q = q] by simp

lemma fifo_full: "bounded_fifo Q \<Longrightarrow> try_send Q v q = None \<Longrightarrow> room Q q \<le> length (contents Q q)"
  using fifo_send [where Q = Q and v = v and q = q] by simp

lemma fifo_received: "bounded_fifo Q \<Longrightarrow> try_recv Q q = Some (q', v) \<Longrightarrow>
    contents Q q = v # contents Q q' \<and> room Q q' = room Q q"
  using fifo_recv [of Q q] by simp

lemma fifo_empty: "bounded_fifo Q \<Longrightarrow> try_recv Q q = None \<Longrightarrow> contents Q q = []"
  using fifo_recv [of Q q] by simp

text \<open>One atomic step of a publisher: nothing is created or lost without being counted.\<close>

lemma publish_at_cases:
  assumes "bounded_fifo Q" "publish_at Q i rest p b = (p', b')"
  obtains
    (sent) q where "stage p = Sending" "length (items Q (chan b i)) < capacity Q (chan b i)" "p' = p\<lparr>todo := rest\<rparr>"
      "b' = set_queue i q b" "contents Q q = items Q (chan b i) @ [value_of p]" "room Q q = capacity Q (chan b i)"
  | (full) "stage p = Sending" "capacity Q (chan b i) \<le> length (items Q (chan b i))" "b' = b"
      "p' = p\<lparr>stage := (if policy (chan b i) = DropOldest then Evicting else Counting 1)\<rparr>"
  | (evicted) v q where "stage p = Evicting" "items Q (chan b i) = v # contents Q q" "p' = p\<lparr>stage := Retrying 1\<rparr>"
      "b' = set_queue i q b" "room Q q = capacity Q (chan b i)"
  | (drained) "stage p = Evicting" "items Q (chan b i) = []" "p' = p\<lparr>stage := Retrying 0\<rparr>" "b' = b"
  | (resent) e q where "stage p = Retrying e" "length (items Q (chan b i)) < capacity Q (chan b i)"
      "p' = p\<lparr>stage := Counting e\<rparr>" "b' = set_queue i q b"
      "contents Q q = items Q (chan b i) @ [value_of p]" "room Q q = capacity Q (chan b i)"
  | (refused) e where "stage p = Retrying e" "capacity Q (chan b i) \<le> length (items Q (chan b i))"
      "p' = p\<lparr>stage := Counting (e + 1)\<rparr>" "b' = b"
  | (counted) n where "stage p = Counting n" "p' = p\<lparr>todo := rest, stage := Sending\<rparr>"
      "b' = set_chan i ((chan b i)\<lparr>dropped := dropped (chan b i) + n\<rparr>) b"
proof (cases "stage p")
  case Sending
  show ?thesis
  proof (cases "try_send Q (value_of p) (queue (chan b i))")
    case None
    with Sending assms show ?thesis
      by (intro full) (auto simp: publish_at_def fifo_full split: overflow_policy.splits)
  next
    case (Some q)
    with Sending assms fifo_sent [OF assms(1) Some] show ?thesis by (intro sent [of q]) (auto simp: publish_at_def)
  qed
next
  case Evicting
  show ?thesis
  proof (cases "try_recv Q (queue (chan b i))")
    case None
    with Evicting assms fifo_empty [OF assms(1) None] show ?thesis by (intro drained) (auto simp: publish_at_def)
  next
    case (Some x)
    then obtain q v where x: "try_recv Q (queue (chan b i)) = Some (q, v)" by (cases x) auto
    with Evicting assms fifo_received [OF assms(1) x] show ?thesis by (intro evicted [of v q]) (auto simp: publish_at_def)
  qed
next
  case (Retrying e)
  show ?thesis
  proof (cases "try_send Q (value_of p) (queue (chan b i))")
    case None
    with Retrying assms show ?thesis by (intro refused [of e]) (auto simp: publish_at_def fifo_full)
  next
    case (Some q)
    with Retrying assms fifo_sent [OF assms(1) Some] show ?thesis by (intro resent [of e q]) (auto simp: publish_at_def)
  qed
next
  case (Counting n)
  with assms show ?thesis by (intro counted [of n]) (auto simp: publish_at_def)
qed

lemma publish_step_cases:
  assumes "publish_step Q p b = (p', b')"
  obtains (idle) "todo p = []" "p' = p" "b' = b"
  | (at) i rest where "todo p = i # rest" "publish_at Q i rest p b = (p', b')"
  using assms by (cases "todo p") (auto simp: publish_step_def)

lemma owes_Cons: "todo p = j # rest \<Longrightarrow> owes i p = (if i = j then stage_owes (stage p) else 0) + count_list rest i"
  by (simp add: owes_def)

lemma owes_sent: "stage p = Sending \<Longrightarrow> owes i p = count_list (todo p) i"
  by (simp add: owes_def split: list.splits)

lemma publish_step_channels:
  assumes "bounded_fifo Q" "publish_step Q p b = (p', b')"
  shows "next_id b' = next_id b \<and> subscribers b' = subscribers b \<and>
    capacity Q (chan b' i) = capacity Q (chan b i) \<and> policy (chan b' i) = policy (chan b i) \<and>
    (length (items Q (chan b i)) \<le> capacity Q (chan b i) \<longrightarrow> length (items Q (chan b' i)) \<le> capacity Q (chan b' i)) \<and>
    length (items Q (chan b' i)) + dropped (chan b' i) + owes i p' = length (items Q (chan b i)) + dropped (chan b i) + owes i p"
  using assms(2)
proof (cases rule: publish_step_cases)
  case (at j rest)
  from assms(1) at(2) show ?thesis
    by (cases rule: publish_at_cases) (use at(1) in \<open>simp_all add: owes_Cons owes_sent\<close>)
qed simp

lemma publish_step_ok:
  assumes "bounded_fifo Q" "publish_step Q p b = (p', b')" "publisher_ok b p"
  shows "publisher_ok b' p'"
  using assms(2)
proof (cases rule: publish_step_cases)
  case (at j rest)
  from assms(1) at(2) show ?thesis
    by (cases rule: publish_at_cases) (use at(1) assms(3) in \<open>auto simp: publisher_ok_def split: list.splits\<close>)
qed (use assms(3) in simp)

lemma publisher_ok_cong:
  "publisher_ok b p \<Longrightarrow> next_id b \<le> next_id b' \<Longrightarrow> (\<And>i. i < next_id b \<Longrightarrow> policy (chan b' i) = policy (chan b i)) \<Longrightarrow>
   publisher_ok b' p"
  by (auto simp: publisher_ok_def split: list.splits)

lemma distinct_count: "distinct xs \<Longrightarrow> count_list xs i = (if i \<in> set xs then 1 else 0)"
  by (induction xs) auto

lemma owes_new: "distinct (subscribers b) \<Longrightarrow> owes i (publisher_new v b) = (if i \<in> set (subscribers b) then 1 else 0)"
  by (simp add: owes_sent publisher_new_def distinct_count)

lemma net_okD:
  assumes "net_ok Q s" "i < next_id (bus s)"
  shows "length (offered s i) = length (received s i) + length (items Q (chan (bus s) i)) + dropped (chan (bus s) i) +
      (\<Sum>p \<leftarrow> publishers s. owes i p)"
    "length (items Q (chan (bus s) i)) \<le> capacity Q (chan (bus s) i)"
  using assms by (auto simp: net_ok_def)

lemma owes_unknown: "publisher_ok b p \<Longrightarrow> next_id b \<le> i \<Longrightarrow> owes i p = 0"
  by (force simp: owes_def publisher_ok_def count_list_0_iff split: list.splits)

lemma net_step_ok:
  assumes fifo: "bounded_fifo Q" and "net_ok Q s" "net_step Q single s s'"
  shows "net_ok Q s'"
  using assms(3)
proof cases
  case (subscribe_step c p b' i)
  have b': "b' = (bus s)\<lparr>chan := (chan (bus s))(i := \<lparr>queue = queue_new Q (max c 1), policy = p, dropped = 0\<rparr>),
      subscribers := subscribers (bus s) @ [i], next_id := i + 1\<rparr>" "i = next_id (bus s)"
    using subscribe_step(2) by (simp_all add: bus_subscribe_def Let_def) auto
  have "publisher_ok b' p" if "p \<in> set (publishers s)" for p
    by (rule publisher_ok_cong [of "bus s"]) (use assms(2) that in \<open>auto simp: b' net_ok_def\<close>)
  moreover have "(\<Sum>p \<leftarrow> publishers s. owes i p) = 0"
    using assms(2) owes_unknown [of "bus s" _ i] by (auto simp: net_ok_def b'(2))
  ultimately show ?thesis
    using assms(2) subscribe_step(1) fifo_new [OF fifo, of "max c 1"] by (auto simp: net_ok_def b' less_Suc_eq)
next
  case (drop_step i)
  have "publisher_ok (unsubscribe i (bus s)) p" if "p \<in> set (publishers s)" for p
    by (rule publisher_ok_cong [of "bus s"]) (use assms(2) that in \<open>auto simp: unsubscribe_def net_ok_def\<close>)
  then show ?thesis using assms(2) drop_step by (auto simp: net_ok_def unsubscribe_def)
next
  case (recv_step i q v)
  note q = fifo_received [OF fifo recv_step(3)]
  have "publisher_ok (set_queue i q (bus s)) p" if "p \<in> set (publishers s)" for p
    by (rule publisher_ok_cong [of "bus s"]) (use assms(2) that in \<open>auto simp: net_ok_def\<close>)
  then show ?thesis
    using assms(2) recv_step(1,2) q by (auto simp: net_ok_def)
next
  case (load_step v)
  have "publisher_ok (bus s) (publisher_new v (bus s))"
    using assms(2) by (auto simp: publisher_ok_def publisher_new_def net_ok_def split: list.splits)
  moreover have "owes i (publisher_new v (bus s)) = (if i \<in> set (subscribers (bus s)) then 1 else 0)" for i
    using assms(2) by (simp add: owes_new net_ok_def)
  ultimately show ?thesis using assms(2) load_step(1) by (auto simp: net_ok_def)
next
  case (publish_step ps p qs p' b')
  note ch = publish_step_channels [OF fifo publish_step(3)]
  have ok: "publisher_ok (bus s) q" if "q \<in> set (publishers s)" for q using assms(2) that by (simp add: net_ok_def)
  have "publisher_ok b' q" if "q \<in> set (publishers s)" for q
    by (rule publisher_ok_cong [OF ok [OF that]]) (use ch in simp_all)
  moreover have "publisher_ok b' p'" by (rule publish_step_ok [OF fifo publish_step(3)]) (use ok publish_step(2) in simp)
  ultimately have pubs: "\<forall>q \<in> set (publishers s'). publisher_ok b' q" using publish_step(1,2) by auto
  have "length (offered s i) = length (received s i) + length (items Q (chan b' i)) + dropped (chan b' i) +
      (\<Sum>p \<leftarrow> publishers s'. owes i p)" if "i < next_id (bus s)" for i
    using net_okD(1) [OF assms(2) that] ch [of i] publish_step(1,2) by simp
  moreover have "length (items Q (chan b' i)) \<le> capacity Q (chan (bus s) i)" if "i < next_id (bus s)" for i
    using net_okD(2) [OF assms(2) that] ch [of i] by simp
  ultimately show ?thesis using assms(2) pubs ch publish_step(1) by (simp add: net_ok_def)
next
  case (return_step ps p qs)
  then show ?thesis using assms(2) by (auto simp: net_ok_def owes_def)
qed

lemma broadcaster:
  assumes "bounded_fifo Q"
  shows "guarded_system (net_start Q) (net_step Q single) (net_ok Q)"
proof
  show "net_ok Q s'" if "net_ok Q s" "net_step Q single s s'" for s s' using assms that by (rule net_step_ok)
qed (auto simp: net_start_def net_ok_def broadcaster_new_def)

section \<open>One producer\<close>

text \<open>The publication under way, if any, and the values offered to a subscriber before it.\<close>

definition unsent :: "nat \<Rightarrow> 'a publisher \<Rightarrow> bool" where
  "unsent i p = (case todo p of [] \<Rightarrow> False
     | j # rest \<Rightarrow> (i = j \<and> (case stage p of Counting _ \<Rightarrow> False | _ \<Rightarrow> True)) \<or> i \<in> set rest)"

definition making_room :: "nat \<Rightarrow> 'a publisher \<Rightarrow> bool" where
  "making_room i p = (case todo p of [] \<Rightarrow> False
     | j # rest \<Rightarrow> i = j \<and> (case stage p of Retrying _ \<Rightarrow> True | _ \<Rightarrow> False))"

definition offered_before :: "'a publisher list \<Rightarrow> nat \<Rightarrow> 'a list \<Rightarrow> 'a list" where
  "offered_before ps i xs = (case ps of [] \<Rightarrow> xs | p # _ \<Rightarrow> if unsent i p then butlast xs else xs)"

text \<open>What a subscriber has seen and may still see, against what it was offered.\<close>

definition newest_kept :: "('q, 'a) queue_ops \<Rightarrow> 'a publisher list \<Rightarrow> 'q channel \<Rightarrow> nat \<Rightarrow> 'a list \<Rightarrow> 'a list \<Rightarrow> bool" where
  "newest_kept Q ps c i xs ys \<longleftrightarrow>
     subseq (ys @ items Q c) (offered_before ps i xs) \<and>
     (\<forall>p \<in> set ps. unsent i p \<longrightarrow> xs \<noteq> [] \<and> last xs = value_of p) \<and>
     (policy c = DropOldest \<longrightarrow>
       suffix (items Q c) (offered_before ps i xs) \<and>
       (\<forall>p \<in> set ps. making_room i p \<longrightarrow> length (items Q c) < capacity Q c) \<and>
       (offered_before ps i xs \<noteq> [] \<longrightarrow> (\<forall>p \<in> set ps. \<not> making_room i p) \<longrightarrow>
         ys @ items Q c \<noteq> [] \<and> last (ys @ items Q c) = last (offered_before ps i xs)))"

definition single_ok :: "('q, 'a) queue_ops \<Rightarrow> ('q, 'a) net \<Rightarrow> bool" where
  "single_ok Q s \<longleftrightarrow> net_ok Q s \<and> length (publishers s) \<le> 1 \<and>
     (\<forall>i < next_id (bus s). newest_kept Q (publishers s) (chan (bus s) i) i (offered s i) (received s i))"

lemma unsent_Cons: "todo p = j # rest \<Longrightarrow>
    unsent i p \<longleftrightarrow> (i = j \<and> (case stage p of Counting _ \<Rightarrow> False | _ \<Rightarrow> True)) \<or> i \<in> set rest"
  by (simp add: unsent_def)

lemma making_room_Cons: "todo p = j # rest \<Longrightarrow>
    making_room i p \<longleftrightarrow> i = j \<and> (case stage p of Retrying _ \<Rightarrow> True | _ \<Rightarrow> False)"
  by (simp add: making_room_def)

lemma unsent_Sending: "stage p = Sending \<Longrightarrow> unsent i p \<longleftrightarrow> i \<in> set (todo p)"
  by (simp add: unsent_def split: list.splits)

lemma making_room_Sending: "stage p = Sending \<Longrightarrow> \<not> making_room i p"
  by (simp add: making_room_def split: list.splits)

lemma offered_now: "xs \<noteq> [] \<Longrightarrow> last xs = v \<Longrightarrow> \<exists>zs. xs = zs @ [v]"
  by (metis append_butlast_last_id)

lemma subseq_butlast: "subseq xs (butlast ys) \<Longrightarrow> subseq xs ys"
  by (rule subseq_order.order_trans [OF _ prefix_imp_subseq [OF prefixeq_butlast]])

lemma publish_keeps_newest:
  assumes fifo: "bounded_fifo Q" and "publish_step Q p b = (p', b')" "publisher_ok b p" "newest_kept Q [p] (chan b i) i xs ys"
    and cap: "0 < capacity Q (chan b i)" "length (items Q (chan b i)) \<le> capacity Q (chan b i)"
  shows "newest_kept Q [p'] (chan b' i) i xs ys"
  using assms(2)
proof (cases rule: publish_step_cases)
  case idle
  with assms(4) show ?thesis by simp
next
  case (at j rest)
  have rest: "j \<notin> set rest" and head: "stage p = Sending \<or> stage p = Counting 1 \<or> policy (chan b j) = DropOldest"
    using assms(3) at(1) by (simp_all add: publisher_ok_def)
  note kept = assms(4) [unfolded newest_kept_def offered_before_def, simplified]
  show ?thesis
  proof (cases "i = j")
    case False
    from fifo at(2) show ?thesis
      by (cases rule: publish_at_cases)
        (use False kept at(1) in \<open>auto simp: newest_kept_def offered_before_def unsent_Cons making_room_Cons unsent_Sending making_room_Sending\<close>)
  next
    case True
    let ?v = "value_of p"
    from fifo at(2) show ?thesis
    proof (cases rule: publish_at_cases)
      case (sent q)
      have u: "unsent i p" "\<not> unsent i p'" "\<not> making_room i p" "\<not> making_room i p'"
        using True rest sent at(1) by (simp_all add: unsent_Sending making_room_Sending)
      have "xs \<noteq> []" "last xs = ?v" using kept u(1) by simp_all
      from offered_now [OF this] obtain zs where xs: "xs = zs @ [?v]" ..
      have c: "items Q (chan b' i) = items Q (chan b i) @ [?v]" "policy (chan b' i) = policy (chan b i)"
        using sent(4,5) True by simp_all
      show ?thesis
        using kept u(1,3) by (simp add: newest_kept_def offered_before_def xs c u(2,4) flip: append_assoc)
    next
      case full
      show ?thesis
      proof (cases "policy (chan b i)")
        case DropOldest
        then have u: "unsent i p" "unsent i p'" "\<not> making_room i p" "\<not> making_room i p'"
          using True full at(1) by (simp_all add: unsent_Cons making_room_Cons)
        show ?thesis using kept u full(3,4) by (simp add: newest_kept_def offered_before_def)
      next
        case DropIncoming
        then have u: "unsent i p" "\<not> unsent i p'"
          using True rest full at(1) by (simp_all add: unsent_Cons)
        then have "subseq (ys @ items Q (chan b i)) xs" using kept subseq_butlast by auto
        then show ?thesis using u full(3) DropIncoming by (simp add: newest_kept_def offered_before_def)
      qed
    next
      case (evicted v q)
      then have u: "unsent i p" "unsent i p'" "\<not> making_room i p" "making_room i p'" and d: "policy (chan b i) = DropOldest"
        using True at(1) head by (auto simp: unsent_Cons making_room_Cons)
      let ?vs = "contents Q q"
      have "subseq (ys @ ?vs) (ys @ v # ?vs)" by (intro list_emb_append_mono subseq_order.order_refl list_emb_Cons)
      then have "subseq (ys @ ?vs) (butlast xs)" using kept u evicted(2) True subseq_order.order_trans by auto
      moreover have "suffix ?vs (butlast xs)" using kept u d evicted(2) True by (auto intro: suffix_ConsD)
      ultimately show ?thesis
        using kept u True evicted cap by (auto simp: newest_kept_def offered_before_def)
    next
      case drained
      then have u: "unsent i p" "unsent i p'" "making_room i p'" using True at(1) by (auto simp: unsent_Cons making_room_Cons)
      show ?thesis using kept u True drained cap by (auto simp: newest_kept_def offered_before_def)
    next
      case (resent e q)
      have u: "unsent i p" "\<not> unsent i p'" "making_room i p" "\<not> making_room i p'"
        using True rest resent at(1) by (simp_all add: unsent_Cons making_room_Cons)
      have "xs \<noteq> []" "last xs = ?v" using kept u(1) by simp_all
      from offered_now [OF this] obtain zs where xs: "xs = zs @ [?v]" ..
      have c: "items Q (chan b' i) = items Q (chan b i) @ [?v]" "policy (chan b' i) = policy (chan b i)"
        using resent(4,5) True by simp_all
      show ?thesis
        using kept u(1,3) by (simp add: newest_kept_def offered_before_def xs c u(2,4) flip: append_assoc)
    next
      case (refused e)
      then have "making_room i p" "policy (chan b i) = DropOldest" using True at(1) head by (auto simp: making_room_Cons)
      then show ?thesis using kept refused(2) True by auto
    next
      case (counted n)
      have u: "\<not> unsent i p" "\<not> unsent i p'" "\<not> making_room i p" "\<not> making_room i p'"
        using True rest counted at(1) by (simp_all add: unsent_Cons making_room_Cons unsent_Sending making_room_Sending)
      show ?thesis using kept u True counted(3) by (auto simp: newest_kept_def offered_before_def)
    qed
  qed
qed

lemma recv_keeps_newest:
  assumes "newest_kept Q ps c i xs ys" "items Q c = v # contents Q q" "room Q q = capacity Q c"
  shows "newest_kept Q ps (c\<lparr>queue := q\<rparr>) i xs (ys @ [v])"
  using assms by (auto simp: newest_kept_def dest: suffix_ConsD)

lemma load_keeps_newest:
  assumes "newest_kept Q [] c i xs ys"
  shows "newest_kept Q [publisher_new v b] c i (if i \<in> set (subscribers b) then xs @ [v] else xs) ys"
proof -
  have s: "stage (publisher_new v b) = Sending" by (simp add: publisher_new_def)
  have "unsent i (publisher_new v b) \<longleftrightarrow> i \<in> set (subscribers b)" using unsent_Sending [OF s] by (simp add: publisher_new_def)
  moreover have "value_of (publisher_new v b) = v" by (simp add: publisher_new_def)
  ultimately show ?thesis
    using assms making_room_Sending [OF s, of i] by (simp add: newest_kept_def offered_before_def)
qed

lemma unknown_not_served: "publisher_ok b p \<Longrightarrow> next_id b \<le> i \<Longrightarrow> \<not> unsent i p \<and> \<not> making_room i p"
  by (cases "todo p") (auto simp: publisher_ok_def unsent_def making_room_def)

lemma single_publisher:
  assumes "single_ok Q s" "publishers s = ps @ p # qs"
  shows "ps = []" "qs = []" "publishers s = [p]"
  using assms by (auto simp: single_ok_def)

lemma single_step_ok:
  assumes fifo: "bounded_fifo Q" and "single_ok Q s" "net_step Q True s s'"
  shows "single_ok Q s'"
proof -
  have ok: "net_ok Q s" and ok': "net_ok Q s'" and len: "length (publishers s) \<le> 1"
    using assms(2) net_step_ok [OF fifo _ assms(3)] by (auto simp: single_ok_def)
  have kept: "newest_kept Q (publishers s) (chan (bus s) i) i (offered s i) (received s i)" if "i < next_id (bus s)" for i
    using assms(2) that by (simp add: single_ok_def)
  from assms(3) show ?thesis
  proof cases
    case (subscribe_step c p b' i)
    have b': "b' = (bus s)\<lparr>chan := (chan (bus s))(i := \<lparr>queue = queue_new Q (max c 1), policy = p, dropped = 0\<rparr>),
        subscribers := subscribers (bus s) @ [i], next_id := i + 1\<rparr>" "i = next_id (bus s)"
      using subscribe_step(2) by (simp_all add: bus_subscribe_def Let_def) auto
    have "offered s i = []" "received s i = []" using ok by (simp_all add: net_ok_def b'(2))
    moreover have "\<not> unsent i p \<and> \<not> making_room i p" if "p \<in> set (publishers s)" for p
      using unknown_not_served [of "bus s" p i] ok that by (simp add: net_ok_def b'(2))
    ultimately have "newest_kept Q (publishers s) (chan b' i) i (offered s i) (received s i)"
      using fifo_new [OF fifo, of "max c 1"] by (simp add: newest_kept_def b'(1) offered_before_def split: list.split)
    then show ?thesis using ok' len kept subscribe_step(1) by (auto simp: single_ok_def b' less_Suc_eq)
  next
    case (drop_step i)
    then show ?thesis using ok' len kept by (simp add: single_ok_def unsubscribe_def)
  next
    case (recv_step i q v)
    note q = fifo_received [OF fifo recv_step(3)]
    have "i < next_id (bus s)" using ok recv_step(2) by (simp add: net_ok_def)
    from recv_keeps_newest [OF kept [OF this] conjunct1 [OF q] conjunct2 [OF q]] show ?thesis
      using ok' len kept recv_step(1) by (simp add: single_ok_def)
  next
    case (load_step v)
    then have none: "publishers s = []" by simp
    have "newest_kept Q [publisher_new v (bus s)] (chan (bus s) i) i
        (if i \<in> set (subscribers (bus s)) then offered s i @ [v] else offered s i) (received s i)" if "i < next_id (bus s)" for i
      by (rule load_keeps_newest) (use kept [OF that] none in simp)
    then show ?thesis using ok' none load_step(1) by (simp add: single_ok_def del: if_split)
  next
    case (publish_step ps p qs p' b')
    note one = single_publisher [OF assms(2) publish_step(2)]
    have "newest_kept Q [p'] (chan b' i) i (offered s i) (received s i)" if "i < next_id (bus s)" for i
      by (rule publish_keeps_newest [OF fifo publish_step(3)]) (use kept [OF that] ok that one(3) in \<open>simp_all add: net_ok_def\<close>)
    then show ?thesis
      using ok' publish_step(1) one publish_step_channels [OF fifo publish_step(3)] by (simp add: single_ok_def)
  next
    case (return_step ps p qs)
    note one = single_publisher [OF assms(2) return_step(2)]
    have "newest_kept Q [] (chan (bus s) i) i (offered s i) (received s i)" if "i < next_id (bus s)" for i
      using kept [OF that] one(3) return_step(3)
      by (simp add: newest_kept_def offered_before_def unsent_def making_room_def)
    then show ?thesis using ok' return_step(1) one by (simp add: single_ok_def)
  qed
qed

lemma single_producer:
  assumes "bounded_fifo Q"
  shows "guarded_system (net_start Q) (net_step Q True) (single_ok Q)"
proof
  show "single_ok Q s'" if "single_ok Q s" "net_step Q True s s'" for s s' using assms that by (rule single_step_ok)
qed (auto simp: net_start_def single_ok_def net_ok_def broadcaster_new_def)

section \<open>Properties\<close>

text \<open>C11: Every value is accounted for. However the atomic steps of any number of publishers, receivers,
  arrivals and departures interleave, each subscriber's queue stays within its capacity, and when no
  publication is under way the values offered to it are exactly as many as it received, still holds
  and has counted as dropped.\<close>

theorem broadcast_accounts:
  assumes "bounded_fifo Q" "reach (net_start Q) (net_step Q single) s" "i < next_id (bus s)"
  shows "length (items Q (chan (bus s) i)) \<le> capacity Q (chan (bus s) i) \<and>
    (publishers s = [] \<longrightarrow>
      length (offered s i) = length (received s i) + length (items Q (chan (bus s) i)) + dropped (chan (bus s) i))"
  using net_okD [OF guarded_system.reach_inv [OF broadcaster [OF assms(1)] assms(2)] assms(3)] by simp

text \<open>C38: Publishing never waits. A publication to \<open>n\<close> subscribers is over after \<open>4 n\<close> steps of its own,
  whatever the other publishers and the receivers do to the queues between them.\<close>

fun stage_left :: "stage \<Rightarrow> nat" where
  "stage_left Sending = 4"
| "stage_left Evicting = 3"
| "stage_left (Retrying _) = 2"
| "stage_left (Counting _) = 1"

definition steps_left :: "'a publisher \<Rightarrow> nat" where
  "steps_left p = (case todo p of [] \<Rightarrow> 0 | _ # rest \<Rightarrow> stage_left (stage p) + 4 * length rest)"

lemma steps_left_decreases:
  assumes "todo p \<noteq> []"
  shows "steps_left (fst (publish_step Q p b)) < steps_left p"
proof -
  obtain i rest where "todo p = i # rest" using assms by (cases "todo p") auto
  then show ?thesis
    by (cases "stage p") (auto simp: publish_step_def publish_at_def steps_left_def
        split: option.splits overflow_policy.splits list.splits)
qed

lemma publish_ends: "steps_left p \<le> length bs \<Longrightarrow> todo (foldl (\<lambda>p b. fst (publish_step Q p b)) p bs) = []"
proof (induction bs arbitrary: p)
  case Nil
  have "0 < stage_left (stage p)" by (cases "stage p") simp_all
  then show ?case using Nil by (cases "todo p") (simp_all add: steps_left_def)
next
  case (Cons b bs)
  show ?case
  proof (cases "todo p")
    case Nil
    then have "publish_step Q p b = (p, b)" "steps_left p = 0" by (simp_all add: publish_step_def steps_left_def)
    then show ?thesis using Cons.IH [of p] by simp
  next
    case (Cons i rest)
    then have "steps_left (fst (publish_step Q p b)) \<le> length bs"
      using steps_left_decreases [of p Q b] Cons.prems by simp
    then show ?thesis using Cons.IH by simp
  qed
qed

theorem publish_wait_free:
  assumes "length bs = 4 * length (subscribers b)"
  shows "todo (foldl (\<lambda>p b'. fst (publish_step Q p b')) (publisher_new v b) bs) = []"
  by (rule publish_ends) (use assms in \<open>simp add: steps_left_def publisher_new_def split: list.split\<close>)

text \<open>C10: A slow subscriber loses the stale values only. With one producer, what a subscriber receives and
  still holds is a subsequence of what was offered to it, in order; and between publications a
  subscriber of the kind that drops the oldest holds exactly the newest values offered, and has the very
  last one, received or in its queue.\<close>

theorem newest_value_kept:
  assumes "bounded_fifo Q" "reach (net_start Q) (net_step Q True) s" "i < next_id (bus s)" "publishers s = []"
  shows "subseq (received s i @ items Q (chan (bus s) i)) (offered s i) \<and>
    (policy (chan (bus s) i) = DropOldest \<longrightarrow> offered s i \<noteq> [] \<longrightarrow>
      suffix (items Q (chan (bus s) i)) (offered s i) \<and> received s i @ items Q (chan (bus s) i) \<noteq> [] \<and>
      last (received s i @ items Q (chan (bus s) i)) = last (offered s i))"
  using guarded_system.reach_inv [OF single_producer [OF assms(1)] assms(2)] assms(3,4)
  by (simp add: single_ok_def newest_kept_def offered_before_def)

text \<open>A queue as a list with its capacity, and a concrete run: one subscriber with room for one value,
  offered two.\<close>

definition list_queue :: "('a list \<times> nat, 'a) queue_ops" where
  "list_queue = \<lparr>queue_new = (\<lambda>n. ([], n)),
     try_send = (\<lambda>v (xs, n). if length xs < n then Some (xs @ [v], n) else None),
     try_recv = (\<lambda>(xs, n). case xs of [] \<Rightarrow> None | v # vs \<Rightarrow> Some ((vs, n), v)), contents = fst, room = snd\<rparr>"

lemma list_queue_fifo: "bounded_fifo list_queue"
  by (simp add: bounded_fifo_def list_queue_def split: option.split list.split)

definition example_net :: "nat list \<Rightarrow> nat \<Rightarrow> nat publisher list \<Rightarrow> nat list \<Rightarrow> (nat list \<times> nat, nat) net" where
  "example_net xs n ps ys = \<lparr>bus = \<lparr>chan = (\<lambda>_. \<lparr>queue = ([], 1), policy = DropOldest, dropped = 0\<rparr>)
       (0 := \<lparr>queue = (xs, 1), policy = DropOldest, dropped = n\<rparr>), subscribers = [0], next_id = 1\<rparr>,
     publishers = ps, offered = (\<lambda>_. [])(0 := ys), received = (\<lambda>_. [])\<rparr>"

abbreviation example_reach :: "(nat list \<times> nat, nat) net \<Rightarrow> bool" where
  "example_reach \<equiv> reach (net_start list_queue) (net_step list_queue True)"

abbreviation example_pub :: "nat \<Rightarrow> nat list \<Rightarrow> stage \<Rightarrow> nat publisher" where
  "example_pub v t st \<equiv> \<lparr>value_of = v, todo = t, stage = st\<rparr>"

lemma example_publish:
  assumes "example_reach (example_net xs n [p] ys)"
    and "publish_step list_queue p (bus (example_net xs n [p] ys)) = (p', bus (example_net xs' n' [p'] ys))"
  shows "example_reach (example_net xs' n' [p'] ys)"
proof -
  have eq: "example_net xs' n' [p'] ys =
      (example_net xs n [p] ys)\<lparr>bus := bus (example_net xs' n' [p'] ys), publishers := [] @ p' # []\<rparr>"
    by (simp add: example_net_def)
  show ?thesis
    by (subst eq, rule reach.extend [OF assms(1)], rule net_step.publish_step [where ps = "[]" and qs = "[]" and p = p])
      (use assms(2) in \<open>simp_all add: example_net_def\<close>)
qed

lemma example_load:
  assumes "example_reach (example_net xs n [] ys)"
  shows "example_reach (example_net xs n [example_pub v [0] Sending] (ys @ [v]))"
proof -
  let ?s = "example_net xs n [] ys"
  have eq: "example_net xs n [example_pub v [0] Sending] (ys @ [v]) = ?s\<lparr>publishers := publishers ?s @ [publisher_new v (bus ?s)],
      offered := (\<lambda>i. if i \<in> set (subscribers (bus ?s)) then offered ?s i @ [v] else offered ?s i)\<rparr>"
    by (auto simp: example_net_def publisher_new_def)
  show ?thesis by (subst eq, rule reach.extend [OF assms(1)], rule net_step.load_step) (simp add: example_net_def)
qed

lemma example_return:
  assumes "example_reach (example_net xs n [example_pub v [] Sending] ys)"
  shows "example_reach (example_net xs n [] ys)"
proof -
  have eq: "example_net xs n [] ys = (example_net xs n [example_pub v [] Sending] ys)\<lparr>publishers := [] @ []\<rparr>"
    by (simp add: example_net_def)
  show ?thesis
    by (subst eq, rule reach.extend [OF assms], rule net_step.return_step
        [where ps = "[]" and qs = "[]" and p = "example_pub v [] Sending"]) (simp_all add: example_net_def)
qed

lemma example_net_reachable: "example_reach (example_net [9] 1 [] [8, 9])"
proof -
  let ?s = "\<lparr>bus = broadcaster_new list_queue, publishers = [], offered = (\<lambda>_. []), received = (\<lambda>_. [])\<rparr> :: (nat list \<times> nat, nat) net"
  have start: "example_reach ?s" by (rule reach.start) (simp add: net_start_def)
  have "net_step list_queue True ?s (?s\<lparr>bus := bus (example_net [] 0 [] [])\<rparr>)"
    by (rule net_step.subscribe_step [where c = 0 and p = DropOldest and i = 0])
      (simp add: bus_subscribe_def broadcaster_new_def example_net_def list_queue_def)
  moreover have "?s\<lparr>bus := bus (example_net [] 0 [] [])\<rparr> = example_net [] 0 [] []" by (auto simp: example_net_def)
  ultimately have new: "example_reach (example_net [] 0 [] [])" using reach.extend [OF start] by simp
  note eval = publish_step_def publish_at_def example_net_def list_queue_def set_chan_def set_queue_def
  have "example_reach (example_net [8] 0 [example_pub 8 [] Sending] [8])"
    by (rule example_publish [OF example_load [OF new, of 8, simplified]]) (simp add: eval)
  note eight = example_load [OF example_return [OF this], of 9, simplified]
  have "example_reach (example_net [8] 0 [example_pub 9 [0] Evicting] [8, 9])"
    by (rule example_publish [OF eight]) (simp add: eval)
  then have "example_reach (example_net [] 0 [example_pub 9 [0] (Retrying 1)] [8, 9])"
    by (rule example_publish) (simp add: eval)
  then have "example_reach (example_net [9] 0 [example_pub 9 [0] (Counting 1)] [8, 9])"
    by (rule example_publish) (simp add: eval)
  then have "example_reach (example_net [9] 1 [example_pub 9 [] Sending] [8, 9])"
    by (rule example_publish) (simp add: eval)
  then show ?thesis by (rule example_return)
qed

theorem broadcast_accounts_witness:
  "length (offered (example_net [9] 1 [] [8, 9]) 0) = 2 \<and> dropped (chan (bus (example_net [9] 1 [] [8, 9])) 0) = 1 \<and>
   length (offered (example_net [9] 1 [] [8, 9]) 0) = length (received (example_net [9] 1 [] [8, 9]) 0) +
     length (items list_queue (chan (bus (example_net [9] 1 [] [8, 9])) 0)) + dropped (chan (bus (example_net [9] 1 [] [8, 9])) 0)"
  using broadcast_accounts [OF list_queue_fifo example_net_reachable, of 0] by (simp add: example_net_def)

theorem newest_value_kept_witness:
  "last (received (example_net [9] 1 [] [8, 9]) 0 @ items list_queue (chan (bus (example_net [9] 1 [] [8, 9])) 0)) = 9"
  using newest_value_kept [OF list_queue_fifo example_net_reachable, of 0] by (simp add: example_net_def)

theorem publish_wait_free_witness:
  "todo (foldl (\<lambda>p b'. fst (publish_step list_queue p b')) (publisher_new 5 (bus (example_net [9] 1 [] [])))
     (replicate 4 (bus (example_net [7] 2 [] [])))) = []"
  using publish_wait_free [of "replicate 4 (bus (example_net [7] 2 [] []))" "bus (example_net [9] 1 [] [])" list_queue 5]
  by (simp add: example_net_def)

end
