(* ===== verification/Hardware_Command.thy ===== *)
theory Hardware_Command
  imports Prelude
begin

text \<open>
  The life of one hardware command, \<^verbatim>\<open>ez-daemon/src/ingest.rs\<close>: the thread that requests it, the
  ingestion thread that owns the device, and the receipt the two share. The receipt's phase is an atomic
  variable changed by compare-and-exchange, its outcome is guarded by a mutex; every access to one of
  them, every message and the call of the device is one atomic step, and the steps of the two threads
  interleave in every order, with timeouts, a full queue, the end of the ingestion thread and a panic of
  the driver at any point. The channels for commands and replies belong to a library: a message that was
  sent can be received from then on, and the sender is gone when the envelope is.
\<close>

section \<open>The receipt\<close>

datatype command_phase = Queued | Applying | Applied | Rejected | Cancelled

datatype command_failure = DeviceRefused string | IngestionEnded | CancelledBeforeApplication | QueueUnavailable

type_synonym command_result = "command_failure + unit"

record receipt =
  phase :: command_phase
  outcome :: "command_result option"

definition receipt_new :: receipt where
  "receipt_new = \<lparr>phase = Queued, outcome = None\<rparr>"

definition begin_applying :: "receipt \<Rightarrow> receipt \<times> bool" where
  "begin_applying r = (if phase r = Queued then (r\<lparr>phase := Applying\<rparr>, True) else (r, False))"

definition cancel_queued :: "receipt \<Rightarrow> receipt \<times> bool" where
  "cancel_queued r = (if phase r = Queued then (r\<lparr>phase := Cancelled\<rparr>, True) else (r, False))"

text \<open>\<open>finish\<close> is two steps: the outcome, then the phase.\<close>

definition finish_outcome :: "command_result \<Rightarrow> receipt \<Rightarrow> receipt" where
  "finish_outcome result r = r\<lparr>outcome := Some result\<rparr>"

definition finish_phase :: "command_result \<Rightarrow> receipt \<Rightarrow> receipt" where
  "finish_phase result r = r\<lparr>phase := (case result of Inr _ \<Rightarrow> Applied | Inl _ \<Rightarrow> Rejected)\<rparr>"

text \<open>\<open>outcome()\<close> reads the phase, and the outcome when the phase calls for it.\<close>

definition receipt_outcome_of :: "receipt \<Rightarrow> command_result option" where
  "receipt_outcome_of r =
     (case phase r of
        Applied \<Rightarrow> outcome r
      | Rejected \<Rightarrow> outcome r
      | Cancelled \<Rightarrow> Some (Inl CancelledBeforeApplication)
      | _ \<Rightarrow> None)"

section \<open>The two threads\<close>

text \<open>What the requester gets: a result, or the receipt of a command that is still applying.\<close>

datatype answer = Answered command_result | StillPending

datatype requester = Submitting | Waiting | TimedOut | ReadingPhase | ReadingOutcome | Returned answer

text \<open>The owner of the command's envelope: the queue, the loop of the ingestion thread, and the \<open>Drop\<close> of
  the envelope.\<close>

datatype worker =
    InQueue
  | Taken
  | Beginning
  | Calling
  | Publishing command_result
  | StoringPhase command_result
  | Replying command_result
  | Dropping
  | DropChecking
  | DropFinishing
  | DropStoring
  | Gone

text \<open>\<open>calls\<close> and \<open>accepted\<close> record what the device has seen: the number of calls of its setter, and
  whether it took the last one (\<open>None\<close> when the driver panicked). The calls that restore the old
  settings after a refusal are not counted.\<close>

record command =
  receipt :: receipt
  requester :: requester
  worker :: worker
  reply :: "command_result option"
  calls :: nat
  accepted :: "bool option"

definition command_new :: "command \<Rightarrow> bool" where
  "command_new s \<longleftrightarrow> s = \<lparr>receipt = receipt_new, requester = Submitting, worker = InQueue, reply = None,
     calls = 0, accepted = None\<rparr>"

text \<open>\<open>request_with_timeout\<close>. When the queue has no room in time, the envelope is dropped on the spot. The
  wait ends with a reply, at the deadline, or because the envelope and with it the sender is gone.\<close>

inductive requester_step :: "command \<Rightarrow> command \<Rightarrow> bool" where
  submitted: "requester s = Submitting \<Longrightarrow> requester_step s (s\<lparr>requester := Waiting\<rparr>)"
| queue_full: "requester s = Submitting \<Longrightarrow>
    requester_step s (s\<lparr>requester := Returned (Answered (Inl QueueUnavailable)), worker := Gone,
      receipt := fst (cancel_queued (receipt s))\<rparr>)"
| replied: "requester s = Waiting \<Longrightarrow> reply s = Some result \<Longrightarrow>
    requester_step s (s\<lparr>requester := Returned (Answered result)\<rparr>)"
| timeout: "requester s = Waiting \<Longrightarrow> reply s = None \<Longrightarrow> requester_step s (s\<lparr>requester := TimedOut\<rparr>)"
| cancelled: "requester s = TimedOut \<Longrightarrow>
    requester_step s (s\<lparr>requester := ReadingPhase, receipt := fst (cancel_queued (receipt s))\<rparr>)"
| read_phase: "requester s = ReadingPhase \<Longrightarrow>
    requester_step s (s\<lparr>requester := (case phase (receipt s) of
        Applied \<Rightarrow> ReadingOutcome | Rejected \<Rightarrow> ReadingOutcome
      | Cancelled \<Rightarrow> Returned (Answered (Inl CancelledBeforeApplication)) | _ \<Rightarrow> Returned StillPending)\<rparr>)"
| read_outcome: "requester s = ReadingOutcome \<Longrightarrow>
    requester_step s (s\<lparr>requester := Returned (case outcome (receipt s) of Some result \<Rightarrow> Answered result | None \<Rightarrow> StillPending)\<rparr>)"

text \<open>The command loop of \<open>run\<close> and the \<open>Drop\<close> of the envelope. A command is in the queue once it was
  submitted; the loop may stop before it takes it.\<close>

inductive worker_step :: "command \<Rightarrow> command \<Rightarrow> bool" where
  taken: "worker s = InQueue \<Longrightarrow> requester s \<noteq> Submitting \<Longrightarrow> worker_step s (s\<lparr>worker := Taken\<rparr>)"
| retired: "worker s = InQueue \<Longrightarrow> requester s \<noteq> Submitting \<Longrightarrow> worker_step s (s\<lparr>worker := Dropping\<rparr>)"
| expired: "worker s = Taken \<Longrightarrow> worker_step s (s\<lparr>worker := Beginning, receipt := fst (cancel_queued (receipt s))\<rparr>)"
| in_time: "worker s = Taken \<Longrightarrow> worker_step s (s\<lparr>worker := Beginning\<rparr>)"
| began: "worker s = Beginning \<Longrightarrow> begin_applying (receipt s) = (r, True) \<Longrightarrow>
    worker_step s (s\<lparr>worker := Calling, receipt := r\<rparr>)"
| not_begun: "worker s = Beginning \<Longrightarrow> begin_applying (receipt s) = (r, False) \<Longrightarrow>
    worker_step s (s\<lparr>worker := Dropping, receipt := r\<rparr>)"
| device_accepts: "worker s = Calling \<Longrightarrow>
    worker_step s (s\<lparr>worker := Publishing (Inr ()), calls := calls s + 1, accepted := Some True\<rparr>)"
| device_refuses: "worker s = Calling \<Longrightarrow>
    worker_step s (s\<lparr>worker := Publishing (Inl (DeviceRefused message)), calls := calls s + 1, accepted := Some False\<rparr>)"
| driver_panics: "worker s = Calling \<Longrightarrow> worker_step s (s\<lparr>worker := Dropping, calls := calls s + 1\<rparr>)"
| recovery_panics: "worker s = Publishing result \<Longrightarrow> worker_step s (s\<lparr>worker := Dropping\<rparr>)"
| published: "worker s = Publishing result \<Longrightarrow>
    worker_step s (s\<lparr>worker := StoringPhase result, receipt := finish_outcome result (receipt s)\<rparr>)"
| stored: "worker s = StoringPhase result \<Longrightarrow>
    worker_step s (s\<lparr>worker := Replying result, receipt := finish_phase result (receipt s)\<rparr>)"
| sent: "worker s = Replying result \<Longrightarrow> worker_step s (s\<lparr>worker := Dropping, reply := Some result\<rparr>)"
| drop_cancels: "worker s = Dropping \<Longrightarrow> cancel_queued (receipt s) = (r, ok) \<Longrightarrow>
    worker_step s (s\<lparr>worker := (if ok then Gone else DropChecking), receipt := r\<rparr>)"
| drop_checks: "worker s = DropChecking \<Longrightarrow>
    worker_step s (s\<lparr>worker := (if phase (receipt s) = Applying then DropFinishing else Gone)\<rparr>)"
| drop_finishes: "worker s = DropFinishing \<Longrightarrow>
    worker_step s (s\<lparr>worker := DropStoring, receipt := finish_outcome (Inl IngestionEnded) (receipt s)\<rparr>)"
| drop_stores: "worker s = DropStoring \<Longrightarrow>
    worker_step s (s\<lparr>worker := Gone, receipt := finish_phase (Inl IngestionEnded) (receipt s)\<rparr>)"

inductive command_step :: "command \<Rightarrow> command \<Rightarrow> bool" where
  requester_moves: "requester_step s s' \<Longrightarrow> command_step s s'"
| worker_moves: "worker_step s s' \<Longrightarrow> command_step s s'"

section \<open>The invariant\<close>

text \<open>What a result says about the device.\<close>

fun device_agrees :: "command_phase \<Rightarrow> nat \<Rightarrow> bool option \<Rightarrow> command_result \<Rightarrow> bool" where
  "device_agrees p n a (Inr _) \<longleftrightarrow> n = 1 \<and> a = Some True"
| "device_agrees p n a (Inl (DeviceRefused _)) \<longleftrightarrow> n = 1 \<and> a = Some False"
| "device_agrees p n a (Inl IngestionEnded) \<longleftrightarrow> n = 1"
| "device_agrees p n a (Inl CancelledBeforeApplication) \<longleftrightarrow> p = Cancelled"
| "device_agrees p n a (Inl QueueUnavailable) \<longleftrightarrow> p = Cancelled"

abbreviation truthful :: "command \<Rightarrow> command_result \<Rightarrow> bool" where
  "truthful s \<equiv> device_agrees (phase (receipt s)) (calls s) (accepted s)"

text \<open>Where the worker stands, and what the receipt and the device look like then.\<close>

definition worker_ok :: "command \<Rightarrow> bool" where
  "worker_ok s \<longleftrightarrow>
     (case worker s of
        InQueue \<Rightarrow> phase (receipt s) \<in> {Queued, Cancelled}
      | Taken \<Rightarrow> phase (receipt s) \<in> {Queued, Cancelled}
      | Beginning \<Rightarrow> phase (receipt s) \<in> {Queued, Cancelled}
      | Calling \<Rightarrow> phase (receipt s) = Applying \<and> calls s = 0 \<and> outcome (receipt s) = None \<and> reply s = None
      | Publishing result \<Rightarrow> phase (receipt s) = Applying \<and> truthful s result
      | StoringPhase result \<Rightarrow> phase (receipt s) = Applying \<and> truthful s result \<and> outcome (receipt s) = Some result
      | Replying result \<Rightarrow> phase (receipt s) \<in> {Applied, Rejected} \<and> outcome (receipt s) = Some result
      | DropFinishing \<Rightarrow> phase (receipt s) = Applying \<and> truthful s (Inl IngestionEnded)
      | DropStoring \<Rightarrow> phase (receipt s) = Applying \<and> truthful s (Inl IngestionEnded) \<and>
          outcome (receipt s) = Some (Inl IngestionEnded)
      | Dropping \<Rightarrow> phase (receipt s) = Applying \<longrightarrow> truthful s (Inl IngestionEnded)
      | DropChecking \<Rightarrow> phase (receipt s) \<noteq> Queued \<and> (phase (receipt s) = Applying \<longrightarrow> truthful s (Inl IngestionEnded))
      | Gone \<Rightarrow> phase (receipt s) \<in> {Applied, Rejected, Cancelled})"

definition receipt_ok :: "command \<Rightarrow> bool" where
  "receipt_ok s \<longleftrightarrow>
     (phase (receipt s) \<in> {Queued, Cancelled} \<longrightarrow> calls s = 0 \<and> accepted s = None \<and> outcome (receipt s) = None) \<and>
     (phase (receipt s) \<in> {Applied, Rejected} \<longrightarrow> (\<exists>result. outcome (receipt s) = Some result \<and> truthful s result \<and>
        (phase (receipt s) = Applied \<longleftrightarrow> result = Inr ()))) \<and>
     (phase (receipt s) = Applying \<longrightarrow> worker s \<notin> {InQueue, Taken, Beginning, Gone}) \<and> calls s \<le> 1 \<and>
     (\<forall>result. reply s = Some result \<longrightarrow> phase (receipt s) \<in> {Applied, Rejected} \<and> outcome (receipt s) = Some result)"

definition requester_ok :: "command \<Rightarrow> bool" where
  "requester_ok s \<longleftrightarrow>
     (case requester s of
        Submitting \<Rightarrow> worker s = InQueue \<and> phase (receipt s) = Queued
      | ReadingPhase \<Rightarrow> phase (receipt s) \<noteq> Queued
      | ReadingOutcome \<Rightarrow> phase (receipt s) \<in> {Applied, Rejected}
      | Returned (Answered result) \<Rightarrow> truthful s result \<and> phase (receipt s) \<in> {Applied, Rejected, Cancelled} \<and>
          (phase (receipt s) \<noteq> Cancelled \<longrightarrow> outcome (receipt s) = Some result)
      | Returned StillPending \<Rightarrow> phase (receipt s) \<notin> {Queued, Cancelled}
      | _ \<Rightarrow> True)"

definition command_ok :: "command \<Rightarrow> bool" where
  "command_ok s \<longleftrightarrow> worker_ok s \<and> receipt_ok s \<and> requester_ok s"

lemma requester_update [simp]: "worker_ok (s\<lparr>requester := q\<rparr>) = worker_ok s" "receipt_ok (s\<lparr>requester := q\<rparr>) = receipt_ok s"
  by (cases "worker s"; simp add: worker_ok_def receipt_ok_def)+

lemma requester_step_ok:
  assumes "command_ok s" "requester_step s s'"
  shows "command_ok s'"
proof -
  have w: "worker_ok s" and r: "receipt_ok s" and q: "requester_ok s" using assms(1) by (simp_all add: command_ok_def)
  from assms(2) show ?thesis
  proof cases
    case submitted
    then show ?thesis using w r by (simp add: command_ok_def requester_ok_def)
  next
    case queue_full
    then have "worker s = InQueue" "phase (receipt s) = Queued" using q by (simp_all add: requester_ok_def)
    then show ?thesis using r queue_full(1) by (auto simp: command_ok_def worker_ok_def receipt_ok_def requester_ok_def cancel_queued_def)
  next
    case (replied result)
    then have "phase (receipt s) \<in> {Applied, Rejected}" "outcome (receipt s) = Some result" "truthful s result"
      using r by (auto simp: receipt_ok_def)
    then show ?thesis using w r replied(1) by (auto simp: command_ok_def requester_ok_def)
  next
    case timeout
    then show ?thesis using w r by (simp add: command_ok_def requester_ok_def)
  next
    case cancelled
    show ?thesis
    proof (cases "phase (receipt s) = Queued")
      case True
      then have "worker s \<notin> {Calling, DropFinishing, DropStoring, DropChecking, Gone}" 
        "\<And>x. worker s \<noteq> Publishing x \<and> worker s \<noteq> StoringPhase x \<and> worker s \<noteq> Replying x" using w by (auto simp: worker_ok_def)
      then have "worker s \<in> {InQueue, Taken, Beginning, Dropping}" by (cases "worker s") auto
      then show ?thesis
        using r True cancelled(1) by (auto simp: command_ok_def worker_ok_def receipt_ok_def requester_ok_def cancel_queued_def)
    next
      case False
      then show ?thesis using w r cancelled(1) by (simp add: command_ok_def requester_ok_def cancel_queued_def)
    qed
  next
    case read_phase
    then have "phase (receipt s) \<noteq> Queued" using q by (simp add: requester_ok_def)
    then show ?thesis
      using w r read_phase(1) by (cases "phase (receipt s)") (simp_all add: command_ok_def requester_ok_def)
  next
    case read_outcome
    then have "phase (receipt s) \<in> {Applied, Rejected}" using q by (simp add: requester_ok_def)
    moreover from this obtain result where "outcome (receipt s) = Some result" "truthful s result"
      using r by (auto simp: receipt_ok_def)
    ultimately show ?thesis using w r read_outcome(1) by (auto simp: command_ok_def requester_ok_def)
  qed
qed


text \<open>The worker's steps that change the receipt or what the device has seen happen while no final answer
  can have been given.\<close>

lemma requester_ok_open:
  assumes "requester_ok s" "phase (receipt s) \<in> {Queued, Applying}" "phase (receipt s') \<noteq> Queued" "phase (receipt s') \<noteq> Cancelled"
    and "requester s' = requester s" "requester s \<noteq> Submitting"
  shows "requester_ok s'"
  using assms by (cases "requester s") (auto simp: requester_ok_def split: answer.splits)

lemma requester_ok_same:
  assumes "requester_ok s" "receipt s' = receipt s" "calls s' = calls s" "accepted s' = accepted s"
    and "requester s' = requester s" "requester s \<noteq> Submitting"
  shows "requester_ok s'"
  using assms by (cases "requester s") (auto simp: requester_ok_def split: answer.splits)

lemma submitted_first: "requester_ok s \<Longrightarrow> worker s \<noteq> InQueue \<Longrightarrow> requester s \<noteq> Submitting"
  by (auto simp: requester_ok_def)

lemma worker_step_ok:
  assumes "command_ok s" "worker_step s s'"
  shows "command_ok s'"
proof -
  have w: "worker_ok s" and r: "receipt_ok s" and q: "requester_ok s" using assms(1) by (simp_all add: command_ok_def)
  from assms(2) show ?thesis
  proof cases
    case taken
    moreover have "requester_ok s'" by (rule requester_ok_same [OF q]) (use taken in simp_all)
    ultimately show ?thesis using w r by (auto simp: command_ok_def worker_ok_def receipt_ok_def)
  next
    case retired
    moreover have "requester_ok s'" by (rule requester_ok_same [OF q]) (use retired in simp_all)
    ultimately show ?thesis using w r by (auto simp: command_ok_def worker_ok_def receipt_ok_def)
  next
    case expired
    then have p: "phase (receipt s) \<in> {Queued, Cancelled}" using w by (simp add: worker_ok_def)
    have "requester_ok s'"
      using q p expired submitted_first [OF q]
      by (cases "requester s") (auto simp: requester_ok_def cancel_queued_def split: answer.splits)
    then show ?thesis using p r expired by (auto simp: command_ok_def worker_ok_def receipt_ok_def cancel_queued_def)
  next
    case in_time
    moreover have "requester_ok s'" by (rule requester_ok_same [OF q]) (use in_time submitted_first [OF q] in simp_all)
    ultimately show ?thesis using w r by (auto simp: command_ok_def worker_ok_def receipt_ok_def)
  next
    case (began r')
    then have p: "phase (receipt s) = Queued" "r' = (receipt s)\<lparr>phase := Applying\<rparr>"
      by (auto simp: begin_applying_def split: if_splits)
    have "requester_ok s'" by (rule requester_ok_open [OF q]) (use began p submitted_first [OF q] in simp_all)
    then show ?thesis using p r began(1) by (auto simp: command_ok_def worker_ok_def receipt_ok_def)
  next
    case (not_begun r')
    then have p: "phase (receipt s) = Cancelled" "r' = receipt s"
      using w by (auto simp: worker_ok_def begin_applying_def split: if_splits)
    have "requester_ok s'" by (rule requester_ok_same [OF q]) (use not_begun p submitted_first [OF q] in simp_all)
    then show ?thesis using p r not_begun(1) by (auto simp: command_ok_def worker_ok_def receipt_ok_def)
  next
    case device_accepts
    then have p: "phase (receipt s) = Applying" "calls s = 0" "reply s = None" using w by (auto simp: worker_ok_def)
    have "requester_ok s'" by (rule requester_ok_open [OF q]) (use device_accepts p submitted_first [OF q] in simp_all)
    then show ?thesis using p device_accepts(1) by (simp add: command_ok_def worker_ok_def receipt_ok_def)
  next
    case (device_refuses message)
    then have p: "phase (receipt s) = Applying" "calls s = 0" "reply s = None" using w by (auto simp: worker_ok_def)
    have "requester_ok s'" by (rule requester_ok_open [OF q]) (use device_refuses p submitted_first [OF q] in simp_all)
    then show ?thesis using p device_refuses(1) by (simp add: command_ok_def worker_ok_def receipt_ok_def)
  next
    case driver_panics
    then have p: "phase (receipt s) = Applying" "calls s = 0" "reply s = None" using w by (auto simp: worker_ok_def)
    have "requester_ok s'" by (rule requester_ok_open [OF q]) (use driver_panics p submitted_first [OF q] in simp_all)
    then show ?thesis using p driver_panics(1) by (simp add: command_ok_def worker_ok_def receipt_ok_def)
  next
    case (recovery_panics result)
    then have p: "phase (receipt s) = Applying" "truthful s result" "calls s \<le> 1"
      using w r by (auto simp: worker_ok_def receipt_ok_def)
    then have "calls s = 1" by (cases "(phase (receipt s), calls s, accepted s, result)" rule: device_agrees.cases) auto
    moreover have "requester_ok s'" by (rule requester_ok_open [OF q]) (use recovery_panics p submitted_first [OF q] in simp_all)
    ultimately show ?thesis using p r recovery_panics(1) by (auto simp: command_ok_def worker_ok_def receipt_ok_def)
  next
    case (published result)
    then have p: "phase (receipt s) = Applying" "truthful s result" using w by (auto simp: worker_ok_def)
    have "requester_ok s'"
      by (rule requester_ok_open [OF q]) (use published p submitted_first [OF q] in \<open>simp_all add: finish_outcome_def\<close>)
    then show ?thesis using p r published(1) by (auto simp: command_ok_def worker_ok_def receipt_ok_def finish_outcome_def)
  next
    case (stored result)
    then have p: "phase (receipt s) = Applying" "truthful s result" "outcome (receipt s) = Some result"
      using w by (auto simp: worker_ok_def)
    define p' where "p' = (case result of Inr _ \<Rightarrow> Applied | Inl _ \<Rightarrow> Rejected)"
    have p': "p' \<in> {Applied, Rejected}" "p' = Applied \<longleftrightarrow> result = Inr ()" by (auto simp: p'_def split: sum.splits)
    have s': "s' = s\<lparr>worker := Replying result, receipt := (receipt s)\<lparr>phase := p'\<rparr>\<rparr>"
      using stored by (simp add: finish_phase_def p'_def)
    have "device_agrees p' (calls s) (accepted s) result"
      using p(1,2) p' by (cases "(phase (receipt s), calls s, accepted s, result)" rule: device_agrees.cases) auto
    moreover have "requester_ok s'"
      by (rule requester_ok_open [OF q]) (use stored(2) p p' submitted_first [OF q] in \<open>auto simp: s'\<close>)
    ultimately show ?thesis using p p' r by (auto simp: command_ok_def worker_ok_def receipt_ok_def s')
  next
    case (sent result)
    moreover have "requester_ok s'" by (rule requester_ok_same [OF q]) (use sent submitted_first [OF q] in simp_all)
    ultimately show ?thesis using w r by (auto simp: command_ok_def worker_ok_def receipt_ok_def)
  next
    case (drop_cancels r' ok)
    show ?thesis
    proof (cases "phase (receipt s) = Queued")
      case True
      have "requester_ok s'"
        using q True drop_cancels submitted_first [OF q]
        by (cases "requester s") (auto simp: requester_ok_def cancel_queued_def split: answer.splits)
      then show ?thesis
        using True r drop_cancels by (auto simp: command_ok_def worker_ok_def receipt_ok_def cancel_queued_def)
    next
      case False
      then have "r' = receipt s" "\<not> ok" using drop_cancels(3) by (simp_all add: cancel_queued_def)
      moreover from this have "requester_ok s'"
        by (intro requester_ok_same [OF q]) (use drop_cancels submitted_first [OF q] in simp_all)
      ultimately show ?thesis
        using False w r drop_cancels(1,2) by (auto simp: command_ok_def worker_ok_def receipt_ok_def)
    qed
  next
    case drop_checks
    moreover have "requester_ok s'" by (rule requester_ok_same [OF q]) (use drop_checks submitted_first [OF q] in simp_all)
    ultimately show ?thesis
      using w r by (cases "phase (receipt s)") (auto simp: command_ok_def worker_ok_def receipt_ok_def)
  next
    case drop_finishes
    then have p: "phase (receipt s) = Applying" "truthful s (Inl IngestionEnded)" using w by (auto simp: worker_ok_def)
    have "requester_ok s'"
      by (rule requester_ok_open [OF q]) (use drop_finishes p submitted_first [OF q] in \<open>simp_all add: finish_outcome_def\<close>)
    then show ?thesis using p r drop_finishes(1) by (auto simp: command_ok_def worker_ok_def receipt_ok_def finish_outcome_def)
  next
    case drop_stores
    then have p: "phase (receipt s) = Applying" "truthful s (Inl IngestionEnded)" "outcome (receipt s) = Some (Inl IngestionEnded)"
      using w by (auto simp: worker_ok_def)
    have "requester_ok s'"
      by (rule requester_ok_open [OF q]) (use drop_stores p submitted_first [OF q] in \<open>simp_all add: finish_phase_def\<close>)
    then show ?thesis using p r drop_stores(1) by (auto simp: command_ok_def worker_ok_def receipt_ok_def finish_phase_def)
  qed
qed

interpretation hardware_command: guarded_system command_new command_step command_ok
proof
  show "command_ok s'" if "command_ok s" "command_step s s'" for s s'
    using that(2) by cases (use that(1) requester_step_ok worker_step_ok in blast)+
qed (simp add: command_new_def command_ok_def worker_ok_def receipt_ok_def requester_ok_def receipt_new_def)

section \<open>Properties\<close>

text \<open>C8: The requester is told the truth, whatever the interleaving of deadline, queue and device. The
  device is called at most once; an acknowledged command was applied by it; one answered as refused was
  refused by it; and one answered as cancelled, or as finding no room in the queue, never reaches it,
  now or later.\<close>

theorem command_answers_true:
  assumes "reach command_new command_step s"
  shows "calls s \<le> 1 \<and>
    (requester s = Returned (Answered (Inr ())) \<longrightarrow> calls s = 1 \<and> accepted s = Some True) \<and>
    (requester s = Returned (Answered (Inl (DeviceRefused message))) \<longrightarrow> calls s = 1 \<and> accepted s = Some False) \<and>
    (requester s = Returned (Answered (Inl CancelledBeforeApplication)) \<or>
     requester s = Returned (Answered (Inl QueueUnavailable)) \<longrightarrow> calls s = 0)"
  using hardware_command.reach_inv [OF assms] by (auto simp: command_ok_def receipt_ok_def requester_ok_def)

lemma outcome_stays:
  assumes "command_ok s" "command_step s s'" "receipt_outcome_of (receipt s) = Some result"
  shows "receipt_outcome_of (receipt s') = Some result"
proof -
  have p: "phase (receipt s) \<in> {Applied, Rejected, Cancelled}"
    using assms(3) by (simp add: receipt_outcome_of_def split: command_phase.splits)
  have w: "worker_ok s" using assms(1) by (simp add: command_ok_def)
  have "receipt s' = receipt s"
    using assms(2)
  proof cases
    case requester_moves
    then show ?thesis by cases (use p in \<open>auto simp: cancel_queued_def\<close>)
  next
    case worker_moves
    then show ?thesis by cases (use p w in \<open>auto simp: cancel_queued_def begin_applying_def worker_ok_def\<close>)
  qed
  then show ?thesis using assms(3) by simp
qed

text \<open>C39: A receipt shows one result for ever. Once the outcome of a command can be read from its receipt, it
  never changes, and it says what the device did: applied, refused, or never called.\<close>

theorem receipt_outcome_final:
  assumes "reach command_new command_step s" "receipt_outcome_of (receipt s) = Some result"
    and "reach (\<lambda>x. x = s) command_step s'"
  shows "receipt_outcome_of (receipt s') = Some result \<and> (result = Inr () \<longrightarrow> calls s' = 1 \<and> accepted s' = Some True) \<and>
    (result = Inl (DeviceRefused message) \<longrightarrow> calls s' = 1 \<and> accepted s' = Some False) \<and>
    (result = Inl CancelledBeforeApplication \<longrightarrow> calls s' = 0)"
proof -
  have "command_ok s' \<and> receipt_outcome_of (receipt s') = Some result"
    using assms(3)
  proof (induction rule: reach.induct)
    case (start s')
    then show ?case using hardware_command.reach_inv [OF assms(1)] assms(2) by simp
  next
    case (extend s1 s2)
    then show ?case using hardware_command.step_inv outcome_stays by blast
  qed
  then show ?thesis
    by (auto simp: command_ok_def receipt_ok_def receipt_outcome_of_def split: command_phase.splits)
qed

text \<open>C12: No command stays pending for ever. As long as the envelope of a submitted command exists, the
  ingestion thread has a next step, whatever the requester does; each such step lowers a rank that
  starts at 11; and at the end the receipt has an outcome.\<close>

fun worker_rank :: "worker \<Rightarrow> nat" where
  "worker_rank InQueue = 11"
| "worker_rank Taken = 10"
| "worker_rank Beginning = 9"
| "worker_rank Calling = 8"
| "worker_rank (Publishing _) = 7"
| "worker_rank (StoringPhase _) = 6"
| "worker_rank (Replying _) = 5"
| "worker_rank Dropping = 4"
| "worker_rank DropChecking = 3"
| "worker_rank DropFinishing = 2"
| "worker_rank DropStoring = 1"
| "worker_rank Gone = 0"

theorem command_resolves:
  assumes "reach command_new command_step s" "requester s \<noteq> Submitting"
  shows "(worker s = Gone \<longrightarrow> receipt_outcome_of (receipt s) \<noteq> None) \<and> (worker s \<noteq> Gone \<longrightarrow> (\<exists>s'. worker_step s s')) \<and>
    (\<forall>s'. worker_step s s' \<longrightarrow> worker_rank (worker s') < worker_rank (worker s)) \<and>
    (\<forall>s'. requester_step s s' \<longrightarrow> worker s' = worker s)"
proof (intro conjI allI impI)
  have ok: "worker_ok s" "receipt_ok s" using hardware_command.reach_inv [OF assms(1)] by (simp_all add: command_ok_def)
  show "receipt_outcome_of (receipt s) \<noteq> None" if "worker s = Gone"
    using that ok by (auto simp: worker_ok_def receipt_ok_def receipt_outcome_of_def)
  show "\<exists>s'. worker_step s s'" if "worker s \<noteq> Gone"
  proof (cases "worker s")
    case Beginning
    then show ?thesis by (cases "begin_applying (receipt s)"; cases "snd (begin_applying (receipt s))")
        (auto intro: worker_step.intros)
  next
    case Dropping
    then show ?thesis by (cases "cancel_queued (receipt s)") (auto intro: worker_step.intros)
  qed (use that assms(2) in \<open>auto intro: worker_step.intros\<close>)
  show "worker_rank (worker s') < worker_rank (worker s)" if "worker_step s s'" for s'
    using that by cases auto
  show "worker s' = worker s" if "requester_step s s'" for s'
    using that assms(2) by cases auto
qed

section \<open>Example runs\<close>

abbreviation command_at :: "requester \<Rightarrow> worker \<Rightarrow> command_phase \<Rightarrow> command_result option \<Rightarrow> nat \<Rightarrow> bool option \<Rightarrow> command" where
  "command_at q w p y n a \<equiv> \<lparr>receipt = \<lparr>phase = p, outcome = y\<rparr>, requester = q, worker = w, reply = None, calls = n, accepted = a\<rparr>"

lemma run_requester:
  "reach command_new command_step s \<Longrightarrow> requester_step s s' \<Longrightarrow> reach command_new command_step s'"
  by (rule reach.extend) (auto intro: command_step.intros)

lemma run_worker:
  "reach command_new command_step s \<Longrightarrow> worker_step s s' \<Longrightarrow> reach command_new command_step s'"
  by (rule reach.extend) (auto intro: command_step.intros)

lemma example_waiting: "reach command_new command_step (command_at Waiting InQueue Queued None 0 None)"
proof -
  have "reach command_new command_step (command_at Submitting InQueue Queued None 0 None)"
    by (rule reach.start) (simp add: command_new_def receipt_new_def)
  then show ?thesis by (rule run_requester) (simp add: requester_step.simps)
qed

text \<open>A deadline before the ingestion thread looks at the queue.\<close>

lemma example_cancelled:
  "reach command_new command_step (command_at (Returned (Answered (Inl CancelledBeforeApplication))) InQueue Cancelled None 0 None)"
proof -
  note run = run_requester [OF run_requester [OF run_requester [OF example_waiting]]]
  show ?thesis
    by (rule run [of "command_at TimedOut InQueue Queued None 0 None" "command_at ReadingPhase InQueue Cancelled None 0 None"])
      (simp_all add: requester_step.simps cancel_queued_def)
qed

text \<open>A deadline during the call of the device, which then succeeds.\<close>

lemma example_pending:
  "reach command_new command_step (command_at (Returned StillPending) (Replying (Inr ())) Applied (Some (Inr ())) 1 (Some True))"
proof -
  have "reach command_new command_step (command_at Waiting Taken Queued None 0 None)"
    by (rule run_worker [OF example_waiting]) (simp add: worker_step.simps)
  then have "reach command_new command_step (command_at Waiting Beginning Queued None 0 None)"
    by (rule run_worker) (simp add: worker_step.simps)
  then have "reach command_new command_step (command_at Waiting Calling Applying None 0 None)"
    by (rule run_worker) (simp add: worker_step.simps begin_applying_def)
  then have "reach command_new command_step (command_at TimedOut Calling Applying None 0 None)"
    by (rule run_requester) (simp add: requester_step.simps)
  then have "reach command_new command_step (command_at ReadingPhase Calling Applying None 0 None)"
    by (rule run_requester) (simp add: requester_step.simps cancel_queued_def)
  then have "reach command_new command_step (command_at (Returned StillPending) Calling Applying None 0 None)"
    by (rule run_requester) (simp add: requester_step.simps)
  then have "reach command_new command_step (command_at (Returned StillPending) (Publishing (Inr ())) Applying None 1 (Some True))"
    by (rule run_worker) (simp add: worker_step.simps)
  then have "reach command_new command_step (command_at (Returned StillPending) (StoringPhase (Inr ())) Applying (Some (Inr ())) 1 (Some True))"
    by (rule run_worker) (simp add: worker_step.simps finish_outcome_def)
  then show ?thesis by (rule run_worker) (simp add: worker_step.simps finish_phase_def)
qed

theorem command_answers_true_witness:
  "calls (command_at (Returned (Answered (Inl CancelledBeforeApplication))) InQueue Cancelled None 0 None) = 0"
  using command_answers_true [OF example_cancelled] by simp

theorem receipt_outcome_final_witness:
  "receipt_outcome_of (receipt (command_at (Returned StillPending) Dropping Applied (Some (Inr ())) 1 (Some True))) \<noteq> None"
proof -
  let ?s = "command_at (Returned StillPending) (Replying (Inr ())) Applied (Some (Inr ())) 1 (Some True)"
  have o: "receipt_outcome_of (receipt ?s) = Some (Inr ())" by (simp add: receipt_outcome_of_def)
  have start: "reach (\<lambda>x. x = ?s) command_step ?s" by (rule reach.start) (rule refl)
  from receipt_outcome_final [OF example_pending o this] show ?thesis by (simp add: receipt_outcome_of_def)
qed

theorem command_resolves_witness:
  "\<exists>s'. worker_step (command_at (Returned StillPending) (Replying (Inr ())) Applied (Some (Inr ())) 1 (Some True)) s' \<and>
     worker_rank (worker s') < 5"
  using command_resolves [OF example_pending] by auto

end
