(* ===== verification/Ingest.thy ===== *)
theory Ingest
  imports Channelizer Messages
begin

text \<open>
  The ingestion thread of the daemon, the loop \<open>run\<close> of \<^verbatim>\<open>ez-daemon/src/ingest.rs\<close>: it applies commands to the
  device, reads samples and publishes them as blocks with a clock. The device is behind the trait
  \<open>IqSource\<close>: what its getters, setters and reads return is an argument of the step that calls them.
  The commands' receipts are in \<open>Hardware_Command\<close>. Epochs come from one counter of the process, from
  which other threads draw as well.
\<close>

section \<open>The loop\<close>

record settings =
  st_frequency_hz :: nat
  st_sample_rate_hz :: nat
  st_gain_db :: f64
  st_requested_gain_db :: "f64 option"
  st_gain_mode :: "gain_mode option"

definition status_snapshot :: "string \<Rightarrow> settings \<Rightarrow> bool \<Rightarrow> string option \<Rightarrow> hardware_status" where
  "status_snapshot kind d up error =
     \<lparr>hs_connected = up, hs_source_kind = kind, hs_frequency_hz = st_frequency_hz d,
      hs_sample_rate_hz = st_sample_rate_hz d, hs_gain_db = st_gain_db d,
      hs_requested_gain_db = st_requested_gain_db d, hs_gain_mode = st_gain_mode d, hs_error = error\<rparr>"

record ingest =
  sample_counter :: nat
  capture_epoch :: nat
  session :: nat
  in_pending :: bool
  last_source_epoch :: "nat option"
  status :: hardware_status
  ended :: bool



definition retire_epoch :: "ingest \<Rightarrow> nat \<Rightarrow> ingest \<times> nat" where
  "retire_epoch s ep =
     (let (e, ep) = new_capture_epoch ep in (s\<lparr>sample_counter := 0, capture_epoch := e, in_pending := True\<rparr>, ep))"


text \<open>A command that failed, with the device reopened at its old settings, and without.\<close>

definition command_recovered :: "string \<Rightarrow> settings \<Rightarrow> string \<Rightarrow> ingest \<Rightarrow> nat \<Rightarrow> ingest \<times> nat" where
  "command_recovered kind after message s ep =
     (let (s, ep) = retire_epoch s ep
      in (s\<lparr>last_source_epoch := None, status := status_snapshot kind after True (Some message)\<rparr>, ep))"


text \<open>The clock of a block: the source's own, under an epoch of the daemon, or one counted here.\<close>

definition read_clock :: "settings \<Rightarrow> capture_clock option \<Rightarrow> ingest \<Rightarrow> nat \<Rightarrow> ingest \<times> nat \<times> capture_clock" where
  "read_clock d source_clock s ep =
     (case source_clock of
        Some clock \<Rightarrow>
          (let (s, ep) = (if last_source_epoch s \<noteq> Some (epoch clock)
             then let (s, ep) = (if last_source_epoch s \<noteq> None
                                 then let (p, ep) = new_capture_epoch ep in (s\<lparr>session := p\<rparr>, ep) else (s, ep));
                      (e, ep) = new_capture_epoch ep
                  in (s\<lparr>capture_epoch := e, in_pending := True, last_source_epoch := Some (epoch clock)\<rparr>, ep)
             else (s, ep))
           in (s\<lparr>sample_counter := source_sample_index clock\<rparr>, ep, clock))
      | None \<Rightarrow> (s, ep, clock_new (capture_epoch s) (sample_counter s) (st_sample_rate_hz d) None))"

definition read_samples ::
    "settings \<Rightarrow> capture_clock option \<Rightarrow> nat \<Rightarrow> 'c list \<Rightarrow> ingest \<Rightarrow> nat \<Rightarrow> ingest \<times> nat \<times> 'c sample_block" where
  "read_samples d source_clock now xs s ep =
     (let (s, ep, clock) = read_clock d source_clock s ep;
          clock = clock\<lparr>epoch := capture_epoch s, discontinuous := discontinuous clock \<or> in_pending s\<rparr>;
          block = \<lparr>product_session = session s, capture = Some clock, observed_at = Some now,
                   start_sample = sample_counter s, sample_rate_hz = st_sample_rate_hz d,
                   center_freq_hz = st_frequency_hz d, samples = xs\<rparr>
      in (s\<lparr>in_pending := False, sample_counter := sample_counter s + length xs\<rparr>, ep, block))"




section \<open>Runs\<close>





section \<open>The invariant\<close>






text \<open>Steps that publish nothing: they keep the last block awaited, or begin an epoch that no block has.\<close>

lemma retire_epoch_fields:
  assumes "retire_epoch s ep = (s', ep')"
  shows "s' = s\<lparr>sample_counter := 0, capture_epoch := ep, in_pending := True\<rparr> \<and> ep' = ep + 1"
  using assms by (simp add: retire_epoch_def new_capture_epoch_def)














section \<open>A source with a clock\<close>

text \<open>The clock of \<^verbatim>\<open>ez-daemon/src/hardware/replay.rs\<close>: every start and every rewind of the file begins an epoch
  of the source; \<open>n\<close> samples are counted at the rate that is set.\<close>

record replay =
  rp_rate_hz :: nat
  rp_epoch :: nat
  rp_index :: nat
  rp_pending :: bool
  rp_last :: "capture_clock option"

definition replay_start :: "replay \<Rightarrow> nat \<Rightarrow> replay \<times> nat" where
  "replay_start s ep =
     (let (e, ep) = new_capture_epoch ep
      in (s\<lparr>rp_epoch := e, rp_index := 0, rp_last := None, rp_pending := True\<rparr>, ep))"

definition replay_rewind :: "replay \<Rightarrow> nat \<Rightarrow> replay \<times> nat" where
  "replay_rewind s ep =
     (let (e, ep) = new_capture_epoch ep in (s\<lparr>rp_epoch := e, rp_index := 0, rp_pending := True\<rparr>, ep))"

definition replay_set_rate :: "nat \<Rightarrow> replay \<Rightarrow> replay option" where
  "replay_set_rate hz s = (if hz = 0 then None else Some (s\<lparr>rp_rate_hz := hz\<rparr>))"

definition replay_read :: "nat \<Rightarrow> replay \<Rightarrow> replay" where
  "replay_read n s =
     (let clock = (clock_new (rp_epoch s) (rp_index s) (rp_rate_hz s) None)\<lparr>discontinuous := rp_pending s\<rparr>
      in s\<lparr>rp_pending := False, rp_last := Some clock, rp_index := rp_index s + n\<rparr>)"

text \<open>The replay with the number of samples of its last read, and the rate it was read at.\<close>

inductive replay_step :: "(replay \<times> nat) \<Rightarrow> (replay \<times> nat) \<Rightarrow> bool" where
  started: "replay_start s ep = (s', ep') \<Longrightarrow> replay_step (s, n) (s', n)"
| rewound: "replay_rewind s ep = (s', ep') \<Longrightarrow> replay_step (s, n) (s', n)"
| rate_set: "replay_set_rate hz s = Some s' \<Longrightarrow> replay_step (s, n) (s', n)"
| was_read: "replay_step (s, n) (replay_read m s, m)"

definition replay_ok :: "replay \<times> nat \<Rightarrow> bool" where
  "replay_ok x \<longleftrightarrow> (case x of (s, n) \<Rightarrow> 0 < rp_rate_hz s \<and>
     (\<forall>clock. rp_last s = Some clock \<longrightarrow> \<not> rp_pending s \<longrightarrow>
        epoch clock = rp_epoch s \<and> source_sample_index clock + n = rp_index s \<and> origin_unix_ns clock = None))"

definition replay_opened :: "replay \<times> nat \<Rightarrow> bool" where
  "replay_opened x \<longleftrightarrow> (case x of (s, n) \<Rightarrow> 0 < rp_rate_hz s \<and> rp_index s = 0 \<and> rp_pending s \<and> rp_last s = None)"

interpretation replay: guarded_system replay_opened replay_step replay_ok
proof
  show "replay_ok y" if "replay_ok x" "replay_step x y" for x y
    using that(2,1)
    by cases (auto simp: replay_ok_def replay_start_def replay_rewind_def replay_set_rate_def replay_read_def clock_new_def
        new_capture_epoch_def split: if_splits)
qed (auto simp: replay_opened_def replay_ok_def)

text \<open>A command that failed reopens the source, which may start again from its beginning, but the blocks
  that follow stay in the product session of those before.\<close>

lemma recovery_keeps_session:
  assumes "command_recovered kind d message s ep = (s1, ep1)" "read_samples d c now xs s1 ep2 = (s2, ep3, b)"
  shows "product_session b = session s \<and> discontinuous (block_clock b)"
  using assms
  by (cases c) (auto simp: command_recovered_def retire_epoch_def new_capture_epoch_def read_samples_def read_clock_def
      block_clock_def Let_def split: if_splits)

section \<open>Properties\<close>









end
