(* ===== verification/Spec2Isabelle.thy ===== *)
theory Spec2Isabelle
  imports Crc24 Mode_AC Uat_Fec Capture Stream_Queue Bitstream Viterbi Frame_Sync Interleaver Ccsds
    Reed_Solomon Lrpt_Decoder Lrpt_Link Segment_Decoder Image_Builder Mode_S Uat_Message Uat_Rx Rds_Metadata
    Daemon_State Broadcast Hardware_Command Ingest
begin

text \<open>
  \<^bold>\<open>What is verified.\<close> ez-sdr is a software defined radio: a daemon tunes a receiver, cuts its
  samples into channels and streams spectra, audio, decoded messages and pictures to a GUI. This
  development models the parts of it that decide what the user is told: the decoders that turn
  received bits into messages, the daemon's channels and their geometry, and the bounded queues and
  clocks between decoder and user.

  \<^bold>\<open>The program's parts and how they interact.\<close>
  \<^item> \<open>dump1090\<close> decodes aircraft transponders: demodulated bytes pass the parity of \<open>crc.rs\<close> and the
    field decoder of \<open>mode_s.rs\<close>, which reads altitudes through \<open>mode_ac.rs\<close>.
  \<^item> \<open>uat-decode\<close> decodes 978 MHz frames: \<open>rx.rs\<close> finds synchronisation words in the samples, \<open>fec.rs\<close>
    corrects the frame, \<open>message.rs\<close> reads the report.
  \<^item> \<open>lrpt-decode\<close> decodes weather satellite pictures: soft symbols go through sixteen lanes of Viterbi
    decoding, deinterleaving, frame synchronisation and derandomisation (\<open>viterbi.rs\<close>,
    \<open>interleaver.rs\<close>, \<open>diff_decode.rs\<close>, \<open>frame_sync.rs\<close>, \<open>randomizer.rs\<close>), frames through \<open>reed_solomon.rs\<close>, and
    packets are reassembled by \<open>ccsds.rs\<close>; \<open>lib.rs\<close> ties them together. \<open>image_builder.rs\<close> decodes the
    picture segments in the packets and assembles them into channel pictures.
  \<^item> \<open>ez-proto\<close> is shared by daemon and GUI: sample clocks and message times (\<open>capture.rs\<close>), the contract
    of recordings (\<open>recording_capture.rs\<close>), the frames on the wire (\<open>messages.rs\<close>) and the bounded queue
    that sheds frames when a client is slow (\<open>stream_queue.rs\<close>).
  \<^item> \<open>ez-daemon\<close> owns the receiver: the ingestion thread (\<open>ingest.rs\<close>) applies commands to the device and
    publishes what it reads as clocked blocks (\<open>bus.rs\<close>), which \<open>broadcast.rs\<close> fans out to bounded queues;
    \<open>channelizer.rs\<close> cuts the blocks into virtual channels,
    and \<open>state.rs\<close> keeps the table of channels, their taps and pipelines, the changes of the hardware's
    geometry whose outcome is still open, and the recordings (\<open>recording.rs\<close>).
  \<^item> \<open>ez-gui\<close> shows the results; its \<open>radio_rds.rs\<close> receives station names and radio texts: a bit stream
    becomes groups (\<open>BlockSync\<close>), groups become what is shown (\<open>Metadata\<close>).

  \<^bold>\<open>Theories.\<close> Each theory opens with the code of one component, in the order of the file it
  models and under the names of the source, and ends with its properties.
  \<^item> \<open>Prelude\<close>: machine integers, panics (\<open>run\<close>), lists and words, reachability, and two interfaces:
    \<open>guarded_system\<close> (an invariant of a step relation) and \<open>chunked\<close> (a streaming component whose
    result cannot depend on how its input is cut into calls). \<open>Ordered_Map\<close>: \<open>BTreeMap\<close>.
  \<^item> \<open>Crc24\<close>, \<open>Mode_AC\<close>, \<open>Mode_S\<close>: the transponder decoder. The table driven CRC is the 24-bit shift
    register and detects bursts; the two altitude codings are inverted; messages pass the gate only
    with the right parity; every reported field is in range.
  \<^item> \<open>GF256\<close>: the byte field with exponent and logarithm tables, as the locales \<open>full_period\<close> and
    \<open>gf_tables\<close>, interpreted in \<open>Uat_Fec\<close> and \<open>Reed_Solomon\<close> for the two polynomials of the sources.
  \<^item> \<open>Uat_Fec\<close>, \<open>Uat_Message\<close>: shortened Reed-Solomon decoding of UAT frames, whose results are data of
    true codewords near the received word, and the report decoder. \<open>Uat_Rx\<close>: the receiver's loop over
    the sample buffer returns, never panics, is an interpretation of \<open>chunked\<close>, and reports only frames
    of the stream.
  \<^item> \<open>Bitstream\<close>, \<open>Viterbi\<close>, \<open>Interleaver\<close>, \<open>Frame_Sync\<close>, \<open>Ccsds\<close>, \<open>Reed_Solomon\<close>: the stages of the LRPT
    receiver, each against its transmitter or a greedy reference scan and, where it streams, an
    interpretation of \<open>chunked\<close>. \<open>Lrpt_Decoder\<close>: lanes, merging and frame processing of \<open>lib.rs\<close>.
    \<open>Lrpt_Link\<close>: the transmitter of the whole chain and the theorem that its packets are delivered.
  \<^item> \<open>Segment_Decoder\<close>, \<open>Image_Builder\<close> (with \<open>Image_Format\<close> and \<open>Float_Real\<close>): the Huffman decoder of picture
    segments inverts its coder; the builder places segments by their unwrapped sequence numbers,
    keeps the picture height bounded and never loses or moves a segment it holds.
  \<^item> \<open>Rds_Link\<close>, \<open>Rds_Metadata\<close>: the block synchroniser reports only groups carried by the bits, and every
    transmitted one; a transmitted name or text is shown exactly, and what is shown was received.
  \<^item> \<open>Capture\<close>, \<open>Messages\<close>, \<open>Stream_Queue\<close>: clocks, recordings and the live stream queue, with its
    invariant over all sequences of calls, the accounting of dropped frames and fair service.
  \<^item> \<open>Channelizer\<close>: oscillator, filters, virtual channels and their registry. The thinning filter is an
    interpretation of \<open>chunked\<close>; a channel watched by a consumer is one of \<open>guarded_system\<close>, whose
    invariant says that no gap is hidden downstream.
  \<^item> \<open>Daemon_State\<close>: the requests of clients on channels, geometry and recordings, as steps of one state,
    an interpretation of \<open>guarded_system\<close>: taps and table agree after every sequence of requests,
    failed requests leave no trace, identifiers are never reused, the channelizer follows the hardware.
  \<^item> \<open>Ingest\<close>: the ingestion loop as steps on its clock, session and status: no gap of the input enters
    unmarked, provided the source's clock is honest, which the clock of \<open>hardware/replay.rs\<close> is shown to be.
  \<^item> \<open>Broadcast\<close>, \<open>Hardware_Command\<close>: the two protocols between threads, in every interleaving of their
    atomic steps. A publication never waits and accounts for every value; a command reaches the device
    at most once, its answer is true and its receipt resolves.

  \<^bold>\<open>State and errors.\<close> A struct is a \<open>record\<close>, \<open>&mut self\<close> is the record returned updated, \<open>Option\<close> is
  \<open>option\<close>, \<open>Result\<close> a sum, and a path on which the Rust code panics is \<open>Panic\<close> of \<open>run\<close> or \<open>None\<close>.
  Integers whose width matters are words, or naturals with the saturation written out (\<open>sat_add\<close>);
  slices and vectors are lists. \<open>Broadcast\<close> and \<open>Hardware_Command\<close> model the steps of several threads as
  one step relation, each atomic operation of the code a step, in a sequentially consistent order (the
  code's memory orderings are not modelled); the queue of the crossbeam library is the parameter \<open>Q\<close>.
  All other types are owned by one thread or used under one lock; what another thread answers is an
  argument.

  \<^bold>\<open>Bounds and fuel.\<close> Definitions are total: loops recurse on their input or have a termination
  proof; no model uses fuel. Tables over at most 256 entries and the 64 states of the trellis are
  checked by kernel evaluation of the definitions.

  \<^bold>\<open>Floating point.\<close> Where the source computes in \<open>f32\<close> or \<open>f64\<close>, the model keeps the exact integers and
  rationals, and what rounds is a parameter: energies of symbols (\<open>norm_sqr\<close>), square roots and arc
  tangents, cosines, rounding to \<open>f64\<close>. \<open>Channelizer\<close> and \<open>Daemon_State\<close>, whose code is written in floats,
  take all float operations as one parameter \<open>F\<close>. Properties state what they need of a parameter as a hypothesis.

  \<^bold>\<open>Not modelled.\<close> The demodulators and filters (\<open>qpsk.rs\<close>, \<open>demod.rs\<close>, \<open>adaptive.rs\<close>,
  \<open>audio_rate.rs\<close>, the daemon's pipelines and the DSP of the GUI) are loops of floating point arithmetic without an exact
  specification; geolocation and picture synthesis likewise; network, files, threads and devices
  (\<open>net_io.rs\<close>, \<open>iq_source.rs\<close>, \<open>server.rs\<close>, the drivers under \<open>hardware\<close>) are input and output; and the rest of \<open>ez-gui\<close> is drawing
  code around a GUI framework. The manifest lists them one by one.
\<close>

end
